(* ===== verification/Prelude.thy ===== *)
theory Prelude
  imports Main "HOL-Library.Char_ord" "HOL-Library.List_Lexorder"
begin

text \<open>
  Vocabulary shared by every component: instants and durations, the Rust iterator adapters the
  code uses (with Rust's tie-breaking), byte-string helpers, and \<open>coalesce\<close>, the loop
  "fold each element into the last one pushed, or push it" that the code writes with
  \<open>match out.last_mut()\<close> in many places. The locale \<open>coalescer\<close> states what such a
  loop preserves; each component interprets it on its own merge rule.
\<close>

named_theorems time_defs "instants, durations and their unit conversions"
named_theorems interval_intros "introduction rules for ordered, disjoint interval lists"

section \<open>Instants and durations\<close>

text \<open>
  A \<open>DateTime<Utc>\<close> is the number of nanoseconds since the Unix epoch, a \<open>Duration\<close> a number
  of nanoseconds. \<open>timestamp\<close> is the whole second at or before the instant; \<open>num_seconds\<close>
  of a duration truncates towards zero, as Rust's integer division does.
\<close>

type_synonym instant = int
type_synonym span = int

definition NS :: int where
  "NS = 1000000000"

definition seconds :: "int \<Rightarrow> span" where
  "seconds n = n * NS"

definition minutes :: "int \<Rightarrow> span" where
  "minutes n = n * 60 * NS"

definition timestamp :: "instant \<Rightarrow> int" where
  "timestamp t = t div NS"

definition from_timestamp :: "int \<Rightarrow> instant" where
  "from_timestamp s = s * NS"

definition trunc_div :: "int \<Rightarrow> int \<Rightarrow> int" where
  "trunc_div a b = (if 0 \<le> a then a div b else - ((- a) div b))"

definition num_seconds :: "span \<Rightarrow> int" where
  "num_seconds d = trunc_div d NS"

definition num_minutes :: "span \<Rightarrow> int" where
  "num_minutes d = trunc_div (num_seconds d) 60"

lemmas [time_defs] = NS_def seconds_def minutes_def timestamp_def from_timestamp_def
  trunc_div_def num_seconds_def num_minutes_def

lemma num_seconds_seconds [simp]: "num_seconds (seconds n) = n"
  by (auto simp: time_defs)

lemma num_seconds_zero [simp]: "num_seconds 0 = 0"
  by (simp add: time_defs)

lemma num_seconds_pos_iff: "0 \<le> d \<Longrightarrow> 0 \<le> num_seconds d"
  by (simp add: time_defs)

lemma num_seconds_mono: "d \<le> d' \<Longrightarrow> num_seconds d \<le> num_seconds d'"
  by (auto simp: time_defs zdiv_mono1 intro: order_trans[of _ 0])

lemma num_seconds_minutes_le: "minutes n \<le> d \<Longrightarrow> 0 \<le> n \<Longrightarrow> n * 60 \<le> num_seconds d"
  by (simp add: time_defs)

lemma timestamp_from_timestamp [simp]: "timestamp (from_timestamp s) = s"
  by (simp add: time_defs)

section \<open>Iterator adapters\<close>

text \<open>\<open>max_by_key\<close> returns the last of several maxima, \<open>min_by_key\<close> the first of several minima.\<close>

fun max_by_key :: "('a \<Rightarrow> 'k::linorder) \<Rightarrow> 'a list \<Rightarrow> 'a option" where
  "max_by_key k [] = None"
| "max_by_key k (x # xs) =
     (case max_by_key k xs of None \<Rightarrow> Some x | Some y \<Rightarrow> if k x \<le> k y then Some y else Some x)"

fun min_by_key :: "('a \<Rightarrow> 'k::linorder) \<Rightarrow> 'a list \<Rightarrow> 'a option" where
  "min_by_key k [] = None"
| "min_by_key k (x # xs) =
     (case min_by_key k xs of None \<Rightarrow> Some x | Some y \<Rightarrow> if k x \<le> k y then Some x else Some y)"

lemma max_by_key_None [simp]: "max_by_key k xs = None \<longleftrightarrow> xs = []"
  by (cases xs) (auto split: option.splits)

lemma min_by_key_None [simp]: "min_by_key k xs = None \<longleftrightarrow> xs = []"
  by (cases xs) (auto split: option.splits)

lemma max_by_key_Some: "max_by_key k xs = Some y \<Longrightarrow> y \<in> set xs \<and> (\<forall>x\<in>set xs. k x \<le> k y)"
proof (induction xs arbitrary: y)
  case (Cons x xs)
  then show ?case by (cases "max_by_key k xs") (force split: if_splits)+
qed simp

lemma min_by_key_Some: "min_by_key k xs = Some y \<Longrightarrow> y \<in> set xs \<and> (\<forall>x\<in>set xs. k y \<le> k x)"
proof (induction xs arbitrary: y)
  case (Cons x xs)
  then show ?case by (cases "min_by_key k xs") (force split: if_splits)+
qed simp

text \<open>\<open>find_map\<close> and \<open>position\<close>.\<close>

fun find_some :: "('a \<Rightarrow> 'b option) \<Rightarrow> 'a list \<Rightarrow> 'b option" where
  "find_some f [] = None"
| "find_some f (x # xs) = (case f x of Some y \<Rightarrow> Some y | None \<Rightarrow> find_some f xs)"

lemma find_some_Some: "find_some f xs = Some y \<Longrightarrow> \<exists>x\<in>set xs. f x = Some y"
  by (induction xs) (auto split: option.splits)

lemma find_some_None: "find_some f xs = None \<longleftrightarrow> (\<forall>x\<in>set xs. f x = None)"
  by (induction xs) (auto split: option.splits)

fun position :: "('a \<Rightarrow> bool) \<Rightarrow> 'a list \<Rightarrow> nat option" where
  "position P [] = None"
| "position P (x # xs) = (if P x then Some 0 else map_option Suc (position P xs))"

lemma position_Some:
  "position P xs = Some i \<Longrightarrow> i < length xs \<and> P (xs ! i) \<and> (\<forall>j<i. \<not> P (xs ! j))"
proof (induction xs arbitrary: i)
  case (Cons x xs)
  then show ?case by (auto split: if_splits simp: less_Suc_eq_0_disj)
qed simp

lemma position_None: "position P xs = None \<longleftrightarrow> (\<forall>x\<in>set xs. \<not> P x)"
  by (induction xs) auto

text \<open>\<open>Vec::remove\<close>.\<close>

definition remove_at :: "nat \<Rightarrow> 'a list \<Rightarrow> 'a list" where
  "remove_at i xs = take i xs @ drop (Suc i) xs"

lemma length_remove_at [simp]: "i < length xs \<Longrightarrow> length (remove_at i xs) = length xs - 1"
  by (simp add: remove_at_def)

lemma remove_at_append [simp]: "remove_at (length xs) (xs @ y # ys) = xs @ ys"
  by (simp add: remove_at_def)

lemma remove_at_0 [simp]: "remove_at 0 (y # ys) = ys"
  by (simp add: remove_at_def)

text \<open>Consecutive duplicates under a relation, as \<open>dedup_by\<close> drops them: each kept element is
  compared with the last one kept.\<close>

fun dedup_by :: "('a \<Rightarrow> 'a \<Rightarrow> bool) \<Rightarrow> 'a list \<Rightarrow> 'a list" where
  "dedup_by same [] = []"
| "dedup_by same [x] = [x]"
| "dedup_by same (x # y # ys) =
     (if same x y then dedup_by same (x # ys) else x # dedup_by same (y # ys))"

text \<open>\<open>windows(2)\<close>: each element with the one after it.\<close>

fun windows2 :: "'a list \<Rightarrow> ('a \<times> 'a) list" where
  "windows2 (a # b # xs) = (a, b) # windows2 (b # xs)"
| "windows2 xs = []"

text \<open>Keys of a \<open>BTreeMap\<close>/\<open>BTreeSet\<close> collected from a list: ascending, without repeats.\<close>

definition btree_keys :: "('a::linorder) list \<Rightarrow> 'a list" where
  "btree_keys xs = remdups (sort xs)"

lemma set_btree_keys [simp]: "set (btree_keys xs) = set xs"
  by (simp add: btree_keys_def)

lemma btree_keys_sorted: "sorted (btree_keys xs)" and btree_keys_distinct: "distinct (btree_keys xs)"
  by (simp_all add: btree_keys_def sorted_remdups)

section \<open>Fallible results\<close>

text \<open>The \<open>?\<close> operator on \<open>Result\<close>, and \<open>collect::<Result<Vec<_>>>\<close>: the first error wins.\<close>

definition and_then :: "'e + 'a \<Rightarrow> ('a \<Rightarrow> 'e + 'b) \<Rightarrow> 'e + 'b" where
  "and_then r f = (case r of Inl e \<Rightarrow> Inl e | Inr x \<Rightarrow> f x)"

fun try_map :: "('a \<Rightarrow> 'e + 'b) \<Rightarrow> 'a list \<Rightarrow> 'e + 'b list" where
  "try_map f [] = Inr []"
| "try_map f (x # xs) = and_then (f x) (\<lambda>y. and_then (try_map f xs) (\<lambda>ys. Inr (y # ys)))"

definition ok_or :: "'e \<Rightarrow> 'a option \<Rightarrow> 'e + 'a" where
  "ok_or e v = (case v of None \<Rightarrow> Inl e | Some x \<Rightarrow> Inr x)"

lemma and_then_simps [simp]: "and_then (Inl e) f = Inl e" "and_then (Inr x) f = f x"
  by (simp_all add: and_then_def)

lemma and_then_Inr: "and_then r f = Inr y \<longleftrightarrow> (\<exists>x. r = Inr x \<and> f x = Inr y)"
  by (cases r) auto

lemma ok_or_simps [simp]: "ok_or e None = Inl e" "ok_or e (Some x) = Inr x"
  by (simp_all add: ok_or_def)

lemma ok_or_Inr [simp]: "ok_or e v = Inr x \<longleftrightarrow> v = Some x"
  by (cases v) auto

lemma try_map_Inr: "try_map f xs = Inr ys \<longleftrightarrow> list_all2 (\<lambda>x y. f x = Inr y) xs ys"
  by (induction xs arbitrary: ys) (auto simp: and_then_Inr list_all2_Cons1)

lemma try_map_all: "\<forall>x\<in>set xs. f x = Inr (g x) \<Longrightarrow> try_map f xs = Inr (map g xs)"
  by (induction xs) auto

section \<open>Byte strings\<close>

definition starts_with :: "string \<Rightarrow> string \<Rightarrow> bool" where
  "starts_with p s = (take (length p) s = p)"

definition strip_prefix :: "string \<Rightarrow> string \<Rightarrow> string option" where
  "strip_prefix p s = (if starts_with p s then Some (drop (length p) s) else None)"

lemma strip_prefix_Some: "strip_prefix p s = Some r \<longleftrightarrow> s = p @ r"
  unfolding strip_prefix_def starts_with_def by (metis append_eq_conv_conj option.distinct(1) option.inject)

lemma starts_with_iff: "starts_with p s \<longleftrightarrow> (\<exists>r. s = p @ r)"
  unfolding starts_with_def by (metis append_eq_conv_conj)

text \<open>\<open>str::find\<close>: the first byte index at which the pattern occurs.\<close>

fun str_find :: "string \<Rightarrow> string \<Rightarrow> nat option" where
  "str_find p [] = (if p = [] then Some 0 else None)"
| "str_find p (c # cs) =
     (if starts_with p (c # cs) then Some 0 else map_option Suc (str_find p cs))"

definition str_contains :: "string \<Rightarrow> string \<Rightarrow> bool" where
  "str_contains p s = (str_find p s \<noteq> None)"

definition trim_start_char :: "char \<Rightarrow> string \<Rightarrow> string" where
  "trim_start_char c s = dropWhile (\<lambda>x. x = c) s"

definition trim_end_char :: "char \<Rightarrow> string \<Rightarrow> string" where
  "trim_end_char c s = rev (dropWhile (\<lambda>x. x = c) (rev s))"

text \<open>\<open>split_once\<close> on a one-byte separator, the first and the last segment of \<open>split\<close>.\<close>

fun split_once :: "char \<Rightarrow> string \<Rightarrow> (string \<times> string) option" where
  "split_once c [] = None"
| "split_once c (x # xs) =
     (if x = c then Some ([], xs)
      else map_option (\<lambda>(a, b). (x # a, b)) (split_once c xs))"

definition first_segment :: "char \<Rightarrow> string \<Rightarrow> string" where
  "first_segment c s = takeWhile (\<lambda>x. x \<noteq> c) s"

definition last_segment :: "char \<Rightarrow> string \<Rightarrow> string" where
  "last_segment c s = rev (takeWhile (\<lambda>x. x \<noteq> c) (rev s))"

section \<open>Folding into the last pushed element\<close>

text \<open>
  \<open>for r in xs { match out.last_mut() { Some(prev) if join => *prev = merged, _ => out.push(r) } }\<close>:
  \<open>f prev r\<close> is \<open>Some merged\<close> where the guard holds. The element merged so far stays the last one of
  \<open>out\<close>, so the recursion carries it as the head of the rest.
\<close>

fun coalesce :: "('a \<Rightarrow> 'a \<Rightarrow> 'a option) \<Rightarrow> 'a list \<Rightarrow> 'a list" where
  "coalesce f [] = []"
| "coalesce f [x] = [x]"
| "coalesce f (x # y # ys) =
     (case f x y of Some z \<Rightarrow> coalesce f (z # ys) | None \<Rightarrow> x # coalesce f (y # ys))"

text \<open>Induction that keeps the merge rule fixed.\<close>

lemma coalesce_induct [case_names Nil one two]:
  assumes "P []" and "\<And>x. P [x]"
    and "\<And>x y ys. (f x y = None \<Longrightarrow> P (y # ys)) \<Longrightarrow>
           (\<And>z. f x y = Some z \<Longrightarrow> P (z # ys)) \<Longrightarrow> P (x # y # ys)"
  shows "P xs"
proof (induction xs rule: length_induct)
  case (1 xs)
  show ?case
  proof (cases xs)
    case (Cons x ys)
    then show ?thesis using 1 assms(2,3) by (cases ys) auto
  qed (simp add: assms(1))
qed

lemma coalesce_Nil_iff [simp]: "coalesce f xs = [] \<longleftrightarrow> xs = []"
  by (induction xs rule: coalesce_induct[where f = f]) (auto split: option.splits)

lemma length_coalesce: "length (coalesce f xs) \<le> length xs"
  by (induction xs rule: coalesce_induct[where f = f]) (auto split: option.splits)

text \<open>A property of elements that the merge keeps holds of every element of the result.\<close>

lemma coalesce_all:
  assumes merge: "\<And>x y z. P x \<Longrightarrow> P y \<Longrightarrow> f x y = Some z \<Longrightarrow> P z"
  shows "\<forall>x\<in>set xs. P x \<Longrightarrow> \<forall>x\<in>set (coalesce f xs). P x"
proof (induction xs rule: coalesce_induct[where f = f])
  case (two x y ys)
  show ?case
  proof (cases "f x y")
    case None
    with two show ?thesis by simp
  next
    case (Some z)
    from two.prems have "P x" and "P y" by simp_all
    from merge[OF this Some] have "\<forall>x\<in>set (z # ys). P x" using two.prems by simp
    from two.IH(2)[OF Some this] show ?thesis using Some by simp
  qed
qed simp_all

text \<open>A quantity the merge adds up is the same before and after.\<close>

lemma coalesce_sum:
  assumes "\<And>x y z. f x y = Some z \<Longrightarrow> g z = g x + g y"
  shows "sum_list (map g (coalesce f xs)) = (sum_list (map g xs) :: int)"
proof (induction xs rule: coalesce_induct[where f = f])
  case (two x y ys)
  show ?case
  proof (cases "f x y")
    case None
    with two(1) show ?thesis by simp
  next
    case (Some z)
    with two(2)[OF Some] assms[OF Some] show ?thesis by simp
  qed
qed simp_all

text \<open>
  The contract of a merge rule over well-formed elements that cover a set of points: merging two
  elements that are in order covers exactly what both covered, and the merged element is still
  before whatever came after the second and after whatever came before the first.
\<close>

locale coalescer =
  fixes f :: "'a \<Rightarrow> 'a \<Rightarrow> 'a option"
    and ok :: "'a \<Rightarrow> bool"
    and before :: "'a \<Rightarrow> 'a \<Rightarrow> bool"
    and cov :: "'a \<Rightarrow> 'p set"
  assumes merge_ok: "f x y = Some z \<Longrightarrow> ok x \<Longrightarrow> ok y \<Longrightarrow> before x y \<Longrightarrow> ok z"
    and merge_cov: "f x y = Some z \<Longrightarrow> ok x \<Longrightarrow> ok y \<Longrightarrow> before x y \<Longrightarrow> cov z = cov x \<union> cov y"
    and merge_before: "f x y = Some z \<Longrightarrow> ok x \<Longrightarrow> ok y \<Longrightarrow> before x y \<Longrightarrow> before y w \<Longrightarrow> before z w"
    and merge_after: "f x y = Some z \<Longrightarrow> ok x \<Longrightarrow> ok y \<Longrightarrow> before x y \<Longrightarrow> before v x \<Longrightarrow> before v y \<Longrightarrow> before v z"
begin

definition chain :: "'a list \<Rightarrow> bool" where
  "chain xs = ((\<forall>x\<in>set xs. ok x) \<and> sorted_wrt before xs)"

lemma chain_Cons: "chain (x # xs) \<longleftrightarrow> ok x \<and> (\<forall>y\<in>set xs. before x y) \<and> chain xs"
  by (auto simp: chain_def)

lemma chain_merge: "chain (x # y # ys) \<Longrightarrow> f x y = Some z \<Longrightarrow> chain (z # ys)"
  unfolding chain_Cons using merge_ok[of x y z] merge_before[of x y z] by simp

lemma coalesce_after:
  "chain xs \<Longrightarrow> \<forall>x\<in>set xs. before v x \<Longrightarrow> \<forall>x\<in>set (coalesce f xs). before v x"
proof (induction xs rule: coalesce_induct[where f = f])
  case (two x y ys)
  show ?case
  proof (cases "f x y")
    case None
    with two show ?thesis by (simp add: chain_Cons)
  next
    case (Some z)
    then have "chain (z # ys)" and "\<forall>w\<in>set (z # ys). before v w"
      using two.prems chain_merge[of x y ys z] merge_after[of x y z v] by (simp_all add: chain_Cons)
    from two.IH(2)[OF Some this] show ?thesis using Some by simp
  qed
qed simp_all

lemma coalesce_chain: "chain xs \<Longrightarrow> chain (coalesce f xs)"
proof (induction xs rule: coalesce_induct[where f = f])
  case (two x y ys)
  show ?case
  proof (cases "f x y")
    case None
    with two have "chain (coalesce f (y # ys))" by (simp add: chain_Cons)
    moreover have "\<forall>w\<in>set (coalesce f (y # ys)). before x w"
      using two.prems coalesce_after[of "y # ys" x] by (simp add: chain_Cons)
    ultimately show ?thesis using None two.prems by (simp add: chain_Cons)
  next
    case (Some z)
    with two show ?thesis by (simp add: chain_merge)
  qed
qed simp_all

lemma coalesce_cov: "chain xs \<Longrightarrow> \<Union> (cov ` set (coalesce f xs)) = \<Union> (cov ` set xs)"
proof (induction xs rule: coalesce_induct[where f = f])
  case (two x y ys)
  show ?case
  proof (cases "f x y")
    case None
    with two show ?thesis by (simp add: chain_Cons)
  next
    case (Some z)
    with two have "\<Union> (cov ` set (coalesce f (x # y # ys))) = cov z \<union> \<Union> (cov ` set ys)"
      by (simp add: chain_merge)
    moreover have "cov z = cov x \<union> cov y"
      using Some two.prems merge_cov[of x y z] by (simp add: chain_Cons)
    ultimately show ?thesis by auto
  qed
qed simp_all

lemmas coalesce_specs = coalesce_chain coalesce_cov

end

text \<open>
  Where merging two elements does not change how the first is seen from the left, the result is
  maximal: no two neighbours could still be merged.
\<close>

locale stable_coalescer = coalescer f ok before cov
  for f :: "'a \<Rightarrow> 'a \<Rightarrow> 'a option" and ok :: "'a \<Rightarrow> bool"
    and before :: "'a \<Rightarrow> 'a \<Rightarrow> bool" and cov :: "'a \<Rightarrow> 'p set" +
  assumes merge_head: "f x y = None \<Longrightarrow> f y w = Some z \<Longrightarrow> f x z = None"
begin

lemma coalesce_head: "f x y = None \<Longrightarrow> f x (hd (coalesce f (y # ys))) = None"
proof (induction ys arbitrary: y)
  case (Cons w ys)
  show ?case
  proof (cases "f y w")
    case (Some z)
    from Cons.IH[OF merge_head[OF Cons.prems Some]] Some show ?thesis by simp
  qed (simp add: Cons.prems)
qed simp

lemma coalesce_maximal: "successively (\<lambda>x y. f x y = None) (coalesce f xs)"
proof (induction xs rule: coalesce_induct[where f = f])
  case (two x y ys)
  show ?case
  proof (cases "f x y")
    case None
    then have "f x (hd (coalesce f (y # ys))) = None" by (rule coalesce_head)
    with None two.IH(1) show ?thesis
      by (cases "coalesce f (y # ys)") simp_all
  next
    case (Some z)
    from two.IH(2)[OF Some] Some show ?thesis by simp
  qed
qed simp_all

end

end
