(* ===== verification/Model.thy ===== *)
theory Model
  imports Prelude
begin

text \<open>
  The data of block inference: \<open>InferEvent\<close> and \<open>InferBlock\<close> of
  \<open>rust/crates/worklog-core/src/infer.rs\<close>, the work-folder rules of \<open>billing.rs\<close> and the lane keys,
  event classes and time windows of \<open>infer_lanes.rs\<close>.

  What the code takes from its surroundings is the record \<open>env\<close>: the work roots
  (\<open>billing::work_prefixes\<close>, from the home directory), the local date of an instant
  (\<open>tz::local_date\<close> with chrono's calendar) and the iteration order of a \<open>HashMap\<close>, which Rust
  leaves open.
\<close>

section \<open>Events and blocks\<close>

record infer_event =
  ev_ts :: instant
  ev_source :: string
  ev_duration :: "int option"
  ev_jira :: "string option"
  ev_id :: "int option"
  ev_path :: "string option"
  ev_session :: "string option"
  ev_title :: "string option"
  ev_tag :: "string option"

record infer_block =
  ib_day :: string
  ib_start :: instant
  ib_end :: instant
  ib_secs :: int
  ib_count :: nat
  ib_event_ids :: "int list"
  ib_jira :: "string option"
  ib_flagged :: bool
  ib_calendar :: bool
  ib_events :: "infer_event list"

record env =
  work_prefixes :: "string list"
  local_date :: "instant \<Rightarrow> string"
  hash_order :: "(string \<times> nat) list \<Rightarrow> (string \<times> nat) list"

definition CREDIT_MINUTES :: int where "CREDIT_MINUTES = 2"
definition TIMEOUT_MINUTES :: int where "TIMEOUT_MINUTES = 30"
definition MIN_BLOCK_MINUTES :: int where "MIN_BLOCK_MINUTES = 5"
definition MAX_BLOCK_MINUTES :: int where "MAX_BLOCK_MINUTES = 4 * 60"
definition WINDOW_MINUTES :: int where "WINDOW_MINUTES = 5"
definition HUMAN_WINDOW_MINUTES :: int where "HUMAN_WINDOW_MINUTES = 15"
definition MIN_RUN_MINUTES :: int where "MIN_RUN_MINUTES = 5"
definition BRIDGE_MINUTES :: nat where "BRIDGE_MINUTES = 12"

lemmas infer_limits = CREDIT_MINUTES_def TIMEOUT_MINUTES_def MIN_BLOCK_MINUTES_def
  MAX_BLOCK_MINUTES_def WINDOW_MINUTES_def HUMAN_WINDOW_MINUTES_def MIN_RUN_MINUTES_def
  BRIDGE_MINUTES_def

definition is_calendar_source :: "string \<Rightarrow> bool" where
  "is_calendar_source s = (s = ''gcal'')"

definition is_calendar :: "infer_event \<Rightarrow> bool" where
  "is_calendar e = is_calendar_source (ev_source e)"

definition ev_end :: "infer_event \<Rightarrow> instant" where
  "ev_end e =
     (if is_calendar_source (ev_source e)
      then (case ev_duration e of
              Some d \<Rightarrow> ev_ts e + seconds d
            | None \<Rightarrow> ev_ts e + minutes CREDIT_MINUTES)
      else ev_ts e + minutes CREDIT_MINUTES)"

lemma ev_end_ge: "\<not> is_calendar e \<Longrightarrow> ev_end e = ev_ts e + 120 * NS"
  by (simp add: ev_end_def is_calendar_def infer_limits time_defs)

section \<open>Event classes\<close>

definition is_human :: "string \<Rightarrow> bool" where
  "is_human source =
     (source \<in> {''claude_turn'', ''shell'', ''github_commit'', ''github_pr'', ''slack'', ''firefox''})"

definition focus_window_minutes :: "string \<Rightarrow> int" where
  "focus_window_minutes source =
     (if source = ''claude_turn'' then HUMAN_WINDOW_MINUTES else WINDOW_MINUTES)"

definition is_lifecycle_row :: "string \<Rightarrow> string option \<Rightarrow> bool" where
  "is_lifecycle_row source title =
     (source = ''claude'' \<and>
      (case title of
         None \<Rightarrow> False
       | Some t \<Rightarrow> starts_with ''SessionStart'' t \<or> starts_with ''Stop'' t \<or> starts_with ''SessionEnd'' t))"

definition is_lifecycle :: "infer_event \<Rightarrow> bool" where
  "is_lifecycle e = is_lifecycle_row (ev_source e) (ev_title e)"

definition minute :: "instant \<Rightarrow> int" where
  "minute t = timestamp t div 60"

lemma minute_bounds: "60 * NS * minute t \<le> t" "t < 60 * NS * (minute t + 1)"
proof -
  have "minute t = t div (NS * 60)"
    by (simp add: minute_def timestamp_def zdiv_zmult2_eq NS_def)
  then show "60 * NS * minute t \<le> t" and "t < 60 * NS * (minute t + 1)"
    by (simp_all add: NS_def)
qed

section \<open>Work folders\<close>

definition under_work_prefix :: "string list \<Rightarrow> string \<Rightarrow> string option" where
  "under_work_prefix prefixes path =
     find_some (\<lambda>p. case strip_prefix p path of
                       None \<Rightarrow> None
                     | Some rest \<Rightarrow> if rest = [] \<or> starts_with ''/'' rest then Some rest else None) prefixes"

definition work_folder_for_path :: "string list \<Rightarrow> string \<Rightarrow> string option" where
  "work_folder_for_path prefixes path =
     (let base = (case str_find ''/.claude/'' path of Some i \<Rightarrow> take i path | None \<Rightarrow> path);
          base = trim_end_char (CHR ''/'') base;
          last = last_segment (CHR ''/'') base;
          fallback = (if last = [] then None else Some last)
      in if base = [] then None
         else case under_work_prefix prefixes base of
                None \<Rightarrow> fallback
              | Some rest \<Rightarrow>
                  (let rest = trim_start_char (CHR ''/'') rest;
                       first = first_segment (CHR ''/'') rest
                   in if rest = [] then None
                      else if first \<noteq> [] then Some first
                      else fallback))"

definition billable_work_folder :: "string list \<Rightarrow> string \<Rightarrow> string option" where
  "billable_work_folder prefixes path =
     (let base = (case str_find ''/.claude/'' path of Some i \<Rightarrow> take i path | None \<Rightarrow> path)
      in case under_work_prefix prefixes (trim_end_char (CHR ''/'') base) of
           None \<Rightarrow> None
         | Some rest \<Rightarrow>
             (let first = first_segment (CHR ''/'') (trim_start_char (CHR ''/'') rest)
              in if first = [] then None else Some first))"

definition is_work_path :: "string \<Rightarrow> bool" where
  "is_work_path p =
     (str_contains ''/Desktop/Work/'' p \<or>
      (\<exists>root \<in> set [''/Users/'', ''/home/''].
         case strip_prefix root p of
           None \<Rightarrow> False
         | Some r \<Rightarrow> (case split_once (CHR ''/'') r of
                       None \<Rightarrow> False
                     | Some (_, rest) \<Rightarrow> starts_with ''Work/'' rest)))"

section \<open>Lane keys\<close>

definition PERSONAL_MARK :: string where
  "PERSONAL_MARK = ''personal:''"

definition lane_folder :: "env \<Rightarrow> infer_event \<Rightarrow> string option" where
  "lane_folder env e =
     map_option (\<lambda>p.
       let folder = (case work_folder_for_path (work_prefixes env) p of Some f \<Rightarrow> f | None \<Rightarrow> p)
       in if is_work_path p then folder else PERSONAL_MARK @ folder) (ev_path e)"

definition lane_key :: "env \<Rightarrow> infer_event \<Rightarrow> string option" where
  "lane_key env e =
     map_option (\<lambda>folder. case ev_tag e of Some tag \<Rightarrow> folder @ ''#'' @ tag | None \<Rightarrow> folder)
       (lane_folder env e)"

definition is_work :: "string \<Rightarrow> bool" where
  "is_work key = (\<not> starts_with PERSONAL_MARK key)"

lemma lane_folder_None [simp]: "lane_folder env e = None \<longleftrightarrow> ev_path e = None"
  by (simp add: lane_folder_def)

lemma lane_key_None [simp]: "lane_key env e = None \<longleftrightarrow> ev_path e = None"
  by (simp add: lane_key_def)

lemma lane_key_untagged: "ev_tag e = None \<Longrightarrow> lane_key env e = lane_folder env e"
  by (simp add: lane_key_def option.map_ident)

text \<open>A lane row: minute, lane key, whether the owner acted, minutes the action holds focus.\<close>

type_synonym keyed = "int \<times> string \<times> bool \<times> int"

definition keyed_by :: "infer_event list \<Rightarrow> (infer_event \<Rightarrow> string option) \<Rightarrow> keyed list" where
  "keyed_by evs key =
     List.map_filter (\<lambda>e. map_option (\<lambda>k.
         let human = is_human (ev_source e);
             window = (if human then focus_window_minutes (ev_source e)
                       else if ev_source e = ''git_reflog'' then HUMAN_WINDOW_MINUTES
                       else 0)
         in (minute (ev_ts e), k, human, window)) (key e))
       (filter (\<lambda>e. \<not> is_calendar e) evs)"

text \<open>A run of minutes: owner, first and last minute.\<close>

type_synonym run = "string \<times> int \<times> int"

fun run_owner :: "run \<Rightarrow> string" where "run_owner (k, s, e) = k"
fun run_start :: "run \<Rightarrow> int" where "run_start (k, s, e) = s"
fun run_end :: "run \<Rightarrow> int" where "run_end (k, s, e) = e"

end
