(* ===== verification/Lanes.thy ===== *)
theory Lanes
  imports Model
begin

text \<open>
  Minute ownership: \<open>infer_lanes.rs\<close> from the rows of a day to the contiguous runs of one owner
  (\<open>latest_human\<close>, \<open>owner_runs\<close>, \<open>bridge\<close>, \<open>fold_short_runs\<close>).
\<close>

section \<open>The owner of one minute\<close>

definition focus_rows :: "keyed list \<Rightarrow> int \<Rightarrow> string option \<Rightarrow> bool \<Rightarrow> keyed list" where
  "focus_rows keyed m current work =
     filter (\<lambda>(t, k, human, window).
       (human \<or> (0 < window \<and> current = Some k)) \<and> t \<le> m \<and> m - t \<le> window \<and> is_work k = work) keyed"

definition recent_focus :: "keyed list \<Rightarrow> int \<Rightarrow> string option \<Rightarrow> bool \<Rightarrow> string option" where
  "recent_focus keyed m current work =
     map_option (\<lambda>(t, k, human, window). k)
       (max_by_key (\<lambda>(t, k, human, window). t) (focus_rows keyed m current work))"

definition latest_human :: "keyed list \<Rightarrow> int \<Rightarrow> string option \<Rightarrow> string option" where
  "latest_human keyed m current =
     (case recent_focus keyed m current True of
        Some k \<Rightarrow> Some k
      | None \<Rightarrow> recent_focus keyed m current False)"

definition vote_counts :: "keyed list \<Rightarrow> int \<Rightarrow> (string \<times> nat) list" where
  "vote_counts keyed m =
     (let near = map (\<lambda>(t, k, human, window). k)
                   (filter (\<lambda>(t, k, human, window). \<bar>t - m\<bar> \<le> WINDOW_MINUTES) keyed);
          counts = map (\<lambda>k. (k, count_list near k)) (btree_keys near)
      in if \<exists>c \<in> set counts. is_work (fst c)
         then filter (\<lambda>c. is_work (fst c)) counts
         else counts)"

definition vote_owner :: "keyed list \<Rightarrow> int \<Rightarrow> string option \<Rightarrow> string option" where
  "vote_owner keyed m prev =
     (let counts = vote_counts keyed m
      in case max_by_key id (map snd counts) of
           None \<Rightarrow> None
         | Some b \<Rightarrow>
             (let tied = map fst (filter (\<lambda>c. snd c = b) counts);
                  first = (case tied of [] \<Rightarrow> None | k # _ \<Rightarrow> Some k)
              in case prev of
                   Some p \<Rightarrow> if p \<in> set tied then Some p else first
                 | None \<Rightarrow> first))"

definition minute_owner :: "keyed list \<Rightarrow> int \<Rightarrow> string option \<Rightarrow> string option" where
  "minute_owner keyed m prev =
     (case latest_human keyed m prev of
        Some focus \<Rightarrow> Some focus
      | None \<Rightarrow> vote_owner keyed m prev)"

text \<open>The loop over the minutes from \<open>m\<close>, \<open>n\<close> of them, with the owner seen last.\<close>

fun owners_from :: "keyed list \<Rightarrow> int \<Rightarrow> nat \<Rightarrow> string option \<Rightarrow> string option list" where
  "owners_from keyed m 0 prev = []"
| "owners_from keyed m (Suc n) prev =
     (let owner = minute_owner keyed m prev;
          prev' = (if owner \<noteq> None then owner else prev)
      in owner # owners_from keyed (m + 1) n prev')"

text \<open>Silent stretches shorter than \<open>BRIDGE_MINUTES\<close> between the same owner are filled.\<close>

function bridge :: "string option list \<Rightarrow> string option list" where
  "bridge [] = []"
| "bridge (None # os) = None # bridge os"
| "bridge (Some k # os) =
     (let gap = takeWhile (\<lambda>x. x = None) os;
          rest = dropWhile (\<lambda>x. x = None) os
      in if rest \<noteq> [] \<and> length gap < BRIDGE_MINUTES \<and> hd rest = Some k
         then Some k # replicate (length gap) (Some k) @ bridge rest
         else Some k # gap @ bridge rest)"
  by pat_completeness auto
termination
  by (relation "measure length") (auto simp: less_Suc_eq_le length_dropWhile_le)

declare bridge.simps(3) [simp del]

text \<open>Contiguous minutes of the same owner become one run.\<close>

fun minute_runs :: "int \<Rightarrow> string option list \<Rightarrow> run list" where
  "minute_runs m [] = []"
| "minute_runs m (Some k # os) = (k, m, m) # minute_runs (m + 1) os"
| "minute_runs m (None # os) = minute_runs (m + 1) os"

fun extend_run :: "run \<Rightarrow> run \<Rightarrow> run option" where
  "extend_run (rk, rs, re) (k, m, m') = (if rk = k \<and> re = m - 1 then Some (rk, rs, m') else None)"

definition first_minute :: "keyed list \<Rightarrow> int" where
  "first_minute keyed = (case map fst keyed of [] \<Rightarrow> 0 | t # ts \<Rightarrow> fold min ts t)"

definition last_minute :: "keyed list \<Rightarrow> int" where
  "last_minute keyed = (case map fst keyed of [] \<Rightarrow> 0 | t # ts \<Rightarrow> fold max ts t)"

definition minute_owners :: "keyed list \<Rightarrow> string option list" where
  "minute_owners keyed =
     owners_from keyed (first_minute keyed)
       (nat (last_minute keyed - first_minute keyed + 1)) None"

definition owner_runs :: "keyed list \<Rightarrow> run list" where
  "owner_runs keyed =
     coalesce extend_run (minute_runs (first_minute keyed) (bridge (minute_owners keyed)))"

section \<open>Folding the tiny runs\<close>

definition run_short :: "run \<Rightarrow> bool" where
  "run_short r = (run_end r - run_start r + 1 < MIN_RUN_MINUTES)"

definition run_joins :: "run \<Rightarrow> run \<Rightarrow> bool" where
  "run_joins a b = (run_end a + 1 = run_start b \<and> is_work (run_owner a) = is_work (run_owner b))"

definition fold_short :: "run \<Rightarrow> run \<Rightarrow> run option" where
  "fold_short prev r =
     (if run_joins prev r \<and> (run_short r \<or> run_owner prev = run_owner r)
        then Some (run_owner prev, run_start prev, run_end r)
      else if run_joins prev r \<and> run_short prev
        then Some (run_owner r, run_start prev, run_end r)
      else None)"

definition fold_short_runs :: "run list \<Rightarrow> run list" where
  "fold_short_runs runs = coalesce fold_short runs"

section \<open>Runs in order, and what they cover\<close>

fun run_ok :: "run \<Rightarrow> bool" where
  "run_ok (k, s, e) = (s \<le> e)"

definition run_before :: "run \<Rightarrow> run \<Rightarrow> bool" where
  "run_before a b = (run_end a < run_start b)"

definition runs_ok :: "run list \<Rightarrow> bool" where
  "runs_ok rs = ((\<forall>r\<in>set rs. run_ok r) \<and> sorted_wrt run_before rs)"

definition run_minutes :: "run \<Rightarrow> int set" where
  "run_minutes r = {run_start r..run_end r}"

definition minutes_of :: "run list \<Rightarrow> int set" where
  "minutes_of rs = (\<Union>r\<in>set rs. run_minutes r)"

lemma run_ok_iff: "run_ok r \<longleftrightarrow> run_start r \<le> run_end r"
  by (cases r) simp

text \<open>The minutes a run covers, each with its owner, or with the owner's class.\<close>

definition run_owned :: "run \<Rightarrow> (int \<times> string) set" where
  "run_owned r = run_minutes r \<times> {run_owner r}"

definition run_class :: "run \<Rightarrow> (int \<times> bool) set" where
  "run_class r = run_minutes r \<times> {is_work (run_owner r)}"

lemmas run_defs = run_before_def run_minutes_def run_owned_def run_class_def

interpretation extend: stable_coalescer extend_run run_ok run_before run_owned
proof unfold_locales
  fix x y z :: run
  assume "extend_run x y = Some z" "run_ok x" "run_ok y"
  then show "run_owned z = run_owned x \<union> run_owned y"
    by (cases x; cases y) (auto simp: run_defs split: if_splits)
qed (auto simp: run_defs elim!: extend_run.elims split: if_splits)

interpretation shortfold: coalescer fold_short run_ok run_before run_class
proof unfold_locales
  fix x y z :: run
  assume "fold_short x y = Some z" "run_ok x" "run_ok y"
  then show "run_class z = run_class x \<union> run_class y"
    by (cases x; cases y) (auto simp: fold_short_def run_joins_def run_defs split: if_splits)
qed (auto simp: fold_short_def run_joins_def run_defs split: if_splits prod.splits)

lemma runs_chain [simp]: "extend.chain rs \<longleftrightarrow> runs_ok rs"
  by (simp add: extend.chain_def runs_ok_def)

lemma runs_ok_Nil [interval_intros]: "runs_ok []"
  by (simp add: runs_ok_def)

lemma runs_ok_Cons: "runs_ok (r # rs) \<longleftrightarrow> run_ok r \<and> (\<forall>r'\<in>set rs. run_before r r') \<and> runs_ok rs"
  by (auto simp: runs_ok_def)

lemma runs_ok_append:
  "runs_ok (xs @ ys) \<longleftrightarrow> runs_ok xs \<and> runs_ok ys \<and> (\<forall>x\<in>set xs. \<forall>y\<in>set ys. run_before x y)"
  by (auto simp: runs_ok_def sorted_wrt_append)

text \<open>In an ordered list of runs no minute has two owners.\<close>

lemma runs_ok_unique:
  assumes "runs_ok rs" "r \<in> set rs" "r' \<in> set rs" "m \<in> run_minutes r" "m \<in> run_minutes r'"
  shows "r = r'"
  using assms
proof (induction rs)
  case (Cons x xs)
  then show ?case by (auto simp: runs_ok_Cons run_defs)
qed simp

section \<open>What \<open>owner_runs\<close> computes\<close>

lemma minute_runs_start: "r \<in> set (minute_runs m os) \<Longrightarrow> m \<le> run_start r"
  by (induction m os rule: minute_runs.induct) auto

lemma minute_runs_ok: "runs_ok (minute_runs m os)"
proof (induction m os rule: minute_runs.induct)
  case (2 m k os)
  then show ?case using minute_runs_start by (fastforce simp: runs_ok_Cons run_before_def)
qed (auto intro: interval_intros)

lemma minute_runs_owned:
  "(\<Union>r\<in>set (minute_runs m os). run_owned r) = {(m', k). \<exists>i<length os. m' = m + int i \<and> os ! i = Some k}"
proof (induction m os rule: minute_runs.induct)
  case (2 m k os)
  then show ?case by (simp add: Ex_less_Suc2 run_defs) (auto simp: algebra_simps)
next
  case (3 m os)
  then show ?case by (simp add: Ex_less_Suc2 algebra_simps)
qed simp

lemma length_bridge [simp]: "length (bridge os) = length os"
proof (induction os rule: bridge.induct)
  case (3 k os)
  have "length (takeWhile (\<lambda>x. x = None) os) + length (dropWhile (\<lambda>x. x = None) os) = length os"
    by (metis length_append takeWhile_dropWhile_id)
  with 3 show ?case by (auto simp: Let_def bridge.simps(3))
qed simp_all

lemma length_owners_from [simp]: "length (owners_from keyed m n prev) = n"
  by (induction n arbitrary: m prev) (simp_all add: Let_def)

text \<open>
  \<open>bridge\<close> against its specification: a minute has owner \<open>k\<close> afterwards exactly when it had it before,
  or lies in a silent stretch of fewer than \<open>BRIDGE_MINUTES\<close> minutes with \<open>k\<close> on both sides.
\<close>

definition in_short_gap :: "string option list \<Rightarrow> nat \<Rightarrow> string \<Rightarrow> bool" where
  "in_short_gap os i k =
     (\<exists>a b. a < i \<and> i < b \<and> b < length os \<and> b \<le> a + BRIDGE_MINUTES
        \<and> os ! a = Some k \<and> os ! b = Some k \<and> (\<forall>j. a < j \<longrightarrow> j < b \<longrightarrow> os ! j = None))"

lemma bridge_append_None:
  assumes "\<forall>x\<in>set gap. x = None" "rest = [] \<or> hd rest \<noteq> None"
  shows "bridge (Some k # gap @ rest) =
    (if rest \<noteq> [] \<and> length gap < BRIDGE_MINUTES \<and> hd rest = Some k
     then Some k # replicate (length gap) (Some k) @ bridge rest else Some k # gap @ bridge rest)"
proof -
  have "takeWhile (\<lambda>x. x = None) (gap @ rest) = gap" "dropWhile (\<lambda>x. x = None) (gap @ rest) = rest"
    using assms by (cases rest; auto simp: takeWhile_append dropWhile_append)+
  then show ?thesis by (simp add: Let_def bridge.simps(3))
qed

lemma bridge_induct [case_names Nil None Some]:
  assumes "P []" and "\<And>os. P os \<Longrightarrow> P (None # os)"
    and step: "\<And>k gap rest. \<forall>x\<in>set gap. x = None \<Longrightarrow> rest = [] \<or> hd rest \<noteq> None \<Longrightarrow>
           P rest \<Longrightarrow> P (Some k # gap @ rest)"
  shows "P os"
proof (induction os rule: length_induct)
  case (1 os)
  show ?case
  proof (cases os)
    case (Cons x xs)
    let ?gap = "takeWhile (\<lambda>x. x = None) xs" and ?rest = "dropWhile (\<lambda>x. x = None) xs"
    have "\<forall>x\<in>set ?gap. x = None" using set_takeWhileD by fastforce
    moreover have "?rest = [] \<or> hd ?rest \<noteq> None" using hd_dropWhile[of "\<lambda>x. x = None" xs] by blast
    moreover have "length ?rest < length os" using Cons by (simp add: length_dropWhile_le less_Suc_eq_le)
    then have "P ?rest" using 1 by blast
    ultimately have "P (Some k # ?gap @ ?rest)" for k by (rule step)
    then have "P (Some k # xs)" for k by (simp only: takeWhile_dropWhile_id)
    moreover have "length xs < length os" using Cons by simp
    then have "P xs" using 1 by blast
    then have "P (None # xs)" by (rule assms(2))
    ultimately show ?thesis using Cons by (cases x) simp_all
  qed (simp add: assms(1))
qed

lemma bridge_keeps: "i < length os \<Longrightarrow> os ! i = Some k \<Longrightarrow> bridge os ! i = Some k"
proof (induction os arbitrary: i rule: bridge_induct)
  case (None os)
  then show ?case by (cases i) auto
next
  case (Some h gap rest)
  show ?case
  proof (cases "i \<le> length gap")
    case True
    with Some have "i = 0" by (cases i) (auto simp: nth_append all_set_conv_all_nth)
    with Some show ?thesis by (simp add: bridge_append_None)
  next
    case False
    define j where "j = i - Suc (length gap)"
    with False have i: "i = Suc (length gap + j)" by simp
    with Some.prems have "j < length rest" "rest ! j = Some k" by (auto simp: nth_append)
    with Some show ?thesis by (simp add: bridge_append_None i nth_append)
  qed
qed simp

lemma in_short_gap_shift:
  "in_short_gap os i k \<Longrightarrow> in_short_gap (xs @ os) (length xs + i) k"
  unfolding in_short_gap_def
proof (elim exE conjE)
  fix a b assume *: "a < i" "i < b" "b < length os" "b \<le> a + BRIDGE_MINUTES"
    "os ! a = Some k" "os ! b = Some k" "\<forall>j. a < j \<longrightarrow> j < b \<longrightarrow> os ! j = None"
  have "(xs @ os) ! j = None" if "length xs + a < j" "j < length xs + b" for j
  proof -
    from that have "a < j - length xs" "j - length xs < b" "length xs \<le> j" by auto
    with * show ?thesis by (simp add: nth_append)
  qed
  with * show "\<exists>a b. a < length xs + i \<and> length xs + i < b \<and> b < length (xs @ os) \<and> b \<le> a + BRIDGE_MINUTES \<and>
      (xs @ os) ! a = Some k \<and> (xs @ os) ! b = Some k \<and> (\<forall>j. a < j \<longrightarrow> j < b \<longrightarrow> (xs @ os) ! j = None)"
    by (intro exI[of _ "length xs + a"] exI[of _ "length xs + b"]) simp
qed

lemma in_short_gapI:
  assumes "\<forall>x\<in>set gap. x = None" "rest \<noteq> []" "hd rest = Some h" "length gap < BRIDGE_MINUTES"
    "0 < i" "i \<le> length gap"
  shows "in_short_gap (Some h # gap @ rest) i h"
proof -
  have "(Some h # gap @ rest) ! j = None" if "0 < j" "j < Suc (length gap)" for j
    using that assms(1) by (cases j) (auto simp: nth_append)
  moreover have "(Some h # gap @ rest) ! Suc (length gap) = Some h"
    using assms by (simp add: nth_append hd_conv_nth)
  ultimately show ?thesis
    unfolding in_short_gap_def using assms
    by (intro exI[of _ 0] exI[of _ "Suc (length gap)"]) simp
qed

lemma bridge_fills:
  "i < length os \<Longrightarrow> bridge os ! i = Some k \<Longrightarrow> os ! i = Some k \<or> in_short_gap os i k"
proof (induction os arbitrary: i rule: bridge_induct)
  case (None os)
  then show ?case using in_short_gap_shift[of os _ k "[None]"] by (cases i) auto
next
  case (Some h gap rest)
  show ?case
  proof (cases "i \<le> length gap")
    case True
    show ?thesis
    proof (cases "i = 0")
      case False
      with True Some.prems Some.hyps have fill: "rest \<noteq> []" "length gap < BRIDGE_MINUTES" "hd rest = Some h" "k = h"
        by (auto simp: bridge_append_None nth_Cons' nth_append all_set_conv_all_nth split: if_splits)
      with in_short_gapI[of gap rest h i] False True Some.hyps
      have "in_short_gap (Some h # gap @ rest) i h" by simp
      with fill show ?thesis by simp
    qed (use Some in \<open>simp add: bridge_append_None split: if_splits\<close>)
  next
    case False
    define j where "j = i - Suc (length gap)"
    with False have i: "i = length (Some h # gap) + j" by simp
    with Some have "j < length rest" "bridge rest ! j = Some k"
      by (auto simp: bridge_append_None nth_append split: if_splits)
    with Some.IH[of j] i show ?thesis
      using in_short_gap_shift[of rest j k "Some h # gap"] by (auto simp: nth_append)
  qed
qed simp

lemma bridge_complete: "in_short_gap os i k \<Longrightarrow> bridge os ! i = Some k"
proof (induction os arbitrary: i rule: bridge_induct)
  case Nil
  then show ?case by (simp add: in_short_gap_def)
next
  case (None os)
  from None.prems obtain a b where ab: "a < i" "i < b" "b < Suc (length os)" "b \<le> a + BRIDGE_MINUTES"
    "(None # os) ! a = Some k" "(None # os) ! b = Some k" "\<forall>j. a < j \<longrightarrow> j < b \<longrightarrow> (None # os) ! j = None"
    by (auto simp: in_short_gap_def)
  from ab obtain a' where a': "a = Suc a'" by (cases a) auto
  with ab obtain i' b' where ib: "i = Suc i'" "b = Suc b'" by (cases i; cases b) auto
  have "\<forall>j. a' < j \<longrightarrow> j < b' \<longrightarrow> os ! j = None" using ab(7) a' ib by (metis Suc_less_eq nth_Cons_Suc)
  with ab a' ib have "in_short_gap os i' k" unfolding in_short_gap_def by (intro exI[of _ a'] exI[of _ b']) simp
  with None.IH ib show ?case by simp
next
  case (Some h gap rest)
  let ?os = "Some h # gap @ rest" and ?n = "Suc (length gap)"
  from Some.prems obtain a b where ab: "a < i" "i < b" "b < length ?os" "b \<le> a + BRIDGE_MINUTES"
    "?os ! a = Some k" "?os ! b = Some k" "\<forall>j. a < j \<longrightarrow> j < b \<longrightarrow> ?os ! j = None"
    by (auto simp: in_short_gap_def)
  have gapN: "?os ! j = None" if "0 < j" "j < ?n" for j
    using that Some.hyps(1) by (cases j) (auto simp: nth_append)
  have restn: "?os ! (?n + j) = rest ! j" for j by (simp add: nth_append)
  have "b \<ge> ?n" using gapN[of b] ab by (cases "b < ?n") auto
  then have "rest \<noteq> []" using ab(3) by auto
  then have hd: "?os ! ?n \<noteq> None" "rest \<noteq> []"
    using Some.hyps(2) restn[of 0] by (auto simp: hd_conv_nth)
  show ?case
  proof (cases "i < ?n")
    case True
    then have a0: "a = 0" using gapN[of a] ab(1,5) by (cases "0 < a") auto
    have bn: "b = ?n"
    proof (rule ccontr)
      assume "b \<noteq> ?n"
      with \<open>b \<ge> ?n\<close> True ab(1) have "a < ?n" "?n < b" by simp_all
      from ab(7)[rule_format, OF this] hd(1) show False by contradiction
    qed
    have "h = k" using a0 ab(5) by simp
    moreover have "length gap < BRIDGE_MINUTES" using a0 bn ab(4) by simp
    moreover have "hd rest = Some k" using ab(6) bn restn[of 0] hd(2) by (simp add: hd_conv_nth)
    ultimately have fill: "h = k" "length gap < BRIDGE_MINUTES" "hd rest = Some k" by simp_all
    have "0 < i" "i - Suc 0 < length gap" using ab(1) True by simp_all
    with Some.hyps(1,2) hd(2) True fill show ?thesis by (simp add: bridge_append_None nth_Cons' nth_append)
  next
    case False
    have "?n \<le> a"
    proof (rule ccontr)
      assume "\<not> ?n \<le> a"
      with False ab(2) have "a < ?n" "?n < b" by simp_all
      from ab(7)[rule_format, OF this] hd(1) show False by contradiction
    qed
    then obtain a' where a': "a = ?n + a'" using le_Suc_ex by blast
    have "?n \<le> i" "?n \<le> b" using False ab(2) by simp_all
    then obtain i' b' where ib: "i = ?n + i'" "b = ?n + b'" using le_Suc_ex by metis
    have "\<forall>j. a' < j \<longrightarrow> j < b' \<longrightarrow> rest ! j = None"
    proof (intro allI impI)
      fix j assume "a' < j" "j < b'"
      with a' ib have "a < ?n + j" "?n + j < b" by simp_all
      with ab(7) restn show "rest ! j = None" by metis
    qed
    moreover have "rest ! a' = Some k" "rest ! b' = Some k" using ab(5,6) a' ib restn by metis+
    ultimately have "in_short_gap rest i' k"
      unfolding in_short_gap_def using ab(1-4) a' ib by (intro exI[of _ a'] exI[of _ b']) simp
    from Some.IH[OF this] Some.hyps(1,2) ib show ?thesis by (simp add: bridge_append_None nth_append)
  qed
qed

lemma bridge_iff: "i < length os \<Longrightarrow> bridge os ! i = Some k \<longleftrightarrow> os ! i = Some k \<or> in_short_gap os i k"
  using bridge_keeps bridge_fills bridge_complete by blast

section \<open>Every lane minute has an owner, and the owner is one of the day's lanes\<close>

definition lanes_of :: "keyed list \<Rightarrow> string set" where
  "lanes_of keyed = (\<lambda>(t, k, human, window). k) ` set keyed"

lemma vote_counts_Some:
  assumes "(t, k, human, window) \<in> set keyed" "\<bar>t - m\<bar> \<le> WINDOW_MINUTES"
  shows "vote_counts keyed m \<noteq> []"
proof -
  define near where "near = map (\<lambda>(t, k, human, window). k)
                   (filter (\<lambda>(t, k, human, window). \<bar>t - m\<bar> \<le> WINDOW_MINUTES) keyed)"
  have "k \<in> set near" using assms by (force simp: near_def)
  then have "near \<noteq> []" by auto
  then have "btree_keys near \<noteq> []" using set_btree_keys[of near] by (metis set_empty)
  then show ?thesis
    unfolding vote_counts_def near_def[symmetric] Let_def
    by (auto simp: filter_empty_conv)
qed

lemma vote_counts_keys: "fst ` set (vote_counts keyed m) \<subseteq> lanes_of keyed"
  unfolding vote_counts_def Let_def lanes_of_def by (auto simp: image_iff split: if_splits) force+

lemma vote_owner_None: "vote_owner keyed m prev = None \<longleftrightarrow> vote_counts keyed m = []"
proof (cases "max_by_key id (map snd (vote_counts keyed m))")
  case (Some b)
  then have "b \<in> snd ` set (vote_counts keyed m)" using max_by_key_Some by fastforce
  then have "filter (\<lambda>c. snd c = b) (vote_counts keyed m) \<noteq> []" by (auto simp: filter_empty_conv)
  with Some show ?thesis
    by (cases "filter (\<lambda>c. snd c = b) (vote_counts keyed m)")
       (auto simp: vote_owner_def Let_def split: option.splits)
qed (simp add: vote_owner_def)

lemma vote_owner_lane:
  assumes "vote_owner keyed m prev = Some k"
  shows "k \<in> lanes_of keyed"
proof -
  from assms obtain b where b: "max_by_key id (map snd (vote_counts keyed m)) = Some b"
    by (auto simp: vote_owner_def Let_def split: option.splits)
  let ?tied = "map fst (filter (\<lambda>c. snd c = b) (vote_counts keyed m))"
  have "k \<in> set ?tied"
    using assms b unfolding vote_owner_def Let_def
    by (cases ?tied; cases prev) (simp_all split: if_splits)
  then show ?thesis using vote_counts_keys by fastforce
qed

lemma recent_focus_Some:
  assumes "recent_focus keyed m current work = Some k"
  shows "\<exists>t human window. (t, k, human, window) \<in> set (focus_rows keyed m current work)
    \<and> (\<forall>row\<in>set (focus_rows keyed m current work). fst row \<le> t)"
proof -
  from assms obtain t human window where
    "max_by_key (\<lambda>(t, k, human, window). t) (focus_rows keyed m current work) = Some (t, k, human, window)"
    by (auto simp: recent_focus_def)
  from max_by_key_Some[OF this] show ?thesis by (fastforce simp: split_beta)
qed

lemma recent_focus_None [simp]: "recent_focus keyed m current work = None \<longleftrightarrow> focus_rows keyed m current work = []"
  by (simp add: recent_focus_def)

lemma latest_human_lane: "latest_human keyed m current = Some k \<Longrightarrow> k \<in> lanes_of keyed"
  unfolding latest_human_def lanes_of_def
  by (force simp: focus_rows_def split: option.splits dest!: recent_focus_Some)

lemma minute_owner_lane: "minute_owner keyed m prev = Some k \<Longrightarrow> k \<in> lanes_of keyed"
  by (auto simp: minute_owner_def latest_human_lane vote_owner_lane split: option.splits)

lemma minute_owner_at_row:
  assumes "(t, k, human, window) \<in> set keyed"
  shows "minute_owner keyed t prev \<noteq> None"
  using vote_counts_Some[OF assms, of t] vote_owner_None[of keyed t prev]
  by (auto simp: minute_owner_def WINDOW_MINUTES_def split: option.splits)

lemma owners_from_nth:
  "i < n \<Longrightarrow> \<exists>p. owners_from keyed m n prev ! i = minute_owner keyed (m + int i) p"
proof (induction n arbitrary: m prev i)
  case (Suc n)
  show ?case
  proof (cases i)
    case 0
    then show ?thesis by (auto simp: Let_def)
  next
    case (Suc j)
    with Suc.prems Suc.IH[of j "m + 1"] show ?thesis by (simp add: Let_def algebra_simps)
  qed
qed simp

lemma minute_range:
  assumes "row \<in> set keyed"
  shows "first_minute keyed \<le> fst row" "fst row \<le> last_minute keyed"
proof -
  obtain t ts where ts: "map fst keyed = t # ts" using assms by (cases keyed) auto
  have "fst row \<in> set (t # ts)" using assms by (metis image_eqI list.set_map ts)
  then show "first_minute keyed \<le> fst row" "fst row \<le> last_minute keyed"
    by (auto simp: first_minute_def last_minute_def ts simp flip: Min.set_eq_fold Max.set_eq_fold)
qed

lemma owner_runs_ok: "runs_ok (owner_runs keyed)"
  using extend.coalesce_chain[of "minute_runs (first_minute keyed) (bridge (minute_owners keyed))"]
  by (simp add: owner_runs_def minute_runs_ok)

lemma owner_runs_owned:
  "(\<Union>r\<in>set (owner_runs keyed). run_owned r) =
     {(m, k). \<exists>i<length (minute_owners keyed). m = first_minute keyed + int i \<and>
        (minute_owners keyed ! i = Some k \<or> in_short_gap (minute_owners keyed) i k)}"
  unfolding owner_runs_def
  by (subst extend.coalesce_cov) (auto simp: minute_runs_ok minute_runs_owned bridge_iff)

lemma owned_iff: "(m, k) \<in> run_owned r \<longleftrightarrow> m \<in> run_minutes r \<and> run_owner r = k"
  by (auto simp: run_owned_def)

lemma minutes_of_owned: "m \<in> minutes_of rs \<longleftrightarrow> (\<exists>k. (m, k) \<in> (\<Union>r\<in>set rs. run_owned r))"
  by (auto simp: minutes_of_def owned_iff)

lemma owner_runs_cover: "fst ` set keyed \<subseteq> minutes_of (owner_runs keyed)"
proof
  fix t assume "t \<in> fst ` set keyed"
  then obtain k human window where row: "(t, k, human, window) \<in> set keyed" by force
  define i where "i = nat (t - first_minute keyed)"
  have t: "t = first_minute keyed + int i" and i: "i < length (minute_owners keyed)"
    using minute_range[OF row] by (auto simp: i_def minute_owners_def)
  then obtain p where "minute_owners keyed ! i = minute_owner keyed t p"
    using owners_from_nth by (force simp: minute_owners_def)
  then obtain k' where "minute_owners keyed ! i = Some k'" using minute_owner_at_row[OF row] by force
  with t i show "t \<in> minutes_of (owner_runs keyed)"
    unfolding minutes_of_owned owner_runs_owned by auto
qed

lemma owner_runs_lanes: "run_owner ` set (owner_runs keyed) \<subseteq> lanes_of keyed"
proof
  fix k assume "k \<in> run_owner ` set (owner_runs keyed)"
  then obtain r where r: "r \<in> set (owner_runs keyed)" "k = run_owner r" by auto
  then have "run_start r \<in> run_minutes r" using owner_runs_ok[of keyed]
    by (auto simp: runs_ok_def run_minutes_def run_ok_iff)
  with r have "(run_start r, k) \<in> (\<Union>r\<in>set (owner_runs keyed). run_owned r)" by (auto simp: owned_iff)
  then obtain i where "i < length (minute_owners keyed)" "minute_owners keyed ! i = Some k"
    unfolding owner_runs_owned by (auto simp: in_short_gap_def intro: less_trans)
  then obtain m p where "minute_owner keyed m p = Some k"
    unfolding minute_owners_def using owners_from_nth by (metis length_owners_from)
  then show "k \<in> lanes_of keyed" by (rule minute_owner_lane)
qed

lemma extend_run_None:
  "extend_run x y = None \<Longrightarrow> run_before x y \<Longrightarrow> run_owner x = run_owner y \<longrightarrow> run_end x + 1 < run_start y"
  by (cases x; cases y) (auto simp: run_before_def split: if_splits)

text \<open>Neighbouring runs are maximal: two runs of one owner never touch.\<close>

lemma owner_runs_maximal:
  "successively (\<lambda>a b. run_owner a = run_owner b \<longrightarrow> run_end a + 1 < run_start b) (owner_runs keyed)"
proof -
  have "successively (\<lambda>x y. extend_run x y = None) (owner_runs keyed)"
    unfolding owner_runs_def by (rule extend.coalesce_maximal)
  moreover have "successively run_before (owner_runs keyed)"
    using owner_runs_ok[of keyed] by (auto simp: runs_ok_def intro: successively_if_sorted_wrt)
  ultimately show ?thesis
    unfolding successively_conv_nth using extend_run_None by blast
qed

section \<open>Short runs\<close>

lemma fold_short_runs_ok: "runs_ok rs \<Longrightarrow> runs_ok (fold_short_runs rs)"
  using shortfold.coalesce_chain[of rs] by (simp add: fold_short_runs_def)

lemma fold_short_runs_class:
  "runs_ok rs \<Longrightarrow> (\<Union>r\<in>set (fold_short_runs rs). run_class r) = (\<Union>r\<in>set rs. run_class r)"
  unfolding fold_short_runs_def by (rule shortfold.coalesce_cov) simp

lemma minutes_of_class: "minutes_of rs = fst ` (\<Union>r\<in>set rs. run_class r)"
  by (force simp: minutes_of_def run_class_def)

lemma fold_short_runs_minutes: "runs_ok rs \<Longrightarrow> minutes_of (fold_short_runs rs) = minutes_of rs"
  by (simp add: minutes_of_class fold_short_runs_class)

end
