(* ===== verification/Evidence.thy ===== *)
theory Evidence
  imports Lanes
begin

text \<open>
  \<open>infer_evidence.rs\<close>: background noise is dropped before it can vote (\<open>drop_isolated_claude_work\<close>,
  \<open>dedupe_shell_events\<close>), and a short run is folded into a neighbour or dropped on its own evidence
  (\<open>merge_by_evidence\<close>). One round of the latter is the step relation \<open>fold_step\<close>; the loop is a
  sequence of such steps, so its invariants are proved by rule induction.
\<close>

definition HEARTBEAT_RECENT_MINUTES :: int where "HEARTBEAT_RECENT_MINUTES = 60"
definition HEARTBEAT_DENSE_MINUTES :: int where "HEARTBEAT_DENSE_MINUTES = 3"
definition SLIVER_MINUTES :: int where "SLIVER_MINUTES = 15"
definition MAX_OWN_HUMAN_EVENTS :: nat where "MAX_OWN_HUMAN_EVENTS = 2"
definition MIN_EVIDENCE_MINUTES :: nat where "MIN_EVIDENCE_MINUTES = 2"

lemmas evidence_limits = HEARTBEAT_RECENT_MINUTES_def HEARTBEAT_DENSE_MINUTES_def
  SLIVER_MINUTES_def MAX_OWN_HUMAN_EVENTS_def MIN_EVIDENCE_MINUTES_def

section \<open>Background noise\<close>

definition title_starts :: "string list \<Rightarrow> infer_event \<Rightarrow> bool" where
  "title_starts ps e = (case ev_title e of None \<Rightarrow> False | Some t \<Rightarrow> \<exists>p\<in>set ps. starts_with p t)"

definition is_prompt :: "infer_event \<Rightarrow> bool" where
  "is_prompt e = (ev_source e = ''claude_turn'' \<or> (ev_source e = ''claude'' \<and> title_starts [''UserPromptSubmit''] e))"

definition is_tool_hook :: "infer_event \<Rightarrow> bool" where
  "is_tool_hook e =
     (ev_source e = ''claude'' \<and> title_starts [''PreToolUse'', ''PostToolUse'', ''SubagentStop''] e)"

text \<open>
  The per-session minute lists of the day, sorted: the prompts (\<open>turns\<close>) and the \<open>claude_work\<close> markers
  (\<open>work\<close>). The code keeps them in two hash maps; a session absent from a map is the empty list here.
\<close>

definition session_turns :: "infer_event list \<Rightarrow> string \<Rightarrow> int list" where
  "session_turns events sid =
     sort (map (\<lambda>e. minute (ev_ts e)) (filter (\<lambda>e. ev_session e = Some sid \<and> is_prompt e) events))"

definition session_work :: "infer_event list \<Rightarrow> string \<Rightarrow> int list" where
  "session_work events sid =
     sort (map (\<lambda>e. minute (ev_ts e))
       (filter (\<lambda>e. ev_session e = Some sid \<and> \<not> is_prompt e \<and> ev_source e = ''claude_work'') events))"

definition keeps_background :: "infer_event list \<Rightarrow> infer_event \<Rightarrow> bool" where
  "keeps_background events e =
     (let tool_hook = is_tool_hook e
      in if ev_source e \<noteq> ''claude_work'' \<and> \<not> tool_hook then True
         else case ev_session e of
           None \<Rightarrow> True
         | Some sid \<Rightarrow>
             (let m = minute (ev_ts e);
                  dense = (\<not> tool_hook \<and>
                    1 < length (filter (\<lambda>x. \<bar>x - m\<bar> \<le> HEARTBEAT_DENSE_MINUTES) (session_work events sid)));
                  recent = (case find (\<lambda>x. x \<le> m) (rev (session_turns events sid)) of
                              None \<Rightarrow> False
                            | Some t \<Rightarrow> m - t \<le> HEARTBEAT_RECENT_MINUTES)
              in dense \<or> recent))"

definition drop_isolated_claude_work :: "infer_event list \<Rightarrow> infer_event list" where
  "drop_isolated_claude_work events = filter (keeps_background events) events"

text \<open>The first of several \<open>shell\<close> rows with the same second, title and folder is kept.\<close>

definition shell_key :: "infer_event \<Rightarrow> int \<times> string \<times> string option" where
  "shell_key e = (timestamp (ev_ts e), (case ev_title e of Some t \<Rightarrow> t | None \<Rightarrow> []), ev_path e)"

fun dedupe_shell :: "(int \<times> string \<times> string option) set \<Rightarrow> infer_event list \<Rightarrow> infer_event list" where
  "dedupe_shell seen [] = []"
| "dedupe_shell seen (e # es) =
     (if ev_source e \<noteq> ''shell'' then e # dedupe_shell seen es
      else if shell_key e \<in> seen then dedupe_shell seen es
      else e # dedupe_shell (insert (shell_key e) seen) es)"

definition dedupe_shell_events :: "infer_event list \<Rightarrow> infer_event list" where
  "dedupe_shell_events events = dedupe_shell {} events"

definition has_evidence_floor :: "infer_event list \<Rightarrow> bool" where
  "has_evidence_floor evs = (MIN_EVIDENCE_MINUTES \<le> card (set (map (\<lambda>e. minute (ev_ts e)) evs)))"

section \<open>One round of the evidence pass\<close>

definition own_rows :: "run \<Rightarrow> keyed list \<Rightarrow> keyed list" where
  "own_rows r keyed =
     filter (\<lambda>(t, k, human, window). k = run_owner r \<and> run_start r \<le> t \<and> t \<le> run_end r) keyed"

definition own_stats :: "run \<Rightarrow> keyed list \<Rightarrow> nat \<times> nat" where
  "own_stats r keyed =
     (length (own_rows r keyed), length (filter (\<lambda>(t, k, human, window). human) (own_rows r keyed)))"

definition longer_same_class_neighbour :: "nat \<Rightarrow> run \<Rightarrow> run option \<Rightarrow> run option \<Rightarrow> nat option" where
  "longer_same_class_neighbour i r prv nxt =
     (let cands = (case prv of Some p \<Rightarrow> [(i - 1, p)] | None \<Rightarrow> [])
                @ (case nxt of Some n \<Rightarrow> [(i + 1, n)] | None \<Rightarrow> []);
          best = fold (\<lambda>(idx, run) best.
            if is_work (run_owner run) \<noteq> is_work (run_owner r) then best
            else (let len = run_end run - run_start run
                  in case best of
                       None \<Rightarrow> Some (idx, len)
                     | Some (_, b) \<Rightarrow> if b < len then Some (idx, len) else best)) cands None
      in map_option fst best)"

definition try_fold_sliver :: "keyed list \<Rightarrow> run list \<Rightarrow> nat \<Rightarrow> run list option" where
  "try_fold_sliver keyed runs i =
     (let r = runs ! i;
          n = fst (own_stats r keyed);
          h = snd (own_stats r keyed);
          prv = (if 0 < i \<and> run_end (runs ! (i - 1)) + 1 = run_start r then Some (runs ! (i - 1)) else None);
          nxt = (if i + 1 < length runs \<and> run_end r + 1 = run_start (runs ! (i + 1))
                 then Some (runs ! (i + 1)) else None);
          sandwich = (case (prv, nxt) of
              (Some p, Some nx) \<Rightarrow>
                if run_owner p = run_owner nx \<and> (is_work (run_owner p) = is_work (run_owner r) \<or> h = 0)
                then Some (p, nx) else None
            | _ \<Rightarrow> None)
      in if SLIVER_MINUTES \<le> run_end r - run_start r + 1 then None
         else if MAX_OWN_HUMAN_EVENTS < h then None
         else case sandwich of
           Some (p, nx) \<Rightarrow>
             Some (remove_at i (remove_at (i + 1)
               (runs[i - 1 := (run_owner p, run_start p, run_end nx)])))
         | None \<Rightarrow>
             (case longer_same_class_neighbour i r prv nxt of
                Some idx \<Rightarrow>
                  (let nb = runs ! idx
                   in Some (remove_at i
                        (if idx < i then runs[idx := (run_owner nb, run_start nb, run_end r)]
                         else runs[idx := (run_owner nb, run_start r, run_end nb)])))
              | None \<Rightarrow> if n = 0 then Some (remove_at i runs) else None))"

lemma length_try_fold_sliver:
  "try_fold_sliver keyed runs i = Some runs' \<Longrightarrow> i < length runs \<Longrightarrow> length runs' < length runs"
  unfolding try_fold_sliver_def Let_def
  by (auto split: if_splits option.splits simp: remove_at_def)

text \<open>The \<open>while\<close> loop restarts at the first run after each change; every change removes a run.\<close>

function merge_loop :: "keyed list \<Rightarrow> run list \<Rightarrow> run list" where
  "merge_loop keyed runs =
     (case find_some (try_fold_sliver keyed runs) [0..<length runs] of
        None \<Rightarrow> runs
      | Some runs' \<Rightarrow> merge_loop keyed runs')"
  by pat_completeness auto
termination
  by (relation "measure (\<lambda>(keyed, runs). length runs)")
     (auto dest!: find_some_Some length_try_fold_sliver)

declare merge_loop.simps [simp del]

definition same_owner :: "run \<Rightarrow> run \<Rightarrow> run option" where
  "same_owner prev r =
     (if run_owner prev = run_owner r \<and> run_start r - run_end prev \<le> 1
      then Some (run_owner prev, run_start prev, run_end r) else None)"

definition merge_touching_same_owner :: "run list \<Rightarrow> run list" where
  "merge_touching_same_owner runs = coalesce same_owner runs"

definition merge_by_evidence :: "run list \<Rightarrow> keyed list \<Rightarrow> run list" where
  "merge_by_evidence runs keyed = merge_touching_same_owner (merge_loop keyed runs)"

section \<open>The rounds as a step relation\<close>

definition weak_run :: "keyed list \<Rightarrow> run \<Rightarrow> bool" where
  "weak_run keyed r =
     (run_end r - run_start r + 1 < SLIVER_MINUTES \<and> snd (own_stats r keyed) \<le> MAX_OWN_HUMAN_EVENTS)"

definition touching :: "run \<Rightarrow> run \<Rightarrow> bool" where
  "touching a b = (run_end a + 1 = run_start b)"

inductive fold_step :: "keyed list \<Rightarrow> run list \<Rightarrow> run list \<Rightarrow> bool" for keyed where
  sandwich: "weak_run keyed r \<Longrightarrow> touching p r \<Longrightarrow> touching r nx \<Longrightarrow> run_owner p = run_owner nx \<Longrightarrow>
     fold_step keyed (xs @ p # r # nx # ys) (xs @ (run_owner p, run_start p, run_end nx) # ys)"
| into_previous: "weak_run keyed r \<Longrightarrow> touching p r \<Longrightarrow> is_work (run_owner p) = is_work (run_owner r) \<Longrightarrow>
     fold_step keyed (xs @ p # r # ys) (xs @ (run_owner p, run_start p, run_end r) # ys)"
| into_next: "weak_run keyed r \<Longrightarrow> touching r nx \<Longrightarrow> is_work (run_owner nx) = is_work (run_owner r) \<Longrightarrow>
     fold_step keyed (xs @ r # nx # ys) (xs @ (run_owner nx, run_start r, run_end nx) # ys)"
| drop: "weak_run keyed r \<Longrightarrow> own_rows r keyed = [] \<Longrightarrow> fold_step keyed (xs @ r # ys) (xs @ ys)"

lemma longer_same_class_cases:
  assumes "longer_same_class_neighbour i r prv nxt = Some idx"
  shows "(\<exists>p. prv = Some p \<and> idx = i - 1 \<and> is_work (run_owner p) = is_work (run_owner r)) \<or>
         (\<exists>n. nxt = Some n \<and> idx = i + 1 \<and> is_work (run_owner n) = is_work (run_owner r))"
  using assms unfolding longer_same_class_neighbour_def Let_def
  by (cases prv; cases nxt) (auto split: if_splits)

text \<open>The edits of \<open>try_fold_sliver\<close> on a run list split around the run at index \<open>i\<close>.\<close>

lemma split_at: "i < length xs \<Longrightarrow> \<exists>us r vs. xs = us @ r # vs \<and> i = length us"
  using id_take_nth_drop[of i xs] by (intro exI[of _ "take i xs"] exI[of _ "xs ! i"] exI[of _ "drop (Suc i) xs"]) simp

lemma edit_sandwich:
  assumes "0 < i" "i + 1 < length runs"
  shows "\<exists>xs ys. runs = xs @ runs ! (i - 1) # runs ! i # runs ! (i + 1) # ys
    \<and> remove_at i (remove_at (i + 1) (runs[i - 1 := q])) = xs @ q # ys"
proof -
  obtain us r vs where *: "runs = us @ r # vs" "i = length us" using split_at[of i runs] assms by auto
  then obtain xs p where "us = xs @ [p]" using assms by (cases us rule: rev_cases) auto
  moreover obtain nx ys where "vs = nx # ys" using * assms by (cases vs) auto
  ultimately show ?thesis using * by (simp add: remove_at_def list_update_append nth_append) blast
qed

lemma edit_previous:
  assumes "0 < i" "i < length runs"
  shows "\<exists>xs ys. runs = xs @ runs ! (i - 1) # runs ! i # ys \<and> remove_at i (runs[i - 1 := q]) = xs @ q # ys"
proof -
  obtain us r vs where *: "runs = us @ r # vs" "i = length us" using split_at[of i runs] assms by auto
  then obtain xs p where "us = xs @ [p]" using assms by (cases us rule: rev_cases) auto
  then show ?thesis using * by (simp add: remove_at_def list_update_append nth_append) blast
qed

lemma edit_next:
  assumes "i + 1 < length runs"
  shows "\<exists>xs ys. runs = xs @ runs ! i # runs ! (i + 1) # ys \<and> remove_at i (runs[i + 1 := q]) = xs @ q # ys"
proof -
  obtain us r vs where *: "runs = us @ r # vs" "i = length us" using split_at[of i runs] assms by auto
  moreover obtain nx ys where "vs = nx # ys" using * assms by (cases vs) auto
  ultimately show ?thesis by (simp add: remove_at_def list_update_append nth_append) blast
qed

lemma edit_drop:
  assumes "i < length runs"
  shows "\<exists>xs ys. runs = xs @ runs ! i # ys \<and> remove_at i runs = xs @ ys"
proof -
  obtain us r vs where *: "runs = us @ r # vs" "i = length us" using split_at assms by blast
  then show ?thesis by simp blast
qed

lemma try_fold_sliver_step:
  assumes t: "try_fold_sliver keyed runs i = Some runs'" and i: "i < length runs"
  shows "fold_step keyed runs runs'"
proof -
  let ?r = "runs ! i" and ?p = "runs ! (i - 1)" and ?nx = "runs ! (i + 1)"
  let ?h = "snd (own_stats ?r keyed)"
  define prv where "prv = (if 0 < i \<and> run_end ?p + 1 = run_start ?r then Some ?p else None)"
  define nxt where "nxt = (if i + 1 < length runs \<and> run_end ?r + 1 = run_start ?nx then Some ?nx else None)"
  define sandwich where "sandwich = (case (prv, nxt) of
      (Some p, Some nx) \<Rightarrow>
        if run_owner p = run_owner nx \<and> (is_work (run_owner p) = is_work (run_owner ?r) \<or> ?h = 0)
        then Some (p, nx) else None
    | _ \<Rightarrow> None)"
  note defs = try_fold_sliver_def Let_def prv_def[symmetric] nxt_def[symmetric] sandwich_def[symmetric]
  have weak: "weak_run keyed ?r"
    using t unfolding defs by (auto simp: weak_run_def split: if_splits)
  have prvD: "0 < i \<and> touching ?p ?r \<and> p = ?p" if "prv = Some p" for p
    using that by (auto simp: prv_def touching_def split: if_splits)
  have nxtD: "i + 1 < length runs \<and> touching ?r ?nx \<and> n = ?nx" if "nxt = Some n" for n
    using that by (auto simp: nxt_def touching_def split: if_splits)
  show ?thesis
  proof (cases sandwich)
    case (Some q)
    then obtain p n where pn: "prv = Some p" "nxt = Some n" "run_owner p = run_owner n" "q = (p, n)"
      unfolding sandwich_def by (cases prv; cases nxt) (simp_all split: if_splits)
    then have "p = ?p" "n = ?nx" using prvD nxtD by blast+
    with pn have s: "prv = Some ?p" "nxt = Some ?nx" "run_owner ?p = run_owner ?nx" "q = (?p, ?nx)" by simp_all
    from s have i': "0 < i" "i + 1 < length runs" "touching ?p ?r" "touching ?r ?nx" using prvD nxtD by blast+
    have "runs' = remove_at i (remove_at (i + 1) (runs[i - 1 := (run_owner ?p, run_start ?p, run_end ?nx)]))"
      using t Some s weak unfolding defs by (auto simp: weak_run_def)
    with edit_sandwich[OF i'(1,2)] obtain us ws where
      "runs = us @ ?p # ?r # ?nx # ws" "runs' = us @ (run_owner ?p, run_start ?p, run_end ?nx) # ws" by metis
    with fold_step.sandwich[OF weak i'(3,4) s(3), of us ws] show ?thesis by metis
  next
    case None
    show ?thesis
    proof (cases "longer_same_class_neighbour i ?r prv nxt")
      case (Some idx)
      let ?nb = "runs ! idx"
      have res: "runs' = remove_at i (if idx < i then runs[idx := (run_owner ?nb, run_start ?nb, run_end ?r)]
                         else runs[idx := (run_owner ?nb, run_start ?r, run_end ?nb)])"
        using t None Some weak unfolding defs by (auto simp: weak_run_def)
      consider p where "prv = Some p" "idx = i - 1" "is_work (run_owner p) = is_work (run_owner ?r)"
        | n where "nxt = Some n" "idx = i + 1" "is_work (run_owner n) = is_work (run_owner ?r)"
        using longer_same_class_cases[OF Some] by blast
      then show ?thesis
      proof cases
        case 1
        with prvD have i': "0 < i" "touching ?p ?r" "p = ?p" by blast+
        from res 1(2) i'(1) have "runs' = remove_at i (runs[i - 1 := (run_owner ?p, run_start ?p, run_end ?r)])" by simp
        with edit_previous[OF i'(1) i] obtain us vs where
          "runs = us @ ?p # ?r # vs" "runs' = us @ (run_owner ?p, run_start ?p, run_end ?r) # vs" by metis
        with fold_step.into_previous[OF weak i'(2), of us vs] 1(3) i'(3) show ?thesis by metis
      next
        case 2
        with nxtD have i': "i + 1 < length runs" "touching ?r ?nx" "n = ?nx" by blast+
        from res 2(2) have "runs' = remove_at i (runs[i + 1 := (run_owner ?nx, run_start ?r, run_end ?nx)])" by simp
        with edit_next[OF i'(1)] obtain us ws where
          "runs = us @ ?r # ?nx # ws" "runs' = us @ (run_owner ?nx, run_start ?r, run_end ?nx) # ws" by metis
        with fold_step.into_next[OF weak i'(2), of us ws] 2(3) i'(3) show ?thesis by metis
      qed
    next
      case nb: None
      then have "fst (own_stats ?r keyed) = 0" and res: "runs' = remove_at i runs"
        using t None weak unfolding defs by (auto simp: weak_run_def split: if_splits)
      then have own: "own_rows ?r keyed = []" by (simp add: own_stats_def)
      from edit_drop[OF i] res obtain us vs where "runs = us @ ?r # vs" "runs' = us @ vs" by metis
      with fold_step.drop[OF weak own, of us vs] show ?thesis by metis
    qed
  qed
qed

lemma merge_loop_steps: "(fold_step keyed)\<^sup>*\<^sup>* runs (merge_loop keyed runs)"
proof (induction keyed runs rule: merge_loop.induct)
  case (1 keyed runs)
  show ?case
  proof (cases "find_some (try_fold_sliver keyed runs) [0..<length runs]")
    case None
    then show ?thesis by (simp add: merge_loop.simps)
  next
    case (Some runs')
    from find_some_Some[OF Some] have "fold_step keyed runs runs'" by (auto intro: try_fold_sliver_step)
    with 1[OF Some] Some show ?thesis
      by (subst merge_loop.simps) (simp add: converse_rtranclp_into_rtranclp)
  qed
qed

text \<open>The loop only stops where no round applies.\<close>

lemma merge_loop_done: "\<forall>i<length (merge_loop keyed runs). try_fold_sliver keyed (merge_loop keyed runs) i = None"
proof (induction keyed runs rule: merge_loop.induct)
  case (1 keyed runs)
  show ?case
  proof (cases "find_some (try_fold_sliver keyed runs) [0..<length runs]")
    case None
    then have "merge_loop keyed runs = runs" by (simp add: merge_loop.simps)
    with None show ?thesis by (simp add: find_some_None)
  next
    case (Some runs')
    with 1[OF Some] show ?thesis by (simp add: merge_loop.simps)
  qed
qed

section \<open>Invariants of the evidence pass\<close>

lemma run_simps [simp]:
  "run_minutes (k, s, e) = {s..e}" "run_before (k, s, e) r \<longleftrightarrow> e < run_start r"
  "run_before r (k, s, e) \<longleftrightarrow> run_end r < s"
  by (simp_all add: run_defs)

lemma fold_step_ok: "fold_step keyed rs rs' \<Longrightarrow> runs_ok rs \<Longrightarrow> runs_ok rs'"
proof (induction rule: fold_step.induct)
  case (sandwich r p nx xs ys)
  then show ?case
    by (auto simp: runs_ok_append runs_ok_Cons touching_def run_before_def run_ok_iff)
next
  case (into_previous r p xs ys)
  then show ?case
    by (auto simp: runs_ok_append runs_ok_Cons touching_def run_before_def run_ok_iff)
next
  case (into_next r nx xs ys)
  then show ?case
    by (auto simp: runs_ok_append runs_ok_Cons touching_def run_before_def run_ok_iff)
qed (auto simp: runs_ok_append runs_ok_Cons)

lemma fold_step_minutes: "fold_step keyed rs rs' \<Longrightarrow> runs_ok rs \<Longrightarrow> minutes_of rs' \<subseteq> minutes_of rs"
  by (induction rule: fold_step.induct)
     (force simp: minutes_of_def run_minutes_def touching_def runs_ok_append runs_ok_Cons run_ok_iff)+

text \<open>A run that is not weak keeps every one of its minutes and its owner through every round.\<close>

definition strong_owned :: "keyed list \<Rightarrow> run list \<Rightarrow> (int \<times> string) set" where
  "strong_owned keyed rs = (\<Union>r\<in>{r\<in>set rs. \<not> weak_run keyed r}. run_owned r)"

lemma own_rows_mono:
  assumes "run_owner r = run_owner r'" "run_start r' \<le> run_start r" "run_end r \<le> run_end r'"
  shows "length (filter P (own_rows r keyed)) \<le> length (filter P (own_rows r' keyed))"
  using assms by (induction keyed) (auto simp: own_rows_def)

lemma strong_grows:
  assumes "\<not> weak_run keyed r" "run_owner r = run_owner r'" "run_start r' \<le> run_start r" "run_end r \<le> run_end r'"
  shows "\<not> weak_run keyed r'"
  using assms own_rows_mono[OF assms(2-4), of "\<lambda>(t, k, human, window). human" keyed]
  by (auto simp: weak_run_def own_stats_def)

lemma run_owned_mono:
  "run_owner r = run_owner r' \<Longrightarrow> run_start r' \<le> run_start r \<Longrightarrow> run_end r \<le> run_end r' \<Longrightarrow> run_owned r \<subseteq> run_owned r'"
  by (auto simp: run_owned_def run_minutes_def)

lemma strong_owned_replace:
  assumes "\<And>r. r \<in> set rs \<Longrightarrow> \<not> weak_run keyed r \<Longrightarrow>
    \<exists>r'\<in>set rs'. run_owner r = run_owner r' \<and> run_start r' \<le> run_start r \<and> run_end r \<le> run_end r'"
  shows "strong_owned keyed rs \<subseteq> strong_owned keyed rs'"
proof
  fix x assume "x \<in> strong_owned keyed rs"
  then obtain r where r: "r \<in> set rs" "\<not> weak_run keyed r" "x \<in> run_owned r" by (auto simp: strong_owned_def)
  with assms obtain r' where r': "r' \<in> set rs'" "run_owner r = run_owner r'" "run_start r' \<le> run_start r"
    "run_end r \<le> run_end r'" by blast
  with r have "x \<in> run_owned r'" using run_owned_mono by blast
  moreover have "\<not> weak_run keyed r'" using strong_grows r r' by blast
  ultimately show "x \<in> strong_owned keyed rs'" using r' unfolding strong_owned_def by blast
qed

lemma fold_step_strong:
  "fold_step keyed rs rs' \<Longrightarrow> runs_ok rs \<Longrightarrow> strong_owned keyed rs \<subseteq> strong_owned keyed rs'"
proof (induction rule: fold_step.induct)
  case (sandwich r p nx xs ys)
  then show ?case
    by (intro strong_owned_replace) (auto simp: runs_ok_append runs_ok_Cons run_before_def run_ok_iff touching_def)
next
  case (into_previous r p xs ys)
  then show ?case
    by (intro strong_owned_replace) (auto simp: runs_ok_append runs_ok_Cons run_before_def run_ok_iff touching_def)
next
  case (into_next r nx xs ys)
  then show ?case
    by (intro strong_owned_replace) (auto simp: runs_ok_append runs_ok_Cons run_before_def run_ok_iff touching_def)
qed (auto intro!: strong_owned_replace)

interpretation touch: stable_coalescer same_owner run_ok run_before run_owned
proof unfold_locales
  fix x y z :: run
  assume "same_owner x y = Some z" "run_ok x" "run_ok y" "run_before x y"
  then show "run_owned z = run_owned x \<union> run_owned y"
    by (cases x; cases y) (auto simp: same_owner_def run_owned_def split: if_splits)
qed (auto simp: same_owner_def run_ok_iff run_before_def split: if_splits)

lemma merge_touching_ok: "runs_ok rs \<Longrightarrow> runs_ok (merge_touching_same_owner rs)"
  using touch.coalesce_chain[of rs] by (simp add: merge_touching_same_owner_def)

lemma merge_touching_owned:
  "runs_ok rs \<Longrightarrow> (\<Union>r\<in>set (merge_touching_same_owner rs). run_owned r) = (\<Union>r\<in>set rs. run_owned r)"
  unfolding merge_touching_same_owner_def by (rule touch.coalesce_cov) simp

lemma minutes_of_fst: "minutes_of rs = fst ` (\<Union>r\<in>set rs. run_owned r)"
  by (force simp: minutes_of_def run_owned_def)

lemma merge_touching_minutes: "runs_ok rs \<Longrightarrow> minutes_of (merge_touching_same_owner rs) = minutes_of rs"
  by (simp add: minutes_of_fst merge_touching_owned)

lemma fold_steps_inv:
  assumes "(fold_step keyed)\<^sup>*\<^sup>* rs rs'" "runs_ok rs"
  shows "runs_ok rs' \<and> minutes_of rs' \<subseteq> minutes_of rs \<and> strong_owned keyed rs \<subseteq> strong_owned keyed rs'"
  using assms
proof (induction rule: rtranclp_induct)
  case (step a b)
  then show ?case using fold_step_ok fold_step_minutes fold_step_strong by blast
qed simp

lemma merge_by_evidence_inv:
  assumes "runs_ok rs"
  shows "runs_ok (merge_by_evidence rs keyed)"
    and "minutes_of (merge_by_evidence rs keyed) \<subseteq> minutes_of rs"
    and "strong_owned keyed rs \<subseteq> (\<Union>r\<in>set (merge_by_evidence rs keyed). run_owned r)"
proof -
  note inv = fold_steps_inv[OF merge_loop_steps[of keyed rs] assms]
  then show "runs_ok (merge_by_evidence rs keyed)"
    by (simp add: merge_by_evidence_def merge_touching_ok)
  from inv show "minutes_of (merge_by_evidence rs keyed) \<subseteq> minutes_of rs"
    by (simp add: merge_by_evidence_def merge_touching_minutes)
  have "strong_owned keyed (merge_loop keyed rs) \<subseteq> (\<Union>r\<in>set (merge_loop keyed rs). run_owned r)"
    by (auto simp: strong_owned_def)
  with inv show "strong_owned keyed rs \<subseteq> (\<Union>r\<in>set (merge_by_evidence rs keyed). run_owned r)"
    by (auto simp: merge_by_evidence_def merge_touching_owned)
qed

lemma merge_by_evidence_maximal:
  "successively (\<lambda>a b. run_owner a = run_owner b \<longrightarrow> 1 < run_start b - run_end a) (merge_by_evidence rs keyed)"
proof -
  have "successively (\<lambda>a b. same_owner a b = None) (merge_by_evidence rs keyed)"
    unfolding merge_by_evidence_def merge_touching_same_owner_def by (rule touch.coalesce_maximal)
  then show ?thesis by (rule successively_mono) (auto simp: same_owner_def split: if_splits)
qed

section \<open>What the noise filters keep\<close>

lemma find_recent:
  assumes "sorted xs"
  shows "(case find (\<lambda>x. x \<le> m) (rev xs) of None \<Rightarrow> False | Some t \<Rightarrow> m - t \<le> d)
    \<longleftrightarrow> (\<exists>x\<in>set xs. x \<le> m \<and> m - x \<le> (d::int))"
  using assms
proof (induction xs rule: rev_induct)
  case (snoc y xs)
  show ?case
  proof (cases "y \<le> m")
    case True
    have "\<forall>x\<in>set xs. x \<le> y" using snoc.prems by (simp add: sorted_append)
    then have "(\<exists>x\<in>set (xs @ [y]). x \<le> m \<and> m - x \<le> d) \<longleftrightarrow> m - y \<le> d" using True by force
    with True show ?thesis by simp
  next
    case False
    with snoc show ?thesis by (simp add: sorted_append)
  qed
qed simp

definition background :: "infer_event \<Rightarrow> bool" where
  "background e = (ev_source e = ''claude_work'' \<or> is_tool_hook e)"

lemma prompt_not_background: "is_prompt e \<Longrightarrow> ev_source e \<noteq> ''claude_work''"
  by (auto simp: is_prompt_def)

lemma hook_source: "is_tool_hook e \<Longrightarrow> ev_source e = ''claude''"
  by (simp add: is_tool_hook_def)

lemma keeps_background_iff:
  "keeps_background events e \<longleftrightarrow>
     \<not> background e \<or> ev_session e = None \<or>
     (\<exists>p\<in>set events. is_prompt p \<and> ev_session p = ev_session e \<and>
        minute (ev_ts p) \<le> minute (ev_ts e) \<and> minute (ev_ts e) - minute (ev_ts p) \<le> HEARTBEAT_RECENT_MINUTES) \<or>
     (ev_source e = ''claude_work'' \<and>
        1 < length (filter (\<lambda>w. ev_source w = ''claude_work'' \<and> ev_session w = ev_session e \<and>
              \<bar>minute (ev_ts w) - minute (ev_ts e)\<bar> \<le> HEARTBEAT_DENSE_MINUTES) events))"
proof (cases "ev_session e")
  case (Some sid)
  have turns: "(case find (\<lambda>x. x \<le> minute (ev_ts e)) (rev (session_turns events sid)) of
        None \<Rightarrow> False | Some t \<Rightarrow> minute (ev_ts e) - t \<le> HEARTBEAT_RECENT_MINUTES) \<longleftrightarrow>
     (\<exists>p\<in>set events. is_prompt p \<and> ev_session p = Some sid \<and>
        minute (ev_ts p) \<le> minute (ev_ts e) \<and> minute (ev_ts e) - minute (ev_ts p) \<le> HEARTBEAT_RECENT_MINUTES)"
    by (subst find_recent) (auto simp: session_turns_def)
  have pick: "filter (\<lambda>w. ev_session w = Some sid \<and> \<not> is_prompt w \<and> ev_source w = ''claude_work'') events =
      filter (\<lambda>w. ev_source w = ''claude_work'' \<and> ev_session w = Some sid) events"
    by (rule filter_cong[OF refl]) (metis prompt_not_background)
  have work: "length (filter (\<lambda>x. \<bar>x - m\<bar> \<le> d) (session_work events sid)) =
        length (filter (\<lambda>w. ev_source w = ''claude_work'' \<and> ev_session w = Some sid \<and> \<bar>minute (ev_ts w) - m\<bar> \<le> d) events)"
    for m d
    unfolding session_work_def pick filter_sort length_sort filter_map length_map filter_filter comp_def conj_assoc
    by (rule refl)
  show ?thesis
  proof (cases "background e")
    case True
    then have "is_tool_hook e \<longleftrightarrow> ev_source e \<noteq> ''claude_work''" using hook_source by (auto simp: background_def)
    then show ?thesis
      unfolding keeps_background_def Let_def Some option.case turns work using True Some
      by (cases "ev_source e = ''claude_work''") auto
  qed (auto simp: keeps_background_def background_def)
qed (simp add: keeps_background_def)

definition shell_keys :: "infer_event list \<Rightarrow> (int \<times> string \<times> string option) list" where
  "shell_keys es = map shell_key (filter (\<lambda>e. ev_source e = ''shell'') es)"

lemma shell_keys_simps [simp]:
  "shell_keys [] = []"
  "shell_keys (e # es) = (if ev_source e = ''shell'' then shell_key e # shell_keys es else shell_keys es)"
  by (simp_all add: shell_keys_def)

lemma insert_minus: "k \<notin> S \<Longrightarrow> insert k (K - insert k S) = insert k K - S"
  by auto

lemma dedupe_shell_keys: "set (shell_keys (dedupe_shell seen es)) = set (shell_keys es) - seen"
proof (induction seen es rule: dedupe_shell.induct)
  case (2 seen e es)
  show ?case
  proof (cases "ev_source e = ''shell''")
    case True
    show ?thesis
    proof (cases "shell_key e \<in> seen")
      case False
      with True 2(3) have "set (shell_keys (dedupe_shell seen (e # es))) =
          insert (shell_key e) (set (shell_keys es) - insert (shell_key e) seen)" by simp
      also have "insert (shell_key e) (K - insert (shell_key e) seen) = insert (shell_key e) K - seen" for K
        using False by (rule insert_minus)
      finally show ?thesis using True by simp
    qed (use True 2(2) in \<open>simp add: insert_Diff_if\<close>)
  qed (use 2(1) in simp)
qed simp

lemma dedupe_shell_distinct: "distinct (shell_keys (dedupe_shell seen es))"
  by (induction seen es rule: dedupe_shell.induct) (simp_all add: dedupe_shell_keys)

lemma dedupe_shell_others:
  "filter (\<lambda>e. ev_source e \<noteq> ''shell'') (dedupe_shell seen es) = filter (\<lambda>e. ev_source e \<noteq> ''shell'') es"
  by (induction seen es rule: dedupe_shell.induct) simp_all

end
