(* ===== verification/Infer.thy ===== *)
theory Infer
  imports Evidence "HOL-Library.Multiset" "HOL-Library.Sublist"
begin

text \<open>
  Block clustering: \<open>infer.rs\<close> from one event to the finalized blocks of one lane
  (\<open>build_blocks_sequential\<close>, \<open>split_by_project\<close>), with \<open>infer_future.rs\<close> and
  \<open>infer_session_folder.rs\<close>, which prepare the events. Indices into the event list are naturals, as
  \<open>usize\<close>; \<open>split_loses_nothing\<close> shows that every cut index is in range and no cut drops an event.
\<close>

section \<open>Preparing the events\<close>

definition cut_calendar :: "instant \<Rightarrow> infer_event \<Rightarrow> infer_event" where
  "cut_calendar now e =
     (if is_calendar e
      then e\<lparr>ev_duration := map_option (\<lambda>d. min d (num_seconds (now - ev_ts e))) (ev_duration e)\<rparr>
      else e)"

definition drop_future :: "infer_event list \<Rightarrow> instant \<Rightarrow> infer_event list" where
  "drop_future events now = map (cut_calendar now) (filter (\<lambda>e. ev_ts e \<le> now) events)"

fun fill_pass :: "(string \<Rightarrow> string option) \<Rightarrow> infer_event list \<Rightarrow> infer_event list" where
  "fill_pass known [] = []"
| "fill_pass known (e # es) =
     (case ev_session e of
        None \<Rightarrow> e # fill_pass known es
      | Some s \<Rightarrow>
          (case ev_path e of
             Some p \<Rightarrow> e # fill_pass (known(s \<mapsto> p)) es
           | None \<Rightarrow> e\<lparr>ev_path := known s\<rparr> # fill_pass known es))"

definition fill_session_folders :: "infer_event list \<Rightarrow> infer_event list" where
  "fill_session_folders events = rev (fill_pass Map.empty (rev (fill_pass Map.empty events)))"

section \<open>Clusters\<close>

definition unique_jira_issue :: "infer_event list \<Rightarrow> string option" where
  "unique_jira_issue events =
     (let all_riders = list_all is_lifecycle events;
          issues = remdups (List.map_filter ev_jira
                     (filter (\<lambda>e. all_riders \<or> \<not> is_lifecycle e) events))
      in case issues of [k] \<Rightarrow> Some k | _ \<Rightarrow> None)"

definition project_votes :: "bool \<Rightarrow> infer_event list \<Rightarrow> (string \<times> nat) list" where
  "project_votes lifecycle events =
     (let paths = List.map_filter ev_path (filter (\<lambda>e. is_lifecycle e = lifecycle) events)
      in map (\<lambda>p. (p, count_list paths p)) (btree_keys paths))"

definition project_vote :: "env \<Rightarrow> infer_event list \<Rightarrow> bool \<Rightarrow> string option" where
  "project_vote env events lifecycle =
     map_option fst (max_by_key snd (hash_order env (project_votes lifecycle events)))"

definition dominant_project_path :: "env \<Rightarrow> infer_block \<Rightarrow> string option" where
  "dominant_project_path env b =
     (case project_vote env (ib_events b) False of
        Some p \<Rightarrow> Some p
      | None \<Rightarrow> project_vote env (ib_events b) True)"

definition new_block :: "env \<Rightarrow> infer_event \<Rightarrow> infer_block" where
  "new_block env e =
     \<lparr>ib_day = local_date env (ev_ts e), ib_start = ev_ts e, ib_end = ev_end e,
      ib_secs = num_seconds (ev_end e - ev_ts e), ib_count = 1,
      ib_event_ids = (case ev_id e of None \<Rightarrow> [] | Some i \<Rightarrow> [i]),
      ib_jira = ev_jira e, ib_flagged = False, ib_calendar = is_calendar e, ib_events = [e]\<rparr>"

definition push_id :: "int list \<Rightarrow> infer_event \<Rightarrow> int list" where
  "push_id ids e = (case ev_id e of None \<Rightarrow> ids | Some i \<Rightarrow> ids @ [i])"

definition extend_block :: "infer_block \<Rightarrow> infer_event \<Rightarrow> infer_block" where
  "extend_block b e =
     (let end = max (ev_end e) (ib_end b)
      in b\<lparr>ib_end := end, ib_secs := num_seconds (end - ib_start b), ib_count := ib_count b + 1,
           ib_event_ids := push_id (ib_event_ids b) e, ib_events := ib_events b @ [e]\<rparr>)"

definition attach_riding_event :: "infer_block \<Rightarrow> infer_event \<Rightarrow> infer_block" where
  "attach_riding_event b e =
     b\<lparr>ib_count := ib_count b + 1, ib_event_ids := push_id (ib_event_ids b) e,
       ib_events := ib_events b @ [e], ib_jira := unique_jira_issue (ib_events b @ [e])\<rparr>"

definition finalize_ext :: "infer_block \<Rightarrow> bool \<Rightarrow> infer_block option" where
  "finalize_ext b enforce_min =
     (let duration = ib_end b - ib_start b
      in if duration \<le> 0 then None
         else if enforce_min \<and> duration < minutes MIN_BLOCK_MINUTES then None
         else Some (b\<lparr>ib_flagged := ib_flagged b \<or> minutes MAX_BLOCK_MINUTES < duration,
                      ib_jira := unique_jira_issue (ib_events b)\<rparr>))"

definition finalize :: "infer_block \<Rightarrow> infer_block option" where
  "finalize b = finalize_ext b True"

section \<open>Project segments\<close>

type_synonym segment = "string option \<times> nat"

fun raw_segments :: "nat \<Rightarrow> string option \<Rightarrow> segment list \<Rightarrow> infer_event list \<Rightarrow> segment list" where
  "raw_segments idx current out [] = out"
| "raw_segments idx current out (e # es) =
     (let proj = (case ev_path e of Some p \<Rightarrow> Some p | None \<Rightarrow> current);
          out' = (if out = [] \<or> fst (last out) \<noteq> proj then out @ [(proj, idx)] else out)
      in raw_segments (Suc idx) proj out' es)"

definition event_span_seconds :: "infer_event list \<Rightarrow> nat \<Rightarrow> nat \<Rightarrow> int" where
  "event_span_seconds events i j =
     (if j < i then 0 else max 0 (num_seconds (ev_end (events ! j) - ev_ts (events ! i))))"

function collapse_loop :: "infer_event list \<Rightarrow> segment list \<Rightarrow> nat \<Rightarrow> segment list \<Rightarrow> segment list" where
  "collapse_loop events segs i out =
     (if i < length segs
      then if 0 < i \<and> i + 1 < length segs
              \<and> fst (if out = [] then segs ! (i - 1) else last out) = fst (segs ! (i + 1))
              \<and> event_span_seconds events (snd (segs ! i)) (snd (segs ! (i + 1)) - 1) < MIN_BLOCK_MINUTES * 60
           then collapse_loop events segs (i + 2) out
           else collapse_loop events segs (i + 1) (out @ [segs ! i])
      else out)"
  by pat_completeness auto
termination by (relation "measure (\<lambda>(events, segs, i, out). length segs - i)") auto

declare collapse_loop.simps [simp del]

definition collapse_brief_interruptions :: "infer_event list \<Rightarrow> segment list \<Rightarrow> segment list" where
  "collapse_brief_interruptions events segs = collapse_loop events segs 0 []"

definition project_segments :: "infer_event list \<Rightarrow> segment list" where
  "project_segments events = collapse_brief_interruptions events (raw_segments 0 None [] events)"

section \<open>Cutting at project changes\<close>

definition max_of :: "'a::linorder \<Rightarrow> 'a list \<Rightarrow> 'a" where
  "max_of d xs = (case xs of [] \<Rightarrow> d | x # xs \<Rightarrow> fold max xs x)"

definition build_sub_block :: "infer_block \<Rightarrow> nat \<Rightarrow> nat \<Rightarrow> infer_block option" where
  "build_sub_block parent i j =
     (if j < i then None
      else let slice = take (j + 1 - i) (drop i (ib_events parent))
           in if slice = [] then None
              else let started = ev_ts (hd slice);
                       ended = max (max_of started (map ev_end slice)) started;
                       duration = ended - started
                   in if duration < minutes MIN_BLOCK_MINUTES then None
                      else Some \<lparr>ib_day = ib_day parent, ib_start = started, ib_end = ended,
                             ib_secs = num_seconds duration, ib_count = length slice,
                             ib_event_ids = List.map_filter ev_id slice,
                             ib_jira = unique_jira_issue slice,
                             ib_flagged = (minutes MAX_BLOCK_MINUTES < duration),
                             ib_calendar = False, ib_events = slice\<rparr>)"

definition right_last_event :: "infer_event list \<Rightarrow> segment list \<Rightarrow> nat \<Rightarrow> nat" where
  "right_last_event events segs i =
     (let right_last_seg = i + length (takeWhile (\<lambda>s. fst s = fst (segs ! i)) (drop (i + 1) segs))
      in if right_last_seg + 1 < length segs then snd (segs ! (right_last_seg + 1)) - 1
         else length events - 1)"

fun cut_loop :: "infer_event list \<Rightarrow> segment list \<Rightarrow> nat \<Rightarrow> nat list \<Rightarrow> nat list" where
  "cut_loop events segs last_cut [] = []"
| "cut_loop events segs last_cut (i # is) =
     (let cut = snd (segs ! i)
      in if MIN_BLOCK_MINUTES * 60 \<le> event_span_seconds events last_cut (cut - 1)
            \<and> MIN_BLOCK_MINUTES * 60 \<le> event_span_seconds events cut (right_last_event events segs i)
         then cut # cut_loop events segs cut is
         else cut_loop events segs last_cut is)"

definition split_by_project :: "infer_block \<Rightarrow> infer_block list" where
  "split_by_project b =
     (if ib_calendar b then [b]
      else let segs = project_segments (ib_events b)
           in if length segs < 2 then [b]
              else let cuts = cut_loop (ib_events b) segs 0 [1..<length segs]
                   in if cuts = [] then [b]
                      else List.map_filter (\<lambda>(s, e). build_sub_block b s e)
                             (zip (0 # cuts) (map (\<lambda>i. i - 1) cuts @ [length (ib_events b) - 1])))"

section \<open>The gap-timeout loop\<close>

definition close_block :: "infer_block \<Rightarrow> infer_block list" where
  "close_block c = (case finalize c of None \<Rightarrow> [] | Some f \<Rightarrow> split_by_project f)"

definition closes :: "infer_block \<Rightarrow> infer_event \<Rightarrow> bool" where
  "closes c e = (is_calendar e \<or> ib_calendar c \<or> minutes TIMEOUT_MINUTES < ev_ts e - ib_end c)"

fun cluster :: "env \<Rightarrow> infer_block \<Rightarrow> infer_event list \<Rightarrow> infer_block list" where
  "cluster env c [] = [c]"
| "cluster env c (e # es) =
     (if closes c e then c # cluster env (new_block env e) es
      else cluster env (extend_block c e) es)"

definition clusters :: "env \<Rightarrow> infer_event list \<Rightarrow> infer_block list" where
  "clusters env events = (case sort_key ev_ts events of [] \<Rightarrow> [] | e # es \<Rightarrow> cluster env (new_block env e) es)"

definition build_blocks_sequential :: "env \<Rightarrow> infer_event list \<Rightarrow> infer_block list" where
  "build_blocks_sequential env events = sort_key ib_start (concat (map close_block (clusters env events)))"

section \<open>Well-formed blocks\<close>

definition block_ok :: "infer_block \<Rightarrow> bool" where
  "block_ok b \<longleftrightarrow>
     ib_events b \<noteq> [] \<and> sorted (map ev_ts (ib_events b)) \<and> ib_start b = ev_ts (hd (ib_events b)) \<and>
     (\<forall>e\<in>set (ib_events b). ev_end e \<le> ib_end b) \<and> (\<exists>e\<in>set (ib_events b). ib_end b = ev_end e) \<and>
     ib_secs b = num_seconds (ib_end b - ib_start b) \<and>
     ib_count b = length (ib_events b) \<and> ib_event_ids b = List.map_filter ev_id (ib_events b) \<and>
     (if ib_calendar b then length (ib_events b) = 1 \<and> is_calendar (hd (ib_events b))
      else \<not> list_ex is_calendar (ib_events b))"

definition block_final :: "infer_block \<Rightarrow> bool" where
  "block_final b \<longleftrightarrow>
     block_ok b \<and> minutes MIN_BLOCK_MINUTES \<le> ib_end b - ib_start b \<and>
     ib_jira b = unique_jira_issue (ib_events b) \<and>
     (ib_flagged b \<longleftrightarrow> minutes MAX_BLOCK_MINUTES < ib_end b - ib_start b)"

lemma map_filter_snoc: "List.map_filter f (xs @ [x]) = List.map_filter f xs @ (case f x of None \<Rightarrow> [] | Some y \<Rightarrow> [y])"
  by (auto simp: List.map_filter_def split: option.splits)

lemma map_filter_id_snoc: "push_id (List.map_filter ev_id es) e = List.map_filter ev_id (es @ [e])"
  by (simp add: push_id_def map_filter_snoc split: option.splits)

lemma new_block_simps [simp]:
  "ib_events (new_block env e) = [e]" "ib_flagged (new_block env e) = False"
  "ib_calendar (new_block env e) = is_calendar e" "ib_start (new_block env e) = ev_ts e"
  "ib_end (new_block env e) = ev_end e"
  by (simp_all add: new_block_def)

lemma new_block_ok: "block_ok (new_block env e)"
  by (auto simp: block_ok_def new_block_def List.map_filter_def split: option.splits)

lemma extend_block_simps [simp]:
  "ib_events (extend_block c e) = ib_events c @ [e]" "ib_flagged (extend_block c e) = ib_flagged c"
  "ib_calendar (extend_block c e) = ib_calendar c" "ib_start (extend_block c e) = ib_start c"
  "ib_end (extend_block c e) = max (ev_end e) (ib_end c)"
  by (simp_all add: extend_block_def Let_def)

lemma extend_block_ok:
  assumes "block_ok c" "\<not> closes c e" "\<forall>x\<in>set (ib_events c). ev_ts x \<le> ev_ts e"
  shows "block_ok (extend_block c e)"
proof -
  have "\<exists>x\<in>set (ib_events c @ [e]). max (ev_end e) (ib_end c) = ev_end x"
    using assms(1) by (cases "ev_end e \<le> ib_end c") (auto simp: block_ok_def max_def)
  moreover have "\<forall>x\<in>set (ib_events c @ [e]). ev_end x \<le> max (ev_end e) (ib_end c)"
    using assms(1) by (auto simp: block_ok_def le_max_iff_disj)
  moreover have "ib_event_ids (extend_block c e) = List.map_filter ev_id (ib_events c @ [e])"
    "ib_count (extend_block c e) = length (ib_events c @ [e])"
    "ib_secs (extend_block c e) = num_seconds (max (ev_end e) (ib_end c) - ib_start c)"
    using assms(1) by (simp_all add: extend_block_def Let_def block_ok_def map_filter_id_snoc)
  moreover have "sorted (map ev_ts (ib_events c @ [e]))"
    using assms(1,3) by (simp add: sorted_append block_ok_def)
  moreover have "\<not> ib_calendar c" "\<not> is_calendar e" using assms(2) by (auto simp: closes_def)
  moreover have "ib_events c \<noteq> []" "ib_start c = ev_ts (hd (ib_events c))" "\<not> list_ex is_calendar (ib_events c)"
    using assms(1) \<open>\<not> ib_calendar c\<close> by (simp_all add: block_ok_def)
  ultimately show ?thesis unfolding block_ok_def by simp
qed

section \<open>What the loop produces\<close>

lemma cluster_events: "concat (map ib_events (cluster env c es)) = ib_events c @ es"
  by (induction env c es rule: cluster.induct) simp_all

lemma cluster_all:
  assumes "block_ok c" "\<not> ib_flagged c" "sorted (map ev_ts (ib_events c @ es))"
  shows "\<forall>b\<in>set (cluster env c es). block_ok b \<and> \<not> ib_flagged b"
  using assms
proof (induction env c es rule: cluster.induct)
  case (2 env c e es)
  show ?case
  proof (cases "closes c e")
    case True
    have "sorted (map ev_ts ([e] @ es))" using 2(5) by (simp add: sorted_append)
    with 2(1)[OF True] have "\<forall>b\<in>set (cluster env (new_block env e) es). block_ok b \<and> \<not> ib_flagged b"
      by (simp add: new_block_ok)
    with True 2(3,4) show ?thesis by simp
  next
    case False
    have "\<forall>x\<in>set (ib_events c). ev_ts x \<le> ev_ts e" using 2(5) by (auto simp: sorted_append)
    with 2(3) False have "block_ok (extend_block c e)" by (rule extend_block_ok)
    with 2(2)[OF False] 2(4,5) False show ?thesis by simp
  qed
qed simp

lemma cluster_hd: "ib_start (hd (cluster env c es)) = ib_start c \<and> ib_calendar (hd (cluster env c es)) = ib_calendar c"
  by (induction env c es rule: cluster.induct) simp_all

lemma cluster_not_Nil [simp]: "cluster env c es \<noteq> []"
  by (induction env c es rule: cluster.induct) simp_all

text \<open>Two neighbouring clusters are either kept apart by a calendar entry or by a silence over the timeout.\<close>

definition apart :: "infer_block \<Rightarrow> infer_block \<Rightarrow> bool" where
  "apart a b = (ib_calendar a \<or> ib_calendar b \<or> minutes TIMEOUT_MINUTES < ib_start b - ib_end a)"

lemma cluster_apart: "successively apart (cluster env c es)"
proof (induction env c es rule: cluster.induct)
  case (2 env c e es)
  show ?case
  proof (cases "closes c e")
    case True
    have "apart c (hd (cluster env (new_block env e) es))"
      using True cluster_hd[of env "new_block env e" es] by (simp add: closes_def apart_def) blast
    with True 2(1)[OF True] show ?thesis by (simp add: successively_Cons)
  qed (use 2(2) in simp)
qed simp

lemma clusters_events: "concat (map ib_events (clusters env events)) = sort_key ev_ts events"
  by (simp add: clusters_def cluster_events split: list.splits)

lemma clusters_ok: "\<forall>b\<in>set (clusters env events). block_ok b \<and> \<not> ib_flagged b"
proof (cases "sort_key ev_ts events")
  case (Cons e es)
  moreover have "sorted (map ev_ts (sort_key ev_ts events))" by simp
  ultimately show ?thesis using cluster_all[OF new_block_ok, of env e es] by (simp add: clusters_def)
qed (simp add: clusters_def)

lemma finalize_ext_Some:
  "finalize_ext b m = Some f \<Longrightarrow>
     f = b\<lparr>ib_flagged := ib_flagged b \<or> minutes MAX_BLOCK_MINUTES < ib_end b - ib_start b,
            ib_jira := unique_jira_issue (ib_events b)\<rparr> \<and>
     0 < ib_end b - ib_start b \<and> (m \<longrightarrow> minutes MIN_BLOCK_MINUTES \<le> ib_end b - ib_start b)"
  by (auto simp: finalize_ext_def Let_def split: if_splits)

lemma finalize_final: "finalize b = Some f \<Longrightarrow> block_ok b \<Longrightarrow> \<not> ib_flagged b \<Longrightarrow> block_final f \<and> ib_events f = ib_events b"
  using finalize_ext_Some[of b True f] by (auto simp: finalize_def block_final_def block_ok_def)

lemma finalize_None: "finalize b = None \<longleftrightarrow> ib_end b - ib_start b < minutes MIN_BLOCK_MINUTES"
  by (auto simp: finalize_def finalize_ext_def Let_def infer_limits time_defs)

section \<open>Cutting at project changes loses nothing\<close>

definition seg_ok :: "nat \<Rightarrow> segment list \<Rightarrow> bool" where
  "seg_ok n segs = (sorted_wrt (<) (map snd segs) \<and> (\<forall>s\<in>set segs. snd s < n))"

lemma raw_segments_ok: "seg_ok idx out \<Longrightarrow> seg_ok (idx + length es) (raw_segments idx current out es)"
proof (induction es arbitrary: idx current out)
  case (Cons e es)
  let ?proj = "case ev_path e of Some p \<Rightarrow> Some p | None \<Rightarrow> current"
  let ?out = "if out = [] \<or> fst (last out) \<noteq> ?proj then out @ [(?proj, idx)] else out"
  have "seg_ok (Suc idx) ?out" using Cons.prems by (auto simp: seg_ok_def sorted_wrt_append less_Suc_eq)
  from Cons.IH[OF this] show ?case by (simp add: Let_def)
qed simp

lemma collapse_loop_subseq: "\<exists>xs. collapse_loop events segs i out = out @ xs \<and> subseq xs (drop i segs)"
proof (induction events segs i out rule: collapse_loop.induct)
  case (1 events segs i out)
  show ?case
  proof (cases "i < length segs")
    case len: True
    let ?skip = "0 < i \<and> i + 1 < length segs
              \<and> fst (if out = [] then segs ! (i - 1) else last out) = fst (segs ! (i + 1))
              \<and> event_span_seconds events (snd (segs ! i)) (snd (segs ! (i + 1)) - 1) < MIN_BLOCK_MINUTES * 60"
    show ?thesis
    proof (cases ?skip)
      case True
      from 1(1)[OF len True] obtain xs where xs: "collapse_loop events segs (i + 2) out = out @ xs"
        "subseq xs (drop (i + 2) segs)" by blast
      have "subseq xs (drop i segs)"
        using xs(2) len True by (simp add: Cons_nth_drop_Suc[symmetric] list_emb_Cons)
      then show ?thesis using xs(1) len True by (subst collapse_loop.simps) auto
    next
      case False
      from 1(2)[OF len False] obtain xs where xs:
        "collapse_loop events segs (i + 1) (out @ [segs ! i]) = (out @ [segs ! i]) @ xs"
        "subseq xs (drop (i + 1) segs)" by blast
      have "subseq (segs ! i # xs) (drop i segs)"
        using xs(2) len by (simp add: Cons_nth_drop_Suc[symmetric])
      then show ?thesis using xs(1) len False by (subst collapse_loop.simps) auto
    qed
  qed (simp add: collapse_loop.simps)
qed

lemma sorted_wrt_subseq: "subseq xs ys \<Longrightarrow> sorted_wrt P ys \<Longrightarrow> sorted_wrt P xs"
  by (induction rule: list_emb.induct) (auto dest: list_emb_set)

lemma project_segments_ok: "seg_ok (length events) (project_segments events)"
proof -
  let ?raw = "raw_segments 0 None [] events"
  have raw: "seg_ok (length events) ?raw"
    using raw_segments_ok[of 0 "[]" events None] by (simp add: seg_ok_def)
  from collapse_loop_subseq[of events ?raw 0 "[]"] have sub: "subseq (project_segments events) ?raw"
    by (auto simp: project_segments_def collapse_brief_interruptions_def)
  then have "subseq (map snd (project_segments events)) (map snd ?raw)" by (rule subseq_map)
  with raw sub show ?thesis by (auto simp: seg_ok_def intro: sorted_wrt_subseq dest: list_emb_set)
qed

text \<open>A piece that is long enough: it holds an event whose end is at least the minimum after its start.\<close>

definition long_piece :: "infer_event list \<Rightarrow> nat \<Rightarrow> nat \<Rightarrow> bool" where
  "long_piece events s e \<longleftrightarrow> e < length events \<and> (\<exists>k\<in>{s..e}. MIN_BLOCK_MINUTES * 60 \<le> event_span_seconds events s k)"

definition pieces :: "nat \<Rightarrow> nat list \<Rightarrow> nat \<Rightarrow> (nat \<times> nat) list" where
  "pieces s cuts n = zip (s # cuts) (map (\<lambda>i. i - 1) cuts @ [n - 1])"

lemma pieces_simps [simp]:
  "pieces s [] n = [(s, n - 1)]" "pieces s (c # cs) n = (s, c - 1) # pieces c cs n"
  by (simp_all add: pieces_def)

lemma span_pos: "MIN_BLOCK_MINUTES * 60 \<le> event_span_seconds events s e \<Longrightarrow> s \<le> e"
  by (auto simp: event_span_seconds_def infer_limits split: if_splits)

lemma long_pieceI:
  "MIN_BLOCK_MINUTES * 60 \<le> event_span_seconds events s k \<Longrightarrow> k \<le> e \<Longrightarrow> e < length events \<Longrightarrow> long_piece events s e"
  using span_pos by (fastforce simp: long_piece_def)

lemma right_last_lt:
  assumes "seg_ok (length events) segs" "i < length segs"
  shows "right_last_event events segs i < length events"
proof -
  have "snd (segs ! i) < length events" using assms nth_mem[of i segs] by (simp add: seg_ok_def)
  then have n: "0 < length events" by (rule le_less_trans[OF le0])
  show ?thesis
  proof (cases "i + length (takeWhile (\<lambda>s. fst s = fst (segs ! i)) (drop (i + 1) segs)) + 1 < length segs")
    case True
    then have "snd (segs ! (i + length (takeWhile (\<lambda>s. fst s = fst (segs ! i)) (drop (i + 1) segs)) + 1)) < length events"
      using assms(1) by (auto simp: seg_ok_def dest: nth_mem)
    with True show ?thesis by (simp add: right_last_event_def Let_def less_imp_diff_less)
  qed (use n in \<open>simp add: right_last_event_def Let_def\<close>)
qed

lemma cut_loop_pieces:
  assumes segs: "seg_ok (length events) segs"
    and idx: "sorted_wrt (<) is" "\<forall>i\<in>set is. i < length segs \<and> s < snd (segs ! i)"
    and long: "cut_loop events segs s is = [] \<Longrightarrow> long_piece events s (length events - 1)"
  shows "(\<forall>(a, b)\<in>set (pieces s (cut_loop events segs s is) (length events)). long_piece events a b)
    \<and> sorted_wrt (<) (s # cut_loop events segs s is) \<and> (\<forall>c\<in>set (cut_loop events segs s is). c < length events)"
  using idx long
proof (induction "is" arbitrary: s)
  case Nil
  then show ?case by simp
next
  case (Cons i "is")
  let ?cut = "snd (segs ! i)"
  show ?case
  proof (cases "MIN_BLOCK_MINUTES * 60 \<le> event_span_seconds events s (?cut - 1)
            \<and> MIN_BLOCK_MINUTES * 60 \<le> event_span_seconds events ?cut (right_last_event events segs i)")
    case True
    have i: "i < length segs" "s < ?cut" "?cut < length events"
      using Cons.prems(2) segs by (auto simp: seg_ok_def dest: nth_mem)
    have r: "right_last_event events segs i < length events" by (rule right_last_lt[OF segs i(1)])
    have later: "\<forall>j\<in>set is. j < length segs \<and> ?cut < snd (segs ! j)"
    proof
      fix j assume "j \<in> set is"
      then have "i < j" "j < length segs" using Cons.prems(1,2) by auto
      then show "j < length segs \<and> ?cut < snd (segs ! j)"
        using segs sorted_wrt_nth_less[of "(<)" "map snd segs" i j] by (simp add: seg_ok_def)
    qed
    have "(\<forall>(a, b)\<in>set (pieces ?cut (cut_loop events segs ?cut is) (length events)). long_piece events a b)
      \<and> sorted_wrt (<) (?cut # cut_loop events segs ?cut is) \<and> (\<forall>c\<in>set (cut_loop events segs ?cut is). c < length events)"
    proof (rule Cons.IH)
      show "sorted_wrt (<) is" using Cons.prems(1) by simp
      show "\<forall>j\<in>set is. j < length segs \<and> ?cut < snd (segs ! j)" by (rule later)
      show "long_piece events ?cut (length events - 1)"
        using True r i(3) by (intro long_pieceI[of events ?cut "right_last_event events segs i"]) simp_all
    qed
    moreover have "long_piece events s (?cut - 1)"
      using True i by (intro long_pieceI[of events s "?cut - 1"]) simp_all
    ultimately show ?thesis using True i by (auto simp: Let_def)
  next
    case False
    then have eq: "cut_loop events segs s (i # is) = cut_loop events segs s is"
      unfolding cut_loop.simps Let_def by (rule if_not_P)
    show ?thesis using Cons.IH[of s] Cons.prems unfolding eq by simp
  qed
qed

lemma max_of_spec: "xs \<noteq> [] \<Longrightarrow> max_of d xs \<in> set xs \<and> (\<forall>x\<in>set xs. x \<le> max_of d xs)"
  by (cases xs) (simp_all add: max_of_def Max_ge Max_in flip: Max.set_eq_fold del: set_simps)

lemma num_seconds_less: "d < minutes MIN_BLOCK_MINUTES \<Longrightarrow> num_seconds d < MIN_BLOCK_MINUTES * 60"
  by (auto simp: infer_limits time_defs)

lemma build_sub_block_long:
  assumes b: "block_ok b" "\<not> ib_calendar b" and long: "long_piece (ib_events b) s e"
  shows "\<exists>x. build_sub_block b s e = Some x \<and> block_final x \<and> \<not> ib_calendar x
    \<and> ib_events x = take (e + 1 - s) (drop s (ib_events b))"
proof -
  let ?evs = "ib_events b" and ?slice = "take (e + 1 - s) (drop s (ib_events b))"
  let ?stop = "max (max_of (ev_ts (hd ?slice)) (map ev_end ?slice)) (ev_ts (hd ?slice))"
  from long obtain k where k: "e < length ?evs" "s \<le> k" "k \<le> e" "MIN_BLOCK_MINUTES * 60 \<le> event_span_seconds ?evs s k"
    by (auto simp: long_piece_def)
  then have ne: "?slice \<noteq> []" and hd: "hd ?slice = ?evs ! s" by (simp_all add: hd_drop_conv_nth)
  have sub: "set ?slice \<subseteq> set ?evs" by (meson order_trans set_drop_subset set_take_subset)
  have end_in: "max_of (ev_ts (hd ?slice)) (map ev_end ?slice) \<in> ev_end ` set ?slice"
    and end_max: "\<forall>x\<in>set ?slice. ev_end x \<le> max_of (ev_ts (hd ?slice)) (map ev_end ?slice)"
    using max_of_spec[of "map ev_end ?slice" "ev_ts (hd ?slice)"] ne by simp_all
  have "?evs ! k = ?slice ! (k - s)" "k - s < length ?slice" using k by simp_all
  then have "?evs ! k \<in> set ?slice" by (metis nth_mem)
  then have endk: "ev_end (?evs ! k) \<le> ?stop" using end_max by (auto simp: le_max_iff_disj)
  have "\<not> ib_calendar b" by (rule b)
  then have nocal: "\<not> list_ex is_calendar ?slice" using b(1) sub by (auto simp: block_ok_def list_ex_iff)
  have "\<not> is_calendar (hd ?slice)" by (metis hd_in_set list_ex_iff ne nocal)
  then have "ev_ts (hd ?slice) \<le> ev_end (hd ?slice)" by (simp add: ev_end_ge NS_def)
  then have end_eq: "?stop = max_of (ev_ts (hd ?slice)) (map ev_end ?slice)"
    using end_max[rule_format, OF hd_in_set[OF ne]] by (intro max_absorb1) (rule order_trans)
  have "MIN_BLOCK_MINUTES * 60 \<le> num_seconds (ev_end (?evs ! k) - ev_ts (?evs ! s))"
    using k(2,4) by (auto simp: event_span_seconds_def infer_limits)
  also have "\<dots> \<le> num_seconds (?stop - ev_ts (hd ?slice))"
    using endk hd by (intro num_seconds_mono) simp
  finally have dur: "\<not> ?stop - ev_ts (hd ?slice) < minutes MIN_BLOCK_MINUTES"
    using num_seconds_less by fastforce
  have srt: "sorted (map ev_ts ?slice)"
    using b(1) by (simp add: block_ok_def drop_map[symmetric] take_map[symmetric] sorted_wrt_take sorted_wrt_drop)
  from k have "\<not> e < s" by simp
  then have "build_sub_block b s e = Some \<lparr>ib_day = ib_day b, ib_start = ev_ts (hd ?slice), ib_end = ?stop,
      ib_secs = num_seconds (?stop - ev_ts (hd ?slice)), ib_count = length ?slice,
      ib_event_ids = List.map_filter ev_id ?slice, ib_jira = unique_jira_issue ?slice,
      ib_flagged = (minutes MAX_BLOCK_MINUTES < ?stop - ev_ts (hd ?slice)),
      ib_calendar = False, ib_events = ?slice\<rparr>" (is "_ = Some ?x")
    unfolding build_sub_block_def Let_def using ne dur by simp
  moreover have "block_final ?x"
    using ne srt nocal end_in end_max dur unfolding block_final_def block_ok_def end_eq by auto
  ultimately show ?thesis by auto
qed

lemma pieces_cover:
  assumes "s < n" "sorted_wrt (<) (s # cuts)" "\<forall>c\<in>set cuts. c < length xs" "n = length xs"
  shows "concat (map (\<lambda>(a, b). take (b + 1 - a) (drop a xs)) (pieces s cuts n)) = drop s xs"
  using assms
proof (induction cuts arbitrary: s)
  case (Cons c cs)
  then have "concat (map (\<lambda>(a, b). take (b + 1 - a) (drop a xs)) (pieces c cs n)) = drop c xs" by simp
  moreover have "take (c - s) (drop s xs) @ drop c xs = drop s xs"
    using Cons.prems by (metis add.commute append_take_drop_id drop_drop le_add_diff_inverse2 less_imp_le list.set_intros(1) sorted_wrt.simps(2))
  ultimately show ?case using Cons.prems by simp
qed simp

lemma map_filter_all_Some:
  "\<forall>x\<in>set xs. \<exists>y. f x = Some y \<and> P y \<and> g y = h x \<Longrightarrow>
     (\<forall>y\<in>set (List.map_filter f xs). P y) \<and> map g (List.map_filter f xs) = map h xs"
  by (induction xs) (auto simp: List.map_filter_def)

lemma split_loses_nothing:
  assumes "block_final b"
  shows "concat (map ib_events (split_by_project b)) = ib_events b"
    and "\<forall>x\<in>set (split_by_project b). block_final x \<and> ib_calendar x = ib_calendar b"
proof -
  let ?evs = "ib_events b"
  let ?segs = "project_segments ?evs"
  let ?cuts = "cut_loop ?evs ?segs 0 [1..<length ?segs]"
  have "concat (map ib_events (split_by_project b)) = ?evs
    \<and> (\<forall>x\<in>set (split_by_project b). block_final x \<and> ib_calendar x = ib_calendar b)"
  proof (cases "ib_calendar b \<or> length ?segs < 2 \<or> ?cuts = []")
    case False
    note segs = project_segments_ok[of ?evs]
    have ok: "block_ok b" using assms by (simp add: block_final_def)
    have ne: "0 < length ?evs" using ok by (simp add: block_ok_def)
    have "\<forall>i\<in>set [1..<length ?segs]. i < length ?segs \<and> 0 < snd (?segs ! i)"
    proof
      fix i assume "i \<in> set [1..<length ?segs]"
      then show "i < length ?segs \<and> 0 < snd (?segs ! i)"
        using segs sorted_wrt_nth_less[of "(<)" "map snd ?segs" 0 i] by (simp add: seg_ok_def)
    qed
    from cut_loop_pieces[OF segs sorted_wrt_upt this] False
    have cuts: "\<forall>(a, e)\<in>set (pieces 0 ?cuts (length ?evs)). long_piece ?evs a e"
      "sorted_wrt (<) (0 # ?cuts)" "\<forall>c\<in>set ?cuts. c < length ?evs" by simp_all
    have eq: "split_by_project b = List.map_filter (\<lambda>(s, e). build_sub_block b s e) (pieces 0 ?cuts (length ?evs))"
      using False by (simp add: split_by_project_def Let_def pieces_def)
    have "\<forall>p\<in>set (pieces 0 ?cuts (length ?evs)).
        \<exists>y. (case p of (s, e) \<Rightarrow> build_sub_block b s e) = Some y \<and> (block_final y \<and> ib_calendar y = ib_calendar b)
          \<and> ib_events y = (case p of (s, e) \<Rightarrow> take (e + 1 - s) (drop s ?evs))"
    proof
      fix p assume "p \<in> set (pieces 0 ?cuts (length ?evs))"
      then obtain s e where "p = (s, e)" "long_piece ?evs s e" using cuts(1) by (cases p) auto
      then show "\<exists>y. (case p of (s, e) \<Rightarrow> build_sub_block b s e) = Some y \<and> (block_final y \<and> ib_calendar y = ib_calendar b)
          \<and> ib_events y = (case p of (s, e) \<Rightarrow> take (e + 1 - s) (drop s ?evs))"
        using build_sub_block_long[OF ok, of s e] False by simp
    qed
    from map_filter_all_Some[OF this] pieces_cover[OF ne cuts(2,3) refl] show ?thesis
      unfolding eq by simp
  qed (use assms in \<open>auto simp: split_by_project_def Let_def\<close>)
  then show "concat (map ib_events (split_by_project b)) = ?evs"
    and "\<forall>x\<in>set (split_by_project b). block_final x \<and> ib_calendar x = ib_calendar b" by blast+
qed

section \<open>The blocks of one lane\<close>

lemma set_close_block:
  "block_ok c \<Longrightarrow> \<not> ib_flagged c \<Longrightarrow> x \<in> set (close_block c) \<Longrightarrow> block_final x \<and> ib_calendar x = ib_calendar c"
proof -
  assume c: "block_ok c" "\<not> ib_flagged c" and x: "x \<in> set (close_block c)"
  from x obtain f where f: "finalize c = Some f" "x \<in> set (split_by_project f)"
    by (cases "finalize c") (auto simp: close_block_def)
  then have "block_final f" using finalize_final c by blast
  with f(2) have "block_final x \<and> ib_calendar x = ib_calendar f" using split_loses_nothing(2) by blast
  moreover have "ib_calendar f = ib_calendar c" using f(1) finalize_ext_Some[of c True f] by (simp add: finalize_def)
  ultimately show ?thesis by simp
qed

lemma close_block_events:
  "block_ok c \<Longrightarrow> \<not> ib_flagged c \<Longrightarrow> concat (map ib_events (close_block c)) =
     (if minutes MIN_BLOCK_MINUTES \<le> ib_end c - ib_start c then ib_events c else [])"
  using finalize_final[of c] split_loses_nothing(1) finalize_None[of c]
  by (auto simp: close_block_def split: option.splits)

lemma mset_concat_perm: "mset xs = mset ys \<Longrightarrow> mset (concat (map f xs)) = mset (concat (map f ys))"
  by (metis mset_concat mset_map sum_mset_sum_list image_mset.compositionality)

definition kept_cluster :: "infer_block \<Rightarrow> bool" where
  "kept_cluster c = (minutes MIN_BLOCK_MINUTES \<le> ib_end c - ib_start c)"

lemma build_blocks_sequential_final: "\<forall>b\<in>set (build_blocks_sequential env events). block_final b"
  using clusters_ok[of env events] set_close_block by (auto simp: build_blocks_sequential_def)

lemma build_blocks_sequential_sorted: "sorted (map ib_start (build_blocks_sequential env events))"
  by (simp add: build_blocks_sequential_def)

lemma close_blocks_events:
  "\<forall>c\<in>set cs. block_ok c \<and> \<not> ib_flagged c \<Longrightarrow>
     concat (map ib_events (concat (map close_block cs))) = concat (map ib_events (filter kept_cluster cs))"
  by (induction cs) (simp_all add: close_block_events kept_cluster_def)

lemma build_blocks_sequential_events:
  "mset (concat (map ib_events (build_blocks_sequential env events))) =
     mset (concat (map ib_events (filter kept_cluster (clusters env events))))"
  unfolding build_blocks_sequential_def
  by (subst mset_concat_perm[where ys = "concat (map close_block (clusters env events))"])
     (simp_all add: close_blocks_events clusters_ok)

lemma build_blocks_sequential_sub: "mset (concat (map ib_events (build_blocks_sequential env events))) \<subseteq># mset events"
proof -
  have "subseq (filter P cs) cs \<Longrightarrow> mset (concat (map ib_events (filter P cs))) \<subseteq># mset (concat (map ib_events cs))"
    for P and cs :: "infer_block list"
    by (induction cs) (auto simp: subset_mset.add_increasing)
  then have "mset (concat (map ib_events (filter kept_cluster (clusters env events)))) \<subseteq>#
      mset (concat (map ib_events (clusters env events)))" by simp
  then show ?thesis by (simp only: build_blocks_sequential_events clusters_events mset_sort)
qed

section \<open>Prepared events\<close>

lemma drop_future_past:
  "\<forall>e\<in>set (drop_future events now). ev_ts e \<le> now \<and> (is_calendar e \<and> ev_duration e \<noteq> None \<longrightarrow> ev_end e \<le> now)"
proof
  fix e assume "e \<in> set (drop_future events now)"
  then obtain e' where e: "e = cut_calendar now e'" "ev_ts e' \<le> now" by (auto simp: drop_future_def)
  have "ev_ts e' + seconds (min d (num_seconds (now - ev_ts e'))) \<le> now" for d
  proof -
    have "seconds (num_seconds (now - ev_ts e')) \<le> now - ev_ts e'" using e(2) by (simp add: time_defs)
    moreover have "seconds (min d k) \<le> seconds k" for k by (simp add: time_defs)
    ultimately show ?thesis by (smt (verit))
  qed
  with e show "ev_ts e \<le> now \<and> (is_calendar e \<and> ev_duration e \<noteq> None \<longrightarrow> ev_end e \<le> now)"
    by (auto simp: cut_calendar_def is_calendar_def ev_end_def)
qed

text \<open>The folder of a session at an index: the latest one known before it, else the first one after it.\<close>

definition knows :: "string \<Rightarrow> infer_event \<Rightarrow> bool" where
  "knows s x = (ev_session x = Some s \<and> ev_path x \<noteq> None)"

definition session_folder :: "infer_event list \<Rightarrow> nat \<Rightarrow> string \<Rightarrow> string option" where
  "session_folder es i s =
     (case find (knows s) (rev (take i es)) of
        Some x \<Rightarrow> ev_path x
      | None \<Rightarrow> (case find (knows s) (drop (Suc i) es) of Some x \<Rightarrow> ev_path x | None \<Rightarrow> None))"

lemma find_append: "find P (xs @ ys) = (case find P xs of Some x \<Rightarrow> Some x | None \<Rightarrow> find P ys)"
  by (induction xs) simp_all

lemma length_fill_pass [simp]: "length (fill_pass known es) = length es"
  by (induction known es rule: fill_pass.induct) (simp_all del: fun_upd_apply split: option.splits)

lemma fill_pass_nth:
  "i < length es \<Longrightarrow> fill_pass known es ! i =
     (case ev_session (es ! i) of
        None \<Rightarrow> es ! i
      | Some s \<Rightarrow> (case ev_path (es ! i) of
          Some p \<Rightarrow> es ! i
        | None \<Rightarrow> (es ! i)\<lparr>ev_path := (case find (knows s) (rev (take i es)) of Some x \<Rightarrow> ev_path x | None \<Rightarrow> known s)\<rparr>))"
proof (induction known es arbitrary: i rule: fill_pass.induct)
  case (2 known e es)
  show ?case
  proof (cases i)
    case 0
    then show ?thesis by (simp split: option.splits)
  next
    case (Suc j)
    with 2(4) have j: "j < length es" by simp
    show ?thesis
    proof (cases "ev_session e")
      case None
      from 2(1)[OF this j] None show ?thesis
        by (simp add: Suc find_append knows_def split: option.splits)
    next
      case s: (Some t)
      show ?thesis
      proof (cases "ev_path e")
        case None
        from 2(2)[OF s this j] None s show ?thesis
          by (simp add: Suc find_append knows_def split: option.splits)
      next
        case (Some p)
        from 2(3)[OF s this j] Some s show ?thesis
          by (auto simp: Suc find_append knows_def fun_upd_def split: option.splits)
      qed
    qed
  qed
qed simp

lemma fill_pass_drop:
  "known s = None \<Longrightarrow> \<forall>x\<in>set (take k es). \<not> knows s x \<Longrightarrow>
     \<exists>known'. known' s = None \<and> drop k (fill_pass known es) = fill_pass known' (drop k es)"
proof (induction known es arbitrary: k rule: fill_pass.induct)
  case (2 known e es)
  show ?case
  proof (cases k)
    case 0
    then show ?thesis using 2(4) by (intro exI[of _ known]) simp
  next
    case (Suc j)
    with 2(5) have j: "\<forall>x\<in>set (take j es). \<not> knows s x" and e: "\<not> knows s e" by simp_all
    show ?thesis
    proof (cases "ev_session e")
      case None
      with 2(1)[OF None 2(4) j] Suc show ?thesis by simp
    next
      case (Some t)
      show ?thesis
      proof (cases "ev_path e")
        case None
        with 2(2)[OF Some None 2(4) j] Some Suc show ?thesis by simp
      next
        case (Some p)
        with e \<open>ev_session e = Some t\<close> 2(4) have "(known(t \<mapsto> p)) s = None" by (auto simp: knows_def)
        from 2(3)[OF \<open>ev_session e = Some t\<close> Some this j] \<open>ev_session e = Some t\<close> Some Suc
        show ?thesis by (simp del: fun_upd_apply)
      qed
    qed
  qed
qed auto

lemma fill_pass_find: "known s = None \<Longrightarrow> find (knows s) (fill_pass known es) = find (knows s) es"
proof (induction known es rule: fill_pass.induct)
  case (2 known e es)
  show ?case
  proof (cases "ev_session e")
    case None
    with 2 show ?thesis by (simp add: knows_def)
  next
    case s: (Some t)
    show ?thesis
    proof (cases "ev_path e")
      case None
      with 2(2)[OF s None 2(4)] s 2(4) show ?thesis by (auto simp: knows_def)
    next
      case (Some p)
      show ?thesis
      proof (cases "t = s")
        case False
        with 2(4) have "(known(t \<mapsto> p)) s = None" by simp
        from 2(3)[OF s Some this] s Some False show ?thesis by (simp add: knows_def del: fun_upd_apply)
      qed (use s Some in \<open>simp add: knows_def\<close>)
    qed
  qed
qed simp

lemma find_not: "\<forall>x\<in>set xs. \<not> P x \<Longrightarrow> find P xs = None"
  by (simp add: find_None_iff)

lemma fill_session_folders_nth:
  assumes i: "i < length es"
  shows "fill_session_folders es ! i =
    (case ev_session (es ! i) of
       None \<Rightarrow> es ! i
     | Some s \<Rightarrow> (case ev_path (es ! i) of
         Some p \<Rightarrow> es ! i
       | None \<Rightarrow> (es ! i)\<lparr>ev_path := session_folder es i s\<rparr>))"
proof -
  define es1 where "es1 = fill_pass Map.empty es"
  have n: "length es1 = length es" by (simp add: es1_def)
  have r: "fill_session_folders es ! i = fill_pass Map.empty (rev es1) ! (length es - Suc i)"
    using i n by (simp add: fill_session_folders_def es1_def rev_nth)
  have e1: "rev es1 ! (length es - Suc i) = es1 ! i" using i n by (simp add: rev_nth)
  have later: "rev (take (length es - Suc i) (rev es1)) = drop (Suc i) es1"
    using n i by (simp add: take_rev)
  note nth1 = fill_pass_nth[OF i, of Map.empty, folded es1_def]
  have nth2: "fill_session_folders es ! i =
     (case ev_session (es1 ! i) of
        None \<Rightarrow> es1 ! i
      | Some s \<Rightarrow> (case ev_path (es1 ! i) of
          Some p \<Rightarrow> es1 ! i
        | None \<Rightarrow> (es1 ! i)\<lparr>ev_path := (case find (knows s) (drop (Suc i) es1) of Some x \<Rightarrow> ev_path x | None \<Rightarrow> None)\<rparr>))"
    using fill_pass_nth[of "length es - Suc i" "rev es1" Map.empty] i n unfolding r e1 later by simp
  show ?thesis
  proof (cases "ev_session (es ! i)")
    case None
    with nth1 have "es1 ! i = es ! i" by simp
    with nth2 None show ?thesis by simp
  next
    case s: (Some s)
    show ?thesis
    proof (cases "ev_path (es ! i)")
      case (Some p)
      with nth1 s have "es1 ! i = es ! i" by simp
      with nth2 Some s show ?thesis by simp
    next
      case path: None
      show ?thesis
      proof (cases "find (knows s) (rev (take i es))")
        case (Some x)
        then obtain p where p: "ev_path x = Some p" by (auto simp: find_Some_iff knows_def)
        with nth1 s path Some have "es1 ! i = (es ! i)\<lparr>ev_path := Some p\<rparr>" by simp
        with nth2 s path Some p show ?thesis by (simp add: session_folder_def)
      next
        case None
        with nth1 s path have same: "es1 ! i = es ! i" by simp
        have "\<forall>x\<in>set (take (Suc i) es). \<not> knows s x"
          using None path i by (auto simp: find_None_iff take_Suc_conv_app_nth knows_def)
        from fill_pass_drop[of Map.empty s "Suc i" es, OF _ this]
        obtain known' where "known' s = None" "drop (Suc i) es1 = fill_pass known' (drop (Suc i) es)"
          by (auto simp: es1_def)
        then have "find (knows s) (drop (Suc i) es1) = find (knows s) (drop (Suc i) es)"
          by (simp add: fill_pass_find)
        with nth2 s path None same show ?thesis by (simp add: session_folder_def)
      qed
    qed
  qed
qed

lemma length_fill_session_folders [simp]: "length (fill_session_folders es) = length es"
  by (simp add: fill_session_folders_def)

end
