(* ===== verification/Spans.thy ===== *)
theory Spans
  imports Infer
begin

text \<open>
  Blocks with a span that is decided first and events linked into it afterwards: \<open>span_block\<close> and
  \<open>events_between\<close> of \<open>infer_allocations.rs\<close>, and \<open>merge_touching_same_project\<close> of
  \<open>infer_evidence.rs\<close>, which undoes a spurious cut.
\<close>

definition events_between :: "infer_event list \<Rightarrow> instant \<Rightarrow> instant \<Rightarrow> infer_event list" where
  "events_between events s e = filter (\<lambda>x. s \<le> ev_ts x \<and> ev_ts x < e) events"

definition has_path :: "infer_event \<Rightarrow> bool" where
  "has_path x = (ev_path x \<noteq> None)"

definition with_anchor :: "infer_event list \<Rightarrow> instant \<Rightarrow> infer_event list \<Rightarrow> infer_event list option" where
  "with_anchor events s fallback =
     (if list_ex has_path events then Some events
      else case min_by_key (\<lambda>x. \<bar>num_seconds (ev_ts x - s)\<bar>) (filter has_path fallback) of
             None \<Rightarrow> None
           | Some nearest \<Rightarrow> Some (events @ [nearest]))"

definition span_block ::
    "env \<Rightarrow> infer_event list \<Rightarrow> instant \<Rightarrow> instant \<Rightarrow> infer_event list \<Rightarrow> bool \<Rightarrow> infer_block option" where
  "span_block env events s e fallback keep_thin =
     (case with_anchor events s fallback of
        None \<Rightarrow> None
      | Some evs \<Rightarrow>
          (case sort_key ev_ts evs of
             [] \<Rightarrow> None
           | first # rest \<Rightarrow>
               (let block = foldl extend_block (new_block env first) rest
                in finalize_ext (block\<lparr>ib_start := s, ib_end := e, ib_secs := num_seconds (e - s)\<rparr>)
                     (\<not> keep_thin))))"

section \<open>Merging touching pieces of one project\<close>

fun single_from :: "env \<Rightarrow> string option \<Rightarrow> infer_event list \<Rightarrow> string option option" where
  "single_from env key [] = Some key"
| "single_from env key (e # es) =
     (if is_lifecycle e then single_from env key es
      else case lane_key env e of
             None \<Rightarrow> single_from env key es
           | Some k \<Rightarrow>
               (case key of
                  None \<Rightarrow> single_from env (Some k) es
                | Some existing \<Rightarrow> if existing = k then single_from env key es else None))"

definition single_project :: "env \<Rightarrow> infer_block \<Rightarrow> string option option" where
  "single_project env b = single_from env None (ib_events b)"

fun retain_new :: "int set \<Rightarrow> infer_event list \<Rightarrow> infer_event list" where
  "retain_new seen [] = []"
| "retain_new seen (e # es) =
     (case ev_id e of
        None \<Rightarrow> e # retain_new seen es
      | Some i \<Rightarrow> if i \<in> seen then retain_new seen es else e # retain_new (insert i seen) es)"

definition same_project :: "env \<Rightarrow> infer_block \<Rightarrow> infer_block \<Rightarrow> infer_block option" where
  "same_project env prev b =
     (if \<not> ib_calendar prev \<and> \<not> ib_calendar b \<and> ib_end prev = ib_start b \<and> ib_jira prev = ib_jira b
         \<and> single_project env prev \<noteq> None \<and> single_project env prev = single_project env b
      then let evs = retain_new {} (sort_key ev_ts (ib_events prev @ ib_events b))
           in Some (prev\<lparr>ib_end := ib_end b, ib_secs := num_seconds (ib_end b - ib_start prev),
                ib_flagged := ib_flagged prev \<or> ib_flagged b, ib_events := evs,
                ib_event_ids := List.map_filter ev_id evs, ib_count := length evs\<rparr>)
      else None)"

definition merge_touching_same_project :: "env \<Rightarrow> infer_block list \<Rightarrow> infer_block list" where
  "merge_touching_same_project env blocks = coalesce (same_project env) (sort_key ib_start blocks)"

section \<open>What \<open>span_block\<close> returns\<close>

lemma foldl_extend_simps:
  "ib_events (foldl extend_block b es) = ib_events b @ es"
  "ib_count (foldl extend_block b es) = ib_count b + length es"
  "ib_event_ids (foldl extend_block b es) = ib_event_ids b @ List.map_filter ev_id es"
  "ib_flagged (foldl extend_block b es) = ib_flagged b"
  "ib_calendar (foldl extend_block b es) = ib_calendar b"
  by (induction es arbitrary: b)
     (simp_all add: extend_block_def Let_def push_id_def List.map_filter_def split: option.splits)

lemma with_anchor_Some:
  assumes "with_anchor events s fallback = Some evs"
  shows "list_ex has_path evs \<and> (\<exists>extra. evs = events @ extra \<and> set extra \<subseteq> set fallback \<and>
    (list_ex has_path events \<longrightarrow> extra = []) \<and> length extra \<le> 1)"
proof (cases "list_ex has_path events")
  case False
  with assms obtain x where x: "min_by_key (\<lambda>x. \<bar>num_seconds (ev_ts x - s)\<bar>) (filter has_path fallback) = Some x"
    "evs = events @ [x]" by (auto simp: with_anchor_def split: option.splits)
  from min_by_key_Some[OF x(1)] have "has_path x" "x \<in> set fallback" by auto
  with x(2) False show ?thesis by (intro conjI exI[of _ "[x]"]) simp_all
qed (use assms in \<open>auto simp: with_anchor_def\<close>)

lemma with_anchor_None: "with_anchor events s fallback = None \<longleftrightarrow> \<not> list_ex has_path (events @ fallback)"
  by (cases "min_by_key (\<lambda>x. \<bar>num_seconds (ev_ts x - s)\<bar>) (filter has_path fallback)")
     (auto simp: with_anchor_def list_ex_iff filter_empty_conv dest!: min_by_key_Some)

lemma with_anchor_sorted_ne: "with_anchor events s fallback = Some evs \<Longrightarrow> sort_key ev_ts evs \<noteq> []"
proof
  assume "with_anchor events s fallback = Some evs" "sort_key ev_ts evs = []"
  then have "list_ex has_path evs" "set evs = {}" using with_anchor_Some by (blast, metis set_sort list.set(1))
  then show False by simp
qed

lemma span_block_None:
  "span_block env events s e fallback keep_thin = None \<longleftrightarrow>
     \<not> list_ex has_path (events @ fallback) \<or> e \<le> s \<or> (\<not> keep_thin \<and> e - s < minutes MIN_BLOCK_MINUTES)"
proof (cases "with_anchor events s fallback")
  case None
  then show ?thesis using with_anchor_None[of events s fallback] by (simp add: span_block_def)
next
  case (Some evs)
  then obtain x xs where "sort_key ev_ts evs = x # xs"
    using with_anchor_sorted_ne by (cases "sort_key ev_ts evs") blast+
  with Some with_anchor_None[of events s fallback] show ?thesis
    by (auto simp: span_block_def finalize_ext_def Let_def)
qed

text \<open>A row as the database stores it: the stored counts and lengths agree with the block.\<close>

definition row_ok :: "infer_block \<Rightarrow> bool" where
  "row_ok b \<longleftrightarrow> ib_start b < ib_end b \<and> ib_secs b = num_seconds (ib_end b - ib_start b) \<and>
     ib_count b = length (ib_events b) \<and> ib_event_ids b = List.map_filter ev_id (ib_events b)"

definition flag_ok :: "infer_block \<Rightarrow> bool" where
  "flag_ok b \<longleftrightarrow> (ib_flagged b \<longleftrightarrow> minutes MAX_BLOCK_MINUTES < ib_end b - ib_start b)"

lemma block_final_row: "block_final b \<Longrightarrow> row_ok b \<and> flag_ok b"
  by (auto simp: block_final_def block_ok_def row_ok_def flag_ok_def infer_limits time_defs)

lemma span_block_Some:
  assumes "span_block env events s e fallback keep_thin = Some b"
  shows "ib_start b = s" "ib_end b = e" "row_ok b" "flag_ok b" "ib_jira b = unique_jira_issue (ib_events b)"
    "list_ex has_path (ib_events b)"
    "\<exists>extra. mset (ib_events b) = mset (events @ extra) \<and> set extra \<subseteq> set fallback \<and>
       (list_ex has_path events \<longrightarrow> extra = []) \<and> length extra \<le> 1"
proof -
  from assms obtain evs where evs: "with_anchor events s fallback = Some evs"
    by (auto simp: span_block_def split: option.splits)
  from with_anchor_sorted_ne[OF this] obtain x xs where xs: "sort_key ev_ts evs = x # xs"
    by (cases "sort_key ev_ts evs") auto
  let ?c = "foldl extend_block (new_block env x) xs"
  from assms evs xs have fin: "finalize_ext (?c\<lparr>ib_start := s, ib_end := e, ib_secs := num_seconds (e - s)\<rparr>) (\<not> keep_thin) = Some b"
    by (simp add: span_block_def Let_def)
  have c: "ib_events ?c = x # xs" "ib_count ?c = length (x # xs)" "ib_event_ids ?c = List.map_filter ev_id (x # xs)"
    "\<not> ib_flagged ?c"
    by (simp_all add: foldl_extend_simps) (simp_all add: new_block_def List.map_filter_def split: option.splits)
  note f = finalize_ext_Some[OF fin]
  then show "ib_start b = s" "ib_end b = e" "row_ok b" "flag_ok b" "ib_jira b = unique_jira_issue (ib_events b)"
    using c by (auto simp: row_ok_def flag_ok_def)
  from f c xs have b: "ib_events b = sort_key ev_ts evs" by simp
  then have m: "mset (ib_events b) = mset evs" by simp
  from with_anchor_Some[OF evs] obtain extra where ex: "list_ex has_path evs" "evs = events @ extra"
    "set extra \<subseteq> set fallback" "list_ex has_path events \<longrightarrow> extra = []" "length extra \<le> 1" by blast
  from ex(1) b show "list_ex has_path (ib_events b)" by (simp add: list_ex_iff)
  from ex m show "\<exists>extra. mset (ib_events b) = mset (events @ extra) \<and> set extra \<subseteq> set fallback \<and>
       (list_ex has_path events \<longrightarrow> extra = []) \<and> length extra \<le> 1" by blast
qed

section \<open>What merging keeps\<close>

definition block_span :: "infer_block \<Rightarrow> instant set" where
  "block_span b = {ib_start b..<ib_end b}"

definition starts_first :: "infer_block \<Rightarrow> infer_block \<Rightarrow> bool" where
  "starts_first a b = (ib_start a \<le> ib_start b)"

lemma retain_new_sub: "set (retain_new seen es) \<subseteq> set es"
  and retain_new_ids: "set (List.map_filter ev_id (retain_new seen es)) = set (List.map_filter ev_id es) - seen"
  and retain_new_distinct: "distinct (List.map_filter ev_id (retain_new seen es))"
  and retain_new_unnumbered: "\<forall>e\<in>set es. ev_id e = None \<longrightarrow> e \<in> set (retain_new seen es)"
proof -
  show sub: "set (retain_new seen es) \<subseteq> set es"
    by (induction seen es rule: retain_new.induct) (auto split: option.splits if_splits)
  show ids: "set (List.map_filter ev_id (retain_new seen es)) = set (List.map_filter ev_id es) - seen" for seen es
    by (induction seen es rule: retain_new.induct) (auto simp: map_filter_simps split: option.splits)
  show "distinct (List.map_filter ev_id (retain_new seen es))"
    by (induction seen es rule: retain_new.induct) (auto simp: map_filter_simps ids split: option.splits)
  show "\<forall>e\<in>set es. ev_id e = None \<longrightarrow> e \<in> set (retain_new seen es)"
    by (induction seen es rule: retain_new.induct) (auto split: option.splits)
qed

lemma same_project_Some:
  assumes "same_project env x y = Some z"
  shows "ib_start z = ib_start x" "ib_end z = ib_end y" "ib_end x = ib_start y" "ib_jira z = ib_jira x"
    "ib_jira y = ib_jira x" "ib_secs z = num_seconds (ib_end y - ib_start x)"
    "ib_count z = length (ib_events z)" "ib_event_ids z = List.map_filter ev_id (ib_events z)"
    "ib_events z = retain_new {} (sort_key ev_ts (ib_events x @ ib_events y))"
    "ib_flagged z = (ib_flagged x \<or> ib_flagged y)" "\<not> ib_calendar z"
  using assms by (auto simp: same_project_def Let_def split: if_splits)

interpretation same: coalescer "same_project env" row_ok starts_first block_span for env
proof unfold_locales
  fix x y z :: infer_block
  assume z: "same_project env x y = Some z" and ok: "row_ok x" "row_ok y"
  show "row_ok z" using same_project_Some[OF z] ok by (auto simp: row_ok_def)
  show "block_span z = block_span x \<union> block_span y"
    using same_project_Some[OF z] ok by (auto simp: row_ok_def block_span_def)
qed (auto simp: starts_first_def dest: same_project_Some(1))

lemma rows_chain: "\<forall>b\<in>set bs. row_ok b \<Longrightarrow> same.chain (sort_key ib_start bs)"
proof -
  assume "\<forall>b\<in>set bs. row_ok b"
  moreover have "sorted (map ib_start (sort_key ib_start bs))" by simp
  then have "sorted_wrt starts_first (sort_key ib_start bs)"
    unfolding sorted_wrt_map starts_first_def by simp
  ultimately show ?thesis by (simp add: same.chain_def)
qed

lemma merge_touching_same_project_rows:
  assumes "\<forall>b\<in>set bs. row_ok b"
  shows "\<forall>b\<in>set (merge_touching_same_project env bs). row_ok b"
    and "(\<Union>b\<in>set (merge_touching_same_project env bs). block_span b) = (\<Union>b\<in>set bs. block_span b)"
  using same.coalesce_chain[OF rows_chain[OF assms], of env] same.coalesce_cov[OF rows_chain[OF assms], of env]
  by (simp_all add: merge_touching_same_project_def same.chain_def)

text \<open>No time is gained or lost: the block lengths add up to the same total.\<close>

definition block_length :: "infer_block \<Rightarrow> span" where
  "block_length b = ib_end b - ib_start b"

definition total_length :: "infer_block list \<Rightarrow> span" where
  "total_length bs = sum_list (map block_length bs)"

lemma sum_list_perm: "mset xs = mset ys \<Longrightarrow> sum_list (map g xs) = (sum_list (map g ys) :: int)"
  by (metis mset_map sum_mset_sum_list)

lemma total_length_sort [simp]: "total_length (sort_key k bs) = total_length bs"
  unfolding total_length_def by (rule sum_list_perm) simp

lemma merge_touching_same_project_length: "total_length (merge_touching_same_project env bs) = total_length bs"
proof -
  have "total_length (merge_touching_same_project env bs) = total_length (sort_key ib_start bs)"
    unfolding total_length_def merge_touching_same_project_def
    by (rule coalesce_sum) (simp add: block_length_def same_project_Some)
  then show ?thesis by simp
qed

end
