(* ===== verification/LaneTags.thy ===== *)
theory LaneTags
  imports Spans
begin

text \<open>
  \<open>infer_lane_tags.rs\<close>: a finished folder block is divided into one block per customer. The sub-runs
  tile the block's own minutes (\<open>tiling\<close>), so customer tags move no time between folders.
  A minute is turned back into an instant by \<open>minute_start\<close> (\<open>DateTime::from_timestamp\<close>, which only
  fails outside chrono's range of 262,000 years).
\<close>

definition minute_start :: "int \<Rightarrow> instant" where
  "minute_start m = from_timestamp (m * 60)"

section \<open>Sub-runs of a folder\<close>

fun fill_gaps :: "run list \<Rightarrow> run list" where
  "fill_gaps (a # b # rs) =
     (if run_end a + 1 < run_start b then (run_owner a, run_start a, run_start b - 1) else a)
       # fill_gaps (b # rs)"
| "fill_gaps rs = rs"

definition set_start :: "int \<Rightarrow> run list \<Rightarrow> run list" where
  "set_start s rs = (let r = rs ! 0 in rs[0 := (run_owner r, s, run_end r)])"

definition set_end :: "int \<Rightarrow> run list \<Rightarrow> run list" where
  "set_end e rs = (let r = rs ! (length rs - 1) in rs[length rs - 1 := (run_owner r, run_start r, e)])"

definition tile :: "run list \<Rightarrow> int \<Rightarrow> int \<Rightarrow> run list" where
  "tile runs s e = merge_touching_same_owner (fill_gaps (set_end e (set_start s (sort_key run_start runs))))"

definition own_minutes :: "run \<Rightarrow> keyed list \<Rightarrow> nat" where
  "own_minutes r rows = card (fst ` set (own_rows r rows))"

function fold_weak :: "keyed list \<Rightarrow> run list \<Rightarrow> run list" where
  "fold_weak rows runs =
     (if 1 < length runs
      then case position (\<lambda>r. own_minutes r rows < MIN_EVIDENCE_MINUTES) runs of
             None \<Rightarrow> runs
           | Some i \<Rightarrow>
               (let r = runs ! i;
                    rest = remove_at i runs
                in fold_weak rows
                     (if i = 0 then set_start (run_start r) rest
                      else (let p = rest ! (i - 1)
                            in rest[i - 1 := (run_owner p, run_start p, run_end r)])))
      else runs)"
  by pat_completeness auto
termination
  by (relation "measure (\<lambda>(rows, runs). length runs)")
     (auto simp: set_start_def Let_def dest!: position_Some)

declare fold_weak.simps [simp del]

definition fold_weak_sub_runs :: "run list \<Rightarrow> keyed list \<Rightarrow> run list" where
  "fold_weak_sub_runs runs rows = merge_touching_same_owner (fold_weak rows runs)"

definition clamp_runs :: "int \<Rightarrow> int \<Rightarrow> run list \<Rightarrow> run list" where
  "clamp_runs s e runs =
     List.map_filter (\<lambda>r. let cs = max (run_start r) s; ce = min (run_end r) e
                     in if cs \<le> ce then Some (run_owner r, cs, ce) else None) runs"

definition folder_events :: "env \<Rightarrow> string \<Rightarrow> infer_event list \<Rightarrow> infer_event list" where
  "folder_events env folder events = filter (\<lambda>x. lane_folder env x = Some folder) events"

definition row_owner :: "keyed \<Rightarrow> string" where
  "row_owner row = fst (snd row)"

definition split_one :: "env \<Rightarrow> string \<Rightarrow> int \<Rightarrow> int \<Rightarrow> infer_event list \<Rightarrow> run list" where
  "split_one env folder s e events =
     (let rows = keyed_by (folder_events env folder events) (lane_key env);
          single = [(case rows of [] \<Rightarrow> folder | row # _ \<Rightarrow> row_owner row, s, e)]
      in if length (btree_keys (map row_owner rows)) < 2 then single
         else let clamped = clamp_runs s e (merge_by_evidence (fold_short_runs (owner_runs rows)) rows)
              in if clamped = [] then single
                 else fold_weak_sub_runs (tile clamped s e) rows)"

section \<open>Dividing a block\<close>

definition run_dist :: "int \<Rightarrow> run \<Rightarrow> int" where
  "run_dist m r = max (max (run_start r - m) (m - run_end r)) 0"

definition nearest_run :: "run list \<Rightarrow> int \<Rightarrow> (run \<Rightarrow> bool) \<Rightarrow> nat option" where
  "nearest_run subs m pick =
     min_by_key (\<lambda>i. run_dist m (subs ! i)) (filter (\<lambda>i. pick (subs ! i)) [0..<length subs])"

definition sub_run_for :: "env \<Rightarrow> run list \<Rightarrow> infer_event \<Rightarrow> nat option" where
  "sub_run_for env subs e =
     (let m = minute (ev_ts e); key = lane_key env e
      in case nearest_run subs m (\<lambda>_. True) of
           None \<Rightarrow> None
         | Some covering \<Rightarrow>
             if ev_tag e = None \<or> key = Some (run_owner (subs ! covering)) then Some covering
             else nearest_run subs m (\<lambda>r. key = Some (run_owner r)))"

definition sub_events :: "env \<Rightarrow> run list \<Rightarrow> infer_event list \<Rightarrow> nat \<Rightarrow> infer_event list" where
  "sub_events env subs events i = filter (\<lambda>e. sub_run_for env subs e = Some i) events"

definition own_events :: "env \<Rightarrow> string \<Rightarrow> infer_event list \<Rightarrow> infer_event list" where
  "own_events env owner folder_evs =
     (let own = filter (\<lambda>x. lane_key env x = Some owner) folder_evs
      in if own = [] then folder_evs else own)"

definition last_minute_of :: "infer_block \<Rightarrow> int" where
  "last_minute_of b = (timestamp (ib_end b) - 1) div 60"

definition piece_span :: "infer_block \<Rightarrow> run list \<Rightarrow> nat \<Rightarrow> instant \<times> instant" where
  "piece_span b subs i =
     (if i = 0 then ib_start b else minute_start (run_start (subs ! i)),
      if i = length subs - 1 then ib_end b else minute_start (run_end (subs ! i) + 1))"

definition divide_block :: "env \<Rightarrow> infer_event list \<Rightarrow> infer_block \<Rightarrow> infer_block list" where
  "divide_block env day b =
     (if list_all (\<lambda>e. ev_tag e = None) (ib_events b) then [b]
      else case find_some (lane_folder env) (ib_events b) of
             None \<Rightarrow> [b]
           | Some folder \<Rightarrow>
               (let subs = split_one env folder (minute (ib_start b)) (last_minute_of b) day
                in if length subs = 1 \<and> length (sub_events env subs (ib_events b) 0) = length (ib_events b)
                   then [b]
                   else List.map_filter (\<lambda>i.
                          let (lo, hi) = piece_span b subs i
                          in span_block env (sub_events env subs (ib_events b) i) lo hi
                               (own_events env (run_owner (subs ! i)) (folder_events env folder day)) True)
                        [0..<length subs]))"

definition divide_blocks :: "env \<Rightarrow> infer_event list \<Rightarrow> infer_block list \<Rightarrow> infer_block list" where
  "divide_blocks env day blocks = concat (map (divide_block env day) blocks)"

section \<open>The sub-runs tile the block's minutes\<close>

fun tiling :: "int \<Rightarrow> int \<Rightarrow> run list \<Rightarrow> bool" where
  "tiling s e [] = False"
| "tiling s e [r] = (run_start r = s \<and> run_end r = e \<and> s \<le> e)"
| "tiling s e (r # q # rs) = (run_start r = s \<and> s \<le> run_end r \<and> tiling (run_end r + 1) e (q # rs))"

lemma tiling_ne: "tiling s e rs \<Longrightarrow> rs \<noteq> []"
  by auto

lemma tiling_le: "tiling s e rs \<Longrightarrow> s \<le> e"
  by (induction s e rs rule: tiling.induct) auto

lemma tiling_runs_ok: "tiling s e rs \<Longrightarrow> runs_ok rs \<and> minutes_of rs = {s..e}"
proof (induction s e rs rule: tiling.induct)
  case (3 s e r q rs)
  then have t: "tiling (run_end r + 1) e (q # rs)" and r: "run_start r = s" "s \<le> run_end r" by simp_all
  from 3(1)[OF t] have ok: "runs_ok (q # rs)" and m: "minutes_of (q # rs) = {run_end r + 1..e}" by blast+
  have "run_end r < run_start x" if "x \<in> set (q # rs)" for x
  proof -
    have "run_start x \<in> run_minutes x" using ok that by (auto simp: runs_ok_def run_minutes_def run_ok_iff)
    then have "run_start x \<in> minutes_of (q # rs)" using that by (auto simp: minutes_of_def)
    then show ?thesis unfolding m by simp
  qed
  then have "runs_ok (r # q # rs)" using ok r by (simp add: runs_ok_Cons[of r] run_before_def run_ok_iff)
  moreover have "minutes_of (r # q # rs) = {s..run_end r} \<union> minutes_of (q # rs)"
    using r by (auto simp: minutes_of_def run_minutes_def)
  then have "minutes_of (r # q # rs) = {s..e}" using m r tiling_le[OF t] by auto
  ultimately show ?case by blast
qed (auto simp: runs_ok_def minutes_of_def run_minutes_def run_ok_iff)

lemma same_owner_Some: "same_owner x y = Some z \<Longrightarrow> run_start z = run_start x \<and> run_end z = run_end y"
  by (auto simp: same_owner_def split: if_splits)

lemma tiling_coalesce: "tiling s e rs \<Longrightarrow> tiling s e (coalesce same_owner rs)"
proof (induction rs arbitrary: s rule: coalesce_induct[where f = same_owner])
  case (two x y ys)
  show ?case
  proof (cases "same_owner x y")
    case None
    have "coalesce same_owner (y # ys) \<noteq> []" by simp
    then obtain q qs where q: "coalesce same_owner (y # ys) = q # qs" by (cases "coalesce same_owner (y # ys)") auto
    from two.IH(1)[OF None, of "run_end x + 1"] two.prems None q show ?thesis by simp
  next
    case (Some z)
    from two.prems have "tiling s e (z # ys)"
      using same_owner_Some[OF Some] by (cases ys) (use tiling_le in fastforce)+
    from two.IH(2)[OF Some this] Some show ?thesis by simp
  qed
qed simp_all

lemma fill_gaps_ne [simp]: "fill_gaps rs = [] \<longleftrightarrow> rs = []"
  by (cases rs rule: fill_gaps.cases) simp_all

lemma tiling_Cons: "rs \<noteq> [] \<Longrightarrow> tiling s e (r # rs) \<longleftrightarrow> run_start r = s \<and> s \<le> run_end r \<and> tiling (run_end r + 1) e rs"
  by (cases rs) simp_all

lemma fill_gaps_tiling:
  "runs_ok rs \<Longrightarrow> rs \<noteq> [] \<Longrightarrow> run_start (hd rs) = s \<Longrightarrow> run_end (last rs) = e \<Longrightarrow> tiling s e (fill_gaps rs)"
proof (induction rs arbitrary: s rule: fill_gaps.induct)
  case (1 a b rs)
  from 1(2) have ok: "runs_ok (b # rs)" and ab: "run_end a < run_start b" and a: "run_start a \<le> run_end a"
    by (simp_all add: runs_ok_Cons run_before_def run_ok_iff)
  from 1(1)[OF ok] 1(5) have "tiling (run_start b) e (fill_gaps (b # rs))" by simp
  then show ?case
  proof (cases "run_end a + 1 < run_start b")
    case False
    with ab have "run_start b = run_end a + 1" by simp
    with \<open>tiling (run_start b) e (fill_gaps (b # rs))\<close> False a 1(4) show ?thesis by (simp add: tiling_Cons)
  qed (use a 1(4) in \<open>simp add: tiling_Cons\<close>)
qed (auto simp: runs_ok_Cons run_ok_iff)

lemma set_start_ok:
  assumes "runs_ok rs" "rs \<noteq> []" "s \<le> run_start (hd rs)"
  shows "runs_ok (set_start s rs) \<and> set_start s rs \<noteq> [] \<and> run_start (hd (set_start s rs)) = s
    \<and> run_end (last (set_start s rs)) = run_end (last rs)"
  using assms by (cases rs) (auto simp: set_start_def runs_ok_Cons run_before_def run_ok_iff)

lemma set_end_ok:
  assumes "runs_ok rs" "rs \<noteq> []" "run_end (last rs) \<le> e"
  shows "runs_ok (set_end e rs) \<and> set_end e rs \<noteq> [] \<and> run_start (hd (set_end e rs)) = run_start (hd rs)
    \<and> run_end (last (set_end e rs)) = e"
proof -
  obtain us r where rs: "rs = us @ [r]" using assms(2) by (cases rs rule: rev_cases) auto
  then have "set_end e rs = us @ [(run_owner r, run_start r, e)]" by (simp add: set_end_def Let_def)
  with assms rs show ?thesis
    by (cases us) (auto simp: runs_ok_append runs_ok_Cons run_before_def run_ok_iff)
qed

lemma runs_ok_sort: "runs_ok rs \<Longrightarrow> sort_key run_start rs = rs"
proof (rule sort_key_id_if_sorted)
  assume "runs_ok rs"
  then show "sorted (map run_start rs)"
    by (induction rs) (auto simp: runs_ok_Cons run_before_def run_ok_iff intro: less_imp_le le_less_trans)
qed

lemma tile_tiling:
  assumes "runs_ok rs" "rs \<noteq> []" "s \<le> run_start (hd rs)" "run_end (last rs) \<le> e"
  shows "tiling s e (tile rs s e)"
proof -
  from set_start_ok[OF assms(1-3)] assms(4) have 1: "runs_ok (set_start s rs)" "set_start s rs \<noteq> []"
    "run_start (hd (set_start s rs)) = s" "run_end (last (set_start s rs)) \<le> e" by simp_all
  from set_end_ok[OF 1(1,2,4)] 1(3) have "tiling s e (fill_gaps (set_end e (set_start s rs)))"
    by (intro fill_gaps_tiling) simp_all
  then show ?thesis
    unfolding tile_def merge_touching_same_owner_def runs_ok_sort[OF assms(1)] by (rule tiling_coalesce)
qed

lemma clamp_runs_ok:
  assumes "runs_ok rs"
  shows "runs_ok (clamp_runs s e rs) \<and> (\<forall>r\<in>set (clamp_runs s e rs). s \<le> run_start r \<and> run_end r \<le> e)"
  using assms
proof (induction rs)
  case (Cons r rs)
  have after: "min (run_end r) e < run_start q" if "q \<in> set (clamp_runs s e rs)" for q
    using that Cons.prems by (fastforce simp: clamp_runs_def List.map_filter_def Let_def runs_ok_Cons run_before_def split: if_splits)
  have "clamp_runs s e (r # rs) = (if max (run_start r) s \<le> min (run_end r) e
      then (run_owner r, max (run_start r) s, min (run_end r) e) # clamp_runs s e rs else clamp_runs s e rs)"
    by (simp add: clamp_runs_def map_filter_simps Let_def)
  with after Cons.IH Cons.prems show ?case
    by (simp add: runs_ok_Cons run_before_def)
qed (simp add: clamp_runs_def map_filter_simps runs_ok_Nil)

lemma tiling_merge: "tiling s e (us @ p # r # vs) \<Longrightarrow> tiling s e (us @ (k, run_start p, run_end r) # vs)"
proof (induction us arbitrary: s)
  case Nil
  then show ?case by (cases vs) (use tiling_le in fastforce)+
next
  case (Cons u us)
  then show ?case by (cases us) simp_all
qed

lemma fold_weak_tiling: "tiling s e rs \<Longrightarrow> tiling s e (fold_weak rows rs)"
proof (induction rows rs rule: fold_weak.induct)
  case (1 rows rs)
  show ?case
  proof (cases "1 < length rs")
    case len: True
    show ?thesis
    proof (cases "position (\<lambda>r. own_minutes r rows < MIN_EVIDENCE_MINUTES) rs")
      case None
      with 1(2) len show ?thesis by (simp add: fold_weak.simps)
    next
      case (Some i)
      let ?rest = "remove_at i rs"
      let ?next = "if i = 0 then set_start (run_start (rs ! i)) ?rest
                   else (let p = ?rest ! (i - 1) in ?rest[i - 1 := (run_owner p, run_start p, run_end (rs ! i))])"
      from position_Some[OF Some] have i: "i < length rs" by simp
      from split_at[OF this] obtain us r vs where rs: "rs = us @ r # vs" "i = length us" by blast
      have "tiling s e ?next"
      proof (cases "i = 0")
        case True
        with rs len obtain q qs where "rs = r # q # qs" by (cases vs) auto
        with True 1(2) show ?thesis by (cases qs) (use tiling_le in \<open>fastforce simp: set_start_def\<close>)+
      next
        case False
        with rs obtain us' p where "us = us' @ [p]" by (cases us rule: rev_cases) auto
        with rs False 1(2) tiling_merge[of s e us' p r vs] show ?thesis
          by (simp add: remove_at_def nth_append list_update_append Let_def)
      qed
      with 1(1)[OF len Some refl] len Some show ?thesis by (subst fold_weak.simps) (simp add: Let_def)
    qed
  qed (use 1(2) in \<open>simp add: fold_weak.simps\<close>)
qed

lemma split_one_tiling:
  assumes "s \<le> e"
  shows "tiling s e (split_one env folder s e events)"
proof -
  define rows where "rows = keyed_by (folder_events env folder events) (lane_key env)"
  define clamped where "clamped = clamp_runs s e (merge_by_evidence (fold_short_runs (owner_runs rows)) rows)"
  have "runs_ok (merge_by_evidence (fold_short_runs (owner_runs rows)) rows)"
    by (intro merge_by_evidence_inv(1) fold_short_runs_ok owner_runs_ok)
  then have c: "runs_ok clamped" "\<forall>r\<in>set clamped. s \<le> run_start r \<and> run_end r \<le> e"
    using clamp_runs_ok by (auto simp: clamped_def)
  have "tiling s e (fold_weak_sub_runs (tile clamped s e) rows)" if "clamped \<noteq> []"
    unfolding fold_weak_sub_runs_def merge_touching_same_owner_def
    using c that by (intro tiling_coalesce fold_weak_tiling tile_tiling) simp_all
  then show ?thesis
    using assms unfolding split_one_def Let_def rows_def[symmetric] clamped_def[symmetric] by simp
qed

section \<open>Dividing a block moves no time\<close>

definition spans_tile :: "instant \<Rightarrow> instant \<Rightarrow> infer_block list \<Rightarrow> bool" where
  "spans_tile s e bs \<longleftrightarrow> bs \<noteq> [] \<and> ib_start (hd bs) = s \<and> ib_end (last bs) = e \<and>
     (\<forall>b\<in>set bs. ib_start b < ib_end b) \<and> successively (\<lambda>a b. ib_end a = ib_start b) bs"

lemma spans_tile_Cons:
  "bs \<noteq> [] \<Longrightarrow> spans_tile s e (b # bs) \<longleftrightarrow>
     ib_start b = s \<and> s < ib_end b \<and> spans_tile (ib_end b) e bs"
  by (auto simp: spans_tile_def successively_Cons)

lemma spans_tile_length: "spans_tile s e bs \<Longrightarrow> total_length bs = e - s"
proof (induction bs arbitrary: s)
  case (Cons b bs)
  show ?case
  proof (cases "bs = []")
    case False
    with Cons.prems have b: "ib_start b = s" "spans_tile (ib_end b) e bs" by (simp_all add: spans_tile_Cons)
    from Cons.IH[OF b(2)] b(1) show ?thesis by (simp add: total_length_def block_length_def)
  qed (use Cons.prems in \<open>simp add: spans_tile_def total_length_def block_length_def\<close>)
qed (simp add: spans_tile_def)

lemma tiling_nth:
  "tiling s e rs \<Longrightarrow> i < length rs \<Longrightarrow> s \<le> run_start (rs ! i) \<and> run_start (rs ! i) \<le> run_end (rs ! i) \<and> run_end (rs ! i) \<le> e
    \<and> (0 < i \<longrightarrow> s < run_start (rs ! i)) \<and> (Suc i < length rs \<longrightarrow> run_start (rs ! Suc i) = run_end (rs ! i) + 1)"
proof (induction s e rs arbitrary: i rule: tiling.induct)
  case (3 s e r q rs)
  then have t: "tiling (run_end r + 1) e (q # rs)" and r: "run_start r = s" "s \<le> run_end r" by simp_all
  show ?case
  proof (cases i)
    case 0
    have "run_start q = run_end r + 1" using t by (cases rs) simp_all
    with 0 r tiling_le[OF t] show ?thesis by simp
  next
    case (Suc j)
    with 3(3) have "j < length (q # rs)" by simp
    from 3(1)[OF t this] Suc r show ?thesis by auto
  qed
qed auto

lemma minute_start_mono: "m < n \<Longrightarrow> minute_start m < minute_start n"
  by (simp add: minute_start_def time_defs)

lemma minute_start_after: "minute t \<le> m \<Longrightarrow> t < minute_start (m + 1)"
  using minute_bounds(2)[of t] by (simp add: minute_start_def time_defs algebra_simps)

lemma minute_start_before: "m \<le> last_minute_of b \<Longrightarrow> minute_start m < ib_end b"
proof -
  assume "m \<le> last_minute_of b"
  then have "m * 60 \<le> timestamp (ib_end b) - 1" by (simp add: last_minute_of_def)
  then show ?thesis by (simp add: minute_start_def time_defs)
qed

lemma last_minute_ge: "NS \<le> ib_end b - ib_start b \<Longrightarrow> minute (ib_start b) \<le> last_minute_of b"
proof -
  assume "NS \<le> ib_end b - ib_start b"
  then have "timestamp (ib_start b) \<le> timestamp (ib_end b) - 1" by (simp add: time_defs)
  then show ?thesis by (simp add: minute_def last_minute_of_def zdiv_mono1)
qed

lemma piece_span_ok:
  assumes t: "tiling (minute (ib_start b)) (last_minute_of b) subs" and b: "ib_start b < ib_end b" and i: "i < length subs"
  shows "fst (piece_span b subs i) < snd (piece_span b subs i)"
proof -
  note n = tiling_nth[OF t i]
  have "minute (ib_start b) \<le> run_end (subs ! i)" "run_start (subs ! i) \<le> last_minute_of b" using n by linarith+
  then show ?thesis
    using n b minute_start_after[of "ib_start b" "run_end (subs ! i)"] minute_start_before[of "run_start (subs ! i)" b]
      minute_start_mono[of "run_start (subs ! i)" "run_end (subs ! i) + 1"]
    by (auto simp: piece_span_def)
qed

lemma piece_span_next:
  assumes t: "tiling s e subs" and i: "Suc i < length subs"
  shows "snd (piece_span b subs i) = fst (piece_span b subs (Suc i))"
  using tiling_nth[OF t, of i] i by (auto simp: piece_span_def)

lemma own_events_path:
  assumes "x \<in> set events" "lane_folder env x = Some folder"
  shows "list_ex has_path (own_events env owner (folder_events env folder events))"
proof -
  let ?own = "own_events env owner (folder_events env folder events)"
  have "folder_events env folder events \<noteq> []" using assms by (auto simp: folder_events_def filter_empty_conv)
  then have "?own \<noteq> []" by (auto simp: own_events_def Let_def)
  moreover have "set ?own \<subseteq> set (folder_events env folder events)" by (auto simp: own_events_def Let_def)
  ultimately obtain y where "y \<in> set ?own" "y \<in> set (folder_events env folder events)"
    by (meson last_in_set subsetD)
  then have "y \<in> set ?own" "lane_folder env y = Some folder" by (simp_all add: folder_events_def)
  then have "has_path y" by (auto simp: lane_folder_def has_path_def)
  with \<open>y \<in> set ?own\<close> show ?thesis by (auto simp: list_ex_iff)
qed

lemma map_filter_total: "\<forall>x\<in>set xs. f x \<noteq> None \<Longrightarrow> List.map_filter f xs = map (\<lambda>x. the (f x)) xs"
  by (induction xs) (auto simp: map_filter_simps)

lemma spans_tile_indexed:
  assumes "n \<noteq> 0" "\<And>i. i < n \<Longrightarrow> ib_start (g i) = fst (h i) \<and> ib_end (g i) = snd (h i) \<and> fst (h i) < snd (h i)"
    and "\<And>i. Suc i < n \<Longrightarrow> snd (h i) = fst (h (Suc i))"
  shows "spans_tile (fst (h 0)) (snd (h (n - 1))) (map g [0..<n])"
  using assms by (simp add: spans_tile_def hd_map last_map successively_conv_nth)

lemma divide_block_tiles:
  assumes len: "NS \<le> ib_end b - ib_start b" and day: "set (ib_events b) \<subseteq> set day"
  shows "spans_tile (ib_start b) (ib_end b) (divide_block env day b)"
proof -
  have lt: "ib_start b < ib_end b" using len by (simp add: NS_def)
  then have one: "spans_tile (ib_start b) (ib_end b) [b]" by (simp add: spans_tile_def)
  show ?thesis
  proof (cases "list_all (\<lambda>e. ev_tag e = None) (ib_events b) \<or> find_some (lane_folder env) (ib_events b) = None")
    case True
    then show ?thesis using one by (auto simp: divide_block_def)
  next
    case False
    then obtain folder where f: "find_some (lane_folder env) (ib_events b) = Some folder" by blast
    define subs where "subs = split_one env folder (minute (ib_start b)) (last_minute_of b) day"
    define g where "g i = span_block env (sub_events env subs (ib_events b) i) (fst (piece_span b subs i)) (snd (piece_span b subs i))
       (own_events env (run_owner (subs ! i)) (folder_events env folder day)) True" for i
    have t: "tiling (minute (ib_start b)) (last_minute_of b) subs"
      unfolding subs_def by (rule split_one_tiling) (rule last_minute_ge[OF len])
    from find_some_Some[OF f] obtain x where "x \<in> set day" "lane_folder env x = Some folder" using day by auto
    note anchor = own_events_path[OF this]
    have span: "g i \<noteq> None" if "i < length subs" for i
      using anchor piece_span_ok[OF t lt that] by (simp add: g_def span_block_None)
    have eq: "divide_block env day b =
        (if length subs = 1 \<and> length (sub_events env subs (ib_events b) 0) = length (ib_events b) then [b]
         else List.map_filter g [0..<length subs])"
      using False f by (simp add: divide_block_def Let_def subs_def[symmetric] g_def[abs_def] split_beta)
    have "List.map_filter g [0..<length subs] = map (\<lambda>i. the (g i)) [0..<length subs]"
      using span by (intro map_filter_total) simp
    moreover have "spans_tile (fst (piece_span b subs 0)) (snd (piece_span b subs (length subs - 1)))
        (map (\<lambda>i. the (g i)) [0..<length subs])"
    proof (rule spans_tile_indexed)
      show "length subs \<noteq> 0" using tiling_ne[OF t] by simp
      fix i assume i: "i < length subs"
      then obtain y where "g i = Some y" using span by blast
      with span_block_Some(1,2)[OF this[unfolded g_def]] piece_span_ok[OF t lt i]
      show "ib_start (the (g i)) = fst (piece_span b subs i) \<and> ib_end (the (g i)) = snd (piece_span b subs i) \<and>
          fst (piece_span b subs i) < snd (piece_span b subs i)" by simp
    qed (use piece_span_next[OF t] in blast)
    moreover have "fst (piece_span b subs 0) = ib_start b" "snd (piece_span b subs (length subs - 1)) = ib_end b"
      by (simp_all add: piece_span_def)
    ultimately show ?thesis using one by (simp add: eq)
  qed
qed

section \<open>No block holds two customers\<close>

lemma nearest_run_Some: "nearest_run subs m pick = Some i \<Longrightarrow> i < length subs \<and> pick (subs ! i)"
  unfolding nearest_run_def by (drule min_by_key_Some) auto

lemma sub_run_for_tagged:
  "sub_run_for env subs e = Some i \<Longrightarrow> ev_tag e \<noteq> None \<Longrightarrow> lane_key env e = Some (run_owner (subs ! i))"
  by (auto simp: sub_run_for_def Let_def dest: nearest_run_Some split: option.splits if_splits)

definition one_customer :: "env \<Rightarrow> infer_event list \<Rightarrow> bool" where
  "one_customer env es \<longleftrightarrow> (\<forall>x\<in>set es. \<forall>y\<in>set es.
     ev_tag x \<noteq> None \<and> has_path x \<and> ev_tag y \<noteq> None \<and> has_path y \<longrightarrow> lane_key env x = lane_key env y)"

lemma one_customerI:
  "(\<And>x. x \<in> set es \<Longrightarrow> ev_tag x \<noteq> None \<Longrightarrow> has_path x \<Longrightarrow> lane_key env x = Some k) \<Longrightarrow> one_customer env es"
  by (auto simp: one_customer_def)

lemma divide_block_one_customer: "\<forall>p\<in>set (divide_block env day b). one_customer env (ib_events p)"
proof (cases "list_all (\<lambda>e. ev_tag e = None) (ib_events b) \<or> find_some (lane_folder env) (ib_events b) = None")
  case True
  then have "one_customer env (ib_events b)"
    by (auto simp: one_customer_def list_all_iff find_some_None has_path_def)
  with True show ?thesis by (auto simp: divide_block_def)
next
  case False
  then obtain folder where f: "find_some (lane_folder env) (ib_events b) = Some folder" by blast
  define subs where "subs = split_one env folder (minute (ib_start b)) (last_minute_of b) day"
  have eq: "divide_block env day b =
        (if length subs = 1 \<and> length (sub_events env subs (ib_events b) 0) = length (ib_events b) then [b]
         else List.map_filter (\<lambda>i. span_block env (sub_events env subs (ib_events b) i) (fst (piece_span b subs i)) (snd (piece_span b subs i))
           (own_events env (run_owner (subs ! i)) (folder_events env folder day)) True) [0..<length subs])"
    using False f by (simp add: divide_block_def Let_def subs_def[symmetric] split_beta)
  have piece: "one_customer env (ib_events p)"
    if p: "span_block env (sub_events env subs (ib_events b) i) lo hi
         (own_events env (run_owner (subs ! i)) (folder_events env folder day)) True = Some p" for i lo hi p
  proof -
    let ?own = "own_events env (run_owner (subs ! i)) (folder_events env folder day)"
    let ?evs = "sub_events env subs (ib_events b) i"
    from span_block_Some(7)[OF p] obtain extra where ex: "mset (ib_events p) = mset (?evs @ extra)"
      "set extra \<subseteq> set ?own" "list_ex has_path ?evs \<longrightarrow> extra = []" "length extra \<le> 1" by blast
    from ex(1) have s: "set (ib_events p) = set ?evs \<union> set extra" by (metis set_append set_mset_mset)
    have evs: "lane_key env x = Some (run_owner (subs ! i))" if "x \<in> set ?evs" "ev_tag x \<noteq> None" for x
      using that sub_run_for_tagged by (auto simp: sub_events_def)
    show ?thesis
    proof (cases extra)
      case Nil
      then show ?thesis using s evs by (intro one_customerI) simp
    next
      case (Cons z zs)
      with ex(3,4) have z: "extra = [z]" and "\<forall>x\<in>set ?evs. \<not> has_path x" by (auto simp: list_ex_iff)
      then show ?thesis using s by (auto simp: one_customer_def)
    qed
  qed
  show ?thesis
  proof (cases "length subs = 1 \<and> length (sub_events env subs (ib_events b) 0) = length (ib_events b)")
    case True
    then have all: "sub_events env subs (ib_events b) 0 = ib_events b"
      by (simp add: sub_events_def) (metis filter_True length_filter_less less_irrefl)
    have "one_customer env (ib_events b)"
    proof (rule one_customerI)
      fix x assume "x \<in> set (ib_events b)" "ev_tag x \<noteq> None"
      then have "x \<in> set (sub_events env subs (ib_events b) 0)" using all by simp
      with \<open>ev_tag x \<noteq> None\<close> show "lane_key env x = Some (run_owner (subs ! 0))"
        by (auto simp: sub_events_def dest: sub_run_for_tagged)
    qed
    then show ?thesis using eq True by simp
  next
    case False
    then show ?thesis using eq piece by (auto simp: List.map_filter_def)
  qed
qed

end
