(* ===== verification/DayBuild.thy ===== *)
theory DayBuild
  imports LaneTags
begin

text \<open>
  \<open>infer_lanes.rs\<close> from a day's events to its blocks: \<open>build_project_blocks\<close> (one block per owned run,
  calendar and leftover events clustered on their own), \<open>place_folderless\<close> and
  \<open>build_blocks_by_project\<close>. The clustering function the code passes as \<open>build\<close> is
  \<open>build_blocks_sequential\<close>, the only one it is called with.
\<close>

section \<open>One block per run\<close>

definition covers_minute :: "run \<Rightarrow> int \<Rightarrow> bool" where
  "covers_minute r m = (run_start r \<le> m \<and> m \<le> run_end r)"

definition run_hit :: "env \<Rightarrow> run list \<Rightarrow> infer_event \<Rightarrow> nat option" where
  "run_hit env runs e =
     position (\<lambda>r. covers_minute r (minute (ev_ts e)) \<and>
       (case lane_folder env e of None \<Rightarrow> True | Some k \<Rightarrow> k = run_owner r)) runs"

definition bucket :: "env \<Rightarrow> run list \<Rightarrow> infer_event list \<Rightarrow> nat \<Rightarrow> infer_event list" where
  "bucket env runs events i = filter (\<lambda>e. \<not> is_calendar e \<and> run_hit env runs e = Some i) events"

definition leftover_events :: "env \<Rightarrow> run list \<Rightarrow> infer_event list \<Rightarrow> infer_event list" where
  "leftover_events env runs events =
     filter (\<lambda>e. \<not> is_calendar e \<and> run_hit env runs e = None
       \<and> \<not> list_ex (\<lambda>r. covers_minute r (minute (ev_ts e))) runs) events"

definition owned_block :: "env \<Rightarrow> run list \<Rightarrow> infer_event list \<Rightarrow> nat \<Rightarrow> infer_block option" where
  "owned_block env runs events i =
     (let r = runs ! i;
          evs = bucket env runs events i
      in if \<not> has_evidence_floor evs then None
         else span_block env evs (minute_start (run_start r)) (minute_start (run_end r + 1))
                (folder_events env (run_owner r) events) False)"

definition day_runs :: "env \<Rightarrow> infer_event list \<Rightarrow> run list" where
  "day_runs env events =
     (let keyed = keyed_by events (lane_folder env)
      in merge_by_evidence (fold_short_runs (owner_runs keyed)) keyed)"

definition owned_blocks :: "env \<Rightarrow> infer_event list \<Rightarrow> infer_block list" where
  "owned_blocks env events =
     (let runs = day_runs env events
      in List.map_filter (owned_block env runs events) [0..<length runs])"

definition build_project_blocks :: "env \<Rightarrow> infer_event list \<Rightarrow> infer_block list" where
  "build_project_blocks env events =
     (let keyed = keyed_by events (lane_folder env)
      in if length (btree_keys (map row_owner keyed)) < 2
         then divide_blocks env events (build_blocks_sequential env events)
         else sort_key ib_start
                (divide_blocks env events (owned_blocks env events)
                 @ build_blocks_sequential env (filter is_calendar events)
                 @ build_blocks_sequential env (leftover_events env (day_runs env events) events)))"

section \<open>Riding events\<close>

definition rides_in :: "infer_event \<Rightarrow> infer_block \<Rightarrow> bool" where
  "rides_in e b = (\<not> ib_calendar b \<and> ib_start b \<le> ev_ts e \<and> ev_ts e < ib_end b)"

fun attach_first :: "infer_event \<Rightarrow> infer_block list \<Rightarrow> infer_block list" where
  "attach_first e [] = []"
| "attach_first e (b # bs) =
     (if rides_in e b then attach_riding_event b e # bs else b # attach_first e bs)"

definition place_folderless :: "infer_block list \<Rightarrow> infer_event list \<Rightarrow> infer_block list" where
  "place_folderless blocks folderless = foldl (\<lambda>bs e. attach_first e bs) blocks folderless"

definition tool_source :: "string \<Rightarrow> bool" where
  "tool_source s = (s \<in> {''claude_helper'', ''claude_message'', ''claude_tool''})"

definition voting_events :: "infer_event list \<Rightarrow> infer_event list" where
  "voting_events events =
     filter (\<lambda>e. \<not> tool_source (ev_source e)) (dedupe_shell_events (drop_isolated_claude_work events))"

definition is_folderless :: "env \<Rightarrow> infer_event \<Rightarrow> bool" where
  "is_folderless env e = (\<not> is_calendar e \<and> (lane_key env e = None \<or> is_lifecycle e))"

definition build_blocks_by_project :: "env \<Rightarrow> infer_event list \<Rightarrow> infer_block list" where
  "build_blocks_by_project env events =
     (let events = voting_events events
      in if \<not> list_ex (\<lambda>e. \<not> is_calendar e \<and> lane_key env e \<noteq> None) events
         then build_blocks_sequential env events
         else place_folderless
                (build_project_blocks env (filter (\<lambda>e. \<not> is_folderless env e) events))
                (filter (is_folderless env) events))"

section \<open>The blocks of the runs are disjoint\<close>

lemma day_runs_ok: "runs_ok (day_runs env events)"
  unfolding day_runs_def Let_def by (intro merge_by_evidence_inv(1) fold_short_runs_ok owner_runs_ok)

definition disjoint_blocks :: "infer_block list \<Rightarrow> bool" where
  "disjoint_blocks bs = sorted_wrt (\<lambda>a b. ib_end a \<le> ib_start b) bs"

definition block_before :: "infer_block \<Rightarrow> infer_block \<Rightarrow> bool" where
  "block_before a b = (ib_end a \<le> ib_start b)"

lemma sorted_wrt_map_filter:
  "sorted_wrt P xs \<Longrightarrow> (\<And>x y a b. x \<in> set xs \<Longrightarrow> y \<in> set xs \<Longrightarrow> P x y \<Longrightarrow> f x = Some a \<Longrightarrow> f y = Some b \<Longrightarrow> Q a b) \<Longrightarrow>
     sorted_wrt Q (List.map_filter f xs)"
proof (induction xs)
  case (Cons x xs)
  have "sorted_wrt Q (List.map_filter f xs)"
    using Cons.prems(1) by (intro Cons.IH Cons.prems(2)) simp_all
  moreover have "Q a b" if "f x = Some a" "b \<in> set (List.map_filter f xs)" for a b
  proof -
    from that(2) obtain y where y: "y \<in> set xs" "f y = Some b" by (auto simp: List.map_filter_def)
    with Cons.prems(1) have "P x y" by simp
    with y that(1) show ?thesis using Cons.prems(2)[of x y a b] by simp
  qed
  ultimately show ?case by (simp add: map_filter_simps split: option.splits)
qed (simp add: map_filter_simps)

lemma minute_start_mono_le: "m \<le> n \<Longrightarrow> minute_start m \<le> minute_start n"
  by (simp add: minute_start_def time_defs)

lemma owned_block_Some:
  assumes "owned_block env runs events i = Some b"
  shows "ib_start b = minute_start (run_start (runs ! i)) \<and> ib_end b = minute_start (run_end (runs ! i) + 1)
    \<and> row_ok b \<and> flag_ok b \<and> minutes MIN_BLOCK_MINUTES \<le> ib_end b - ib_start b
    \<and> set (ib_events b) \<subseteq> set events"
proof -
  let ?r = "runs ! i" and ?evs = "bucket env runs events i"
  from assms have s: "span_block env ?evs (minute_start (run_start ?r)) (minute_start (run_end ?r + 1))
      (folder_events env (run_owner ?r) events) False = Some b"
    by (simp add: owned_block_def Let_def split: if_splits)
  from s span_block_None[of env ?evs "minute_start (run_start ?r)" "minute_start (run_end ?r + 1)"
      "folder_events env (run_owner ?r) events" False]
  have "minutes MIN_BLOCK_MINUTES \<le> minute_start (run_end ?r + 1) - minute_start (run_start ?r)" by simp
  moreover from span_block_Some(7)[OF s] obtain extra where
    "mset (ib_events b) = mset (?evs @ extra)" "set extra \<subseteq> set (folder_events env (run_owner ?r) events)" by blast
  then have "set (ib_events b) = set ?evs \<union> set extra" "set extra \<subseteq> set events"
    by (metis set_append set_mset_mset, auto simp: folder_events_def)
  then have "set (ib_events b) \<subseteq> set events" by (auto simp: bucket_def)
  ultimately show ?thesis using span_block_Some(1-4)[OF s] by simp
qed

lemma owned_blocks_disjoint: "disjoint_blocks (owned_blocks env events)"
proof -
  let ?runs = "day_runs env events"
  have "sorted_wrt (\<lambda>a b. ib_end a \<le> ib_start b) (List.map_filter (owned_block env ?runs events) [0..<length ?runs])"
  proof (rule sorted_wrt_map_filter[where P = "(<)"])
    fix i j a b
    assume ij: "i \<in> set [0..<length ?runs]" "j \<in> set [0..<length ?runs]" "i < j"
      and ab: "owned_block env ?runs events i = Some a" "owned_block env ?runs events j = Some b"
    have "run_end (?runs ! i) + 1 \<le> run_start (?runs ! j)"
      using day_runs_ok[of env events] ij sorted_wrt_nth_less[of run_before ?runs i j]
      by (simp add: runs_ok_def run_before_def)
    then show "ib_end a \<le> ib_start b"
      using owned_block_Some[OF ab(1)] owned_block_Some[OF ab(2)] minute_start_mono_le by simp
  qed simp
  then show ?thesis by (simp add: disjoint_blocks_def owned_blocks_def Let_def)
qed

lemma owned_blocks_ok:
  "\<forall>b\<in>set (owned_blocks env events). row_ok b \<and> flag_ok b \<and> minutes MIN_BLOCK_MINUTES \<le> ib_end b - ib_start b
     \<and> set (ib_events b) \<subseteq> set events"
proof
  fix b assume "b \<in> set (owned_blocks env events)"
  then obtain i where "owned_block env (day_runs env events) events i = Some b"
    by (auto simp: owned_blocks_def Let_def List.map_filter_def)
  from owned_block_Some[OF this] show "row_ok b \<and> flag_ok b \<and> minutes MIN_BLOCK_MINUTES \<le> ib_end b - ib_start b
     \<and> set (ib_events b) \<subseteq> set events" by blast
qed

text \<open>Dividing keeps the blocks disjoint: every block's pieces tile the block.\<close>

lemma spans_tile_inside:
  assumes "spans_tile s e bs"
  shows "sorted_wrt (\<lambda>a b. ib_end a \<le> ib_start b) bs \<and> (\<forall>b\<in>set bs. s \<le> ib_start b \<and> ib_end b \<le> e)"
  using assms
proof (induction bs arbitrary: s)
  case (Cons b bs)
  show ?case
  proof (cases "bs = []")
    case False
    with Cons.prems have b: "ib_start b = s" "s < ib_end b" "spans_tile (ib_end b) e bs" by (simp_all add: spans_tile_Cons)
    have "ib_end b \<le> e"
    proof -
      have "last bs \<in> set bs" using False by simp
      then have "ib_end b \<le> ib_start (last bs)" "ib_start (last bs) < ib_end (last bs)"
        using Cons.IH[OF b(3)] b(3) by (auto simp: spans_tile_def)
      then show ?thesis using b(3) by (simp add: spans_tile_def)
    qed
    with Cons.IH[OF b(3)] b show ?thesis by auto
  qed (use Cons.prems in \<open>simp add: spans_tile_def\<close>)
qed (simp add: spans_tile_def)

lemma divide_blocks_disjoint:
  assumes "disjoint_blocks bs" "\<forall>b\<in>set bs. NS \<le> ib_end b - ib_start b \<and> set (ib_events b) \<subseteq> set day"
  shows "disjoint_blocks (divide_blocks env day bs) \<and> total_length (divide_blocks env day bs) = total_length bs"
  using assms
proof (induction bs)
  case (Cons b bs)
  have tile: "spans_tile (ib_start x) (ib_end x) (divide_block env day x)" if "x \<in> set (b # bs)" for x
    using Cons.prems(2) that by (intro divide_block_tiles) auto
  note b = spans_tile_inside[OF tile[of b]]
  have "disjoint_blocks (divide_blocks env day bs)" "total_length (divide_blocks env day bs) = total_length bs"
    using Cons by (simp_all add: disjoint_blocks_def)
  moreover have "ib_end p \<le> ib_start q"
    if "p \<in> set (divide_block env day b)" "q \<in> set (divide_blocks env day bs)" for p q
  proof -
    from that(2) obtain x where x: "x \<in> set bs" "q \<in> set (divide_block env day x)" by (auto simp: divide_blocks_def)
    then have "ib_start x \<le> ib_start q" using spans_tile_inside[OF tile[of x]] by auto
    moreover have "ib_end b \<le> ib_start x" using Cons.prems(1) x by (simp add: disjoint_blocks_def)
    moreover have "ib_end p \<le> ib_end b" using b that(1) by simp
    ultimately show ?thesis by linarith
  qed
  moreover have "total_length (divide_block env day b) = ib_end b - ib_start b"
    using spans_tile_length[OF tile[of b]] by simp
  ultimately show ?case
    using b by (simp add: divide_blocks_def disjoint_blocks_def sorted_wrt_append total_length_def block_length_def)
qed (simp add: divide_blocks_def disjoint_blocks_def)

lemma divided_blocks_disjoint:
  "disjoint_blocks (divide_blocks env events (owned_blocks env events))
   \<and> total_length (divide_blocks env events (owned_blocks env events)) = total_length (owned_blocks env events)"
  by (rule divide_blocks_disjoint[OF owned_blocks_disjoint])
     (use owned_blocks_ok[of env events] in \<open>auto simp: infer_limits time_defs\<close>)

section \<open>Riding events move nothing\<close>

definition frame :: "infer_block \<Rightarrow> string \<times> instant \<times> instant \<times> int \<times> bool \<times> bool" where
  "frame b = (ib_day b, ib_start b, ib_end b, ib_secs b, ib_flagged b, ib_calendar b)"

lemma attach_frame [simp]: "frame (attach_riding_event b e) = frame b"
  by (simp add: frame_def attach_riding_event_def)

lemma attach_first_frame: "map frame (attach_first e bs) = map frame bs"
  by (induction bs) simp_all

lemma attach_first_events:
  "mset (concat (map ib_events (attach_first e bs))) =
     mset (concat (map ib_events bs)) + (if \<exists>b\<in>set bs. rides_in e b then {#e#} else {#})"
  by (induction bs) (simp_all add: attach_riding_event_def)

lemma rides_in_frame: "map frame bs = map frame bs' \<Longrightarrow> (\<exists>b\<in>set bs. rides_in e b) \<longleftrightarrow> (\<exists>b\<in>set bs'. rides_in e b)"
proof -
  have "(\<exists>b\<in>set bs. rides_in e b) \<longleftrightarrow> (\<exists>(d, s, en, sec, fl, cal)\<in>set (map frame bs). \<not> cal \<and> s \<le> ev_ts e \<and> ev_ts e < en)" for bs
    by (auto simp: rides_in_def frame_def)
  then show "map frame bs = map frame bs' \<Longrightarrow> ?thesis" by metis
qed

lemma place_folderless_spec:
  "map frame (place_folderless bs es) = map frame bs \<and>
   mset (concat (map ib_events (place_folderless bs es))) =
     mset (concat (map ib_events bs)) + mset (filter (\<lambda>e. \<exists>b\<in>set bs. rides_in e b) es)"
proof (induction es rule: rev_induct)
  case (snoc e es)
  let ?bs = "place_folderless bs es"
  have eq: "place_folderless bs (es @ [e]) = attach_first e ?bs" by (simp add: place_folderless_def)
  have "(\<exists>b\<in>set ?bs. rides_in e b) \<longleftrightarrow> (\<exists>b\<in>set bs. rides_in e b)" by (rule rides_in_frame) (simp add: snoc)
  with snoc show ?case unfolding eq attach_first_frame attach_first_events by simp
qed (simp add: place_folderless_def)

end
