(* ===== verification/F64.thy ===== *)
theory F64
  imports Complex_Main "HOL-Library.Log_Nat"
begin

text \<open>
  The \<open>f64\<close> arithmetic the program uses (shares and half-hour rounding): finite values as rationals,
  each operation rounded to the nearest binary64 value, ties to even. Infinities and NaN do not occur
  on the values modelled (shares parsed from JSON, second counts below \<open>2 ^ 63\<close>).
\<close>

definition pow2 :: "int \<Rightarrow> rat" where
  "pow2 k = (if 0 \<le> k then 2 ^ nat k else 1 / 2 ^ nat (- k))"

definition floor_log2 :: "rat \<Rightarrow> int" where
  "floor_log2 x =
     (let (n, d) = quotient_of x;
          k = bitlen n - bitlen d
      in if pow2 k \<le> x then k else k - 1)"

definition round_half_even :: "rat \<Rightarrow> int" where
  "round_half_even x =
     (let f = \<lfloor>x\<rfloor>;
          r = x - of_int f
      in if r < 1 / 2 then f else if 1 / 2 < r then f + 1 else if even f then f else f + 1)"

definition fl :: "rat \<Rightarrow> rat" where
  "fl x =
     (if x = 0 then 0
      else let e = max (floor_log2 \<bar>x\<bar>) (- 1022);
               u = pow2 (e - 52)
           in of_int (round_half_even (x / u)) * u)"

definition f64_add :: "rat \<Rightarrow> rat \<Rightarrow> rat" where "f64_add a b = fl (a + b)"
definition f64_mul :: "rat \<Rightarrow> rat \<Rightarrow> rat" where "f64_mul a b = fl (a * b)"
definition f64_div :: "rat \<Rightarrow> rat \<Rightarrow> rat" where "f64_div a b = fl (a / b)"
definition f64_of_int :: "int \<Rightarrow> rat" where "f64_of_int n = fl (of_int n)"

text \<open>\<open>f64::round\<close> (half away from zero), \<open>f64::ceil\<close>, and the saturating cast \<open>as i64\<close>.\<close>

definition f64_round :: "rat \<Rightarrow> int" where
  "f64_round x = (if 0 \<le> x then \<lfloor>x + 1 / 2\<rfloor> else - \<lfloor>- x + 1 / 2\<rfloor>)"

definition f64_ceil :: "rat \<Rightarrow> int" where
  "f64_ceil x = \<lceil>x\<rceil>"

definition as_i64 :: "int \<Rightarrow> int" where
  "as_i64 n = max (- (2 ^ 63)) (min n (2 ^ 63 - 1))"

lemma pow2_pos [simp]: "0 < pow2 k"
  by (simp add: pow2_def)

lemma round_half_even_of_int [simp]: "round_half_even (of_int n) = n"
  by (simp add: round_half_even_def)

lemma fl_0 [simp]: "fl 0 = 0"
  by (simp add: fl_def)

text \<open>A value that is a whole multiple of the last place is not rounded.\<close>

lemma fl_exact:
  assumes "x = of_int m * pow2 (max (floor_log2 \<bar>x\<bar>) (- 1022) - 52)"
  shows "fl x = x"
proof (cases "x = 0")
  case False
  let ?u = "pow2 (max (floor_log2 \<bar>x\<bar>) (- 1022) - 52)"
  have "?u \<noteq> 0" by (metis less_irrefl pow2_pos)
  then have "x / ?u = of_int m" using assms by (simp add: field_simps)
  then have "of_int (round_half_even (x / ?u)) * ?u = of_int m * ?u" by simp
  with False assms show ?thesis by (simp add: fl_def Let_def)
qed simp

text \<open>\<open>floor_log2\<close> finds the binade, so the last place of a value is at most the value's own power of two.\<close>

lemma pow2_add: "pow2 (a + b) = pow2 a * pow2 b"
proof -
  have "pow2 k = 2 powi k" for k by (simp add: pow2_def power_int_def field_simps)
  then show ?thesis by (simp add: power_int_add)
qed

lemma pow2_nat: "0 \<le> k \<Longrightarrow> pow2 k = of_int (2 ^ nat k)"
  by (simp add: pow2_def)

lemma pow2_less_iff: "pow2 a < pow2 b \<longleftrightarrow> a < b"
proof -
  have pw: "pow2 k = 2 powi k" for k by (simp add: pow2_def power_int_def field_simps)
  have "a < b \<Longrightarrow> pow2 a < pow2 b" and "b \<le> a \<Longrightarrow> pow2 b \<le> pow2 a"
    unfolding pw by (auto intro: power_int_strict_increasing power_int_increasing)
  then show ?thesis by (meson not_less)
qed

lemma bitlen_bounds_rat:
  assumes "0 < (n :: int)"
  shows "pow2 (bitlen n - 1) \<le> of_int n" "of_int n < pow2 (bitlen n)"
proof -
  have len: "0 < bitlen n" using assms bitlen_nonneg[of n] bitlen_eq_zero_iff[of n] by linarith
  from bitlen_bounds[OF assms] have b: "2 ^ nat (bitlen n - 1) \<le> n" "n < 2 ^ nat (bitlen n)" by auto
  from b(1) len show "pow2 (bitlen n - 1) \<le> of_int n"
    using pow2_nat[of "bitlen n - 1"] of_int_le_iff[of "2 ^ nat (bitlen n - 1)" n, where ?'a = rat] by simp
  from b(2) len show "of_int n < pow2 (bitlen n)"
    using pow2_nat[of "bitlen n"] of_int_less_iff[of n "2 ^ nat (bitlen n)", where ?'a = rat] by simp
qed

lemma floor_log2_le:
  assumes "0 < x"
  shows "pow2 (floor_log2 x) \<le> x"
proof -
  obtain n d where q: "quotient_of x = (n, d)" by force
  then have d: "0 < d" and x: "x = of_int n / of_int d"
    by (simp_all add: quotient_of_denom_pos quotient_of_div)
  with assms have n: "0 < n" by (simp add: zero_less_divide_iff)
  let ?k = "bitlen n - bitlen d"
  show ?thesis
  proof (cases "pow2 ?k \<le> x")
    case False
    have "pow2 (?k - 1) * of_int d \<le> pow2 (?k - 1) * pow2 (bitlen d)"
      using bitlen_bounds_rat(2)[OF d] by (intro mult_left_mono) (simp_all add: less_imp_le)
    also have "\<dots> = pow2 (bitlen n - 1)" by (simp add: pow2_add[symmetric])
    also have "\<dots> \<le> of_int n" by (rule bitlen_bounds_rat(1)[OF n])
    finally have "pow2 (?k - 1) \<le> x" using d by (simp add: x field_simps)
    with False q show ?thesis by (simp add: floor_log2_def Let_def)
  qed (simp add: floor_log2_def Let_def q)
qed

lemma round_half_even_le: "x \<le> of_int n \<Longrightarrow> round_half_even x \<le> n"
proof -
  assume le: "x \<le> of_int n"
  show ?thesis
  proof (cases "\<lfloor>x\<rfloor> = n")
    case True
    with le have "x = of_int n" by linarith
    then show ?thesis by simp
  next
    case False
    with le have "\<lfloor>x\<rfloor> + 1 \<le> n" by linarith
    then show ?thesis by (auto simp: round_half_even_def Let_def)
  qed
qed

lemma round_half_even_nonneg: "0 \<le> x \<Longrightarrow> 0 \<le> round_half_even x"
  by (auto simp: round_half_even_def Let_def)

lemma fl_nonneg: "0 \<le> x \<Longrightarrow> 0 \<le> fl x"
  by (auto simp: fl_def Let_def intro!: mult_nonneg_nonneg round_half_even_nonneg divide_nonneg_nonneg less_imp_le[OF pow2_pos])

text \<open>Whole numbers below \<open>2 ^ 52\<close> are multiples of the last place of every smaller value.\<close>

lemma int_last_place:
  assumes "0 < x" "x \<le> of_int n" "n < 2 ^ 52"
  obtains m where "of_int n = of_int m * pow2 (max (floor_log2 x) (- 1022) - 52)"
proof -
  let ?e = "max (floor_log2 x) (- 1022)"
  have "pow2 (floor_log2 x) \<le> of_int n" using floor_log2_le[OF assms(1)] assms(2) by linarith
  also have "of_int n < (pow2 52 :: rat)" using assms(3) by (simp add: pow2_def)
  finally have "?e < 52" by (simp add: pow2_less_iff)
  then have "of_int n = (of_int (n * 2 ^ nat (52 - ?e)) :: rat) * pow2 (?e - 52)"
    using pow2_add[of "52 - ?e" "?e - 52"] pow2_nat[of "52 - ?e"] by (simp add: pow2_def)
  then show ?thesis by (rule that)
qed

lemma fl_le_int:
  assumes "0 \<le> x" "x \<le> of_int n" "n < 2 ^ 52"
  shows "fl x \<le> of_int n"
proof (cases "x = 0")
  case False
  with assms(1) have x: "0 < x" by simp
  let ?u = "pow2 (max (floor_log2 x) (- 1022) - 52)"
  from int_last_place[OF x assms(2,3)] obtain m where m: "of_int n = of_int m * ?u" .
  have "x / ?u \<le> of_int m" using assms(2) m by (simp add: pos_divide_le_eq)
  then have "of_int (round_half_even (x / ?u)) * ?u \<le> of_int m * ?u"
    by (intro mult_right_mono) (simp_all add: round_half_even_le less_imp_le)
  with m x show ?thesis by (simp add: fl_def Let_def)
qed (use assms in simp)

lemma f64_of_int_exact: "0 \<le> n \<Longrightarrow> n < 2 ^ 52 \<Longrightarrow> f64_of_int n = of_int n"
proof (cases "n = 0")
  case False
  assume n: "0 \<le> n" "n < 2 ^ 52"
  with False have "0 < (of_int n :: rat)" by simp
  from int_last_place[OF this order.refl n(2)] obtain m
    where "of_int n = (of_int m :: rat) * pow2 (max (floor_log2 (of_int n)) (- 1022) - 52)" .
  with n(1) have "(of_int n :: rat) = of_int m * pow2 (max (floor_log2 \<bar>of_int n\<bar>) (- 1022) - 52)" by simp
  from fl_exact[OF this] show ?thesis by (simp add: f64_of_int_def)
qed (simp add: f64_of_int_def)

text \<open>\<open>i64::clamp\<close>; \<open>None\<close> is its panic on reversed bounds.\<close>

definition i64_clamp :: "int \<Rightarrow> int \<Rightarrow> int \<Rightarrow> int option" where
  "i64_clamp lo hi x = (if hi < lo then None else Some (max lo (min x hi)))"

lemma i64_clamp_Some: "i64_clamp lo hi x = Some y \<Longrightarrow> lo \<le> y \<and> y \<le> hi"
  by (auto simp: i64_clamp_def split: if_splits)

lemma i64_clamp_total: "lo \<le> hi \<Longrightarrow> \<exists>y. i64_clamp lo hi x = Some y"
  by (simp add: i64_clamp_def)

end
