(* ===== verification/Allocations.thy ===== *)
theory Allocations
  imports DayBuild F64
begin

text \<open>
  \<open>infer_allocations.rs\<close>: the owner's split of a window re-cuts the work time inside it by share.
  A \<open>BTreeMap<String, f64>\<close> is the list of its entries in key order. \<open>None\<close> of \<open>split_intervals\<close> is
  the panic of \<open>clamp\<close> when its bounds are reversed.
\<close>

type_synonym shares = "(string \<times> rat) list"

record allocation_window =
  aw_start :: instant
  aw_end :: instant
  aw_shares :: shares

type_synonym piece = "string \<times> instant \<times> instant"

section \<open>Handing time out by share\<close>

fun pieces_of_share :: "string \<Rightarrow> int \<Rightarrow> int \<Rightarrow> int \<Rightarrow> (instant \<times> instant) list \<Rightarrow> piece list" where
  "pieces_of_share project from to offset [] = []"
| "pieces_of_share project from to offset ((s, e) # iv) =
     (let len = num_seconds (e - s);
          a = max from offset;
          b = min to (offset + len)
      in (if a < b then [(project, s + seconds (a - offset), s + seconds (b - offset))] else [])
         @ pieces_of_share project from to (offset + len) iv)"

definition total_seconds :: "(instant \<times> instant) list \<Rightarrow> int" where
  "total_seconds iv = sum_list (map (\<lambda>(s, e). num_seconds (e - s)) iv)"

fun hand_out :: "(instant \<times> instant) list \<Rightarrow> int \<Rightarrow> int \<Rightarrow> rat \<Rightarrow> shares \<Rightarrow> piece list option" where
  "hand_out iv tot from cum [] = Some []"
| "hand_out iv tot from cum ((project, share) # rest) =
     (let cum = f64_add cum share
      in case (if rest = [] then Some tot
               else i64_clamp from tot (as_i64 (f64_round (f64_mul cum (f64_of_int tot))))) of
           None \<Rightarrow> None
         | Some to \<Rightarrow>
             map_option (\<lambda>ps. pieces_of_share project from to 0 iv @ ps) (hand_out iv tot to cum rest))"

definition split_intervals :: "(instant \<times> instant) list \<Rightarrow> shares \<Rightarrow> piece list option" where
  "split_intervals intervals shares =
     (let iv = sort_key fst (sort_key snd intervals)
      in hand_out iv (total_seconds iv) 0 0 shares)"

section \<open>Re-cutting the blocks of a window\<close>

definition is_work_block :: "env \<Rightarrow> infer_block \<Rightarrow> bool" where
  "is_work_block env b = (case dominant_project_path env b of None \<Rightarrow> False | Some p \<Rightarrow> is_work_path p)"

definition outside_window :: "env \<Rightarrow> allocation_window \<Rightarrow> infer_block \<Rightarrow> bool" where
  "outside_window env w b = (\<not> is_work_block env b \<or> ib_end b \<le> aw_start w \<or> aw_end w \<le> ib_start b)"

definition opt_list :: "'a option \<Rightarrow> 'a list" where
  "opt_list x = (case x of None \<Rightarrow> [] | Some y \<Rightarrow> [y])"

definition remainders :: "env \<Rightarrow> allocation_window \<Rightarrow> infer_block \<Rightarrow> infer_block list" where
  "remainders env w b =
     (if outside_window env w b then [b]
      else (if ib_start b < aw_start w
            then opt_list (span_block env (events_between (ib_events b) (ib_start b) (aw_start w))
                             (ib_start b) (aw_start w) (ib_events b) True) else [])
         @ (if aw_end w < ib_end b
            then opt_list (span_block env (events_between (ib_events b) (aw_end w) (ib_end b))
                             (aw_end w) (ib_end b) (ib_events b) True) else []))"

definition inside_span :: "allocation_window \<Rightarrow> infer_block \<Rightarrow> instant \<times> instant" where
  "inside_span w b = (max (ib_start b) (aw_start w), min (ib_end b) (aw_end w))"

definition inside_blocks :: "env \<Rightarrow> allocation_window \<Rightarrow> infer_block list \<Rightarrow> infer_block list" where
  "inside_blocks env w blocks = filter (\<lambda>b. \<not> outside_window env w b) blocks"

definition window_folderless :: "allocation_window \<Rightarrow> infer_block list \<Rightarrow> infer_event list" where
  "window_folderless w blocks =
     concat (map (\<lambda>b. filter (\<lambda>x. ev_path x = None)
       (events_between (ib_events b) (fst (inside_span w b)) (snd (inside_span w b)))) blocks)"

definition split_window ::
    "env \<Rightarrow> infer_event list \<Rightarrow> infer_block list \<Rightarrow> allocation_window \<Rightarrow> infer_block list option" where
  "split_window env day blocks w =
     (let ins = inside_blocks env w blocks;
          folderless = window_folderless w ins
      in map_option (\<lambda>ps. concat (map (remainders env w) blocks) @
            List.map_filter (\<lambda>(project, s, e).
              let own = folder_events env project day
              in span_block env (events_between own s e @ events_between folderless s e) s e own True) ps)
           (split_intervals (map (inside_span w) ins) (aw_shares w)))"

fun split_windows ::
    "env \<Rightarrow> infer_event list \<Rightarrow> allocation_window list \<Rightarrow> infer_block list \<Rightarrow> infer_block list option" where
  "split_windows env day [] blocks = Some blocks"
| "split_windows env day (w # ws) blocks =
     (case split_window env day blocks w of
        None \<Rightarrow> None
      | Some blocks' \<Rightarrow> split_windows env day ws blocks')"

definition apply_split ::
    "env \<Rightarrow> infer_event list \<Rightarrow> infer_block list \<Rightarrow> allocation_window list \<Rightarrow> infer_block list option" where
  "apply_split env day blocks windows =
     map_option (\<lambda>bs. sort_key ib_start (merge_touching_same_project env bs))
       (split_windows env day windows blocks)"

definition build_blocks_with_allocations ::
    "env \<Rightarrow> infer_event list \<Rightarrow> allocation_window list \<Rightarrow> infer_block list option" where
  "build_blocks_with_allocations env events allocations =
     (if allocations = [] then Some (build_blocks_by_project env events)
      else apply_split env events (build_blocks_by_project env events) allocations)"

definition build_blocks :: "env \<Rightarrow> infer_event list \<Rightarrow> infer_block list option" where
  "build_blocks env events = build_blocks_with_allocations env events []"

section \<open>No second is gained or lost\<close>

definition piece_seconds :: "piece list \<Rightarrow> int" where
  "piece_seconds ps = sum_list (map (\<lambda>(p, s, e). num_seconds (e - s)) ps)"

definition forward :: "(instant \<times> instant) list \<Rightarrow> bool" where
  "forward iv = (\<forall>(s, e)\<in>set iv. s \<le> e)"

lemma forward_total: "forward iv \<Longrightarrow> 0 \<le> total_seconds iv"
  by (induction iv) (auto simp: forward_def total_seconds_def num_seconds_pos_iff intro!: add_nonneg_nonneg)

lemma seconds_diff: "num_seconds (seconds x - seconds y) = x - y"
proof -
  have "seconds x - seconds y = seconds (x - y)" by (simp add: seconds_def left_diff_distrib)
  then show ?thesis by simp
qed

lemma seconds_le_iff [simp]: "seconds x \<le> seconds y \<longleftrightarrow> x \<le> y"
  by (simp add: time_defs)

lemma seconds_less_iff [simp]: "seconds x < seconds y \<longleftrightarrow> x < y"
  by (simp add: time_defs)

lemma seconds_nonneg_iff [simp]: "0 \<le> seconds x \<longleftrightarrow> 0 \<le> x"
  by (simp add: time_defs)

lemma overlap_split:
  "0 \<le> L \<Longrightarrow> 0 \<le> T \<Longrightarrow>
     max 0 (min b (x + L) - max a x) + max 0 (min b (x + L + T) - max a (x + L)) = max 0 (min b (x + L + T) - max a (x::int))"
  by (auto simp: max_def min_def)

lemma pieces_of_share_seconds:
  "forward iv \<Longrightarrow> piece_seconds (pieces_of_share p from to offset iv) =
     max 0 (min to (offset + total_seconds iv) - max from offset)"
proof (induction p "from" to offset iv rule: pieces_of_share.induct)
  case (2 p "from" to offset s e iv)
  let ?len = "num_seconds (e - s)"
  have len: "0 \<le> ?len" and fwd: "forward iv" using 2(2) by (auto simp: forward_def num_seconds_pos_iff)
  have "piece_seconds (pieces_of_share p from to offset ((s, e) # iv)) =
      max 0 (min to (offset + ?len) - max from offset)
      + max 0 (min to (offset + ?len + total_seconds iv) - max from (offset + ?len))"
    using 2(1)[OF refl refl refl fwd]
    by (auto simp: Let_def piece_seconds_def seconds_diff max_def)
  also have "\<dots> = max 0 (min to (offset + (?len + total_seconds iv)) - max from offset)"
    using overlap_split[OF len forward_total[OF fwd]] by (simp add: add.assoc)
  finally show ?case by (simp add: total_seconds_def)
qed (simp add: piece_seconds_def total_seconds_def)

lemma hand_out_seconds:
  assumes "forward iv" "shares \<noteq> []" "0 \<le> from" "from \<le> total_seconds iv"
  shows "\<exists>ps. hand_out iv (total_seconds iv) from cum shares = Some ps \<and>
    piece_seconds ps = total_seconds iv - from"
  using assms(2-4)
proof (induction shares arbitrary: "from" cum)
  case (Cons s rest)
  obtain p x where s: "s = (p, x)" by (cases s)
  let ?to = "if rest = [] then Some (total_seconds iv)
     else i64_clamp from (total_seconds iv) (as_i64 (f64_round (f64_mul (f64_add cum x) (f64_of_int (total_seconds iv)))))"
  obtain to where to: "?to = Some to" "from \<le> to" "to \<le> total_seconds iv" "rest = [] \<longrightarrow> to = total_seconds iv"
    using Cons.prems(3) by (cases "rest = []") (auto simp: i64_clamp_def)
  have here: "piece_seconds (pieces_of_share p from to 0 iv) = to - from"
    using pieces_of_share_seconds[OF assms(1), of p "from" to 0] to(2,3) Cons.prems(2) by simp
  show ?case
  proof (cases "rest = []")
    case True
    with to here s show ?thesis by (simp add: Let_def)
  next
    case False
    from Cons.IH[OF False, of to "f64_add cum x"] to(2,3) Cons.prems(2) obtain ps where
      ps: "hand_out iv (total_seconds iv) to (f64_add cum x) rest = Some ps" "piece_seconds ps = total_seconds iv - to"
      by auto
    from to(1) ps here show ?thesis unfolding s by (simp add: Let_def piece_seconds_def)
  qed
qed simp

lemma total_seconds_perm: "mset xs = mset ys \<Longrightarrow> total_seconds xs = total_seconds ys"
  unfolding total_seconds_def by (rule sum_list_perm)

lemma split_intervals_seconds:
  assumes "forward intervals" "shares \<noteq> []"
  shows "\<exists>ps. split_intervals intervals shares = Some ps \<and> piece_seconds ps = total_seconds intervals"
proof -
  let ?iv = "sort_key fst (sort_key snd intervals)"
  have f: "forward ?iv" using assms(1) by (simp add: forward_def)
  have m: "total_seconds ?iv = total_seconds intervals" by (rule total_seconds_perm) simp
  from hand_out_seconds[OF f assms(2), of 0 0] forward_total[OF f] m show ?thesis
    by (simp add: split_intervals_def Let_def)
qed

text \<open>Pieces stay inside the intervals, and the pieces of a later share come after those of an earlier one.\<close>

lemma num_seconds_le: "0 \<le> d \<Longrightarrow> seconds (num_seconds d) \<le> d"
  by (simp add: time_defs)

lemma pieces_of_share_inside:
  "forward iv \<Longrightarrow> (q, a, b) \<in> set (pieces_of_share p from to offset iv) \<Longrightarrow>
     q = p \<and> a < b \<and> (\<exists>(s, e)\<in>set iv. s \<le> a \<and> b \<le> e)"
proof (induction p "from" to offset iv rule: pieces_of_share.induct)
  case (2 p "from" to offset s e iv)
  let ?len = "num_seconds (e - s)"
  have se: "s \<le> e" and fwd: "forward iv" using 2(2) by (auto simp: forward_def)
  consider (here) "(q, a, b) = (p, s + seconds (max from offset - offset), s + seconds (min to (offset + ?len) - offset))"
      "max from offset < min to (offset + ?len)"
    | (later) "(q, a, b) \<in> set (pieces_of_share p from to (offset + ?len) iv)"
    using 2(3) by (auto simp: Let_def split: if_splits)
  then show ?case
  proof cases
    case here
    have "seconds ?len \<le> e - s" using se by (simp add: num_seconds_le)
    then have "seconds (min to (offset + ?len) - offset) \<le> e - s" by (rule order_trans[rotated]) simp
    then have "b \<le> e" using here(1) by simp
    moreover have "s \<le> a" "a < b" using here by auto
    ultimately show ?thesis using here(1) by auto
  next
    case later
    from 2(1)[OF refl refl refl fwd later] show ?thesis by auto
  qed
qed simp

lemma hand_out_inside:
  "forward iv \<Longrightarrow> hand_out iv tot from cum shares = Some ps \<Longrightarrow> (q, a, b) \<in> set ps \<Longrightarrow>
     q \<in> fst ` set shares \<and> a < b \<and> (\<exists>(s, e)\<in>set iv. s \<le> a \<and> b \<le> e)"
proof (induction shares arbitrary: "from" cum ps)
  case (Cons s rest)
  obtain p x where s: "s = (p, x)" by (cases s)
  from Cons.prems(2) obtain to ps' where "hand_out iv tot to (f64_add cum x) rest = Some ps'"
    "ps = pieces_of_share p from to 0 iv @ ps'"
    by (auto simp: s Let_def split: option.splits if_splits)
  with Cons.prems(3) consider "(q, a, b) \<in> set (pieces_of_share p from to 0 iv)"
    | "hand_out iv tot to (f64_add cum x) rest = Some ps'" "(q, a, b) \<in> set ps'" by auto
  then show ?case
  proof cases
    case 1
    from pieces_of_share_inside[OF Cons.prems(1) this] show ?thesis unfolding s by auto
  next
    case 2
    from Cons.IH[OF Cons.prems(1) this] show ?thesis by auto
  qed
qed simp

lemma split_intervals_inside:
  assumes "forward intervals" "split_intervals intervals shares = Some ps" "(q, a, b) \<in> set ps"
  shows "q \<in> fst ` set shares \<and> a < b \<and> (\<exists>(s, e)\<in>set intervals. s \<le> a \<and> b \<le> e)"
proof -
  let ?iv = "sort_key fst (sort_key snd intervals)"
  have f: "forward ?iv" using assms(1) by (simp add: forward_def)
  from hand_out_inside[OF f _ assms(3)] assms(2) show ?thesis
    by (simp add: split_intervals_def Let_def)
qed

section \<open>A split only moves time\<close>

definition fair_hash :: "env \<Rightarrow> bool" where
  "fair_hash env = (\<forall>xs. mset (hash_order env xs) = mset xs)"

definition whole :: "instant \<Rightarrow> bool" where
  "whole t = (NS dvd t)"

lemma whole_diff: "whole s \<Longrightarrow> whole e \<Longrightarrow> s \<le> e \<Longrightarrow> seconds (num_seconds (e - s)) = e - s"
proof -
  assume "whole s" "whole e" "s \<le> e"
  then have "NS dvd e - s" by (simp add: whole_def)
  with \<open>s \<le> e\<close> show ?thesis by (simp add: seconds_def num_seconds_def trunc_div_def)
qed

lemma project_vote_path:
  assumes "fair_hash env" "project_vote env events l = Some p"
  shows "\<exists>x\<in>set events. ev_path x = Some p"
proof -
  from assms(2) obtain v where "max_by_key snd (hash_order env (project_votes l events)) = Some v" "p = fst v"
    by (auto simp: project_vote_def)
  then have "v \<in> set (hash_order env (project_votes l events))" using max_by_key_Some by fast
  also have "set (hash_order env (project_votes l events)) = set (project_votes l events)"
    using assms(1) unfolding fair_hash_def by (metis set_mset_mset)
  finally show ?thesis using \<open>p = fst v\<close> by (auto simp: project_votes_def Let_def List.map_filter_def)
qed

lemma dominant_project_path_in:
  "fair_hash env \<Longrightarrow> dominant_project_path env b = Some p \<Longrightarrow> \<exists>x\<in>set (ib_events b). ev_path x = Some p"
  unfolding dominant_project_path_def by (auto split: option.splits dest: project_vote_path)

lemma work_block_path: "fair_hash env \<Longrightarrow> is_work_block env b \<Longrightarrow> list_ex has_path (ib_events b)"
  using dominant_project_path_in[of env b]
  by (fastforce simp: is_work_block_def has_path_def list_ex_iff split: option.splits)

lemma opt_span_length:
  assumes "list_ex has_path fb" "s < e"
  shows "total_length (opt_list (span_block env evs s e fb True)) = e - s"
proof -
  have "span_block env evs s e fb True \<noteq> None" using assms by (simp add: span_block_None)
  then obtain b where b: "span_block env evs s e fb True = Some b" by blast
  with span_block_Some(1,2)[OF b] show ?thesis by (simp add: opt_list_def total_length_def block_length_def)
qed

lemma total_length_append [simp]: "total_length (xs @ ys) = total_length xs + total_length ys"
  by (simp add: total_length_def)

lemma total_length_concat: "total_length (concat xss) = sum_list (map total_length xss)"
  by (induction xss) (simp_all add: total_length_def)

definition inside_length :: "env \<Rightarrow> allocation_window \<Rightarrow> infer_block \<Rightarrow> span" where
  "inside_length env w b =
     (if outside_window env w b then 0 else snd (inside_span w b) - fst (inside_span w b))"

lemma remainders_length:
  assumes "fair_hash env" "aw_start w \<le> aw_end w" "ib_start b < ib_end b"
  shows "total_length (remainders env w b) + inside_length env w b = ib_end b - ib_start b"
proof (cases "outside_window env w b")
  case True
  then show ?thesis by (simp add: remainders_def inside_length_def total_length_def block_length_def)
next
  case False
  then have w: "is_work_block env b" "aw_start w < ib_end b" "ib_start b < aw_end w"
    by (auto simp: outside_window_def)
  note p = work_block_path[OF assms(1) w(1)]
  have zero: "total_length [] = 0" by (simp add: total_length_def)
  show ?thesis
    using False w assms(2,3) p
    by (simp add: remainders_def inside_length_def inside_span_def opt_span_length zero)
qed

lemma inside_sum:
  "sum_list (map (inside_length env w) bs) =
     sum_list (map (\<lambda>(s, e). e - s) (map (inside_span w) (inside_blocks env w bs)))"
  by (induction bs) (simp_all add: inside_length_def inside_blocks_def split_beta)

lemma pieces_whole:
  "(q, a, b) \<in> set (pieces_of_share p from to offset iv) \<Longrightarrow> b - a = seconds (num_seconds (b - a))"
proof (induction p "from" to offset iv rule: pieces_of_share.induct)
  case (2 p "from" to offset s e iv)
  from 2(2) consider "b - a = seconds (min to (offset + num_seconds (e - s)) - offset) - seconds (max from offset - offset)"
    | "(q, a, b) \<in> set (pieces_of_share p from to (offset + num_seconds (e - s)) iv)"
    by (auto simp: Let_def split: if_splits)
  then show ?case
  proof cases
    case 1
    then show ?thesis by (metis seconds_diff seconds_def left_diff_distrib)
  next
    case 2
    from "2.IH"[OF refl refl refl this] show ?thesis .
  qed
qed simp

lemma hand_out_whole:
  "hand_out iv tot from cum shares = Some ps \<Longrightarrow> (q, a, b) \<in> set ps \<Longrightarrow> b - a = seconds (num_seconds (b - a))"
proof (induction shares arbitrary: "from" cum ps)
  case (Cons s rest)
  obtain p x where s: "s = (p, x)" by (cases s)
  from Cons.prems(1) obtain to ps' where "hand_out iv tot to (f64_add cum x) rest = Some ps'"
    "ps = pieces_of_share p from to 0 iv @ ps'"
    by (auto simp: s Let_def split: option.splits if_splits)
  with Cons.prems(2) consider "(q, a, b) \<in> set (pieces_of_share p from to 0 iv)"
    | "hand_out iv tot to (f64_add cum x) rest = Some ps'" "(q, a, b) \<in> set ps'" by auto
  then show ?case
  proof cases
    case 1
    then show ?thesis by (rule pieces_whole)
  next
    case 2
    then show ?thesis by (rule Cons.IH)
  qed
qed simp

lemma seconds_sum: "(\<And>x. x \<in> set xs \<Longrightarrow> g x = seconds (f x)) \<Longrightarrow> sum_list (map g xs) = seconds (sum_list (map f xs))"
  by (induction xs) (simp_all add: seconds_def ring_distribs)

definition known_project :: "env \<Rightarrow> infer_event list \<Rightarrow> string \<Rightarrow> bool" where
  "known_project env day project = (\<exists>x\<in>set day. lane_folder env x = Some project)"

lemma folder_events_path: "known_project env day p \<Longrightarrow> list_ex has_path (folder_events env p day)"
  by (auto simp: known_project_def folder_events_def list_ex_iff has_path_def)
     (metis lane_folder_None option.distinct(1) option.exhaust)

lemma piece_blocks_length:
  assumes "\<And>p s e. (p, s, e) \<in> set ps \<Longrightarrow> s < e \<and> known_project env day p"
  shows "total_length (List.map_filter (\<lambda>(project, s, e).
              let own = folder_events env project day
              in span_block env (events_between own s e @ events_between loose s e) s e own True) ps)
         = sum_list (map (\<lambda>(p, s, e). e - s) ps)"
  using assms
proof (induction ps)
  case (Cons x ps)
  obtain p s e where x: "x = (p, s, e)" by (cases x)
  with Cons.prems[of p s e] have "s < e" "known_project env day p" by simp_all
  then have "s < e" "list_ex has_path (folder_events env p day)" by (simp_all add: folder_events_path)
  then have "span_block env (events_between (folder_events env p day) s e @ events_between loose s e) s e
      (folder_events env p day) True \<noteq> None" by (simp add: span_block_None)
  then obtain y where y: "span_block env (events_between (folder_events env p day) s e @ events_between loose s e) s e
      (folder_events env p day) True = Some y" by blast
  from span_block_Some(1,2)[OF y] have "block_length y = e - s" by (simp add: block_length_def)
  moreover have "total_length (List.map_filter (\<lambda>(project, s, e).
              let own = folder_events env project day
              in span_block env (events_between own s e @ events_between loose s e) s e own True) ps)
         = sum_list (map (\<lambda>(p, s, e). e - s) ps)"
    by (rule Cons.IH) (use Cons.prems in auto)
  ultimately show ?case using y by (simp add: x map_filter_simps Let_def total_length_def)
qed (simp add: map_filter_simps total_length_def)

theorem split_window_length:
  assumes fair: "fair_hash env" and w: "aw_start w \<le> aw_end w" "aw_shares w \<noteq> []" "whole (aw_start w)" "whole (aw_end w)"
    and known: "\<And>p. p \<in> fst ` set (aw_shares w) \<Longrightarrow> known_project env day p"
    and blocks: "\<And>b. b \<in> set blocks \<Longrightarrow> ib_start b < ib_end b \<and> whole (ib_start b) \<and> whole (ib_end b)"
  shows "\<exists>out. split_window env day blocks w = Some out \<and> total_length out = total_length blocks"
proof -
  let ?iv = "map (inside_span w) (inside_blocks env w blocks)"
  have iv: "s \<le> e \<and> seconds (num_seconds (e - s)) = e - s" if "(s, e) \<in> set ?iv" for s e
  proof -
    from that obtain b where b: "b \<in> set blocks" "\<not> outside_window env w b" "(s, e) = inside_span w b"
      by (auto simp: inside_blocks_def)
    then have "s \<le> e" "whole s" "whole e"
      using blocks[OF b(1)] w by (auto simp: inside_span_def outside_window_def max_def min_def)
    then show ?thesis using whole_diff by blast
  qed
  have fwd: "forward ?iv" unfolding forward_def using iv by blast
  from split_intervals_seconds[OF fwd w(2)] obtain ps where
    ps: "split_intervals ?iv (aw_shares w) = Some ps" "piece_seconds ps = total_seconds ?iv" by blast
  let ?out = "concat (map (remainders env w) blocks) @
            List.map_filter (\<lambda>(project, s, e).
              let own = folder_events env project day
              in span_block env (events_between own s e @ events_between (window_folderless w (inside_blocks env w blocks)) s e)
                   s e own True) ps"
  have out: "split_window env day blocks w = Some ?out" using ps(1) by (simp add: split_window_def Let_def)
  have "sum_list (map (\<lambda>(p, s, e). e - s) ps) = seconds (piece_seconds ps)"
    unfolding piece_seconds_def
    using hand_out_whole[OF ps(1)[unfolded split_intervals_def Let_def]] by (intro seconds_sum) auto
  also have "\<dots> = sum_list (map (\<lambda>(s, e). e - s) ?iv)"
    unfolding ps(2) total_seconds_def using iv by (intro seconds_sum[symmetric]) (auto simp del: set_map)
  finally have pieces: "sum_list (map (\<lambda>(p, s, e). e - s) ps) = sum_list (map (inside_length env w) blocks)"
    by (simp only: inside_sum)
  have "total_length ?out = sum_list (map (\<lambda>b. total_length (remainders env w b)) blocks) + sum_list (map (inside_length env w) blocks)"
    using split_intervals_inside[OF fwd ps(1)] known
    by (subst total_length_append, subst piece_blocks_length) (auto simp: total_length_concat comp_def pieces)
  also have "\<dots> = sum_list (map (\<lambda>b. total_length (remainders env w b) + inside_length env w b) blocks)"
    by (simp add: sum_list_addf)
  also have "\<dots> = total_length blocks"
    using remainders_length[OF fair w(1)] blocks
    by (auto simp: total_length_def block_length_def intro!: arg_cong[where f = sum_list] map_cong)
  finally show ?thesis using out by blast
qed

end
