(* ===== verification/Overlaps.thy ===== *)
theory Overlaps
  imports LaneTags
begin

text \<open>
  \<open>overlaps.rs\<close>: where two work projects were active at once. \<open>project_intervals\<close> bridges the gaps of one
  project, \<open>overlap_windows\<close> sweeps the interval boundaries; the sweep is proved to find exactly the
  instants at which two intervals are active.
\<close>

record interval =
  iv_project :: string
  iv_start :: instant
  iv_end :: instant

record overlap_project =
  op_project :: string
  op_human :: nat
  op_background :: nat

record overlap =
  ov_start :: instant
  ov_end :: instant
  ov_minutes :: int
  ov_projects :: "overlap_project list"

section \<open>Activity intervals\<close>

type_synonym stretch = "instant \<times> instant"

definition bridge_stretch :: "stretch \<Rightarrow> stretch \<Rightarrow> stretch option" where
  "bridge_stretch p q =
     (if fst q - snd p \<le> minutes WINDOW_MINUTES then Some (fst p, max (snd q) (snd p)) else None)"

definition work_key :: "env \<Rightarrow> infer_event \<Rightarrow> string option" where
  "work_key env e =
     (if is_calendar e then None
      else case lane_folder env e of None \<Rightarrow> None | Some k \<Rightarrow> if is_work k then Some k else None)"

definition project_stretches :: "env \<Rightarrow> infer_event list \<Rightarrow> string \<Rightarrow> stretch list" where
  "project_stretches env events project =
     coalesce bridge_stretch
       (map (\<lambda>e. (ev_ts e, ev_end e)) (sort_key ev_ts (filter (\<lambda>e. work_key env e = Some project) events)))"

definition project_intervals :: "env \<Rightarrow> infer_event list \<Rightarrow> interval list" where
  "project_intervals env events =
     concat (map (\<lambda>project. map (\<lambda>(s, e). \<lparr>iv_project = project, iv_start = s, iv_end = e\<rparr>)
                     (project_stretches env events project))
       (btree_keys (List.map_filter (work_key env) events)))"

section \<open>The sweep\<close>

definition join_window :: "stretch \<Rightarrow> stretch \<Rightarrow> stretch option" where
  "join_window p q = (if snd p = fst q then Some (fst p, snd q) else None)"

definition active_over :: "interval list \<Rightarrow> stretch \<Rightarrow> nat" where
  "active_over ivs w = length (filter (\<lambda>iv. iv_start iv \<le> fst w \<and> snd w \<le> iv_end iv) ivs)"

definition sweep_points :: "interval list \<Rightarrow> instant list" where
  "sweep_points ivs = btree_keys (concat (map (\<lambda>iv. [iv_start iv, iv_end iv]) ivs))"

definition overlap_windows :: "interval list \<Rightarrow> stretch list" where
  "overlap_windows ivs =
     coalesce join_window (filter (\<lambda>w. fst w < snd w \<and> 2 \<le> active_over ivs w) (windows2 (sweep_points ivs)))"

definition project_activity :: "env \<Rightarrow> infer_event list \<Rightarrow> string \<Rightarrow> instant \<Rightarrow> instant \<Rightarrow> overlap_project" where
  "project_activity env events project s e =
     (let own = filter (\<lambda>x. \<not> is_calendar x \<and> s \<le> ev_ts x \<and> ev_ts x < e \<and> lane_folder env x = Some project) events
      in \<lparr>op_project = project, op_human = length (filter (\<lambda>x. is_human (ev_source x)) own),
          op_background = length (filter (\<lambda>x. \<not> is_human (ev_source x)) own)\<rparr>)"

definition compute_overlaps :: "env \<Rightarrow> infer_event list \<Rightarrow> overlap list" where
  "compute_overlaps env events =
     (let ivs = project_intervals env events
      in map (\<lambda>(s, e).
           \<lparr>ov_start = s, ov_end = e, ov_minutes = num_minutes (e - s),
            ov_projects = map (\<lambda>p. project_activity env events p s e)
              (btree_keys (map iv_project (filter (\<lambda>iv. iv_start iv < e \<and> s < iv_end iv) ivs)))\<rparr>)
         (filter (\<lambda>(s, e). 10 \<le> num_minutes (e - s)) (overlap_windows ivs)))"

definition compute_activity :: "env \<Rightarrow> infer_event list \<Rightarrow> (string \<times> stretch list) list" where
  "compute_activity env events =
     (let ivs = project_intervals env events
      in map (\<lambda>p. (p, map (\<lambda>iv. (iv_start iv, iv_end iv)) (filter (\<lambda>iv. iv_project iv = p) ivs)))
           (btree_keys (map iv_project ivs)))"

section \<open>The sweep finds exactly the doubly active instants\<close>

definition stretch_ok :: "stretch \<Rightarrow> bool" where
  "stretch_ok w = (fst w < snd w)"

definition stretch_before :: "stretch \<Rightarrow> stretch \<Rightarrow> bool" where
  "stretch_before p q = (snd p \<le> fst q)"

definition stretch_set :: "stretch \<Rightarrow> instant set" where
  "stretch_set w = {fst w..<snd w}"

lemmas stretch_defs = stretch_ok_def stretch_before_def stretch_set_def

interpretation sweep: stable_coalescer join_window stretch_ok stretch_before stretch_set
proof unfold_locales
  fix x y z :: stretch
  assume "join_window x y = Some z" "stretch_ok x" "stretch_ok y" "stretch_before x y"
  then show "stretch_set z = stretch_set x \<union> stretch_set y"
    by (cases x; cases y) (auto simp: join_window_def stretch_defs split: if_splits)
qed (auto simp: join_window_def stretch_defs split: if_splits)

text \<open>Bridged stretches: the gap that may follow a stretch counts as covered.\<close>

definition stretch_reach :: "stretch \<Rightarrow> instant set" where
  "stretch_reach w = {fst w..snd w + minutes WINDOW_MINUTES}"

definition begins_first :: "stretch \<Rightarrow> stretch \<Rightarrow> bool" where
  "begins_first p q = (fst p \<le> fst q)"

interpretation bridged: stable_coalescer bridge_stretch stretch_ok begins_first stretch_reach
proof unfold_locales
  fix x y z :: stretch
  assume "bridge_stretch x y = Some z" "stretch_ok x" "stretch_ok y" "begins_first x y"
  then show "stretch_reach z = stretch_reach x \<union> stretch_reach y"
    by (cases x; cases y)
       (auto simp: bridge_stretch_def stretch_reach_def stretch_ok_def begins_first_def max_def split: if_splits)
qed (auto simp: bridge_stretch_def stretch_ok_def begins_first_def split: if_splits)

definition active_at :: "interval list \<Rightarrow> instant \<Rightarrow> nat" where
  "active_at ivs t = length (filter (\<lambda>iv. iv_start iv \<le> t \<and> t < iv_end iv) ivs)"

lemma windows2_chain:
  "sorted_wrt (<) xs \<Longrightarrow> sorted_wrt stretch_before (windows2 xs) \<and>
     (\<forall>w\<in>set (windows2 xs). stretch_ok w \<and> fst w \<in> set xs \<and> snd w \<in> set xs \<and>
        (\<forall>p\<in>set xs. p \<le> fst w \<or> snd w \<le> p))"
proof (induction xs rule: windows2.induct)
  case (1 a b xs)
  then have IH: "sorted_wrt stretch_before (windows2 (b # xs))"
    "\<forall>w\<in>set (windows2 (b # xs)). stretch_ok w \<and> fst w \<in> set (b # xs) \<and> snd w \<in> set (b # xs) \<and>
        (\<forall>p\<in>set (b # xs). p \<le> fst w \<or> snd w \<le> p)" by simp_all
  have ab: "a < b" "\<forall>x\<in>set xs. b < x" using 1(2) by auto
  have first: "stretch_before (a, b) w \<and> a \<le> fst w" if "w \<in> set (windows2 (b # xs))" for w
  proof -
    from IH(2) that have "fst w \<in> set (b # xs)" by blast
    then show ?thesis using ab by (auto simp: stretch_before_def intro: less_imp_le less_trans)
  qed
  show ?case
  proof (intro conjI ballI)
    show "sorted_wrt stretch_before (windows2 (a # b # xs))" using IH(1) first by simp
    fix w assume w: "w \<in> set (windows2 (a # b # xs))"
    show "stretch_ok w" and "fst w \<in> set (a # b # xs)" and "snd w \<in> set (a # b # xs)"
      using w IH(2) ab by (auto simp: stretch_ok_def)
    fix p assume p: "p \<in> set (a # b # xs)"
    show "p \<le> fst w \<or> snd w \<le> p"
    proof (cases "w = (a, b)")
      case False
      with w have w: "w \<in> set (windows2 (b # xs))" by simp
      show ?thesis
      proof (cases "p = a")
        case False
        with p IH(2) w show ?thesis by auto
      qed (use first[OF w] in simp)
    qed (use p ab in \<open>auto intro: less_imp_le\<close>)
  qed
qed simp_all

lemma windows2_covers:
  "sorted_wrt (<) xs \<Longrightarrow> p \<in> set xs \<Longrightarrow> q \<in> set xs \<Longrightarrow> p \<le> t \<Longrightarrow> t < (q::'a::linorder) \<Longrightarrow>
     \<exists>w\<in>set (windows2 xs). fst w \<le> t \<and> t < snd w"
proof (induction xs arbitrary: p rule: windows2.induct)
  case (1 a b xs)
  show ?case
  proof (cases "t < b")
    case True
    have "a \<le> p" using 1(2,3) by (auto intro: less_imp_le)
    with True 1(5) show ?thesis by auto
  next
    case False
    have "q \<in> set (b # xs)" using 1(2,4,6) False by (auto dest: less_trans)
    from 1(1)[OF _ _ this _ 1(6), of b] 1(2) False show ?thesis by auto
  qed
qed auto

lemma sweep_points_sorted: "sorted_wrt (<) (sweep_points ivs)"
  using btree_keys_sorted btree_keys_distinct strict_sorted_iff unfolding sweep_points_def by blast

lemma active_over_at:
  assumes "w \<in> set (windows2 (sweep_points ivs))" "fst w \<le> t" "t < snd w"
  shows "active_over ivs w = active_at ivs t"
proof -
  have gap: "\<forall>p\<in>set (sweep_points ivs). p \<le> fst w \<or> snd w \<le> p"
    using windows2_chain[OF sweep_points_sorted] assms(1) by blast
  have "iv_start iv \<le> fst w \<and> snd w \<le> iv_end iv \<longleftrightarrow> iv_start iv \<le> t \<and> t < iv_end iv" if "iv \<in> set ivs" for iv
  proof -
    have "iv_start iv \<in> set (sweep_points ivs)" "iv_end iv \<in> set (sweep_points ivs)"
      using that by (auto simp: sweep_points_def)
    then have "iv_start iv \<le> fst w \<or> snd w \<le> iv_start iv" "iv_end iv \<le> fst w \<or> snd w \<le> iv_end iv"
      using gap by blast+
    then show ?thesis using assms(2,3) by linarith
  qed
  then show ?thesis unfolding active_over_def active_at_def by (metis (no_types, lifting) filter_cong)
qed

lemma overlap_windows_chain:
  "sweep.chain (filter (\<lambda>w. fst w < snd w \<and> 2 \<le> active_over ivs w) (windows2 (sweep_points ivs)))"
  using windows2_chain[OF sweep_points_sorted, of ivs] by (simp add: sweep.chain_def sorted_wrt_filter)

lemma overlap_windows_exact:
  "(\<Union>w\<in>set (overlap_windows ivs). stretch_set w) = {t. 2 \<le> active_at ivs t}"
proof -
  let ?el = "filter (\<lambda>w. fst w < snd w \<and> 2 \<le> active_over ivs w) (windows2 (sweep_points ivs))"
  have "(\<Union>w\<in>set (overlap_windows ivs). stretch_set w) = (\<Union>w\<in>set ?el. stretch_set w)"
    unfolding overlap_windows_def by (rule sweep.coalesce_cov[OF overlap_windows_chain])
  also have "\<dots> = {t. 2 \<le> active_at ivs t}"
  proof (intro set_eqI iffI)
    fix t assume "t \<in> (\<Union>w\<in>set ?el. stretch_set w)"
    then show "t \<in> {t. 2 \<le> active_at ivs t}" using active_over_at by (auto simp: stretch_set_def)
  next
    fix t assume "t \<in> {t. 2 \<le> active_at ivs t}"
    then have two: "2 \<le> active_at ivs t" by simp
    then have "filter (\<lambda>iv. iv_start iv \<le> t \<and> t < iv_end iv) ivs \<noteq> []" by (auto simp: active_at_def)
    then obtain iv where iv: "iv \<in> set ivs" "iv_start iv \<le> t" "t < iv_end iv" by (auto simp: filter_empty_conv)
    then have "iv_start iv \<in> set (sweep_points ivs)" "iv_end iv \<in> set (sweep_points ivs)" by (auto simp: sweep_points_def)
    from windows2_covers[OF sweep_points_sorted this iv(2,3)] obtain w where
      w: "w \<in> set (windows2 (sweep_points ivs))" "fst w \<le> t" "t < snd w" by blast
    with active_over_at[OF w] two have "w \<in> set ?el" by simp
    moreover have "t \<in> stretch_set w" using w by (simp add: stretch_set_def)
    ultimately show "t \<in> (\<Union>w\<in>set ?el. stretch_set w)" by blast
  qed
  finally show ?thesis .
qed

lemma overlap_windows_ordered:
  "sorted_wrt stretch_before (overlap_windows ivs) \<and> (\<forall>w\<in>set (overlap_windows ivs). stretch_ok w)
   \<and> successively (\<lambda>p q. snd p < fst q) (overlap_windows ivs)"
proof -
  have c: "sweep.chain (overlap_windows ivs)"
    unfolding overlap_windows_def by (rule sweep.coalesce_chain[OF overlap_windows_chain])
  then have s: "sorted_wrt stretch_before (overlap_windows ivs)" "\<forall>w\<in>set (overlap_windows ivs). stretch_ok w"
    by (simp_all add: sweep.chain_def)
  have m: "successively (\<lambda>p q. join_window p q = None) (overlap_windows ivs)"
    unfolding overlap_windows_def by (rule sweep.coalesce_maximal)
  have "snd (overlap_windows ivs ! i) < fst (overlap_windows ivs ! Suc i)"
    if "Suc i < length (overlap_windows ivs)" for i
  proof -
    have "snd (overlap_windows ivs ! i) \<le> fst (overlap_windows ivs ! Suc i)"
      using sorted_wrt_nth_less[OF s(1), of i "Suc i"] that by (simp add: stretch_before_def)
    moreover have "snd (overlap_windows ivs ! i) \<noteq> fst (overlap_windows ivs ! Suc i)"
      using m that by (auto simp: successively_conv_nth join_window_def split: if_splits)
    ultimately show ?thesis by simp
  qed
  with s show ?thesis by (simp add: successively_conv_nth)
qed

section \<open>Activity intervals are bridged and separated\<close>

lemma project_stretches_spec:
  "bridged.chain (project_stretches env events project) \<and>
   (\<Union>w\<in>set (project_stretches env events project). stretch_reach w) =
     (\<Union>e\<in>{e\<in>set events. work_key env e = Some project}. {ev_ts e..ev_end e + minutes WINDOW_MINUTES}) \<and>
   successively (\<lambda>p q. minutes WINDOW_MINUTES < fst q - snd p) (project_stretches env events project)"
proof -
  let ?own = "sort_key ev_ts (filter (\<lambda>e. work_key env e = Some project) events)"
  let ?ws = "map (\<lambda>e. (ev_ts e, ev_end e)) ?own"
  have pos: "ev_ts e < ev_end e" if "work_key env e = Some project" for e
    using that by (auto simp: work_key_def ev_end_ge NS_def split: if_splits)
  have "sorted (map ev_ts ?own)" by simp
  then have "sorted_wrt begins_first ?ws" by (simp add: sorted_wrt_map begins_first_def)
  with pos have c: "bridged.chain ?ws" by (auto simp: bridged.chain_def stretch_ok_def)
  have "(\<Union>w\<in>set (project_stretches env events project). stretch_reach w) = (\<Union>w\<in>set ?ws. stretch_reach w)"
    unfolding project_stretches_def by (rule bridged.coalesce_cov[OF c])
  then have "(\<Union>w\<in>set (project_stretches env events project). stretch_reach w) =
     (\<Union>e\<in>{e\<in>set events. work_key env e = Some project}. {ev_ts e..ev_end e + minutes WINDOW_MINUTES})"
    by (simp add: stretch_reach_def)
  moreover have "successively (\<lambda>p q. bridge_stretch p q = None) (project_stretches env events project)"
    unfolding project_stretches_def by (rule bridged.coalesce_maximal)
  then have "successively (\<lambda>p q. minutes WINDOW_MINUTES < fst q - snd p) (project_stretches env events project)"
    by (rule successively_mono) (auto simp: bridge_stretch_def split: if_splits)
  ultimately show ?thesis using bridged.coalesce_chain[OF c] by (simp add: project_stretches_def)
qed

end
