(* ===== verification/Strings.thy ===== *)
theory Strings
  imports Prelude
begin

text \<open>
  Rust \<open>str\<close> methods on UTF-8 byte strings: \<open>trim\<close> with Unicode white space spelled out as byte
  sequences, \<open>split\<close>, \<open>join\<close>, \<open>chars().count()\<close>. Case folding and the alphanumeric test need the
  Unicode tables, which are the record \<open>unicode\<close>.
\<close>

definition white_space :: "string list" where
  "white_space = [[CHR 0x09], [CHR 0x0A], [CHR 0x0B], [CHR 0x0C], [CHR 0x0D], [CHR 0x20],
     [CHR 0xC2, CHR 0x85], [CHR 0xC2, CHR 0xA0], [CHR 0xE1, CHR 0x9A, CHR 0x80],
     [CHR 0xE2, CHR 0x80, CHR 0x80], [CHR 0xE2, CHR 0x80, CHR 0x81], [CHR 0xE2, CHR 0x80, CHR 0x82],
     [CHR 0xE2, CHR 0x80, CHR 0x83], [CHR 0xE2, CHR 0x80, CHR 0x84], [CHR 0xE2, CHR 0x80, CHR 0x85],
     [CHR 0xE2, CHR 0x80, CHR 0x86], [CHR 0xE2, CHR 0x80, CHR 0x87], [CHR 0xE2, CHR 0x80, CHR 0x88],
     [CHR 0xE2, CHR 0x80, CHR 0x89], [CHR 0xE2, CHR 0x80, CHR 0x8A], [CHR 0xE2, CHR 0x80, CHR 0xA8],
     [CHR 0xE2, CHR 0x80, CHR 0xA9], [CHR 0xE2, CHR 0x80, CHR 0xAF], [CHR 0xE2, CHR 0x81, CHR 0x9F],
     [CHR 0xE3, CHR 0x80, CHR 0x80]]"

definition strip_any :: "string list \<Rightarrow> string \<Rightarrow> string option" where
  "strip_any ps s = find_some (\<lambda>p. if p = [] then None else strip_prefix p s) ps"

lemma strip_any_shorter: "strip_any ps s = Some r \<Longrightarrow> length r < length s"
  unfolding strip_any_def
  by (auto dest!: find_some_Some simp: strip_prefix_Some split: if_splits)

function strip_all :: "string list \<Rightarrow> string \<Rightarrow> string" where
  "strip_all ps s = (case strip_any ps s of None \<Rightarrow> s | Some r \<Rightarrow> strip_all ps r)"
  by pat_completeness auto
termination
  by (relation "measure (\<lambda>(ps, s). length s)") (auto dest: strip_any_shorter)

declare strip_all.simps [simp del]

definition trim_start :: "string \<Rightarrow> string" where
  "trim_start s = strip_all white_space s"

definition trim_end :: "string \<Rightarrow> string" where
  "trim_end s = rev (strip_all (map rev white_space) (rev s))"

definition trim :: "string \<Rightarrow> string" where
  "trim s = trim_end (trim_start s)"

fun split_on :: "(char \<Rightarrow> bool) \<Rightarrow> string \<Rightarrow> string list" where
  "split_on p [] = [[]]"
| "split_on p (c # cs) =
     (if p c then [] # split_on p cs
      else (case split_on p cs of [] \<Rightarrow> [[c]] | x # xs \<Rightarrow> (c # x) # xs))"

fun join :: "string \<Rightarrow> string list \<Rightarrow> string" where
  "join sep [] = []"
| "join sep [x] = x"
| "join sep (x # y # ys) = x @ sep @ join sep (y # ys)"

definition continuation_byte :: "char \<Rightarrow> bool" where
  "continuation_byte c = (128 \<le> (of_char c :: nat) \<and> (of_char c :: nat) < 192)"

definition char_count :: "string \<Rightarrow> nat" where
  "char_count s = length (filter (\<lambda>c. \<not> continuation_byte c) s)"

record unicode =
  lower_chars :: "string \<Rightarrow> nat list"
  alphanumeric :: "nat \<Rightarrow> bool"

text \<open>Decimal digits, as \<open>format!\<close> prints a non-negative integer.\<close>

function show_nat :: "nat \<Rightarrow> string" where
  "show_nat n = (if n < 10 then [char_of (48 + n)] else show_nat (n div 10) @ [char_of (48 + n mod 10)])"
  by pat_completeness auto
termination by (relation "measure id") auto

declare show_nat.simps [simp del]

definition ascii_upper :: "char \<Rightarrow> bool" where
  "ascii_upper c = (65 \<le> (of_char c :: nat) \<and> (of_char c :: nat) \<le> 90)"

text \<open>The key SQLite's \<open>NOCASE\<close> collation compares: ASCII letters in lower case.\<close>

definition nocase :: "string \<Rightarrow> string" where
  "nocase s = map (\<lambda>c. if ascii_upper c then char_of ((of_char c :: nat) + 32) else c) s"

lemma split_on_ne [simp]: "split_on p s \<noteq> []"
  by (induction s) (auto split: list.splits)

lemma split_on_clean: "\<forall>c\<in>set s. \<not> p c \<Longrightarrow> split_on p s = [s]"
  by (induction s) auto

lemma split_on_append: "\<forall>c\<in>set s. \<not> p c \<Longrightarrow> p d \<Longrightarrow> split_on p (s @ d # t) = s # split_on p t"
  by (induction s) auto

lemma split_on_join:
  "xs \<noteq> [] \<Longrightarrow> p d \<Longrightarrow> \<forall>x\<in>set xs. \<forall>c\<in>set x. \<not> p c \<Longrightarrow> split_on p (join [d] xs) = xs"
  by (induction "[d]" xs rule: join.induct) (auto simp: split_on_clean split_on_append)

lemma split_on_parts: "x \<in> set (split_on p s) \<Longrightarrow> \<forall>c\<in>set x. \<not> p c"
proof (induction s arbitrary: x)
  case (Cons a s)
  obtain y ys where s: "split_on p s = y # ys" by (cases "split_on p s") simp_all
  with Cons.IH have "\<forall>c\<in>set y. \<not> p c" "\<forall>z\<in>set ys. \<forall>c\<in>set z. \<not> p c" by auto
  with Cons.prems s show ?case by (auto split: if_splits)
qed simp

text \<open>Trimming twice is trimming once.\<close>

lemma strip_all_suffix: "\<exists>u. s = u @ strip_all ps s"
proof (induction ps s rule: strip_all.induct)
  case (1 ps s)
  show ?case
  proof (cases "strip_any ps s")
    case None
    then show ?thesis by (subst strip_all.simps) simp
  next
    case (Some r)
    then obtain p where "s = p @ r" unfolding strip_any_def
      by (auto dest!: find_some_Some simp: strip_prefix_Some split: if_splits)
    moreover from "1.IH"[OF Some] obtain u where "r = u @ strip_all ps r" by blast
    moreover from Some have "strip_all ps s = strip_all ps r" by (subst strip_all.simps) simp
    ultimately show ?thesis by (metis append.assoc)
  qed
qed

lemma strip_all_stops: "strip_any ps (strip_all ps s) = None"
proof (induction ps s rule: strip_all.induct)
  case (1 ps s)
  show ?case
  proof (cases "strip_any ps s")
    case None
    then show ?thesis by (subst strip_all.simps) simp
  next
    case (Some r)
    from "1.IH"[OF Some] Some show ?thesis by (subst strip_all.simps) simp
  qed
qed

lemma strip_all_fixed: "strip_any ps s = None \<Longrightarrow> strip_all ps s = s"
  by (subst strip_all.simps) simp

lemma strip_any_None: "strip_any ps s = None \<longleftrightarrow> (\<forall>p\<in>set ps. p \<noteq> [] \<longrightarrow> \<not> (\<exists>r. s = p @ r))"
proof -
  have "strip_prefix p s = None \<longleftrightarrow> \<not> (\<exists>r. s = p @ r)" for p
    by (metis not_None_eq strip_prefix_Some)
  then show ?thesis unfolding strip_any_def find_some_None by auto
qed

lemma trim_end_trim_end: "trim_end (trim_end s) = trim_end s"
  by (simp add: trim_end_def strip_all_fixed[OF strip_all_stops])

lemma trim_end_prefix: "\<exists>u. s = trim_end s @ u"
proof -
  from strip_all_suffix[of "rev s" "map rev white_space"]
  obtain u where "rev s = u @ strip_all (map rev white_space) (rev s)" by blast
  then have "s = rev (strip_all (map rev white_space) (rev s)) @ rev u" by (metis rev_append rev_rev_ident)
  then show ?thesis unfolding trim_end_def by blast
qed

lemma trim_start_trim: "trim_start (trim s) = trim s"
proof -
  have "strip_any white_space (trim_start s) = None" by (simp add: trim_start_def strip_all_stops)
  moreover obtain u where "trim_start s = trim s @ u" using trim_end_prefix unfolding trim_def by blast
  ultimately have "strip_any white_space (trim s) = None" unfolding strip_any_None by (metis append.assoc)
  then show ?thesis by (simp add: trim_start_def strip_all_fixed)
qed

lemma trim_trim [simp]: "trim (trim s) = trim s"
proof -
  have "trim (trim s) = trim_end (trim s)" by (metis trim_def trim_start_trim)
  also have "\<dots> = trim s" by (simp add: trim_def trim_end_trim_end)
  finally show ?thesis .
qed

text \<open>Printed numbers are digits.\<close>

definition ascii_digit :: "char \<Rightarrow> bool" where
  "ascii_digit c = (48 \<le> (of_char c :: nat) \<and> (of_char c :: nat) \<le> 57)"

lemma show_nat_digits: "show_nat n \<noteq> [] \<and> list_all ascii_digit (show_nat n)"
proof (induction n rule: show_nat.induct)
  case (1 n)
  have d: "m < 10 \<Longrightarrow> ascii_digit (char_of (48 + m))" for m :: nat by (simp add: ascii_digit_def)
  show ?case using 1 d[of n] d[of "n mod 10"] by (subst (1 2) show_nat.simps) simp
qed

end
