(* ===== verification/BlockRow.thy ===== *)
theory BlockRow
  imports Strings
begin

text \<open>
  One row of the \<open>blocks\<close> table (\<open>models.rs\<close>, \<open>Block\<close>, with the two columns only the estimator reads)
  and the enumerations stored in it as text.
\<close>

datatype ticket_origin = Event | Auto | Manual
datatype ignore_reason = Noise | Duplicate
datatype description_origin = Note | Ai | Hand

fun origin_text :: "ticket_origin \<Rightarrow> string" where
  "origin_text Event = ''event''"
| "origin_text Auto = ''auto''"
| "origin_text Manual = ''manual''"

definition parse_origin :: "string \<Rightarrow> ticket_origin option" where
  "parse_origin s =
     (if s = ''event'' then Some Event
      else if s = ''auto'' then Some Auto
      else if s = ''manual'' then Some Manual
      else None)"

definition ticket_locked :: "ticket_origin option \<Rightarrow> bool" where
  "ticket_locked origin = (origin = Some Manual)"

fun reason_text :: "ignore_reason \<Rightarrow> string" where
  "reason_text Noise = ''noise''"
| "reason_text Duplicate = ''duplicate''"

definition parse_reason :: "string \<Rightarrow> ignore_reason option" where
  "parse_reason s = (if s = ''noise'' then Some Noise else if s = ''duplicate'' then Some Duplicate else None)"

lemma parse_origin_text [simp]: "parse_origin (origin_text t) = Some t"
  by (cases t) (simp_all add: parse_origin_def)

lemma parse_reason_text [simp]: "parse_reason (reason_text r) = Some r"
  by (cases r) (simp_all add: parse_reason_def)

record block =
  bk_id :: int
  bk_day :: string
  bk_jira :: "string option"
  bk_start :: string
  bk_end :: string
  bk_secs :: int
  bk_desc :: "string option"
  bk_by :: "string option"
  bk_flagged :: bool
  bk_tempo :: "string option"
  bk_personal :: bool
  bk_dirty :: bool
  bk_exported :: "string option"
  bk_ignored :: "string option"
  bk_reason :: "ignore_reason option"
  bk_dsecs :: "int option"
  bk_origin :: "ticket_origin option"
  bk_note :: "string option"
  bk_desc_origin :: "description_origin option"

text \<open>\<open>Some\<close> text that is not blank, as \<open>is_synced\<close> and \<open>marker_set\<close> read a marker column.\<close>

definition marker_set :: "string option \<Rightarrow> bool" where
  "marker_set v = (case v of None \<Rightarrow> False | Some s \<Rightarrow> trim s \<noteq> [])"

definition is_synced :: "block \<Rightarrow> bool" where
  "is_synced b = marker_set (bk_tempo b)"

lemma marker_set_None [simp]: "\<not> marker_set None"
  by (simp add: marker_set_def)

end
