(* ===== verification/Carry.thy ===== *)
theory Carry
  imports Spans BlockRow
begin

text \<open>
  Rebuilding a day: \<open>infer_carry.rs\<close> (\<open>cut_at_ticket_edges\<close>, \<open>keeps_description\<close>), the row a rebuilt block
  inherits and the table a rebuild leaves (\<open>persist_blocks\<close> of \<open>infer.rs\<close>), and
  \<open>infer_carry_shares.rs\<close> (\<open>carry_table\<close>).

  The record \<open>persist_ctx\<close> holds what comes from outside: chrono's parser and formatter
  (\<open>parse_maybe_utc\<close>, \<open>block_iso\<close>), the path classifier, the ticket cache, the skipped sessions and
  the clock. A table is the list of its rows in insertion order.
\<close>

section \<open>Cutting at ticket edges\<close>

type_synonym ticketed = "instant \<times> instant \<times> string"

definition ticket_hits :: "infer_block \<Rightarrow> ticketed list \<Rightarrow> ticketed list" where
  "ticket_hits b ticketed =
     dedup_by (\<lambda>x y. snd (snd x) = snd (snd y))
       (sort_key fst (filter (\<lambda>(s, e, t). s < ib_end b \<and> ib_start b < e) ticketed))"

definition ticket_edges :: "infer_block \<Rightarrow> ticketed list \<Rightarrow> instant list" where
  "ticket_edges b hits =
     ib_start b # filter (\<lambda>s. ib_start b < s \<and> s < ib_end b) (map fst (tl hits)) @ [ib_end b]"

definition cut_block :: "env \<Rightarrow> ticketed list \<Rightarrow> infer_block \<Rightarrow> infer_block list" where
  "cut_block env ticketed b =
     (let hits = ticket_hits b ticketed
      in if ib_calendar b \<or> length hits < 2 then [b]
         else List.map_filter (\<lambda>(s, e).
                span_block env (events_between (ib_events b) s e) s e (ib_events b) True)
              (windows2 (ticket_edges b hits)))"

definition cut_at_ticket_edges :: "env \<Rightarrow> infer_block list \<Rightarrow> ticketed list \<Rightarrow> infer_block list" where
  "cut_at_ticket_edges env blocks ticketed = concat (map (cut_block env ticketed) blocks)"

definition keeps_description :: "int \<times> int \<Rightarrow> int \<times> int \<Rightarrow> string option \<Rightarrow> bool" where
  "keeps_description prior new estimated_by =
     (if estimated_by = Some ''manual'' then True
      else let prior_len = snd prior - fst prior;
               new_len = snd new - fst new
           in if 30 \<le> \<bar>new_len - prior_len\<bar> then False
              else max prior_len new_len * 2 \<le> min prior_len new_len * 3)"

section \<open>The rows of a day\<close>

record block_row =
  br_day :: string
  br_jira :: "string option"
  br_start :: string
  br_end :: string
  br_secs :: int
  br_desc :: "string option"
  br_by :: "string option"
  br_flagged :: bool
  br_tempo :: "string option"
  br_personal :: bool
  br_exported :: "string option"
  br_dsecs :: "int option"
  br_ignored :: "string option"
  br_origin :: "ticket_origin option"
  br_reason :: "string option"
  br_events :: "int list"

record persist_ctx =
  parse_utc :: "string \<Rightarrow> instant option"
  block_iso :: "instant \<Rightarrow> string"
  personal_path :: "string option \<Rightarrow> bool"
  known_ticket :: "string \<Rightarrow> bool"
  skipped_at :: "string \<Rightarrow> instant option"
  now_text :: string

definition hand_logged :: "block_row \<Rightarrow> bool" where
  "hand_logged r = (br_by r = Some ''manual'' \<and> br_events r = [])"

definition parse_pair :: "persist_ctx \<Rightarrow> string \<Rightarrow> string \<Rightarrow> (instant \<times> instant) option" where
  "parse_pair ctx s e =
     (case parse_utc ctx s of
        None \<Rightarrow> None
      | Some a \<Rightarrow> (case parse_utc ctx e of None \<Rightarrow> None | Some b \<Rightarrow> Some (a, b)))"

definition ranges_overlap :: "persist_ctx \<Rightarrow> string \<Rightarrow> string \<Rightarrow> string \<Rightarrow> string \<Rightarrow> bool" where
  "ranges_overlap ctx a_start a_end b_start b_end =
     (case parse_pair ctx a_start a_end of
        None \<Rightarrow> False
      | Some (a_s, a_e) \<Rightarrow>
          (case parse_pair ctx b_start b_end of
             None \<Rightarrow> False
           | Some (b_s, b_e) \<Rightarrow> a_s < b_e \<and> b_s < a_e))"

text \<open>A map keyed by \<open>started_at\<close> keeps the last row inserted for a key.\<close>

definition exact_prior :: "block_row list \<Rightarrow> string \<Rightarrow> block_row option" where
  "exact_prior prior key = find (\<lambda>c. br_start c = key) (rev prior)"

definition overlap_prior :: "persist_ctx \<Rightarrow> block_row list \<Rightarrow> string set \<Rightarrow> string \<Rightarrow> string \<Rightarrow> block_row option" where
  "overlap_prior ctx prior claimed s e =
     (let available = filter (\<lambda>c. br_start c \<notin> claimed \<and> ranges_overlap ctx (br_start c) (br_end c) s e) prior
      in case find (\<lambda>c. br_jira c \<noteq> None) available of
           Some c \<Rightarrow> Some c
         | None \<Rightarrow> (case available of [] \<Rightarrow> None | c # _ \<Rightarrow> Some c))"

definition carry_for :: "persist_ctx \<Rightarrow> block_row list \<Rightarrow> string set \<Rightarrow> infer_block \<Rightarrow> block_row option" where
  "carry_for ctx prior claimed b =
     (let s = block_iso ctx (ib_start b); e = block_iso ctx (ib_end b)
      in case exact_prior prior s of
           Some c \<Rightarrow> Some c
         | None \<Rightarrow> overlap_prior ctx prior claimed s e)"

definition prior_minutes :: "persist_ctx \<Rightarrow> block_row \<Rightarrow> (int \<times> int) option" where
  "prior_minutes ctx c =
     (case br_dsecs c of
        Some secs \<Rightarrow> Some (0, secs div 60)
      | None \<Rightarrow> map_option (\<lambda>(s, e). (timestamp s div 60, timestamp e div 60))
                  (parse_pair ctx (br_start c) (br_end c)))"

definition keeps_text :: "persist_ctx \<Rightarrow> infer_block \<Rightarrow> block_row \<Rightarrow> bool" where
  "keeps_text ctx b c =
     (case prior_minutes ctx c of
        None \<Rightarrow> True
      | Some p \<Rightarrow> keeps_description p
                    (timestamp (ib_start b) div 60, timestamp (ib_end b) div 60) (br_by c))"

definition carried_ticket :: "infer_block \<Rightarrow> block_row option \<Rightarrow> string option \<times> ticket_origin option" where
  "carried_ticket b carry =
     (let inferred = (case ib_jira b of Some key \<Rightarrow> (Some key, Some Event) | None \<Rightarrow> (None, None))
      in case carry of
           None \<Rightarrow> inferred
         | Some c \<Rightarrow>
             if ticket_locked (br_origin c) then (br_jira c, br_origin c)
             else if br_jira c \<noteq> None then (br_jira c, br_origin c)
             else inferred)"

definition SKIP_REACH_MINUTES :: int where "SKIP_REACH_MINUTES = 60"

definition from_skipped :: "persist_ctx \<Rightarrow> infer_block \<Rightarrow> bool" where
  "from_skipped ctx b =
     (ib_events b \<noteq> [] \<and>
      list_all (\<lambda>e. case ev_session e of
          None \<Rightarrow> False
        | Some s \<Rightarrow> (case skipped_at ctx s of
              None \<Rightarrow> False
            | Some at \<Rightarrow> ib_start b \<le> at + minutes SKIP_REACH_MINUTES)) (ib_events b))"

definition carried_ignore :: "persist_ctx \<Rightarrow> infer_block \<Rightarrow> block_row option \<Rightarrow> string option \<times> string option" where
  "carried_ignore ctx b carry =
     (case Option.bind carry br_ignored of
        Some ign \<Rightarrow> (Some ign, Option.bind carry br_reason)
      | None \<Rightarrow>
          if from_skipped ctx b \<and> Option.bind carry br_tempo = None \<and> Option.bind carry br_exported = None
          then (Some (now_text ctx), Some ''noise'')
          else (None, None))"

definition persist_row :: "env \<Rightarrow> persist_ctx \<Rightarrow> infer_block \<Rightarrow> block_row option \<Rightarrow> block_row" where
  "persist_row env ctx b carry =
     (let text = (case carry of Some c \<Rightarrow> if keeps_text ctx b c then Some c else None | None \<Rightarrow> None);
          ticket = carried_ticket b carry;
          ignore = carried_ignore ctx b carry;
          real_ticket = (case fst ticket of None \<Rightarrow> False | Some k \<Rightarrow> known_ticket ctx k)
      in \<lparr>br_day = ib_day b, br_jira = fst ticket,
          br_start = block_iso ctx (ib_start b), br_end = block_iso ctx (ib_end b), br_secs = ib_secs b,
          br_desc = Option.bind text br_desc, br_by = Option.bind text br_by, br_flagged = ib_flagged b,
          br_tempo = Option.bind carry br_tempo,
          br_personal = (fst ignore \<noteq> None \<or>
            (personal_path ctx (dominant_project_path env b) \<and> \<not> real_ticket)),
          br_exported = Option.bind carry br_exported, br_dsecs = Option.bind text br_dsecs,
          br_ignored = fst ignore, br_origin = snd ticket, br_reason = snd ignore,
          br_events = ib_event_ids b\<rparr>)"

fun carries :: "persist_ctx \<Rightarrow> block_row list \<Rightarrow> string set \<Rightarrow> infer_block list \<Rightarrow> block_row option list" where
  "carries ctx prior claimed [] = []"
| "carries ctx prior claimed (b # bs) =
     (let carry = carry_for ctx prior claimed b;
          claimed' = (case carry of None \<Rightarrow> claimed | Some c \<Rightarrow> insert (br_start c) claimed)
      in carry # carries ctx prior claimed' bs)"

definition first_claims :: "persist_ctx \<Rightarrow> block_row list \<Rightarrow> infer_block list \<Rightarrow> string set" where
  "first_claims ctx prior blocks =
     set (filter (\<lambda>k. exact_prior prior k \<noteq> None) (map (\<lambda>b. block_iso ctx (ib_start b)) blocks))"

definition day_prior :: "string \<Rightarrow> block_row list \<Rightarrow> block_row list" where
  "day_prior day table = sort_key br_start (filter (\<lambda>r. br_day r = day \<and> \<not> hand_logged r) table)"

definition prior_tickets :: "persist_ctx \<Rightarrow> block_row list \<Rightarrow> ticketed list" where
  "prior_tickets ctx prior =
     List.map_filter (\<lambda>c. case parse_pair ctx (br_start c) (br_end c) of
         None \<Rightarrow> None
       | Some (s, e) \<Rightarrow> map_option (\<lambda>t. (s, e, t)) (br_jira c)) prior"

definition rebuilt_rows :: "env \<Rightarrow> persist_ctx \<Rightarrow> block_row list \<Rightarrow> infer_block list \<Rightarrow> block_row list" where
  "rebuilt_rows env ctx prior blocks =
     (let blocks = cut_at_ticket_edges env blocks (prior_tickets ctx prior)
      in map2 (persist_row env ctx) blocks (carries ctx prior (first_claims ctx prior blocks) blocks))"

datatype persist_error = DayCompressed string

definition persist_blocks ::
    "env \<Rightarrow> persist_ctx \<Rightarrow> bool \<Rightarrow> string \<Rightarrow> block_row list \<Rightarrow> infer_block list \<Rightarrow> persist_error + block_row list" where
  "persist_blocks env ctx compressed day table blocks =
     (if compressed then Inl (DayCompressed day)
      else Inr (filter (\<lambda>r. \<not> (br_day r = day \<and> \<not> hand_logged r)) table
                @ rebuilt_rows env ctx (day_prior day table) blocks))"

section \<open>Owner rows keyed by the block start\<close>

type_synonym 'p owner_table = "string \<Rightarrow> 'p option"
type_synonym text_span = "string \<times> string"

definition overlap_seconds :: "persist_ctx \<Rightarrow> text_span \<Rightarrow> text_span \<Rightarrow> int option" where
  "overlap_seconds ctx a b =
     (case parse_pair ctx (fst a) (snd a) of
        None \<Rightarrow> None
      | Some (a_s, a_e) \<Rightarrow>
          (case parse_pair ctx (fst b) (snd b) of
             None \<Rightarrow> None
           | Some (b_s, b_e) \<Rightarrow> Some (num_seconds (min a_e b_e - max a_s b_s))))"

definition best_old :: "persist_ctx \<Rightarrow> 'p owner_table \<Rightarrow> text_span list \<Rightarrow> text_span \<Rightarrow> string option" where
  "best_old ctx existing old new =
     map_option snd (max_by_key fst (filter (\<lambda>(secs, s). 0 < secs)
       (List.map_filter (\<lambda>p. map_option (\<lambda>secs. (secs, fst p)) (overlap_seconds ctx p new))
          (filter (\<lambda>p. existing (fst p) \<noteq> None) old))))"

definition inherit_row ::
    "persist_ctx \<Rightarrow> 'p owner_table \<Rightarrow> text_span list \<Rightarrow> text_span \<Rightarrow> 'p owner_table \<Rightarrow> 'p owner_table" where
  "inherit_row ctx existing old new tbl =
     (if existing (fst new) \<noteq> None then tbl
      else case best_old ctx existing old new of
             None \<Rightarrow> tbl
           | Some p \<Rightarrow> if tbl (fst new) \<noteq> None then tbl else tbl(fst new := tbl p))"

definition carry_table ::
    "persist_ctx \<Rightarrow> text_span list \<Rightarrow> text_span list \<Rightarrow> 'p owner_table \<Rightarrow> 'p owner_table" where
  "carry_table ctx old new existing =
     (let filled = fold (inherit_row ctx existing old) new existing
      in (\<lambda>s. if existing s \<noteq> None \<and> s \<notin> fst ` set new then None else filled s))"

section \<open>No time is lost at a ticket edge\<close>

lemma windows2_sum: "xs \<noteq> [] \<Longrightarrow> sum_list (map (\<lambda>(s, e). e - s) (windows2 xs)) = last xs - (hd xs :: int)"
  by (induction xs rule: windows2.induct) simp_all

lemma windows2_sorted: "sorted xs \<Longrightarrow> (a, b) \<in> set (windows2 xs) \<Longrightarrow> a \<le> (b::'a::linorder)"
  by (induction xs rule: windows2.induct) auto

lemma dedup_by_subset: "set (dedup_by r xs) \<subseteq> set xs"
  by (induction r xs rule: dedup_by.induct) auto

lemma dedup_by_sorted: "sorted (map f xs) \<Longrightarrow> sorted (map f (dedup_by r xs))"
proof (induction r xs rule: dedup_by.induct)
  case (3 r x y ys)
  show ?case
  proof (cases "r x y")
    case False
    with 3 have "sorted (map f (dedup_by r (y # ys)))" by simp
    moreover have "\<forall>z\<in>set (dedup_by r (y # ys)). f x \<le> f z"
      using dedup_by_subset[of r "y # ys"] 3(3) by auto
    ultimately show ?thesis using False by simp
  qed (use 3 in simp)
qed simp_all

lemma ticket_edges_sorted:
  assumes "ib_start b < ib_end b"
  shows "sorted (ticket_edges b (ticket_hits b ticketed))"
proof -
  have "sorted (map fst (ticket_hits b ticketed))"
    unfolding ticket_hits_def by (rule dedup_by_sorted) simp
  then have "sorted (map fst (tl (ticket_hits b ticketed)))" by (cases "ticket_hits b ticketed") simp_all
  then have "sorted (filter (\<lambda>s. ib_start b < s \<and> s < ib_end b) (map fst (tl (ticket_hits b ticketed))))"
    by (metis map_ident sorted_filter)
  with assms show ?thesis by (auto simp: ticket_edges_def sorted_append)
qed

lemma cut_block_length:
  assumes b: "ib_start b < ib_end b" and path: "list_ex has_path (ib_events b)"
  shows "total_length (cut_block env ticketed b) = block_length b"
proof (cases "ib_calendar b \<or> length (ticket_hits b ticketed) < 2")
  case True
  then show ?thesis by (auto simp: cut_block_def Let_def total_length_def)
next
  case False
  let ?edges = "ticket_edges b (ticket_hits b ticketed)"
  have srt: "sorted ?edges" by (rule ticket_edges_sorted[OF b])
  have one: "sum_list (map block_length (case span_block env (events_between (ib_events b) s e) s e (ib_events b) True of
      None \<Rightarrow> [] | Some x \<Rightarrow> [x])) = e - s" if "s \<le> e" for s e
  proof (cases "s < e")
    case True
    with path have "span_block env (events_between (ib_events b) s e) s e (ib_events b) True \<noteq> None"
      by (simp add: span_block_None)
    then obtain x where x: "span_block env (events_between (ib_events b) s e) s e (ib_events b) True = Some x" by blast
    with span_block_Some(1,2)[OF x] show ?thesis by (simp add: block_length_def)
  next
    case False
    then have "span_block env (events_between (ib_events b) s e) s e (ib_events b) True = None"
      by (simp add: span_block_None)
    with False that show ?thesis by simp
  qed
  have "total_length (List.map_filter (\<lambda>(s, e). span_block env (events_between (ib_events b) s e) s e (ib_events b) True) ws)
      = sum_list (map (\<lambda>(s, e). e - s) ws)" if "\<And>s e. (s, e) \<in> set ws \<Longrightarrow> s \<le> e" for ws
    using that
  proof (induction ws)
    case (Cons w ws)
    obtain s e where w: "w = (s, e)" by (cases w)
    with Cons one[of s e] show ?case
      by (auto simp: map_filter_simps total_length_def split: option.splits)
  qed (simp add: map_filter_simps total_length_def)
  from this[OF windows2_sorted[OF srt]] windows2_sum[of ?edges]
  have "total_length (List.map_filter (\<lambda>(s, e). span_block env (events_between (ib_events b) s e) s e (ib_events b) True) (windows2 ?edges))
      = ib_end b - ib_start b" by (simp add: ticket_edges_def)
  with False show ?thesis by (simp add: cut_block_def Let_def block_length_def)
qed

lemma cut_at_ticket_edges_length:
  assumes "\<And>b. b \<in> set blocks \<Longrightarrow> ib_start b < ib_end b \<and> list_ex has_path (ib_events b)"
  shows "total_length (cut_at_ticket_edges env blocks ticketed) = total_length blocks"
  using assms
proof (induction blocks)
  case (Cons b bs)
  have "total_length (cut_at_ticket_edges env bs ticketed) = total_length bs"
    by (rule Cons.IH) (use Cons.prems in auto)
  with cut_block_length[of b env ticketed] Cons.prems[of b] show ?case
    by (simp add: cut_at_ticket_edges_def total_length_def)
qed (simp add: cut_at_ticket_edges_def)

text \<open>A block none of whose events names a folder is lost altogether once two tickets overlap it.\<close>

lemma cut_block_folderless:
  assumes "\<not> ib_calendar b" "2 \<le> length (ticket_hits b ticketed)" "\<not> list_ex has_path (ib_events b)"
  shows "cut_block env ticketed b = []"
proof -
  have "\<not> list_ex has_path (events_between (ib_events b) s e)" for s e
    using assms(3) by (auto simp: list_ex_iff events_between_def)
  then have "span_block env (events_between (ib_events b) s e) s e (ib_events b) True = None" for s e
    using assms(3) by (simp add: span_block_None)
  then show ?thesis using assms by (simp add: cut_block_def Let_def List.map_filter_def)
qed

section \<open>A prior row is inherited at most once\<close>

lemma find_SomeD: "find P xs = Some x \<Longrightarrow> x \<in> set xs \<and> P x"
  by (induction xs) (auto split: if_splits)

lemma exact_prior_Some: "exact_prior prior k = Some c \<Longrightarrow> c \<in> set prior \<and> br_start c = k"
  unfolding exact_prior_def using find_SomeD by fastforce

lemma overlap_prior_Some:
  assumes "overlap_prior ctx prior claimed s e = Some c"
  shows "c \<in> set prior \<and> br_start c \<notin> claimed \<and> ranges_overlap ctx (br_start c) (br_end c) s e"
proof -
  let ?av = "filter (\<lambda>c. br_start c \<notin> claimed \<and> ranges_overlap ctx (br_start c) (br_end c) s e) prior"
  have "c \<in> set ?av"
  proof (cases "find (\<lambda>c. br_jira c \<noteq> None) ?av")
    case None
    with assms show ?thesis by (cases ?av) (simp_all add: overlap_prior_def Let_def)
  next
    case (Some d)
    then have "d \<in> set ?av" using find_SomeD by fast
    with Some assms show ?thesis by (simp add: overlap_prior_def Let_def)
  qed
  then show ?thesis by auto
qed

definition carried_starts :: "block_row option list \<Rightarrow> string list" where
  "carried_starts cs = map br_start (List.map_filter id cs)"

lemma carried_starts_simps [simp]:
  "carried_starts [] = []"
  "carried_starts (c # cs) = (case c of None \<Rightarrow> carried_starts cs | Some r \<Rightarrow> br_start r # carried_starts cs)"
  by (simp_all add: carried_starts_def map_filter_simps split: option.splits)

definition exact_keys :: "persist_ctx \<Rightarrow> block_row list \<Rightarrow> infer_block list \<Rightarrow> string set" where
  "exact_keys ctx prior bs = {k. exact_prior prior k \<noteq> None \<and> (\<exists>b\<in>set bs. k = block_iso ctx (ib_start b))}"

lemma carries_fresh:
  "x \<in> set (carried_starts (carries ctx prior claimed bs)) \<Longrightarrow> x \<in> exact_keys ctx prior bs \<or> x \<notin> claimed"
proof (induction bs arbitrary: claimed)
  case (Cons b bs)
  let ?c = "carry_for ctx prior claimed b"
  let ?claimed = "case ?c of None \<Rightarrow> claimed | Some c \<Rightarrow> insert (br_start c) claimed"
  from Cons.prems consider c where "?c = Some c" "x = br_start c"
    | "x \<in> set (carried_starts (carries ctx prior ?claimed bs))"
    by (auto simp: Let_def split: option.splits)
  then show ?case
  proof cases
    case (1 c)
    show ?thesis
    proof (cases "exact_prior prior (block_iso ctx (ib_start b))")
      case None
      with 1 show ?thesis by (auto simp: carry_for_def Let_def dest: overlap_prior_Some)
    next
      case (Some d)
      with 1 exact_prior_Some[OF Some] show ?thesis by (auto simp: carry_for_def Let_def exact_keys_def)
    qed
  next
    case 2
    from Cons.IH[OF this] show ?thesis by (auto simp: exact_keys_def split: option.splits)
  qed
qed simp

lemma carries_distinct:
  assumes "distinct (map (\<lambda>b. block_iso ctx (ib_start b)) bs)" "exact_keys ctx prior bs \<subseteq> claimed"
  shows "distinct (carried_starts (carries ctx prior claimed bs))"
  using assms
proof (induction bs arbitrary: claimed)
  case (Cons b bs)
  let ?k = "block_iso ctx (ib_start b)"
  let ?c = "carry_for ctx prior claimed b"
  have rest: "exact_keys ctx prior bs \<subseteq> claimed" and k: "?k \<notin> exact_keys ctx prior bs"
    and dist: "distinct (map (\<lambda>b. block_iso ctx (ib_start b)) bs)"
    using Cons.prems by (auto simp: exact_keys_def)
  show ?case
  proof (cases ?c)
    case None
    with Cons.IH[OF dist rest] show ?thesis by (simp add: Let_def)
  next
    case (Some c)
    have notin: "br_start c \<notin> exact_keys ctx prior bs"
    proof (cases "exact_prior prior ?k")
      case None
      with Some have "br_start c \<notin> claimed" by (auto simp: carry_for_def Let_def dest: overlap_prior_Some)
      then show ?thesis using rest by blast
    next
      case (Some d)
      with \<open>?c = Some c\<close> exact_prior_Some[OF Some] k show ?thesis by (simp add: carry_for_def Let_def)
    qed
    have "exact_keys ctx prior bs \<subseteq> insert (br_start c) claimed" using rest by blast
    note IH = Cons.IH[OF dist this]
    have "br_start c \<notin> set (carried_starts (carries ctx prior (insert (br_start c) claimed) bs))"
      using carries_fresh[of "br_start c" ctx prior "insert (br_start c) claimed" bs] notin by blast
    with IH Some show ?thesis by (simp add: Let_def)
  qed
qed simp

lemma first_claims_exact: "exact_keys ctx prior bs = first_claims ctx prior bs"
  by (auto simp: exact_keys_def first_claims_def)

lemma rebuilt_carry_once:
  "distinct (map (\<lambda>b. block_iso ctx (ib_start b)) bs) \<Longrightarrow>
     distinct (carried_starts (carries ctx prior (first_claims ctx prior bs) bs))"
  by (rule carries_distinct) (simp_all add: first_claims_exact)

lemma carries_prior: "set (List.map_filter id (carries ctx prior claimed bs)) \<subseteq> set prior"
proof (induction bs arbitrary: claimed)
  case (Cons b bs)
  have "carry_for ctx prior claimed b = Some c \<Longrightarrow> c \<in> set prior" for c
    by (auto simp: carry_for_def Let_def dest: exact_prior_Some overlap_prior_Some split: option.splits)
  with Cons[of claimed] Cons show ?case by (auto simp: map_filter_simps Let_def split: option.splits)
qed (simp add: map_filter_simps)

lemma length_carries [simp]: "length (carries ctx prior claimed bs) = length bs"
  by (induction bs arbitrary: claimed) (simp_all add: Let_def)

lemma map2_tempo:
  "length bs = length cs \<Longrightarrow>
     List.map_filter br_tempo (map2 (persist_row env ctx) bs cs) = List.map_filter br_tempo (List.map_filter id cs)"
  by (induction bs cs rule: list_induct2)
     (simp_all add: map_filter_simps persist_row_def Let_def split: option.splits)

lemma distinct_tempo:
  assumes "distinct (map br_start rs)" "set rs \<subseteq> set prior"
    "\<And>r r'. r \<in> set prior \<Longrightarrow> r' \<in> set prior \<Longrightarrow> br_tempo r \<noteq> None \<Longrightarrow> br_tempo r = br_tempo r' \<Longrightarrow> r = r'"
  shows "distinct (List.map_filter br_tempo rs)"
  using assms(1,2)
proof (induction rs)
  case (Cons r rs)
  have "t \<notin> set (List.map_filter br_tempo rs)" if t: "br_tempo r = Some t" for t
  proof
    assume "t \<in> set (List.map_filter br_tempo rs)"
    then obtain r' where r': "r' \<in> set rs" "br_tempo r' = Some t" by (auto simp: List.map_filter_def)
    with assms(3)[of r r'] Cons.prems t have "r = r'" by auto
    with r' Cons.prems(1) show False by auto
  qed
  with Cons show ?case by (auto simp: map_filter_simps split: option.splits)
qed (simp add: map_filter_simps)

text \<open>So a rebuild never gives one Tempo worklog to two blocks, as long as no two of them start at the same instant.\<close>

lemma rebuilt_tempo_distinct:
  fixes prior :: "block_row list"
  assumes starts: "distinct (map (\<lambda>b. block_iso ctx (ib_start b)) (cut_at_ticket_edges env blocks (prior_tickets ctx prior)))"
    and tempo: "\<And>r r'. r \<in> set prior \<Longrightarrow> r' \<in> set prior \<Longrightarrow> br_tempo r \<noteq> None \<Longrightarrow> br_tempo r = br_tempo r' \<Longrightarrow> r = r'"
  shows "distinct (List.map_filter br_tempo (rebuilt_rows env ctx prior blocks))"
proof -
  let ?bs = "cut_at_ticket_edges env blocks (prior_tickets ctx prior)"
  let ?cs = "carries ctx prior (first_claims ctx prior ?bs) ?bs"
  have "distinct (map br_start (List.map_filter id ?cs))"
    using rebuilt_carry_once[OF starts] by (simp add: carried_starts_def)
  from distinct_tempo[OF this carries_prior tempo] show ?thesis
    by (simp add: rebuilt_rows_def Let_def map2_tempo)
qed

section \<open>What a carried row keeps\<close>

lemma persist_row_manual:
  "br_origin c = Some Manual \<Longrightarrow>
     br_jira (persist_row env ctx b (Some c)) = br_jira c \<and> br_origin (persist_row env ctx b (Some c)) = Some Manual"
  by (simp add: persist_row_def carried_ticket_def ticket_locked_def Let_def)

lemma persist_row_sticky:
  "br_ignored c \<noteq> None \<Longrightarrow>
     br_ignored (persist_row env ctx b (Some c)) = br_ignored c \<and> br_personal (persist_row env ctx b (Some c))"
  by (auto simp: persist_row_def carried_ignore_def Let_def)

lemma persist_row_synced:
  "br_tempo (persist_row env ctx b (Some c)) = br_tempo c \<and> br_exported (persist_row env ctx b (Some c)) = br_exported c"
  by (simp add: persist_row_def Let_def)

lemma keeps_description_sym: "keeps_description (a, b) (c, d) by = keeps_description (c, d) (a, b) by"
  by (simp add: keeps_description_def Let_def abs_minus_commute max.commute min.commute)

lemma keeps_description_iff:
  "keeps_description (0, p) (0, n) by \<longleftrightarrow> by = Some ''manual'' \<or> (\<bar>n - p\<bar> < 30 \<and> 2 * p \<le> 3 * n \<and> 2 * n \<le> 3 * p)"
  if "0 \<le> p" "0 \<le> n"
  using that by (auto simp: keeps_description_def Let_def max_def min_def)

section \<open>Owner rows\<close>

lemma best_old_Some: "best_old ctx existing old new = Some s \<Longrightarrow> existing s \<noteq> None \<and> s \<in> fst ` set old"
  by (force simp: best_old_def List.map_filter_def dest!: max_by_key_Some split: if_splits)

lemma inherit_keeps: "tbl s \<noteq> None \<Longrightarrow> inherit_row ctx existing old new tbl s = tbl s"
  by (auto simp: inherit_row_def split: option.splits)

lemma fold_inherit_keeps: "tbl s \<noteq> None \<Longrightarrow> fold (inherit_row ctx existing old) new tbl s = tbl s"
proof (induction new arbitrary: tbl)
  case (Cons n new)
  have "inherit_row ctx existing old n tbl s = tbl s" using Cons.prems by (rule inherit_keeps)
  with Cons show ?case by simp
qed simp

lemma fold_inherit_only: "s \<notin> fst ` set new \<Longrightarrow> fold (inherit_row ctx existing old) new tbl s = tbl s"
proof (induction new arbitrary: tbl)
  case (Cons n new)
  then have "inherit_row ctx existing old n tbl s = tbl s" by (auto simp: inherit_row_def split: option.splits)
  with Cons show ?case by simp
qed simp

lemma carry_table_only: "carry_table ctx old new existing s \<noteq> None \<Longrightarrow> s \<in> fst ` set new"
proof (rule ccontr)
  assume ne: "carry_table ctx old new existing s \<noteq> None" and s: "s \<notin> fst ` set new"
  have "fold (inherit_row ctx existing old) new existing s = existing s" by (rule fold_inherit_only[OF s])
  with ne s show False by (simp add: carry_table_def Let_def split: if_splits)
qed

lemma carry_table_keeps:
  "s \<in> fst ` set new \<Longrightarrow> existing s \<noteq> None \<Longrightarrow> carry_table ctx old new existing s = existing s"
  by (simp add: carry_table_def Let_def fold_inherit_keeps)

lemma carry_table_inherits:
  assumes "n \<in> set new" "existing (fst n) = None" "best_old ctx existing old n = Some p" "distinct (map fst new)"
  shows "carry_table ctx old new existing (fst n) = existing p"
proof -
  from assms(1) obtain us vs where new: "new = us @ n # vs" by (meson split_list)
  then have out: "fst n \<notin> fst ` set us" "fst n \<notin> fst ` set vs" using assms(4) by auto
  define t where "t = fold (inherit_row ctx existing old) us existing"
  have p: "existing p \<noteq> None" using best_old_Some[OF assms(3)] by simp
  then have tp: "t p = existing p" by (simp add: t_def fold_inherit_keeps)
  have tn: "t (fst n) = None" using out(1) assms(2) by (simp add: t_def fold_inherit_only)
  have "inherit_row ctx existing old n t (fst n) = existing p" using assms(2,3) tn tp by (simp add: inherit_row_def)
  then have "fold (inherit_row ctx existing old) new existing (fst n) = existing p"
    using out(2) by (simp add: new t_def[symmetric] fold_inherit_only)
  with assms(2) show ?thesis by (simp add: carry_table_def Let_def)
qed

lemma carry_table_nothing:
  assumes "n \<in> set new" "existing (fst n) = None" "best_old ctx existing old n = None" "distinct (map fst new)"
  shows "carry_table ctx old new existing (fst n) = None"
proof -
  from assms(1) obtain us vs where new: "new = us @ n # vs" by (meson split_list)
  then have out: "fst n \<notin> fst ` set us" "fst n \<notin> fst ` set vs" using assms(4) by auto
  define t where "t = fold (inherit_row ctx existing old) us existing"
  have tn: "t (fst n) = None" using out(1) assms(2) by (simp add: t_def fold_inherit_only)
  have "inherit_row ctx existing old n t = t" using assms(2,3) by (simp add: inherit_row_def)
  then have "fold (inherit_row ctx existing old) new existing (fst n) = t (fst n)"
    using out(2) by (simp add: new t_def[symmetric] fold_inherit_only)
  then show ?thesis using tn by (simp add: carry_table_def Let_def)
qed

lemma carry_table_value:
  assumes "distinct (map fst new)" "n \<in> set new"
  shows "(carry_table ctx old new existing s \<noteq> None \<longrightarrow> s \<in> fst ` set new) \<and>
   carry_table ctx old new existing (fst n) =
     (case existing (fst n) of
        Some r \<Rightarrow> Some r
      | None \<Rightarrow> (case best_old ctx existing old n of Some p \<Rightarrow> existing p | None \<Rightarrow> None))"
proof
  show "carry_table ctx old new existing s \<noteq> None \<longrightarrow> s \<in> fst ` set new" by (metis carry_table_only)
  show "carry_table ctx old new existing (fst n) = (case existing (fst n) of
        Some r \<Rightarrow> Some r
      | None \<Rightarrow> (case best_old ctx existing old n of Some p \<Rightarrow> existing p | None \<Rightarrow> None))"
  proof (cases "existing (fst n)")
    case (Some r)
    then show ?thesis using carry_table_keeps[of "fst n" new existing ctx old] assms(2) by simp
  next
    case None
    show ?thesis
    proof (cases "best_old ctx existing old n")
      case None
      with carry_table_nothing[of n new existing ctx old] assms \<open>existing (fst n) = None\<close> show ?thesis by simp
    next
      case (Some p)
      with carry_table_inherits[of n new existing ctx old p] assms \<open>existing (fst n) = None\<close> show ?thesis by simp
    qed
  qed
qed

end
