(* ===== verification/Registry.thy ===== *)
theory Registry
  imports BlockRow "HOL-Library.Product_Lexorder"
begin

text \<open>
  The billing registry (\<open>billing_registry.rs\<close>) and the deildir registry (\<open>billing_deildir.rs\<close>):
  matching names in free text, resolving a folder, and the insert, update and delete operations on the
  tables. A table is the list of its rows in id order; ids come from a counter.
\<close>

record customer =
  cu_id :: int
  cu_name :: string
  cu_aliases :: "string list"

record folder_map =
  fm_id :: int
  fm_folder :: string
  fm_customer :: "string option"
  fm_verkefni :: "string option"
  fm_billable :: bool
  fm_multi_tenant :: bool

record registry =
  rg_customers :: "customer list"
  rg_folders :: "folder_map list"

record resolved =
  rs_customer :: "string option"
  rs_verkefni :: "string option"
  rs_billable :: bool

record deild =
  de_id :: int
  de_customer :: string
  de_name :: string
  de_keywords :: "string list"

section \<open>Lists stored as one text\<close>

definition list_separator :: "char \<Rightarrow> bool" where
  "list_separator c = (c = CHR 0x0A \<or> c = CHR '','')"

definition parse_list :: "string \<Rightarrow> string list" where
  "parse_list raw = filter (\<lambda>s. s \<noteq> []) (map trim (split_on list_separator raw))"

definition join_list :: "string list \<Rightarrow> string" where
  "join_list xs = join [CHR 0x0A] (filter (\<lambda>s. s \<noteq> []) (map trim xs))"

definition parse_aliases :: "string \<Rightarrow> string list" where "parse_aliases raw = parse_list raw"
definition join_aliases :: "string list \<Rightarrow> string" where "join_aliases xs = join_list xs"
definition parse_keywords :: "string \<Rightarrow> string list" where "parse_keywords raw = parse_list raw"
definition join_keywords :: "string list \<Rightarrow> string" where "join_keywords xs = join_list xs"

section \<open>Names in text\<close>

definition word_at :: "unicode \<Rightarrow> nat list \<Rightarrow> nat list \<Rightarrow> nat \<Rightarrow> bool" where
  "word_at uc hay needle i =
     (take (length needle) (drop i hay) = needle
      \<and> (i = 0 \<or> \<not> alphanumeric uc (hay ! (i - 1)))
      \<and> (i + length needle = length hay \<or> \<not> alphanumeric uc (hay ! (i + length needle))))"

definition alias_matches :: "unicode \<Rightarrow> string \<Rightarrow> string \<Rightarrow> bool" where
  "alias_matches uc haystack alias =
     (if trim alias = [] then False
      else let hay = lower_chars uc haystack; needle = lower_chars uc (trim alias)
           in if length hay < length needle then False
              else list_ex (word_at uc hay needle) [0..<length hay - length needle + 1])"

definition push_new :: "string list \<Rightarrow> string \<Rightarrow> string list" where
  "push_new hits name = (if name \<in> set hits then hits else hits @ [name])"

definition only_hit :: "string list \<Rightarrow> string option" where
  "only_hit names = (case foldl push_new [] names of [x] \<Rightarrow> Some x | _ \<Rightarrow> None)"

definition customer_matches :: "unicode \<Rightarrow> string \<Rightarrow> customer \<Rightarrow> bool" where
  "customer_matches uc text c =
     (alias_matches uc text (cu_name c) \<or> list_ex (alias_matches uc text) (cu_aliases c))"

definition customer_in_text :: "unicode \<Rightarrow> registry \<Rightarrow> string \<Rightarrow> string option" where
  "customer_in_text uc reg text =
     only_hit (map cu_name (filter (customer_matches uc text) (rg_customers reg)))"

definition customer_named :: "unicode \<Rightarrow> registry \<Rightarrow> string \<Rightarrow> string option" where
  "customer_named uc reg name =
     (if trim name = [] then None
      else let needle = lower_chars uc (trim name)
           in find_some (\<lambda>c. if lower_chars uc (cu_name c) = needle
                               \<or> list_ex (\<lambda>a. lower_chars uc a = needle) (cu_aliases c)
                             then Some (cu_name c) else None) (rg_customers reg))"

definition folder_entry :: "registry \<Rightarrow> string \<Rightarrow> folder_map option" where
  "folder_entry reg folder = find (\<lambda>f. fm_folder f = folder) (rg_folders reg)"

definition resolve :: "unicode \<Rightarrow> registry \<Rightarrow> string \<Rightarrow> string \<Rightarrow> resolved" where
  "resolve uc reg folder text =
     (let entry = folder_entry reg folder
      in \<lparr>rs_customer = (case Option.bind entry fm_customer of
              Some pinned \<Rightarrow> Some pinned
            | None \<Rightarrow> customer_in_text uc reg text),
          rs_verkefni = Option.bind entry fm_verkefni,
          rs_billable = (case entry of None \<Rightarrow> True | Some e \<Rightarrow> fm_billable e)\<rparr>)"

definition deild_in_text :: "unicode \<Rightarrow> deild list \<Rightarrow> string \<Rightarrow> string \<Rightarrow> string option" where
  "deild_in_text uc deildir customer text =
     only_hit (map de_name (filter (\<lambda>d. list_ex (alias_matches uc text) (de_keywords d))
       (filter (\<lambda>d. de_customer d = customer) deildir)))"

section \<open>Table operations\<close>

datatype registry_error =
    EmptyCustomerName
  | EmptyFolder
  | EmptyDeildName
  | DuplicateDeild string string
  | UnknownDeildRow

record billing_tables =
  bt_customers :: "customer list"
  bt_folders :: "folder_map list"
  bt_deildir :: "deild list"
  bt_next :: int

definition upsert_customer ::
    "string \<Rightarrow> string list \<Rightarrow> billing_tables \<Rightarrow> registry_error + (int \<times> billing_tables)" where
  "upsert_customer raw aliases t =
     (let name = trim raw; stored = parse_aliases (join_aliases aliases)
      in if name = [] then Inl EmptyCustomerName
         else case find (\<lambda>c. cu_name c = name) (bt_customers t) of
                Some c \<Rightarrow> Inr (cu_id c, t\<lparr>bt_customers :=
                    map (\<lambda>x. if cu_name x = name then x\<lparr>cu_aliases := stored\<rparr> else x) (bt_customers t)\<rparr>)
              | None \<Rightarrow> Inr (bt_next t, t\<lparr>bt_customers := bt_customers t @
                    [\<lparr>cu_id = bt_next t, cu_name = name, cu_aliases = stored\<rparr>], bt_next := bt_next t + 1\<rparr>))"

definition delete_customer :: "int \<Rightarrow> billing_tables \<Rightarrow> bool \<times> billing_tables" where
  "delete_customer i t =
     (list_ex (\<lambda>c. cu_id c = i) (bt_customers t),
      t\<lparr>bt_customers := filter (\<lambda>c. cu_id c \<noteq> i) (bt_customers t)\<rparr>)"

definition blank_to_none :: "string option \<Rightarrow> string option" where
  "blank_to_none v = (case v of None \<Rightarrow> None | Some s \<Rightarrow> if trim s = [] then None else Some (trim s))"

definition upsert_folder :: "folder_map \<Rightarrow> billing_tables \<Rightarrow> registry_error + (int \<times> billing_tables)" where
  "upsert_folder f t =
     (let folder = trim (fm_folder f);
          set_row = (\<lambda>i. \<lparr>fm_id = i, fm_folder = folder, fm_customer = blank_to_none (fm_customer f),
             fm_verkefni = blank_to_none (fm_verkefni f), fm_billable = fm_billable f,
             fm_multi_tenant = fm_multi_tenant f\<rparr>)
      in if folder = [] then Inl EmptyFolder
         else case find (\<lambda>x. fm_folder x = folder) (bt_folders t) of
                Some x \<Rightarrow> Inr (fm_id x, t\<lparr>bt_folders :=
                    map (\<lambda>y. if fm_folder y = folder then set_row (fm_id y) else y) (bt_folders t)\<rparr>)
              | None \<Rightarrow> Inr (bt_next t, t\<lparr>bt_folders := bt_folders t @ [set_row (bt_next t)],
                    bt_next := bt_next t + 1\<rparr>))"

definition delete_folder :: "int \<Rightarrow> billing_tables \<Rightarrow> bool \<times> billing_tables" where
  "delete_folder i t =
     (list_ex (\<lambda>f. fm_id f = i) (bt_folders t),
      t\<lparr>bt_folders := filter (\<lambda>f. fm_id f \<noteq> i) (bt_folders t)\<rparr>)"

definition upsert_deild ::
    "int option \<Rightarrow> string \<Rightarrow> string \<Rightarrow> string list \<Rightarrow> billing_tables \<Rightarrow> registry_error + (int \<times> billing_tables)" where
  "upsert_deild did raw_customer raw_name keywords t =
     (let customer = trim raw_customer; name = trim raw_name;
          stored = parse_keywords (join_keywords keywords)
      in if name = [] then Inl EmptyDeildName
         else case find (\<lambda>d. de_customer d = customer \<and> de_name d = name) (bt_deildir t) of
                Some d \<Rightarrow>
                  if did \<noteq> Some (de_id d) then Inl (DuplicateDeild name customer)
                  else Inr (de_id d, t\<lparr>bt_deildir := map (\<lambda>x. if de_id x = de_id d
                         then \<lparr>de_id = de_id d, de_customer = customer, de_name = name, de_keywords = stored\<rparr>
                         else x) (bt_deildir t)\<rparr>)
              | None \<Rightarrow>
                  (case did of
                     Some i \<Rightarrow> Inr (i, t\<lparr>bt_deildir := map (\<lambda>x. if de_id x = i
                         then \<lparr>de_id = i, de_customer = customer, de_name = name, de_keywords = stored\<rparr>
                         else x) (bt_deildir t)\<rparr>)
                   | None \<Rightarrow> Inr (bt_next t, t\<lparr>bt_deildir := bt_deildir t @
                         [\<lparr>de_id = bt_next t, de_customer = customer, de_name = name, de_keywords = stored\<rparr>],
                         bt_next := bt_next t + 1\<rparr>)))"

definition delete_deild :: "int \<Rightarrow> billing_tables \<Rightarrow> bool \<times> billing_tables" where
  "delete_deild i t =
     (list_ex (\<lambda>d. de_id d = i) (bt_deildir t),
      t\<lparr>bt_deildir := filter (\<lambda>d. de_id d \<noteq> i) (bt_deildir t)\<rparr>)"

definition list_customers :: "billing_tables \<Rightarrow> customer list" where
  "list_customers t = sort_key (\<lambda>c. nocase (cu_name c)) (bt_customers t)"

definition list_folders :: "billing_tables \<Rightarrow> folder_map list" where
  "list_folders t = sort_key (\<lambda>f. nocase (fm_folder f)) (bt_folders t)"

definition list_deildir :: "billing_tables \<Rightarrow> deild list" where
  "list_deildir t = sort_key (\<lambda>d. (nocase (de_customer d), nocase (de_name d))) (bt_deildir t)"

definition load_registry :: "billing_tables \<Rightarrow> registry" where
  "load_registry t = \<lparr>rg_customers = list_customers t, rg_folders = list_folders t\<rparr>"

section \<open>An ambiguous text resolves to nothing\<close>

lemma foldl_push_new: "set (foldl push_new hits names) = set hits \<union> set names \<and>
    (distinct hits \<longrightarrow> distinct (foldl push_new hits names))"
proof (induction names arbitrary: hits)
  case (Cons n names)
  have "set (push_new hits n) = insert n (set hits)" "distinct hits \<longrightarrow> distinct (push_new hits n)"
    by (auto simp: push_new_def)
  with Cons[of "push_new hits n"] show ?case by auto
qed simp

lemma distinct_singleton:
  assumes "set xs = {x}" "distinct xs"
  shows "xs = [x]"
proof (cases xs)
  case (Cons y ys)
  have "ys = []"
  proof (cases ys)
    case (Cons z zs)
    with \<open>xs = y # ys\<close> assms have "y = x" "z = x" "y \<noteq> z" by auto
    then show ?thesis by simp
  qed
  with Cons assms show ?thesis by simp
qed (use assms in simp)

lemma only_hit_iff: "only_hit names = Some x \<longleftrightarrow> set names = {x}"
proof -
  note f = foldl_push_new[of "[]" names, simplified]
  show ?thesis
  proof
    assume "only_hit names = Some x"
    then have "foldl push_new [] names = [x]" by (auto simp: only_hit_def split: list.splits)
    with f show "set names = {x}" by simp
  next
    assume "set names = {x}"
    with f have "set (foldl push_new [] names) = {x}" "distinct (foldl push_new [] names)" by simp_all
    then have "foldl push_new [] names = [x]" by (intro distinct_singleton)
    then show "only_hit names = Some x" by (simp add: only_hit_def)
  qed
qed

lemma customer_in_text_iff:
  "customer_in_text uc reg text = Some name \<longleftrightarrow>
     cu_name ` {c\<in>set (rg_customers reg). customer_matches uc text c} = {name}"
  by (simp add: customer_in_text_def only_hit_iff)

lemma deild_in_text_iff:
  "deild_in_text uc deildir customer text = Some name \<longleftrightarrow>
     de_name ` {d\<in>set deildir. de_customer d = customer \<and> list_ex (alias_matches uc text) (de_keywords d)} = {name}"
  by (simp add: deild_in_text_def only_hit_iff)

lemma resolve_pinned:
  "folder_entry reg folder = Some e \<Longrightarrow> fm_customer e = Some c \<Longrightarrow>
     rs_customer (resolve uc reg folder text) = Some c"
  by (simp add: resolve_def Let_def)

section \<open>Alias lists survive being stored\<close>

definition clean_item :: "string \<Rightarrow> bool" where
  "clean_item s = (s \<noteq> [] \<and> trim s = s \<and> list_all (\<lambda>c. \<not> list_separator c) s)"

lemma parse_join_list: "\<forall>x\<in>set xs. clean_item x \<Longrightarrow> parse_list (join_list xs) = xs"
proof -
  assume clean: "\<forall>x\<in>set xs. clean_item x"
  then have "map trim xs = xs" "filter (\<lambda>s. s \<noteq> []) xs = xs"
    by (auto simp: clean_item_def map_idI)
  then have j: "join_list xs = join [CHR 0x0A] xs" by (simp add: join_list_def)
  show ?thesis
  proof (cases "xs = []")
    case True
    then show ?thesis
      by (simp add: parse_list_def join_list_def trim_def trim_start_def trim_end_def strip_all.simps
          strip_any_def white_space_def strip_prefix_def starts_with_def)
  next
    case False
    have "split_on list_separator (join [CHR 0x0A] xs) = xs"
      using False clean by (intro split_on_join) (auto simp: list_separator_def clean_item_def list_all_iff)
    with j \<open>map trim xs = xs\<close> \<open>filter (\<lambda>s. s \<noteq> []) xs = xs\<close> show ?thesis by (simp add: parse_list_def)
  qed
qed

section \<open>Table invariants\<close>

definition tables_ok :: "billing_tables \<Rightarrow> bool" where
  "tables_ok t \<longleftrightarrow>
     distinct (map cu_name (bt_customers t)) \<and> distinct (map fm_folder (bt_folders t)) \<and>
     distinct (map (\<lambda>d. (de_customer d, de_name d)) (bt_deildir t)) \<and>
     distinct (map de_id (bt_deildir t)) \<and> (\<forall>d\<in>set (bt_deildir t). de_id d < bt_next t) \<and>
     (\<forall>d\<in>set (bt_deildir t). de_name d \<noteq> []) \<and> (\<forall>c\<in>set (bt_customers t). cu_name c \<noteq> [])"

lemma find_None_all: "find P xs = None \<Longrightarrow> \<forall>x\<in>set xs. \<not> P x"
  by (simp add: find_None_iff)

lemma map_name_update: "(\<And>x. x \<in> set xs \<Longrightarrow> P x \<Longrightarrow> f (g x) = f x) \<Longrightarrow> map f (map (\<lambda>x. if P x then g x else x) xs) = map f xs"
  by simp

lemma upsert_customer_unique:
  assumes ok: "distinct (map cu_name (bt_customers t))" and up: "upsert_customer n as t = Inr (i, t')"
  shows "distinct (map cu_name (bt_customers t'))"
proof (cases "find (\<lambda>c. cu_name c = trim n) (bt_customers t)")
  case None
  with up have "bt_customers t' = bt_customers t @ [\<lparr>cu_id = bt_next t, cu_name = trim n,
      cu_aliases = parse_aliases (join_aliases as)\<rparr>]"
    by (auto simp: upsert_customer_def Let_def split: if_splits)
  with ok find_None_all[OF None] show ?thesis by auto
next
  case (Some c)
  let ?set = "map (\<lambda>x. if cu_name x = trim n then x\<lparr>cu_aliases := parse_aliases (join_aliases as)\<rparr> else x) (bt_customers t)"
  from Some up have t': "bt_customers t' = ?set"
    by (auto simp: upsert_customer_def Let_def split: if_splits)
  have "map cu_name ?set = map cu_name (bt_customers t)" by (rule map_name_update) simp
  with ok show ?thesis by (simp only: t')
qed

lemma upsert_folder_unique:
  assumes ok: "distinct (map fm_folder (bt_folders t))" and up: "upsert_folder f t = Inr (i, t')"
  shows "distinct (map fm_folder (bt_folders t'))"
proof (cases "find (\<lambda>x. fm_folder x = trim (fm_folder f)) (bt_folders t)")
  case None
  with up have "\<exists>r. fm_folder r = trim (fm_folder f) \<and> bt_folders t' = bt_folders t @ [r]"
    by (auto simp: upsert_folder_def Let_def split: if_splits)
  then obtain r where r: "fm_folder r = trim (fm_folder f)" "bt_folders t' = bt_folders t @ [r]" by blast
  have "trim (fm_folder f) \<notin> fm_folder ` set (bt_folders t)"
    using find_None_all[OF None] by (metis imageE)
  with ok r show ?thesis by simp
next
  case (Some x)
  let ?g = "\<lambda>y. \<lparr>fm_id = fm_id y, fm_folder = trim (fm_folder f), fm_customer = blank_to_none (fm_customer f),
      fm_verkefni = blank_to_none (fm_verkefni f), fm_billable = fm_billable f, fm_multi_tenant = fm_multi_tenant f\<rparr>"
  from Some up have t': "bt_folders t' = map (\<lambda>y. if fm_folder y = trim (fm_folder f) then ?g y else y) (bt_folders t)"
    by (auto simp: upsert_folder_def Let_def split: if_splits)
  have "map fm_folder (bt_folders t') = map fm_folder (bt_folders t)"
    unfolding t' by (rule map_name_update) simp
  with ok show ?thesis by simp
qed

lemma upsert_deild_unique:
  assumes ok: "tables_ok t" and up: "upsert_deild did c n ks t = Inr (i, t')"
  shows "distinct (map (\<lambda>d. (de_customer d, de_name d)) (bt_deildir t'))"
proof (cases "find (\<lambda>d. de_customer d = trim c \<and> de_name d = trim n) (bt_deildir t)")
  case None
  note fresh = find_None_all[OF None]
  show ?thesis
  proof (cases did)
    case None
    with up \<open>find _ _ = None\<close> have "bt_deildir t' = bt_deildir t @
        [\<lparr>de_id = bt_next t, de_customer = trim c, de_name = trim n, de_keywords = parse_keywords (join_keywords ks)\<rparr>]"
      by (auto simp: upsert_deild_def Let_def split: if_splits)
    with ok fresh show ?thesis by (force simp: tables_ok_def)
  next
    case (Some j)
    let ?row = "\<lparr>de_id = j, de_customer = trim c, de_name = trim n, de_keywords = parse_keywords (join_keywords ks)\<rparr>"
    from Some up \<open>find _ _ = None\<close> have t': "bt_deildir t' = map (\<lambda>x. if de_id x = j then ?row else x) (bt_deildir t)"
      by (auto simp: upsert_deild_def Let_def split: if_splits)
    have "distinct (map (\<lambda>d. (de_customer d, de_name d)) (map (\<lambda>x. if de_id x = j then ?row else x) ds))"
      if "distinct (map (\<lambda>d. (de_customer d, de_name d)) ds)" "distinct (map de_id ds)" "set ds \<subseteq> set (bt_deildir t)" for ds
      using that
    proof (induction ds)
      case (Cons d ds)
      let ?up = "map (\<lambda>x. if de_id x = j then ?row else x)" and ?k = "\<lambda>d. (de_customer d, de_name d)"
      from Cons have IH: "distinct (map ?k (?up ds))" by simp
      have new: "(trim c, trim n) \<notin> ?k ` set ds" "?k d \<noteq> (trim c, trim n)"
        using fresh Cons.prems(3) by auto
      show ?case
      proof (cases "de_id d = j")
        case True
        with Cons.prems(2) have "?up ds = ds" by (intro map_idI) (auto simp: image_iff)
        with IH True new show ?thesis by simp
      next
        case False
        have "?k d \<notin> ?k ` set (?up ds)" using Cons.prems(1) new(2) by (auto split: if_splits)
        moreover have "map ?k (?up (d # ds)) = ?k d # map ?k (?up ds)" using False by simp
        ultimately show ?thesis using IH by (simp only: distinct.simps list.set_map simp_thms)
      qed
    qed simp
    with ok show ?thesis unfolding t' tables_ok_def by blast
  qed
next
  case (Some d)
  then have d: "d \<in> set (bt_deildir t)" "de_customer d = trim c" "de_name d = trim n"
    by (auto simp: find_Some_iff)
  let ?row = "\<lparr>de_id = de_id d, de_customer = trim c, de_name = trim n, de_keywords = parse_keywords (join_keywords ks)\<rparr>"
  from Some up have t': "bt_deildir t' = map (\<lambda>x. if de_id x = de_id d then ?row else x) (bt_deildir t)"
    by (auto simp: upsert_deild_def Let_def split: if_splits)
  have same: "x = d" if "x \<in> set (bt_deildir t)" "de_id x = de_id d" for x
    using that d(1) ok by (auto simp: tables_ok_def distinct_map dest: inj_onD)
  have "map (\<lambda>d. (de_customer d, de_name d)) (bt_deildir t') = map (\<lambda>d. (de_customer d, de_name d)) (bt_deildir t)"
    unfolding t' by (rule map_name_update[where g = "\<lambda>_. ?row"]) (drule (1) same, simp add: d)
  with ok show ?thesis by (simp add: tables_ok_def)
qed

end
