(* ===== verification/Sessions.thy ===== *)
theory Sessions
  imports Registry Model "HOL-Library.Option_ord"
begin

text \<open>
  Which customer a Claude session works for: the pins of \<open>session_pins.rs\<close> (\<open>pin_covering\<close>,
  \<open>resolve_event_customer\<close>, storing and loading pins) and the lane tags of \<open>session_customers.rs\<close>
  (\<open>tag_sessions\<close>). The record \<open>clock\<close> is chrono's RFC 3339 printer and parser.
\<close>

record clock =
  to_rfc3339 :: "instant \<Rightarrow> string"
  from_rfc3339 :: "string \<Rightarrow> instant option"

section \<open>Pins\<close>

record session_pin =
  sp_session :: string
  sp_customer :: string
  sp_from :: instant
  sp_folder :: string
  sp_branch :: "string option"
  sp_source :: string

datatype pin_error = UnknownPinCustomer "string list" | UnusableFolder

definition is_default_branch :: "string \<Rightarrow> bool" where
  "is_default_branch branch = (branch = ''main'' \<or> branch = ''master'')"

definition SETUP_GRACE :: span where
  "SETUP_GRACE = minutes 10"

definition cover_step ::
    "instant \<Rightarrow> session_pin option \<times> session_pin option \<Rightarrow> session_pin \<Rightarrow> session_pin option \<times> session_pin option" where
  "cover_step at acc pin =
     (let (latest, earliest) = acc;
          latest = (if sp_from pin \<le> at \<and> (case latest of None \<Rightarrow> True | Some l \<Rightarrow> sp_from l < sp_from pin)
                    then Some pin else latest);
          earliest = (if (case earliest of None \<Rightarrow> True | Some e \<Rightarrow> sp_from pin < sp_from e)
                      then Some pin else earliest)
      in (latest, earliest))"

definition pin_covering :: "session_pin list \<Rightarrow> string \<Rightarrow> instant \<Rightarrow> instant \<Rightarrow> session_pin option" where
  "pin_covering pins session_id at session_start =
     (let (latest, earliest) = foldl (cover_step at) (None, None) (filter (\<lambda>p. sp_session p = session_id) pins)
      in case latest of
           Some l \<Rightarrow> Some l
         | None \<Rightarrow> (case earliest of
               None \<Rightarrow> None
             | Some e \<Rightarrow> if sp_from e - session_start \<le> SETUP_GRACE then Some e else None))"

definition resolve_event_customer ::
    "session_pin list \<Rightarrow> string \<Rightarrow> instant \<Rightarrow> instant \<Rightarrow> string option \<Rightarrow> string option \<times> bool" where
  "resolve_event_customer pins session_id at session_start text_guess =
     (case pin_covering pins session_id at session_start of
        Some pin \<Rightarrow>
          if sp_from pin \<le> at then (Some (sp_customer pin), True)
          else (case text_guess of
                  Some guess \<Rightarrow> if guess \<noteq> sp_customer pin then (Some guess, False) else (Some (sp_customer pin), True)
                | None \<Rightarrow> (Some (sp_customer pin), True))
      | None \<Rightarrow> (text_guess, False))"

section \<open>The pin table\<close>

record pin_row =
  pr_session :: string
  pr_customer :: string
  pr_from :: string
  pr_folder :: string
  pr_branch :: "string option"
  pr_source :: string

definition raw_to_pin :: "clock \<Rightarrow> pin_row \<Rightarrow> session_pin option" where
  "raw_to_pin ck r =
     map_option (\<lambda>t. \<lparr>sp_session = pr_session r, sp_customer = pr_customer r, sp_from = t,
         sp_folder = pr_folder r, sp_branch = pr_branch r, sp_source = pr_source r\<rparr>)
       (from_rfc3339 ck (pr_from r))"

fun all_some :: "'a option list \<Rightarrow> 'a list option" where
  "all_some [] = Some []"
| "all_some (x # xs) = (case x of None \<Rightarrow> None | Some y \<Rightarrow> map_option ((#) y) (all_some xs))"

definition store_pin ::
    "clock \<Rightarrow> string \<Rightarrow> string \<Rightarrow> instant \<Rightarrow> string \<Rightarrow> string option \<Rightarrow> string \<Rightarrow> pin_row list \<Rightarrow> session_pin \<times> pin_row list" where
  "store_pin ck session_id cust at folder branch source rows =
     (let row = \<lparr>pr_session = session_id, pr_customer = cust, pr_from = to_rfc3339 ck at,
            pr_folder = folder, pr_branch = branch, pr_source = source\<rparr>;
          same = (\<lambda>r. pr_session r = session_id \<and> pr_from r = to_rfc3339 ck at)
      in (\<lparr>sp_session = session_id, sp_customer = cust, sp_from = at, sp_folder = folder,
           sp_branch = branch, sp_source = source\<rparr>,
          if list_ex same rows then map (\<lambda>r. if same r then row else r) rows else rows @ [row]))"

definition pin ::
    "env \<Rightarrow> unicode \<Rightarrow> clock \<Rightarrow> registry \<Rightarrow> string \<Rightarrow> string \<Rightarrow> string \<Rightarrow> instant \<Rightarrow> string option \<Rightarrow> pin_row list \<Rightarrow>
     pin_error + (session_pin \<times> pin_row list)" where
  "pin env uc ck reg session_id cwd name at branch rows =
     (case customer_named uc reg name of
        None \<Rightarrow> Inl (UnknownPinCustomer (map cu_name (rg_customers reg)))
      | Some cust \<Rightarrow>
          (case work_folder_for_path (work_prefixes env) cwd of
             None \<Rightarrow> Inl UnusableFolder
           | Some folder \<Rightarrow> Inr (store_pin ck session_id cust at folder branch ''claude'' rows)))"

definition pin_for_branch :: "clock \<Rightarrow> string \<Rightarrow> string \<Rightarrow> pin_row list \<Rightarrow> session_pin option option" where
  "pin_for_branch ck folder branch rows =
     (if is_default_branch branch then Some None
      else case rev (sort_key pr_from (filter (\<lambda>r. pr_folder r = folder \<and> pr_branch r = Some branch) rows)) of
             [] \<Rightarrow> Some None
           | r # _ \<Rightarrow> map_option Some (raw_to_pin ck r))"

definition pins_for_sessions :: "clock \<Rightarrow> string list \<Rightarrow> pin_row list \<Rightarrow> session_pin list option" where
  "pins_for_sessions ck session_ids rows =
     (if session_ids = [] then Some []
      else all_some (map (raw_to_pin ck)
             (sort_key (\<lambda>r. (pr_session r, pr_from r)) (filter (\<lambda>r. pr_session r \<in> set session_ids) rows))))"

section \<open>The hint printed when a session starts\<close>

definition ELLIPSIS :: string where "ELLIPSIS = [CHR 0xE2, CHR 0x80, CHR 0xA6]"
definition EM_DASH :: string where "EM_DASH = [CHR 0xE2, CHR 0x80, CHR 0x94]"

definition hint_list :: "string list \<Rightarrow> nat \<Rightarrow> string" where
  "hint_list names shown =
     (let more = length names - shown;
          list = join '', '' (take shown names);
          rest = '' (+'' @ show_nat more @ '' more; a wrong name lists them all)''
      in if more = 0 then list
         else if list = [] then ELLIPSIS @ rest
         else list @ '', '' @ ELLIPSIS @ rest)"

definition hint_text :: "string \<Rightarrow> string list \<Rightarrow> nat \<Rightarrow> string" where
  "hint_text session_id names shown =
     ''Shared repo '' @ EM_DASH @ '' work out this session's customer from the repo, the prompt, and the files you touch. When it's clear, pin it without asking: worklog pin <name> --session '' @ session_id @ ''. When it's unclear and the Owner is present, ask once. When nobody is present (a background or unattended run), pin nothing. Known customers: '' @ hint_list names shown @ ''.''"

fun shrink_hint :: "string \<Rightarrow> string list \<Rightarrow> nat \<Rightarrow> string" where
  "shrink_hint session_id names 0 = hint_text session_id names 0"
| "shrink_hint session_id names (Suc n) =
     (if 600 < char_count (hint_text session_id names (Suc n)) then shrink_hint session_id names n
      else hint_text session_id names (Suc n))"

definition start_text ::
    "env \<Rightarrow> clock \<Rightarrow> registry \<Rightarrow> string option \<Rightarrow> string \<Rightarrow> string \<Rightarrow> instant \<Rightarrow> pin_row list \<Rightarrow> (string option \<times> pin_row list) option" where
  "start_text env ck reg current_branch session_id cwd now rows =
     (let names = map cu_name (rg_customers reg);
          ask = (Some (shrink_hint session_id names (length names)), rows)
      in case billable_work_folder (work_prefixes env) cwd of
           None \<Rightarrow> Some (None, rows)
         | Some folder \<Rightarrow>
             if \<not> list_ex (\<lambda>f. fm_folder f = folder \<and> fm_multi_tenant f) (rg_folders reg) then Some (None, rows)
             else case current_branch of
                    None \<Rightarrow> Some ask
                  | Some branch \<Rightarrow>
                      (case pin_for_branch ck folder branch rows of
                         None \<Rightarrow> None
                       | Some None \<Rightarrow> Some ask
                       | Some (Some branch_pin) \<Rightarrow>
                           (let (inherited, rows) = store_pin ck session_id (sp_customer branch_pin) now folder
                                  (Some branch) ''inherited'' rows
                            in Some (Some (''This session is for '' @ sp_customer inherited @ '' (pinned from branch ''
                                 @ branch @ ''). If you switch customer, run: worklog pin <name> --session ''
                                 @ session_id), rows))))"

section \<open>Lane tags\<close>

type_synonym session_key = "string option \<times> string"

definition session_key :: "env \<Rightarrow> infer_event \<Rightarrow> session_key option" where
  "session_key env e = map_option (\<lambda>s. (lane_folder env e, s)) (ev_session e)"

definition group_by_session :: "env \<Rightarrow> infer_event list \<Rightarrow> (session_key \<times> nat list) list" where
  "group_by_session env events =
     map (\<lambda>k. (k, filter (\<lambda>i. session_key env (events ! i) = Some k) [0..<length events]))
       (btree_keys (List.map_filter (session_key env) events))"

definition event_texts :: "infer_event \<Rightarrow> string list" where
  "event_texts e = List.map_filter id [ev_title e, ev_jira e]"

definition session_start_and_text_guess ::
    "unicode \<Rightarrow> registry \<Rightarrow> infer_event list \<Rightarrow> nat list \<Rightarrow> instant \<times> string option" where
  "session_start_and_text_guess uc reg events idxs =
     (Min (set (map (\<lambda>i. ev_ts (events ! i)) idxs)),
      customer_in_text uc reg (join [CHR 0x0A] (concat (map (\<lambda>i. event_texts (events ! i)) idxs))))"

definition session_contexts ::
    "env \<Rightarrow> unicode \<Rightarrow> registry \<Rightarrow> infer_event list \<Rightarrow> (session_key \<times> (instant \<times> string option)) list" where
  "session_contexts env uc reg events =
     map (\<lambda>(key, idxs). (key, session_start_and_text_guess uc reg events idxs)) (group_by_session env events)"

definition resolve_events ::
    "unicode \<Rightarrow> registry \<Rightarrow> session_pin list \<Rightarrow> infer_event list \<Rightarrow> (session_key \<times> nat list) list \<Rightarrow> (nat \<times> string) list" where
  "resolve_events uc reg pins events sessions =
     concat (map (\<lambda>(key, idxs).
       let (session_start, text_guess) = session_start_and_text_guess uc reg events idxs
       in List.map_filter (\<lambda>i. map_option (Pair i)
            (fst (resolve_event_customer pins (snd key) (ev_ts (events ! i)) session_start text_guess))) idxs) sessions)"

definition customers_of_folder ::
    "(session_key \<times> nat list) list \<Rightarrow> (nat \<times> string) list \<Rightarrow> string option \<Rightarrow> string set" where
  "customers_of_folder sessions resolved folder =
     set (concat (map (\<lambda>(key, idxs). if fst key = folder then List.map_filter (map_of resolved) idxs else []) sessions))"

definition tag_one :: "(nat \<times> string) list \<Rightarrow> nat \<Rightarrow> infer_event list \<Rightarrow> infer_event list" where
  "tag_one resolved i events =
     (case map_of resolved i of None \<Rightarrow> events | Some c \<Rightarrow> events[i := (events ! i)\<lparr>ev_tag := Some c\<rparr>])"

definition tag_sessions ::
    "env \<Rightarrow> unicode \<Rightarrow> registry \<Rightarrow> session_pin list \<Rightarrow> infer_event list \<Rightarrow> infer_event list" where
  "tag_sessions env uc reg pins events =
     (let sessions = group_by_session env events;
          resolved = resolve_events uc reg pins events sessions
      in fold (\<lambda>(key, idxs) evs.
           if card (customers_of_folder sessions resolved (fst key)) < 2 then evs
           else fold (tag_one resolved) idxs evs) sessions events)"


section \<open>The pin that covers an event\<close>

lemma cover_steps:
  assumes "foldl (cover_step at) (None, None) ps = (latest, earliest)"
  shows "(case latest of
      None \<Rightarrow> \<forall>p\<in>set ps. at < sp_from p
    | Some l \<Rightarrow> l \<in> set ps \<and> sp_from l \<le> at \<and> (\<forall>p\<in>set ps. sp_from p \<le> at \<longrightarrow> sp_from p \<le> sp_from l))
    \<and> (case earliest of None \<Rightarrow> ps = [] | Some e \<Rightarrow> e \<in> set ps \<and> (\<forall>p\<in>set ps. sp_from e \<le> sp_from p))"
  using assms
proof (induction ps arbitrary: latest earliest rule: rev_induct)
  case (snoc p ps)
  obtain l e where f: "foldl (cover_step at) (None, None) ps = (l, e)" by fastforce
  note IH = snoc.IH[OF f]
  from snoc.prems f have le: "(latest, earliest) = cover_step at (l, e) p" by simp
  show ?case
  proof (intro conjI)
    show "case latest of None \<Rightarrow> \<forall>q\<in>set (ps @ [p]). at < sp_from q
      | Some l \<Rightarrow> l \<in> set (ps @ [p]) \<and> sp_from l \<le> at \<and> (\<forall>q\<in>set (ps @ [p]). sp_from q \<le> at \<longrightarrow> sp_from q \<le> sp_from l)"
    proof (cases l)
      case None
      with IH le show ?thesis by (cases "sp_from p \<le> at") (force simp: cover_step_def Let_def)+
    next
      case (Some l')
      with IH le show ?thesis
        by (cases "sp_from p \<le> at \<and> sp_from l' < sp_from p") (force simp: cover_step_def Let_def)+
    qed
    show "case earliest of None \<Rightarrow> ps @ [p] = [] | Some e \<Rightarrow> e \<in> set (ps @ [p]) \<and> (\<forall>q\<in>set (ps @ [p]). sp_from e \<le> sp_from q)"
    proof (cases e)
      case None
      with IH le show ?thesis by (auto simp: cover_step_def Let_def)
    next
      case (Some e')
      with IH le show ?thesis
        by (cases "sp_from p < sp_from e'") (force simp: cover_step_def Let_def)+
    qed
  qed
qed simp

lemma pin_covering_latest:
  assumes "p \<in> set pins" "sp_session p = sid" "sp_from p \<le> at"
  shows "\<exists>l. pin_covering pins sid at start = Some l \<and> l \<in> set pins \<and> sp_session l = sid \<and> sp_from l \<le> at \<and>
    (\<forall>q\<in>set pins. sp_session q = sid \<longrightarrow> sp_from q \<le> at \<longrightarrow> sp_from q \<le> sp_from l)"
proof -
  obtain l e where f: "foldl (cover_step at) (None, None) (filter (\<lambda>p. sp_session p = sid) pins) = (l, e)" by fastforce
  note s = cover_steps[OF f]
  show ?thesis
  proof (cases l)
    case None
    with s assms show ?thesis by force
  next
    case (Some l')
    with s f show ?thesis by (simp add: pin_covering_def)
  qed
qed

lemma pin_covering_early:
  assumes "\<forall>p\<in>set pins. sp_session p = sid \<longrightarrow> at < sp_from p"
  shows "pin_covering pins sid at start = Some e \<Longrightarrow>
      e \<in> set pins \<and> sp_session e = sid \<and> sp_from e - start \<le> SETUP_GRACE \<and>
      (\<forall>q\<in>set pins. sp_session q = sid \<longrightarrow> sp_from e \<le> sp_from q)"
    and "pin_covering pins sid at start = None \<Longrightarrow> q \<in> set pins \<Longrightarrow> sp_session q = sid \<Longrightarrow> SETUP_GRACE < sp_from q - start"
proof -
  obtain l e' where f: "foldl (cover_step at) (None, None) (filter (\<lambda>p. sp_session p = sid) pins) = (l, e')" by fastforce
  note s = cover_steps[OF f]
  have l: "l = None" using s assms by (cases l) force+
  show "pin_covering pins sid at start = Some e \<Longrightarrow>
      e \<in> set pins \<and> sp_session e = sid \<and> sp_from e - start \<le> SETUP_GRACE \<and>
      (\<forall>q\<in>set pins. sp_session q = sid \<longrightarrow> sp_from e \<le> sp_from q)"
    using s l f by (auto simp: pin_covering_def split: option.splits if_splits)
  assume c: "pin_covering pins sid at start = None" "q \<in> set pins" "sp_session q = sid"
  then obtain x where x: "e' = Some x" using s by (cases e') (auto simp: filter_empty_conv)
  with c f l have "SETUP_GRACE < sp_from x - start" by (simp add: pin_covering_def split: if_splits)
  moreover have "sp_from x \<le> sp_from q" using s x c by simp
  ultimately show "SETUP_GRACE < sp_from q - start" by linarith
qed

lemma pin_covering_in: "pin_covering pins sid at start = Some p \<Longrightarrow> p \<in> set pins \<and> sp_session p = sid"
  using pin_covering_early(1)[of pins sid at start p] pin_covering_latest[of _ pins sid at start] by (metis not_le option.inject)

lemma resolve_from_pin:
  "resolve_event_customer pins sid at start guess = (Some c, True) \<Longrightarrow>
     \<exists>p\<in>set pins. sp_session p = sid \<and> sp_customer p = c"
  by (auto simp: resolve_event_customer_def split: option.splits if_splits dest: pin_covering_in)

section \<open>A stored pin takes effect\<close>

lemma all_some_Some: "all_some xs = Some ys \<longleftrightarrow> xs = map Some ys"
  by (induction xs arbitrary: ys) (auto split: option.splits)

lemma set_pins_for_sessions:
  assumes "pins_for_sessions ck sids rows = Some ps"
  shows "Some ` set ps = raw_to_pin ck ` {r\<in>set rows. pr_session r \<in> set sids}"
proof (cases "sids = []")
  case False
  with assms have "map (raw_to_pin ck) (sort_key (\<lambda>r. (pr_session r, pr_from r)) (filter (\<lambda>r. pr_session r \<in> set sids) rows)) = map Some ps"
    by (simp add: pins_for_sessions_def all_some_Some)
  from arg_cong[OF this, of set] show ?thesis by simp
qed (use assms in \<open>simp add: pins_for_sessions_def\<close>)

lemma set_store_pin:
  "set (snd (store_pin ck sid c at folder branch source rows)) =
     insert \<lparr>pr_session = sid, pr_customer = c, pr_from = to_rfc3339 ck at, pr_folder = folder, pr_branch = branch,
       pr_source = source\<rparr> {r\<in>set rows. \<not> (pr_session r = sid \<and> pr_from r = to_rfc3339 ck at)}"
  (is "_ = insert ?row {r\<in>set rows. \<not> ?same r}")
proof (cases "list_ex ?same rows")
  case True
  then obtain x where "x \<in> set rows" "?same x" by (auto simp: list_ex_iff)
  then have "set (map (\<lambda>r. if ?same r then ?row else r) rows) = insert ?row {r\<in>set rows. \<not> ?same r}" by force
  moreover have "snd (store_pin ck sid c at folder branch source rows) = map (\<lambda>r. if ?same r then ?row else r) rows"
    using True by (simp add: store_pin_def Let_def)
  ultimately show ?thesis by (simp only:)
next
  case False
  then have "snd (store_pin ck sid c at folder branch source rows) = rows @ [?row]"
    by (simp add: store_pin_def Let_def)
  moreover have "{r\<in>set rows. \<not> ?same r} = set rows" using False by (auto simp: list_ex_iff)
  ultimately show ?thesis by simp
qed

lemma store_pin_row:
  "\<exists>r\<in>set (snd (store_pin ck sid c at folder branch source rows)).
     pr_session r = sid \<and> pr_customer r = c \<and> pr_from r = to_rfc3339 ck at"
  unfolding set_store_pin by (intro bexI[OF _ insertI1]) simp

lemma store_pin_others:
  "r \<in> set (snd (store_pin ck sid c at folder branch source rows)) \<Longrightarrow> pr_session r = sid \<Longrightarrow> pr_from r = to_rfc3339 ck at \<Longrightarrow>
     pr_customer r = c"
  unfolding set_store_pin by (elim insertE) simp_all

lemma stored_pin_covers:
  assumes ck: "from_rfc3339 ck (to_rfc3339 ck at) = Some at"
    and faithful: "\<And>r. r \<in> set (snd (store_pin ck sid c at folder branch source rows)) \<Longrightarrow>
        from_rfc3339 ck (pr_from r) = Some at \<Longrightarrow> pr_from r = to_rfc3339 ck at"
    and load: "pins_for_sessions ck sids (snd (store_pin ck sid c at folder branch source rows)) = Some pins" "sid \<in> set sids"
    and later: "at \<le> t" "\<And>p. p \<in> set pins \<Longrightarrow> sp_session p = sid \<Longrightarrow> at < sp_from p \<Longrightarrow> t < sp_from p"
  shows "resolve_event_customer pins sid t start guess = (Some c, True)"
proof -
  let ?rows = "snd (store_pin ck sid c at folder branch source rows)"
  note pins = set_pins_for_sessions[OF load(1)]
  obtain r where r: "r \<in> set ?rows" "pr_session r = sid" "pr_customer r = c" "pr_from r = to_rfc3339 ck at"
    using store_pin_row by blast
  have "raw_to_pin ck r \<in> Some ` set pins" unfolding pins using r load(2) by simp
  then obtain p where p: "p \<in> set pins" "raw_to_pin ck r = Some p" by auto
  then have pv: "sp_session p = sid" "sp_from p = at" using r ck by (auto simp: raw_to_pin_def)
  obtain l where l: "pin_covering pins sid t start = Some l" "l \<in> set pins" "sp_session l = sid" "sp_from l \<le> t"
      "\<forall>q\<in>set pins. sp_session q = sid \<longrightarrow> sp_from q \<le> t \<longrightarrow> sp_from q \<le> sp_from l"
    using pin_covering_latest[OF p(1) pv(1), of t start] pv(2) later(1) by auto
  have "at \<le> sp_from l" using l(5) p(1) pv later(1) by auto
  moreover have "\<not> at < sp_from l" using later(2)[OF l(2,3)] l(4) by auto
  ultimately have la: "sp_from l = at" by simp
  have "Some l \<in> raw_to_pin ck ` {r\<in>set ?rows. pr_session r \<in> set sids}" using l(2) pins by blast
  then obtain r' where r': "r' \<in> set ?rows" "raw_to_pin ck r' = Some l" by force
  then have "from_rfc3339 ck (pr_from r') = Some at" "pr_session r' = sid" "pr_customer r' = sp_customer l"
    using la l(3) by (auto simp: raw_to_pin_def)
  with faithful[OF r'(1)] store_pin_others[OF r'(1)] have "sp_customer l = c" by simp
  with l(1) la later(1) show ?thesis by (simp add: resolve_event_customer_def)
qed

section \<open>The hint is kept short\<close>

lemma shrink_hint_cases:
  "\<exists>n\<le>k. shrink_hint sid names k = hint_text sid names n \<and>
     (n = 0 \<or> char_count (hint_text sid names n) \<le> 600) \<and>
     (\<forall>m. n < m \<and> m \<le> k \<longrightarrow> 600 < char_count (hint_text sid names m))"
proof (induction k)
  case (Suc k)
  show ?case
  proof (cases "600 < char_count (hint_text sid names (Suc k))")
    case True
    from Suc obtain n where "n \<le> k" "shrink_hint sid names k = hint_text sid names n"
      "n = 0 \<or> char_count (hint_text sid names n) \<le> 600" "\<forall>m. n < m \<and> m \<le> k \<longrightarrow> 600 < char_count (hint_text sid names m)" by blast
    with True show ?thesis by (intro exI[of _ n]) (auto simp: le_Suc_eq)
  next
    case False
    then show ?thesis by (intro exI[of _ "Suc k"]) auto
  qed
qed simp

section \<open>Tagging touches exactly the events of divided folders\<close>

definition session_customer ::
    "env \<Rightarrow> unicode \<Rightarrow> registry \<Rightarrow> session_pin list \<Rightarrow> infer_event list \<Rightarrow> nat \<Rightarrow> string option" where
  "session_customer env uc reg pins events i =
     (case session_key env (events ! i) of
        None \<Rightarrow> None
      | Some k \<Rightarrow>
          (let (start, guess) = session_start_and_text_guess uc reg events
                 (filter (\<lambda>j. session_key env (events ! j) = Some k) [0..<length events])
           in fst (resolve_event_customer pins (snd k) (ev_ts (events ! i)) start guess)))"

definition folder_customers ::
    "env \<Rightarrow> unicode \<Rightarrow> registry \<Rightarrow> session_pin list \<Rightarrow> infer_event list \<Rightarrow> string option \<Rightarrow> string set" where
  "folder_customers env uc reg pins events folder =
     {c. \<exists>i<length events. lane_folder env (events ! i) = folder \<and> session_customer env uc reg pins events i = Some c}"

lemma map_of_map_filter:
  "map_of (List.map_filter (\<lambda>i. map_option (Pair i) (f i)) xs) i = (if i \<in> set xs then f i else None)"
  by (induction xs) (auto simp: map_filter_simps split: option.splits)

lemma map_of_concat_None: "\<forall>x\<in>set xs. map_of (g x) i = None \<Longrightarrow> map_of (concat (map g xs)) i = None"
  by (induction xs) (auto simp: map_add_def)

lemma set_map_filter_iff: "y \<in> set (List.map_filter f xs) \<longleftrightarrow> (\<exists>x\<in>set xs. f x = Some y)"
  by (induction xs) (auto simp: map_filter_simps split: option.splits)

lemma map_of_concat:
  assumes "\<And>x y. x \<in> set xs \<Longrightarrow> y \<in> set xs \<Longrightarrow> P x i \<Longrightarrow> P y i \<Longrightarrow> x = y"
    and "\<And>x. x \<in> set xs \<Longrightarrow> \<not> P x i \<Longrightarrow> map_of (g x) i = None"
    and "x \<in> set xs" "P x i"
  shows "map_of (concat (map g xs)) i = map_of (g x) i"
  using assms
proof (induction xs)
  case (Cons y ys)
  show ?case
  proof (cases "y = x")
    case True
    have "map_of (concat (map g ys)) i = None \<or> map_of (concat (map g ys)) i = map_of (g x) i"
    proof (cases "x \<in> set ys")
      case True
      then show ?thesis using Cons.IH[OF Cons.prems(1,2) True Cons.prems(4)] by simp
    next
      case False
      have "\<forall>z\<in>set ys. map_of (g z) i = None"
      proof
        fix z assume z: "z \<in> set ys"
        with Cons.prems(1)[of z x] Cons.prems(3,4) False have "\<not> P z i" by auto
        with Cons.prems(2)[of z] z show "map_of (g z) i = None" by simp
      qed
      then show ?thesis by (simp add: map_of_concat_None)
    qed
    with True show ?thesis by (auto simp: map_add_def split: option.splits)
  next
    case False
    with Cons.prems have x: "x \<in> set ys" and ny: "\<not> P y i" by auto
    have "map_of (concat (map g ys)) i = map_of (g x) i"
      using Cons.IH[OF Cons.prems(1,2) x Cons.prems(4)] by simp
    with Cons.prems(2)[of y] ny show ?thesis by (simp add: map_add_def split: option.splits)
  qed
qed simp

lemma in_groups:
  "(k, idxs) \<in> set (group_by_session env events) \<longleftrightarrow>
     (\<exists>e\<in>set events. session_key env e = Some k) \<and>
     idxs = filter (\<lambda>i. session_key env (events ! i) = Some k) [0..<length events]"
proof -
  let ?idx = "\<lambda>k. filter (\<lambda>i. session_key env (events ! i) = Some k) [0..<length events]"
  have "(k, idxs) \<in> set (group_by_session env events) \<longleftrightarrow> k \<in> set (List.map_filter (session_key env) events) \<and> idxs = ?idx k"
    by (auto simp only: group_by_session_def list.set_map set_btree_keys image_iff prod.inject)
  then show ?thesis by (simp only: set_map_filter_iff)
qed

lemma map_of_resolved:
  assumes i: "i < length events"
  shows "map_of (resolve_events uc reg pins events (group_by_session env events)) i =
    session_customer env uc reg pins events i"
proof -
  let ?G = "group_by_session env events"
  let ?f = "\<lambda>(key, idxs). case session_start_and_text_guess uc reg events idxs of (start, guess) \<Rightarrow>
     List.map_filter (\<lambda>i. map_option (Pair i)
            (fst (resolve_event_customer pins (snd key) (ev_ts (events ! i)) start guess))) idxs"
  have none: "map_of (?f (k, idxs)) i = None" if "i \<notin> set idxs" for k :: session_key and idxs
    using that by (simp add: map_of_map_filter split: prod.splits)
  show ?thesis
  proof (cases "session_key env (events ! i)")
    case None
    then have "\<forall>(k, idxs)\<in>set ?G. i \<notin> set idxs" by (auto simp: in_groups)
    then have "\<forall>g\<in>set ?G. map_of (?f g) i = None" using none by fast
    then have "map_of (concat (map ?f ?G)) i = None"
      by (rule map_of_concat_None)
    with None show ?thesis by (simp add: resolve_events_def session_customer_def Let_def case_prod_unfold)
  next
    case (Some k)
    let ?idxs = "filter (\<lambda>j. session_key env (events ! j) = Some k) [0..<length events]"
    have mem: "(k, ?idxs) \<in> set ?G" using Some i by (auto simp: in_groups intro!: bexI[of _ "events ! i"])
    have "map_of (concat (map ?f ?G)) i = map_of (?f (k, ?idxs)) i"
    proof (rule map_of_concat[where P = "\<lambda>g i. i \<in> set (snd g)"])
      fix x y assume "x \<in> set ?G" "y \<in> set ?G" "i \<in> set (snd x)" "i \<in> set (snd y)"
      moreover obtain k1 l1 k2 l2 where xy: "x = (k1, l1)" "y = (k2, l2)" by (cases x; cases y) blast
      ultimately have "l1 = filter (\<lambda>i. session_key env (events ! i) = Some k1) [0..<length events]"
        "l2 = filter (\<lambda>i. session_key env (events ! i) = Some k2) [0..<length events]" "i \<in> set l1" "i \<in> set l2"
        using in_groups[of k1 l1 env events] in_groups[of k2 l2 env events] by simp_all
      with xy show "x = y" by simp
    next
      fix x assume "x \<in> set ?G" "i \<notin> set (snd x)"
      moreover obtain k idxs where "x = (k, idxs)" by (cases x) blast
      ultimately show "map_of (?f x) i = None" using none[of idxs k] by simp
    qed (use mem Some i in auto)
    with Some i show ?thesis
      by (simp add: resolve_events_def session_customer_def Let_def case_prod_unfold map_of_map_filter)
  qed
qed


lemma customers_of_groups:
  "customers_of_folder (group_by_session env events) (resolve_events uc reg pins events (group_by_session env events)) folder =
     folder_customers env uc reg pins events folder"
  (is "?L = ?R")
proof (rule set_eqI)
  fix c
  let ?G = "group_by_session env events"
  let ?r = "map_of (resolve_events uc reg pins events ?G)"
  have "c \<in> ?L \<longleftrightarrow> (\<exists>k idxs. (k, idxs) \<in> set ?G \<and> fst k = folder \<and> (\<exists>i\<in>set idxs. ?r i = Some c))"
    by (force simp: customers_of_folder_def set_map_filter_iff split: if_splits)
  also have "\<dots> \<longleftrightarrow> (\<exists>i<length events. \<exists>k. session_key env (events ! i) = Some k \<and> fst k = folder \<and> ?r i = Some c)"
  proof
    assume "\<exists>k idxs. (k, idxs) \<in> set ?G \<and> fst k = folder \<and> (\<exists>i\<in>set idxs. ?r i = Some c)"
    then obtain k idxs i where "(k, idxs) \<in> set ?G" "fst k = folder" "i \<in> set idxs" "?r i = Some c" by blast
    moreover from this have "i < length events \<and> session_key env (events ! i) = Some k" by (simp add: in_groups)
    ultimately show "\<exists>i<length events. \<exists>k. session_key env (events ! i) = Some k \<and> fst k = folder \<and> ?r i = Some c"
      by blast
  next
    assume "\<exists>i<length events. \<exists>k. session_key env (events ! i) = Some k \<and> fst k = folder \<and> ?r i = Some c"
    then obtain i k where i: "i < length events" "session_key env (events ! i) = Some k" "fst k = folder" "?r i = Some c" by blast
    then have "(k, filter (\<lambda>i. session_key env (events ! i) = Some k) [0..<length events]) \<in> set ?G"
      unfolding in_groups using nth_mem by blast
    moreover have "i \<in> set (filter (\<lambda>i. session_key env (events ! i) = Some k) [0..<length events])" using i by simp
    ultimately show "\<exists>k idxs. (k, idxs) \<in> set ?G \<and> fst k = folder \<and> (\<exists>i\<in>set idxs. ?r i = Some c)"
      using i(3,4) by blast
  qed
  also have "\<dots> \<longleftrightarrow> c \<in> ?R"
  proof -
    have "session_key env (events ! i) = Some k \<Longrightarrow> fst k = lane_folder env (events ! i)" for i k
      by (auto simp: session_key_def)
    moreover have "session_customer env uc reg pins events i = Some c \<Longrightarrow> \<exists>k. session_key env (events ! i) = Some k" for i
      by (auto simp: session_customer_def split: option.splits)
    ultimately have "(\<exists>k. session_key env (events ! i) = Some k \<and> fst k = folder \<and> ?r i = Some c) \<longleftrightarrow>
        lane_folder env (events ! i) = folder \<and> session_customer env uc reg pins events i = Some c"
      if "i < length events" for i
      unfolding map_of_resolved[OF that] by metis
    then show ?thesis unfolding folder_customers_def mem_Collect_eq by (intro ex_cong conj_cong refl)
  qed
  finally show "c \<in> ?L \<longleftrightarrow> c \<in> ?R" .
qed

lemma length_tag_ones [simp]: "length (fold (tag_one r) is evs) = length evs"
  by (induction "is" arbitrary: evs) (simp_all add: tag_one_def split: option.splits)

lemma tag_one_nth:
  "j < length evs \<Longrightarrow> tag_one r i evs ! j =
     (if i = j then case map_of r j of None \<Rightarrow> evs ! j | Some c \<Rightarrow> (evs ! j)\<lparr>ev_tag := Some c\<rparr> else evs ! j)"
  by (auto simp: tag_one_def nth_list_update split: option.splits)

lemma tag_ones_nth:
  "j < length evs \<Longrightarrow> fold (tag_one r) is evs ! j =
     (if j \<in> set is then case map_of r j of None \<Rightarrow> evs ! j | Some c \<Rightarrow> (evs ! j)\<lparr>ev_tag := Some c\<rparr> else evs ! j)"
proof (induction "is" arbitrary: evs)
  case (Cons i "is")
  have "length (tag_one r i evs) = length evs" by (simp add: tag_one_def split: option.splits)
  with Cons.IH[of "tag_one r i evs"] Cons.prems tag_one_nth[OF Cons.prems, of r i]
  show ?case by (auto split: option.splits)
qed simp

lemma fold_tagged:
  "fold (\<lambda>(key, idxs) evs. if P key then evs else fold (tag_one r) idxs evs) gs evs =
     fold (tag_one r) (concat (map snd (filter (\<lambda>g. \<not> P (fst g)) gs))) evs"
  by (induction gs arbitrary: evs) auto

lemma length_tag_sessions [simp]: "length (tag_sessions env uc reg pins events) = length events"
  by (simp add: tag_sessions_def Let_def fold_tagged del: fold_append)

lemma tag_sessions_nth:
  assumes i: "i < length events"
  shows "tag_sessions env uc reg pins events ! i =
    (case session_customer env uc reg pins events i of
       None \<Rightarrow> events ! i
     | Some c \<Rightarrow> if 2 \<le> card (folder_customers env uc reg pins events (lane_folder env (events ! i)))
                 then (events ! i)\<lparr>ev_tag := Some c\<rparr> else events ! i)"
proof -
  let ?G = "group_by_session env events"
  let ?P = "\<lambda>k. card (folder_customers env uc reg pins events (fst k)) < 2"
  let ?sel = "concat (map snd (filter (\<lambda>g. \<not> ?P (fst g)) ?G))"
  have t: "tag_sessions env uc reg pins events = fold (tag_one (resolve_events uc reg pins events ?G)) ?sel events"
    by (simp only: tag_sessions_def Let_def customers_of_groups fold_tagged)
  have "i \<in> set ?sel \<longleftrightarrow> (\<exists>k. session_key env (events ! i) = Some k \<and> \<not> ?P k)"
  proof -
    have "i \<in> set ?sel \<longleftrightarrow> (\<exists>k idxs. (k, idxs) \<in> set ?G \<and> \<not> ?P k \<and> i \<in> set idxs)" by force
    also have "\<dots> \<longleftrightarrow> (\<exists>k. session_key env (events ! i) = Some k \<and> \<not> ?P k)"
    proof -
      have "(\<exists>e\<in>set events. session_key env e = Some k)" if "session_key env (events ! i) = Some k" for k
        using that nth_mem[OF i] by blast
      then show ?thesis unfolding in_groups using i by auto
    qed
    finally show ?thesis .
  qed
  moreover have "session_key env (events ! i) = Some k \<Longrightarrow> fst k = lane_folder env (events ! i)" for k
    by (auto simp: session_key_def)
  moreover have "session_key env (events ! i) = None \<Longrightarrow> session_customer env uc reg pins events i = None"
    by (simp add: session_customer_def)
  ultimately show ?thesis
    unfolding t tag_ones_nth[OF i] map_of_resolved[OF i]
    by (cases "session_key env (events ! i)") (auto split: option.splits)
qed

end
