(* ===== verification/Tenants.thy ===== *)
theory Tenants
  imports Prelude F64 "HOL-Library.Option_ord" "HOL-Library.Product_Lexorder"
begin

text \<open>
  Splitting one block between customers: \<open>tenant_split.rs\<close> (\<open>split_block\<close>, \<open>merge_adjacent\<close>) from
  timestamped clues, and \<open>tenant_shares.rs\<close> (\<open>slices_from_shares\<close>, \<open>slices_from_rows\<close>,
  \<open>validate_rows\<close>) from the owner's hand-set shares. Intervals are half-open ranges of epoch seconds.
\<close>

section \<open>Clues\<close>

datatype clue_strength = Summary | Branch | TenantPath

fun strength_rank :: "clue_strength \<Rightarrow> nat" where
  "strength_rank Summary = 0"
| "strength_rank Branch = 1"
| "strength_rank TenantPath = 2"

instantiation clue_strength :: linorder
begin

definition less_eq_clue_strength :: "clue_strength \<Rightarrow> clue_strength \<Rightarrow> bool" where
  "less_eq_clue_strength a b = (strength_rank a \<le> strength_rank b)"

definition less_clue_strength :: "clue_strength \<Rightarrow> clue_strength \<Rightarrow> bool" where
  "less_clue_strength a b = (strength_rank a < strength_rank b)"

instance
proof
  fix a b :: clue_strength
  assume "a \<le> b" "b \<le> a"
  then show "a = b" by (cases a; cases b) (simp_all add: less_eq_clue_strength_def)
qed (auto simp: less_eq_clue_strength_def less_clue_strength_def)

end

record clue =
  cl_at :: instant
  cl_customer :: string
  cl_strength :: clue_strength

datatype split_origin = Clues | ManualSplit | Pinned | Fallback

type_synonym seconds_range = "int \<times> int"

record customer_slice =
  cs_customer :: "string option"
  cs_intervals :: "seconds_range list"
  cs_origin :: split_origin

text \<open>\<open>APRO\<close> with an acute accent on the last letter, in UTF-8.\<close>

definition HOUSE_CUSTOMER :: string where
  "HOUSE_CUSTOMER = ''APR'' @ [CHR 0xC3, CHR 0x93]"

definition survivors :: "clue list \<Rightarrow> clue list" where
  "survivors clues =
     (let has_other = list_ex (\<lambda>c. cl_customer c \<noteq> HOUSE_CUSTOMER) clues
      in filter (\<lambda>c. \<not> has_other \<or> cl_customer c \<noteq> HOUSE_CUSTOMER) clues)"

definition clue_minute :: "clue \<Rightarrow> int" where
  "clue_minute c = timestamp (cl_at c) div 60"

definition strongest_of_minute :: "clue list \<Rightarrow> int \<Rightarrow> clue list" where
  "strongest_of_minute clues m =
     (let group = filter (\<lambda>c. clue_minute c = m) clues
      in case max_by_key id (map cl_strength group) of
           None \<Rightarrow> []
         | Some s \<Rightarrow> filter (\<lambda>c. cl_strength c = s) group)"

definition winners :: "clue list \<Rightarrow> clue list" where
  "winners clues =
     sort_key cl_at (concat (map (strongest_of_minute clues) (btree_keys (map clue_minute clues))))"

fun owned_ranges :: "int \<Rightarrow> int \<Rightarrow> clue list \<Rightarrow> (string \<times> seconds_range) list" where
  "owned_ranges from e [] = []"
| "owned_ranges from e [c] = [(cl_customer c, from, e)]"
| "owned_ranges from e (c # d # cs) =
     (let to = trunc_div (timestamp (cl_at c) + timestamp (cl_at d)) 2 + 1
      in (cl_customer c, from, to) # owned_ranges to e (d # cs))"

definition touch_range :: "seconds_range \<Rightarrow> seconds_range \<Rightarrow> seconds_range option" where
  "touch_range a b = (if snd a = fst b then Some (fst a, snd b) else None)"

definition merge_adjacent :: "seconds_range list \<Rightarrow> seconds_range list" where
  "merge_adjacent intervals = coalesce touch_range (filter (\<lambda>(from, to). from \<noteq> to) intervals)"

definition split_block :: "int \<Rightarrow> int \<Rightarrow> clue list \<Rightarrow> customer_slice list option" where
  "split_block s e clues =
     (if survivors clues = [] then None
      else let owned = owned_ranges s e (winners (survivors clues))
           in Some (List.map_filter (\<lambda>customer.
                let intervals = merge_adjacent (map snd (filter (\<lambda>r. fst r = customer) owned))
                in if intervals = [] then None
                   else Some \<lparr>cs_customer = Some customer, cs_intervals = intervals, cs_origin = Clues\<rparr>)
                (btree_keys (map fst owned))))"

section \<open>Hand-set shares\<close>

fun share_bounds :: "int \<Rightarrow> int \<Rightarrow> int \<Rightarrow> rat \<Rightarrow> rat list \<Rightarrow> seconds_range list option" where
  "share_bounds s e from cum [] = Some []"
| "share_bounds s e from cum (f # fs) =
     (let cum = f64_add cum f
      in case (if fs = [] then Some e
               else i64_clamp from e (s + as_i64 (f64_round (f64_mul cum (f64_of_int (e - s)))))) of
           None \<Rightarrow> None
         | Some to \<Rightarrow> map_option (\<lambda>bs. (from, to) # bs) (share_bounds s e to cum fs))"

definition slices_from_shares :: "int \<Rightarrow> int \<Rightarrow> (string \<times> rat) list \<Rightarrow> customer_slice list option" where
  "slices_from_shares s e shares =
     map_option (map2 (\<lambda>c r. \<lparr>cs_customer = Some c, cs_intervals = [r], cs_origin = ManualSplit\<rparr>) (map fst shares))
       (share_bounds s e s 0 (map snd shares))"

datatype deild_origin = ManualDeild | Keyword | FolderDefault | BlankDeild

record share_row =
  sr_customer :: string
  sr_deild :: "string option"
  sr_fraction :: rat

record billing_slice =
  bs_customer :: "string option"
  bs_deild :: "string option"
  bs_intervals :: "seconds_range list"
  bs_origin :: split_origin
  bs_deild_origin :: deild_origin

definition slices_from_rows :: "int \<Rightarrow> int \<Rightarrow> share_row list \<Rightarrow> billing_slice list option" where
  "slices_from_rows s e rows =
     (let ordered = sort_key (\<lambda>r. (sr_customer r, sr_deild r)) rows
      in map_option (map2 (\<lambda>row r.
             \<lparr>bs_customer = Some (sr_customer row), bs_deild = sr_deild row, bs_intervals = [r],
              bs_origin = ManualSplit, bs_deild_origin = ManualDeild\<rparr>) ordered)
           (share_bounds s e s 0 (map sr_fraction ordered)))"

datatype share_error = ShareNotPositive | UnknownCustomer | SharesNotWhole

definition SHARE_TOLERANCE :: rat where
  "SHARE_TOLERANCE = fl (1 / 1000)"

fun validate_from :: "(string \<Rightarrow> bool) \<Rightarrow> rat \<Rightarrow> share_row list \<Rightarrow> share_error + unit" where
  "validate_from known tot [] = (if SHARE_TOLERANCE < \<bar>fl (tot - 1)\<bar> then Inl SharesNotWhole else Inr ())"
| "validate_from known tot (r # rs) =
     (if sr_fraction r \<le> 0 then Inl ShareNotPositive
      else if \<not> known (sr_customer r) then Inl UnknownCustomer
      else validate_from known (f64_add tot (sr_fraction r)) rs)"

definition validate_rows :: "(string \<Rightarrow> bool) \<Rightarrow> share_row list \<Rightarrow> share_error + unit" where
  "validate_rows known rows = validate_from known 0 rows"

section \<open>Partitions of a range\<close>

text \<open>Consecutive ranges from \<open>s\<close> to \<open>e\<close>, possibly empty ones among them.\<close>

fun partition_range :: "int \<Rightarrow> int \<Rightarrow> seconds_range list \<Rightarrow> bool" where
  "partition_range s e [] = (s = e)"
| "partition_range s e ((a, b) # rs) = (a = s \<and> a \<le> b \<and> partition_range b e rs)"

definition range_set :: "seconds_range \<Rightarrow> int set" where
  "range_set r = {fst r..<snd r}"

definition range_sum :: "seconds_range list \<Rightarrow> int" where
  "range_sum rs = sum_list (map (\<lambda>(a, b). b - a) rs)"

lemma partition_le: "partition_range s e rs \<Longrightarrow> s \<le> e"
  by (induction s e rs rule: partition_range.induct) auto

lemma partition_sum: "partition_range s e rs \<Longrightarrow> range_sum rs = e - s"
  by (induction s e rs rule: partition_range.induct) (auto simp: range_sum_def)

lemma partition_cover: "partition_range s e rs \<Longrightarrow> (\<Union>r\<in>set rs. range_set r) = {s..<e}"
proof (induction s e rs rule: partition_range.induct)
  case (2 s e a b rs)
  then have "(\<Union>r\<in>set rs. range_set r) = {b..<e}" "s \<le> b" "a = s" "b \<le> e" using partition_le by auto
  then show ?case by (auto simp: range_set_def)
qed (simp add: range_set_def)

lemma partition_ordered: "partition_range s e rs \<Longrightarrow> sorted_wrt (\<lambda>a b. snd a \<le> fst b) rs \<and> (\<forall>r\<in>set rs. s \<le> fst r \<and> fst r \<le> snd r \<and> snd r \<le> e)"
proof (induction s e rs rule: partition_range.induct)
  case (2 s e a b rs)
  then have "partition_range b e rs" "b \<le> e" "a = s" "s \<le> b" using partition_le by auto
  with 2 show ?case by fastforce
qed simp

lemma share_bounds_partition:
  "from \<le> e \<Longrightarrow> fs \<noteq> [] \<Longrightarrow>
     \<exists>bs. share_bounds s e from cum fs = Some bs \<and> length bs = length fs \<and> partition_range from e bs"
proof (induction fs arbitrary: "from" cum)
  case (Cons f fs)
  show ?case
  proof (cases "fs = []")
    case True
    with Cons.prems show ?thesis by (simp add: Let_def)
  next
    case False
    obtain to where to: "i64_clamp from e (s + as_i64 (f64_round (f64_mul (f64_add cum f) (f64_of_int (e - s))))) = Some to"
      using i64_clamp_total[OF Cons.prems(1)] by blast
    from i64_clamp_Some[OF to] have "from \<le> to" "to \<le> e" by simp_all
    from Cons.IH[OF this(2) False, of "f64_add cum f"] to \<open>from \<le> to\<close> False show ?thesis by auto
  qed
qed simp

section \<open>The clue split gives every second to its nearest clue\<close>

lemma winners_sorted: "sorted (map cl_at (winners clues))"
  by (simp add: winners_def)

lemma set_winners:
  "set (winners clues) = {c\<in>set clues. \<forall>d\<in>set clues. clue_minute d = clue_minute c \<longrightarrow> cl_strength d \<le> cl_strength c}"
proof (intro set_eqI iffI)
  fix c assume "c \<in> set (winners clues)"
  then obtain m where m: "c \<in> set (strongest_of_minute clues m)" by (auto simp: winners_def)
  then obtain s where s: "max_by_key id (map cl_strength (filter (\<lambda>c. clue_minute c = m) clues)) = Some s"
    "c \<in> set clues" "clue_minute c = m" "cl_strength c = s"
    by (cases "max_by_key id (map cl_strength (filter (\<lambda>c. clue_minute c = m) clues))")
       (auto simp: strongest_of_minute_def Let_def)
  with max_by_key_Some[OF s(1)]
  show "c \<in> {c\<in>set clues. \<forall>d\<in>set clues. clue_minute d = clue_minute c \<longrightarrow> cl_strength d \<le> cl_strength c}" by auto
next
  fix c assume c: "c \<in> {c\<in>set clues. \<forall>d\<in>set clues. clue_minute d = clue_minute c \<longrightarrow> cl_strength d \<le> cl_strength c}"
  let ?g = "map cl_strength (filter (\<lambda>d. clue_minute d = clue_minute c) clues)"
  have "cl_strength c \<in> set ?g" using c by auto
  then have "?g \<noteq> []" by (metis empty_iff list.set(1))
  then obtain s where s: "max_by_key id ?g = Some s" using max_by_key_None by fastforce
  with max_by_key_Some[OF s] c have "cl_strength c = s" by (auto intro!: antisym)
  with s c have "c \<in> set (strongest_of_minute clues (clue_minute c))" by (simp add: strongest_of_minute_def Let_def)
  with c show "c \<in> set (winners clues)" by (auto simp: winners_def)
qed

lemma winners_ne: "clues \<noteq> [] \<Longrightarrow> winners clues \<noteq> []"
proof
  assume "clues \<noteq> []" "winners clues = []"
  then obtain c where "c \<in> set clues" by (cases clues) auto
  let ?s = "cl_strength ` {d\<in>set clues. clue_minute d = clue_minute c}"
  have "finite ?s" "?s \<noteq> {}" using \<open>c \<in> set clues\<close> by auto
  then have "Max ?s \<in> ?s" by (rule Max_in)
  then obtain d where d: "d \<in> set clues" "clue_minute d = clue_minute c" "cl_strength d = Max ?s" by auto
  with \<open>finite ?s\<close> have "d \<in> set (winners clues)" unfolding set_winners by auto
  with \<open>winners clues = []\<close> show False by simp
qed

lemma timestamp_mono: "s \<le> t \<Longrightarrow> timestamp s \<le> timestamp t"
  by (simp add: timestamp_def NS_def zdiv_mono1)

lemma midpoint: "0 \<le> a + b \<Longrightarrow> trunc_div (a + b) 2 = (a + b) div 2"
  by (simp add: trunc_div_def)

lemma owned_ranges_partition:
  assumes "sorted (map cl_at ws)" "ws \<noteq> []" "0 \<le> s" "\<forall>c\<in>set ws. s \<le> timestamp (cl_at c) \<and> timestamp (cl_at c) < e"
    "from \<le> timestamp (cl_at (hd ws)) + 1" "from \<le> e"
  shows "partition_range from e (map snd (owned_ranges from e ws))"
  using assms
proof (induction "from" e ws rule: owned_ranges.induct)
  case (3 "from" e c d cs)
  let ?a = "timestamp (cl_at c)" and ?b = "timestamp (cl_at d)"
  let ?to = "trunc_div (?a + ?b) 2 + 1"
  have ab: "?a \<le> ?b" "0 \<le> ?a" "?b < e" using 3(2,4,5) timestamp_mono[of "cl_at c" "cl_at d"] by auto
  then have to: "?to = (?a + ?b) div 2 + 1" by (simp add: midpoint)
  then have "from \<le> ?to" "?to \<le> ?b + 1" "?to \<le> e" using ab 3(6) by auto
  with 3(1)[OF refl] 3(2,4,5) show ?case by (simp add: Let_def)
qed simp_all

definition clue_dist :: "int \<Rightarrow> clue \<Rightarrow> int" where
  "clue_dist t c = \<bar>t - timestamp (cl_at c)\<bar>"

lemma owned_ranges_nearest:
  assumes "sorted (map cl_at ws)" "ws \<noteq> []" "0 \<le> s" "\<forall>c\<in>set ws. s \<le> timestamp (cl_at c) \<and> timestamp (cl_at c) < e"
    "from \<le> timestamp (cl_at (hd ws)) + 1" "from \<le> e"
    "(k, r) \<in> set (owned_ranges from e ws)" "t \<in> range_set r"
  shows "\<exists>c\<in>set ws. cl_customer c = k \<and> (\<forall>d\<in>set ws. clue_dist t c \<le> clue_dist t d)"
  using assms
proof (induction "from" e ws rule: owned_ranges.induct)
  case (3 "from" e c d cs)
  let ?a = "timestamp (cl_at c)" and ?b = "timestamp (cl_at d)"
  let ?to = "trunc_div (?a + ?b) 2 + 1"
  have ab: "?a \<le> ?b" "0 \<le> ?a" "?b < e" using 3(2,4,5) timestamp_mono[of "cl_at c" "cl_at d"] by auto
  then have to: "?to = (?a + ?b) div 2 + 1" by (simp add: midpoint)
  have after: "?b \<le> timestamp (cl_at x)" if "x \<in> set cs" for x
    using 3(2) that timestamp_mono by auto
  from 3(8) consider "k = cl_customer c" "r = (from, ?to)" | "(k, r) \<in> set (owned_ranges ?to e (d # cs))"
    by (auto simp: Let_def)
  then show ?case
  proof cases
    case 1
    with 3(9) have t: "2 * t \<le> ?a + ?b" "t \<le> ?b" using to ab by (auto simp: range_set_def)
    have "clue_dist t c \<le> clue_dist t x" if "x \<in> set (c # d # cs)" for x
    proof -
      from that consider "x = c" | "?b \<le> timestamp (cl_at x)" using after by auto
      then show ?thesis using t ab by cases (auto simp: clue_dist_def)
    qed
    with 1 show ?thesis by (intro bexI[of _ c]) simp_all
  next
    case 2
    have srt: "sorted (map cl_at (d # cs))" using 3(2) by simp
    have bnd: "\<forall>x\<in>set (d # cs). s \<le> timestamp (cl_at x) \<and> timestamp (cl_at x) < e" using 3(5) by simp
    have first: "?to \<le> timestamp (cl_at (hd (d # cs))) + 1" "?to \<le> e" using to ab by auto
    from owned_ranges_partition[OF srt _ 3(4) bnd first]
    have "partition_range ?to e (map snd (owned_ranges ?to e (d # cs)))" by simp
    from partition_ordered[OF this] 2 have "?to \<le> fst r" by force
    with 3(9) have tt: "?to \<le> t" by (simp add: range_set_def)
    from 3(1)[OF refl srt _ 3(4) bnd first 2 3(9)] obtain x where
      x: "x \<in> set (d # cs)" "cl_customer x = k" "\<forall>y\<in>set (d # cs). clue_dist t x \<le> clue_dist t y" by auto
    have "clue_dist t d \<le> clue_dist t c" using tt to ab by (auto simp: clue_dist_def)
    then have "clue_dist t x \<le> clue_dist t c" using x(3) by (meson list.set_intros(1) order_trans)
    with x show ?thesis by (intro bexI[of _ x]) simp_all
  qed
qed auto

interpretation touching_ranges: coalescer touch_range "\<lambda>r. fst r < snd r" "\<lambda>a b. snd a \<le> fst b" range_set
proof unfold_locales
  fix x y z :: seconds_range
  assume "touch_range x y = Some z" "fst x < snd x" "fst y < snd y"
  then show "range_set z = range_set x \<union> range_set y"
    by (cases x; cases y) (auto simp: touch_range_def range_set_def split: if_splits)
qed (auto simp: touch_range_def split: if_splits)

lemma merge_adjacent_spec:
  assumes "sorted_wrt (\<lambda>a b. snd a \<le> fst b) rs" "\<forall>r\<in>set rs. fst r \<le> snd r"
  shows "(\<Union>r\<in>set (merge_adjacent rs). range_set r) = (\<Union>r\<in>set rs. range_set r)"
    and "range_sum (merge_adjacent rs) = range_sum rs"
    and "sorted_wrt (\<lambda>a b. snd a \<le> fst b) (merge_adjacent rs) \<and> (\<forall>r\<in>set (merge_adjacent rs). fst r < snd r)"
proof -
  let ?f = "filter (\<lambda>(from, to). from \<noteq> to) rs"
  have c: "touching_ranges.chain ?f"
    using assms by (auto simp: touching_ranges.chain_def sorted_wrt_filter)
  from touching_ranges.coalesce_cov[OF c]
  have "(\<Union>r\<in>set (merge_adjacent rs). range_set r) = (\<Union>r\<in>set ?f. range_set r)" by (simp add: merge_adjacent_def)
  also have "\<dots> = (\<Union>r\<in>set rs. range_set r)" using assms(2) by (force simp: range_set_def)
  finally show "(\<Union>r\<in>set (merge_adjacent rs). range_set r) = (\<Union>r\<in>set rs. range_set r)" .
  have "range_sum (merge_adjacent rs) = range_sum ?f"
    unfolding range_sum_def merge_adjacent_def
    by (rule coalesce_sum) (auto simp: touch_range_def split: if_splits)
  also have "\<dots> = range_sum rs" by (induction rs) (auto simp: range_sum_def)
  finally show "range_sum (merge_adjacent rs) = range_sum rs" .
  from touching_ranges.coalesce_chain[OF c]
  show "sorted_wrt (\<lambda>a b. snd a \<le> fst b) (merge_adjacent rs) \<and> (\<forall>r\<in>set (merge_adjacent rs). fst r < snd r)"
    by (auto simp: touching_ranges.chain_def merge_adjacent_def)
qed

lemma sum_by_key:
  assumes "distinct ks" "f ` set xs \<subseteq> set ks"
  shows "sum_list (map (\<lambda>k. sum_list (map g (filter (\<lambda>x. f x = k) xs))) ks) = (sum_list (map g xs) :: int)"
  using assms(2)
proof (induction xs)
  case (Cons x xs)
  have "sum_list (map (\<lambda>k. if f x = k then g x else 0) ks) = g x"
    using assms(1) Cons.prems by (simp add: sum_list_distinct_conv_sum_set)
  moreover have "sum_list (map (\<lambda>k. sum_list (map g (filter (\<lambda>x. f x = k) (x # xs)))) ks) =
      sum_list (map (\<lambda>k. (if f x = k then g x else 0) + sum_list (map g (filter (\<lambda>x. f x = k) xs))) ks)"
    by (intro arg_cong[where f = sum_list] map_cong) auto
  ultimately show ?case using Cons by (simp add: sum_list_addf)
qed simp

definition slice_seconds :: "customer_slice \<Rightarrow> int" where
  "slice_seconds sl = range_sum (cs_intervals sl)"

definition slice_set :: "customer_slice \<Rightarrow> int set" where
  "slice_set sl = (\<Union>r\<in>set (cs_intervals sl). range_set r)"

definition in_block :: "int \<Rightarrow> int \<Rightarrow> clue list \<Rightarrow> bool" where
  "in_block s e clues = (0 \<le> s \<and> clues \<noteq> [] \<and> (\<forall>c\<in>set clues. s \<le> timestamp (cl_at c) \<and> timestamp (cl_at c) < e))"

lemma survivors_ne: "clues \<noteq> [] \<Longrightarrow> survivors clues \<noteq> []"
  by (auto simp: survivors_def Let_def filter_empty_conv list_ex_iff neq_Nil_conv)

lemma survivors_sub: "set (survivors clues) \<subseteq> set clues"
  by (auto simp: survivors_def Let_def)

definition owned_of :: "int \<Rightarrow> int \<Rightarrow> clue list \<Rightarrow> (string \<times> seconds_range) list" where
  "owned_of s e clues = owned_ranges s e (winners (survivors clues))"

lemma owned_of_ok:
  assumes "in_block s e clues"
  shows "partition_range s e (map snd (owned_of s e clues))"
    and "(k, r) \<in> set (owned_of s e clues) \<Longrightarrow> t \<in> range_set r \<Longrightarrow>
      \<exists>c\<in>set (winners (survivors clues)). cl_customer c = k \<and>
        (\<forall>d\<in>set (winners (survivors clues)). clue_dist t c \<le> clue_dist t d)"
proof -
  let ?w = "winners (survivors clues)"
  have ne: "?w \<noteq> []" using assms by (intro winners_ne survivors_ne) (simp add: in_block_def)
  have bnd: "\<forall>c\<in>set ?w. s \<le> timestamp (cl_at c) \<and> timestamp (cl_at c) < e"
    using assms survivors_sub[of clues] by (auto simp: in_block_def set_winners)
  have first: "s \<le> timestamp (cl_at (hd ?w)) + 1" "s \<le> e"
    using bnd hd_in_set[OF ne] by fastforce+
  have s0: "0 \<le> s" using assms by (simp add: in_block_def)
  note args = winners_sorted ne s0 bnd first
  from owned_ranges_partition[OF args] show "partition_range s e (map snd (owned_of s e clues))"
    by (simp add: owned_of_def)
  from owned_ranges_nearest[OF args] show "(k, r) \<in> set (owned_of s e clues) \<Longrightarrow> t \<in> range_set r \<Longrightarrow>
      \<exists>c\<in>set ?w. cl_customer c = k \<and> (\<forall>d\<in>set ?w. clue_dist t c \<le> clue_dist t d)"
    by (simp add: owned_of_def)
qed

definition ranges_of :: "string \<Rightarrow> (string \<times> seconds_range) list \<Rightarrow> seconds_range list" where
  "ranges_of k owned = map snd (filter (\<lambda>r. fst r = k) owned)"

lemma split_block_Some:
  assumes "in_block s e clues"
  shows "split_block s e clues = Some (List.map_filter (\<lambda>k.
      if merge_adjacent (ranges_of k (owned_of s e clues)) = [] then None
      else Some \<lparr>cs_customer = Some k, cs_intervals = merge_adjacent (ranges_of k (owned_of s e clues)), cs_origin = Clues\<rparr>)
      (btree_keys (map fst (owned_of s e clues))))"
proof -
  have "survivors clues \<noteq> []" using assms by (intro survivors_ne) (simp add: in_block_def)
  then show ?thesis unfolding split_block_def Let_def owned_of_def ranges_of_def by (rule if_not_P)
qed

lemma ranges_of_ok:
  assumes "in_block s e clues"
  shows "sorted_wrt (\<lambda>a b. snd a \<le> fst b) (ranges_of k (owned_of s e clues))"
    "\<forall>r\<in>set (ranges_of k (owned_of s e clues)). fst r \<le> snd r"
proof -
  note p = partition_ordered[OF owned_of_ok(1)[OF assms]]
  then show "sorted_wrt (\<lambda>a b. snd a \<le> fst b) (ranges_of k (owned_of s e clues))"
    unfolding ranges_of_def sorted_wrt_map by (intro sorted_wrt_filter) simp
  from p show "\<forall>r\<in>set (ranges_of k (owned_of s e clues)). fst r \<le> snd r" by (auto simp: ranges_of_def)
qed

lemma split_block_slice:
  assumes "in_block s e clues" "split_block s e clues = Some slices" "sl \<in> set slices"
  shows "\<exists>k. cs_customer sl = Some k \<and> slice_set sl = (\<Union>r\<in>set (ranges_of k (owned_of s e clues)). range_set r) \<and> cs_intervals sl \<noteq> []
    \<and> sorted_wrt (\<lambda>a b. snd a \<le> fst b) (cs_intervals sl) \<and> (\<forall>r\<in>set (cs_intervals sl). fst r < snd r)"
  using assms(2,3) unfolding split_block_Some[OF assms(1)] slice_set_def
  using merge_adjacent_spec[OF ranges_of_ok[OF assms(1)]]
  by (auto simp: List.map_filter_def split: if_splits)

lemma slices_set:
  "(\<Union>sl\<in>set (List.map_filter (\<lambda>k. if M k = [] then None
      else Some \<lparr>cs_customer = Some k, cs_intervals = M k, cs_origin = Clues\<rparr>) ks). slice_set sl)
   = (\<Union>k\<in>set ks. \<Union>r\<in>set (M k). range_set r)"
  by (induction ks) (auto simp: map_filter_simps slice_set_def)

theorem split_block_cover:
  assumes "in_block s e clues" "split_block s e clues = Some slices"
  shows "(\<Union>sl\<in>set slices. slice_set sl) = {s..<e}"
proof -
  let ?o = "owned_of s e clues"
  note spec = merge_adjacent_spec[OF ranges_of_ok[OF assms(1)]]
  have "(\<Union>sl\<in>set slices. slice_set sl) = (\<Union>k\<in>fst ` set ?o. \<Union>r\<in>set (merge_adjacent (ranges_of k ?o)). range_set r)"
    using assms(2) unfolding split_block_Some[OF assms(1)] option.inject
    by (subst (asm) eq_commute) (simp only: slices_set set_btree_keys set_map)
  also have "\<dots> = (\<Union>k\<in>fst ` set ?o. \<Union>r\<in>set (ranges_of k ?o). range_set r)" by (simp add: spec)
  also have "\<dots> = (\<Union>r\<in>set (map snd ?o). range_set r)" by (force simp: ranges_of_def)
  also have "\<dots> = {s..<e}" using partition_cover[OF owned_of_ok(1)[OF assms(1)]] by simp
  finally show ?thesis .
qed

theorem split_block_sum:
  assumes "in_block s e clues" "split_block s e clues = Some slices"
  shows "sum_list (map slice_seconds slices) = e - s"
proof -
  let ?o = "owned_of s e clues"
  note spec = merge_adjacent_spec(2)[OF ranges_of_ok[OF assms(1)]]
  have f: "sum_list (map slice_seconds (List.map_filter (\<lambda>k.
      if merge_adjacent (ranges_of k ?o) = [] then None
      else Some \<lparr>cs_customer = Some k, cs_intervals = merge_adjacent (ranges_of k ?o), cs_origin = Clues\<rparr>) ks))
    = sum_list (map (\<lambda>k. range_sum (merge_adjacent (ranges_of k ?o))) ks)" for ks
    by (induction ks) (auto simp: map_filter_simps slice_seconds_def range_sum_def)
  have "sum_list (map slice_seconds slices) = sum_list (map (\<lambda>k. range_sum (ranges_of k ?o)) (btree_keys (map fst ?o)))"
    using assms(2) unfolding split_block_Some[OF assms(1)] by (auto simp: f spec)
  also have "\<dots> = sum_list (map (\<lambda>k. sum_list (map (\<lambda>x. snd (snd x) - fst (snd x)) (filter (\<lambda>x. fst x = k) ?o))) (btree_keys (map fst ?o)))"
    by (simp add: range_sum_def ranges_of_def comp_def split_beta)
  also have "\<dots> = sum_list (map (\<lambda>x. snd (snd x) - fst (snd x)) ?o)"
    by (rule sum_by_key) (simp_all add: btree_keys_distinct)
  also have "\<dots> = range_sum (map snd ?o)" by (simp add: range_sum_def comp_def split_beta)
  also have "\<dots> = e - s" by (rule partition_sum[OF owned_of_ok(1)[OF assms(1)]])
  finally show ?thesis .
qed

theorem split_block_nearest:
  assumes "in_block s e clues" "split_block s e clues = Some slices" "sl \<in> set slices" "t \<in> slice_set sl"
  shows "\<exists>c\<in>set (winners (survivors clues)). cs_customer sl = Some (cl_customer c) \<and>
    (\<forall>d\<in>set (winners (survivors clues)). clue_dist t c \<le> clue_dist t d)"
proof -
  from split_block_slice[OF assms(1-3)] obtain k where k: "cs_customer sl = Some k"
    "slice_set sl = (\<Union>r\<in>set (ranges_of k (owned_of s e clues)). range_set r)" by blast
  with assms(4) obtain r where "(k, r) \<in> set (owned_of s e clues)" "t \<in> range_set r" by (auto simp: ranges_of_def)
  from owned_of_ok(2)[OF assms(1) this] k(1) show ?thesis by auto
qed

lemma slices_from_rows_partition:
  assumes "s \<le> e" "rows \<noteq> []"
  shows "\<exists>slices. slices_from_rows s e rows = Some slices \<and>
     map bs_customer slices = map (Some \<circ> sr_customer) (sort_key (\<lambda>r. (sr_customer r, sr_deild r)) rows) \<and>
     partition_range s e (concat (map bs_intervals slices))"
proof -
  let ?o = "sort_key (\<lambda>r. (sr_customer r, sr_deild r)) rows"
  have "map sr_fraction ?o \<noteq> []" using assms(2) by (metis Nil_is_map_conv length_0_conv length_sort)
  from share_bounds_partition[OF assms(1) this, of s 0] obtain bs where
    bs: "share_bounds s e s 0 (map sr_fraction ?o) = Some bs" "length bs = length ?o" "partition_range s e bs" by auto
  let ?mk = "\<lambda>row r. \<lparr>bs_customer = Some (sr_customer row), bs_deild = sr_deild row, bs_intervals = [r],
              bs_origin = ManualSplit, bs_deild_origin = ManualDeild\<rparr>"
  have m: "length xs = length ys \<Longrightarrow> map bs_customer (map2 ?mk xs ys) = map (Some \<circ> sr_customer) xs \<and>
      concat (map bs_intervals (map2 ?mk xs ys)) = ys" for xs ys
    by (induction xs ys rule: list_induct2) simp_all
  have "slices_from_rows s e rows = Some (map2 ?mk ?o bs)" using bs(1) by (simp add: slices_from_rows_def Let_def)
  then show ?thesis using m[OF bs(2)[symmetric]] bs(3) by (intro exI[of _ "map2 ?mk ?o bs"]) simp
qed

end
