(* ===== verification/Clues.thy ===== *)
theory Clues
  imports Sessions Tenants
begin

text \<open>
  Customer clues of a multi-tenant folder: the text extractors and \<open>clues_for_block\<close> of
  \<open>tenant_clues.rs\<close>, and the tenant directories and links of \<open>tenants.rs\<close>. Directory contents come
  from the record \<open>disk\<close>; a path there is the list of its segments.
\<close>

section \<open>Text extractors\<close>

lemma str_find_bound: "str_find p s = Some i \<Longrightarrow> i + length p \<le> length s \<and> take (length p) (drop i s) = p"
proof (induction p s arbitrary: i rule: str_find.induct)
  case (2 p c cs)
  show ?case
  proof (cases "starts_with p (c # cs)")
    case True
    then have "take (length p) (c # cs) = p" by (simp add: starts_with_def)
    then have "length p \<le> length (c # cs)" by (metis length_take min.cobounded1)
    with 2 True \<open>take (length p) (c # cs) = p\<close> show ?thesis by simp
  qed (use 2 in auto)
qed (auto split: if_splits)

function split_str :: "string \<Rightarrow> string \<Rightarrow> string list" where
  "split_str sep s =
     (if sep = [] then [s]
      else case str_find sep s of
             None \<Rightarrow> [s]
           | Some i \<Rightarrow> take i s # split_str sep (drop (i + length sep) s))"
  by pat_completeness auto
termination
  by (relation "measure (\<lambda>(sep, s). length s)") (auto dest: str_find_bound simp: length_greater_0_conv[symmetric] simp del: length_greater_0_conv)

declare split_str.simps [simp del]

definition str_rfind :: "string \<Rightarrow> string \<Rightarrow> nat option" where
  "str_rfind p s = map_option (\<lambda>j. length s - j - length p) (str_find (rev p) (rev s))"

text \<open>\<open>MIDDLE_DOT\<close> is the separator of the summaries, a middle dot between spaces.\<close>

definition MIDDLE_DOT :: string where
  "MIDDLE_DOT = [CHR 0x20, CHR 0xC2, CHR 0xB7, CHR 0x20]"

definition tenant_segment :: "string list \<Rightarrow> string \<Rightarrow> string option" where
  "tenant_segment roots path =
     (let segments = split_on (\<lambda>c. c = CHR ''/'') path
      in find_some (\<lambda>rt.
           let root_segments = split_on (\<lambda>c. c = CHR ''/'') rt
           in if length segments \<le> length root_segments then None
              else if list_all (\<lambda>(r, s). r = ''*'' \<or> r = s) (zip root_segments segments)
              then Some (segments ! length root_segments) else None) roots)"

definition branch_after :: "string \<Rightarrow> string \<Rightarrow> string option" where
  "branch_after told prefix =
     (case strip_prefix prefix told of
        None \<Rightarrow> None
      | Some rest \<Rightarrow>
          (let branch = trim (hd (split_str MIDDLE_DOT rest)) in if branch = [] then None else Some branch))"

definition edited_paths :: "string \<Rightarrow> string list" where
  "edited_paths details =
     (case find_some (strip_prefix ''edited '') (split_str MIDDLE_DOT details) of
        None \<Rightarrow> []
      | Some rest \<Rightarrow>
          (let files_part = (case str_rfind '' +'' rest of
                 Some idx \<Rightarrow> if list_all ascii_digit (drop (idx + 2) rest) then take idx rest else rest
               | None \<Rightarrow> rest)
           in filter (\<lambda>s. s \<noteq> []) (map trim (split_str '', '' files_part))))"

definition worktree_name :: "string option \<Rightarrow> string option" where
  "worktree_name project_path =
     (case project_path of
        None \<Rightarrow> None
      | Some path \<Rightarrow>
          (case str_find ''/.claude/worktrees/'' path of
             None \<Rightarrow> None
           | Some i \<Rightarrow>
               (let name = first_segment (CHR ''/'') (drop (i + length ''/.claude/worktrees/'') path)
                in if name = [] then None else Some name)))"

section \<open>Tenants and their links\<close>

datatype tenant_origin = Alias | Link | Unmatched | Ignored

record tenant =
  tn_folder :: string
  tn_name :: string
  tn_customer :: "string option"
  tn_origin :: tenant_origin

record tenant_link =
  tl_folder :: string
  tl_tenant :: string
  tl_customer :: "string option"
  tl_ignored :: bool

record disk =
  is_dir :: "string list \<Rightarrow> bool"
  read_dir :: "string list \<Rightarrow> string list option"

fun root_dirs :: "disk \<Rightarrow> string list list \<Rightarrow> string list \<Rightarrow> string list list" where
  "root_dirs dk dirs [] = dirs"
| "root_dirs dk dirs (segment # segments) =
     root_dirs dk
       (concat (map (\<lambda>dir.
          if segment = ''*''
          then (case read_dir dk dir of
                  None \<Rightarrow> []
                | Some entries \<Rightarrow> filter (is_dir dk) (map (\<lambda>e. dir @ [e]) entries))
          else if is_dir dk (dir @ [segment]) then [dir @ [segment]] else []) dirs)) segments"

definition tenant_names :: "disk \<Rightarrow> string list \<Rightarrow> string \<Rightarrow> string list" where
  "tenant_names dk folder_base rt =
     btree_keys (filter (\<lambda>name. \<not> starts_with ''.'' name)
       (concat (map (\<lambda>dir. case read_dir dk dir of
            None \<Rightarrow> []
          | Some entries \<Rightarrow> filter (\<lambda>e. is_dir dk (dir @ [e])) entries)
          (root_dirs dk [folder_base] (split_on (\<lambda>c. c = CHR ''/'') rt)))))"

definition find_link :: "tenant_link list \<Rightarrow> string \<Rightarrow> string \<Rightarrow> tenant_link option" where
  "find_link links folder name = find (\<lambda>l. tl_folder l = folder \<and> tl_tenant l = name) (rev links)"

definition by_alias :: "unicode \<Rightarrow> registry \<Rightarrow> string \<Rightarrow> string option \<times> tenant_origin" where
  "by_alias uc reg name =
     (case customer_in_text uc reg name of Some c \<Rightarrow> (Some c, Alias) | None \<Rightarrow> (None, Unmatched))"

definition resolve_origin ::
    "unicode \<Rightarrow> tenant_link list \<Rightarrow> registry \<Rightarrow> string \<Rightarrow> string \<Rightarrow> string option \<times> tenant_origin" where
  "resolve_origin uc links reg folder name =
     (case find_link links folder name of
        None \<Rightarrow> by_alias uc reg name
      | Some link \<Rightarrow>
          if tl_ignored link then (None, Ignored)
          else (case tl_customer link of Some c \<Rightarrow> (Some c, Link) | None \<Rightarrow> by_alias uc reg name))"

definition found_tenants :: "disk \<Rightarrow> string list \<Rightarrow> (string \<times> string) list \<Rightarrow> (string \<times> string) list" where
  "found_tenants dk base roots =
     rev (remdups (rev (concat (map (\<lambda>(folder, rt). map (Pair folder) (tenant_names dk (base @ [folder]) rt)) roots))))"

definition list_tenants_under ::
    "unicode \<Rightarrow> disk \<Rightarrow> string list \<Rightarrow> (string \<times> string) list \<Rightarrow> tenant_link list \<Rightarrow> registry \<Rightarrow> tenant list" where
  "list_tenants_under uc dk base roots links reg =
     sort_key (\<lambda>t. (tn_folder t, tn_name t))
       (map (\<lambda>(folder, name).
          let (c, origin) = resolve_origin uc links reg folder name
          in \<lparr>tn_folder = folder, tn_name = name, tn_customer = c, tn_origin = origin\<rparr>)
         (found_tenants dk base roots))"

definition customer_map_from :: "tenant list \<Rightarrow> (string \<times> string) \<Rightarrow> string option" where
  "customer_map_from tenants =
     map_of (rev (List.map_filter (\<lambda>t.
       if tn_origin t \<in> {Alias, Link} then map_option (Pair (tn_folder t, tn_name t)) (tn_customer t) else None) tenants))"

datatype link_error = NotMultiTenant | CustomerGone

definition link_tenant :: "registry \<Rightarrow> tenant_link \<Rightarrow> tenant_link list \<Rightarrow> link_error + tenant_link list" where
  "link_tenant reg link links =
     (let same = (\<lambda>l. tl_folder l = tl_folder link \<and> tl_tenant l = tl_tenant link)
      in if \<not> list_ex (\<lambda>f. fm_folder f = tl_folder link \<and> fm_multi_tenant f) (rg_folders reg) then Inl NotMultiTenant
         else if (case tl_customer link of None \<Rightarrow> False
                  | Some c \<Rightarrow> \<not> list_ex (\<lambda>x. cu_name x = c) (rg_customers reg)) then Inl CustomerGone
         else if tl_customer link = None \<and> \<not> tl_ignored link then Inr (filter (\<lambda>l. \<not> same l) links)
         else Inr (if list_ex same links then map (\<lambda>l. if same l then link else l) links else links @ [link]))"

section \<open>Clues of one block\<close>

record clue_event =
  ce_source :: string
  ce_title :: string
  ce_started :: string
  ce_path :: "string option"
  ce_details :: "string option"
  ce_repo :: "string option"
  ce_session :: "string option"

record digest =
  dg_folder :: "string option"
  dg_paths :: "string list"
  dg_path_counts :: "int list"
  dg_titles :: "string list"
  dg_title_counts :: "int list"
  dg_pinned :: "string option"
  dg_first :: "string option"
  dg_branches :: "string list"

definition branch_clue :: "unicode \<Rightarrow> registry \<Rightarrow> instant \<Rightarrow> string option \<Rightarrow> clue list" where
  "branch_clue uc reg tm told =
     (case Option.bind told (customer_in_text uc reg) of
        None \<Rightarrow> []
      | Some c \<Rightarrow> [\<lparr>cl_at = tm, cl_customer = c, cl_strength = Branch\<rparr>])"

definition path_clues ::
    "string list \<Rightarrow> (string \<times> string \<Rightarrow> string option) \<Rightarrow> string \<Rightarrow> instant \<Rightarrow> string \<Rightarrow> clue list" where
  "path_clues roots tenant_customers folder tm details =
     List.map_filter (\<lambda>path.
       case tenant_segment roots path of
         None \<Rightarrow> None
       | Some name \<Rightarrow> map_option (\<lambda>c. \<lparr>cl_at = tm, cl_customer = c, cl_strength = TenantPath\<rparr>)
                        (tenant_customers (folder, name))) (edited_paths details)"

definition clues_of_event ::
    "env \<Rightarrow> unicode \<Rightarrow> clock \<Rightarrow> registry \<Rightarrow> string list \<Rightarrow> (string \<times> string \<Rightarrow> string option) \<Rightarrow> string \<Rightarrow> clue_event \<Rightarrow> clue list" where
  "clues_of_event env uc ck reg roots tenant_customers folder e =
     (if Option.bind (ce_path e) (work_folder_for_path (work_prefixes env)) \<noteq> Some folder then []
      else case from_rfc3339 ck (ce_started e) of
             None \<Rightarrow> []
           | Some tm \<Rightarrow>
               (case ce_details e of
                  None \<Rightarrow> []
                | Some details \<Rightarrow> path_clues roots tenant_customers folder tm details
                    @ branch_clue uc reg tm (branch_after details ''branch ''))
               @ branch_clue uc reg tm (branch_after (ce_title e) ''checkout '')
               @ branch_clue uc reg tm (worktree_name (ce_path e)))"

definition clues_from_card :: "env \<Rightarrow> unicode \<Rightarrow> clock \<Rightarrow> registry \<Rightarrow> string \<Rightarrow> digest \<Rightarrow> clue list" where
  "clues_from_card env uc ck reg folder digest_card =
     (case Option.bind (dg_first digest_card) (from_rfc3339 ck) of
        None \<Rightarrow> []
      | Some tm \<Rightarrow>
          (let worktrees = List.map_filter (\<lambda>p. worktree_name (Some p))
                 (filter (\<lambda>p. work_folder_for_path (work_prefixes env) p = Some folder) (dg_paths digest_card));
               branches = (if dg_folder digest_card = Some folder then dg_branches digest_card else [])
           in map (\<lambda>c. \<lparr>cl_at = tm, cl_customer = c, cl_strength = Branch\<rparr>)
                (List.map_filter (customer_in_text uc reg) (branches @ worktrees))))"

definition clues_for_block ::
    "env \<Rightarrow> unicode \<Rightarrow> clock \<Rightarrow> registry \<Rightarrow> (string \<times> string) list \<Rightarrow> (string \<times> string \<Rightarrow> string option) \<Rightarrow>
     digest option \<Rightarrow> clue_event list \<Rightarrow> string \<Rightarrow> clue list" where
  "clues_for_block env uc ck reg all_roots tenant_customers digest_card events folder =
     (case digest_card of
        Some c \<Rightarrow> clues_from_card env uc ck reg folder c
      | None \<Rightarrow>
          (let roots = map snd (filter (\<lambda>r. fst r = folder) all_roots)
           in concat (map (clues_of_event env uc ck reg roots tenant_customers folder) events)))"

section \<open>Links decide\<close>

lemma find_link_after:
  assumes "link_tenant reg link links = Inr links'"
  shows "find_link links' (tl_folder link) (tl_tenant link) =
    (if tl_customer link = None \<and> \<not> tl_ignored link then None else Some link)"
proof -
  let ?same = "\<lambda>l. tl_folder l = tl_folder link \<and> tl_tenant l = tl_tenant link"
  show ?thesis
  proof (cases "tl_customer link = None \<and> \<not> tl_ignored link")
    case True
    with assms have "links' = filter (\<lambda>l. \<not> ?same l) links" by (simp add: link_tenant_def Let_def split: if_splits)
    with True show ?thesis by (auto simp: find_link_def find_None_iff)
  next
    case False
    with assms have l: "links' = (if list_ex ?same links then map (\<lambda>l. if ?same l then link else l) links else links @ [link])"
      by (auto simp: link_tenant_def Let_def split: if_splits)
    have "find ?same (rev links') = Some link"
    proof (cases "list_ex ?same links")
      case True
      have "find ?same (map (\<lambda>l. if ?same l then link else l) xs) = Some link" if "list_ex ?same xs" for xs
        using that by (induction xs) auto
      from this[of "rev links"] True l show ?thesis by (simp add: rev_map)
    next
      case False
      with l show ?thesis by simp
    qed
    with False show ?thesis by (simp add: find_link_def)
  qed
qed

lemma resolve_origin_after:
  assumes "link_tenant reg link links = Inr links'"
  shows "resolve_origin uc links' reg (tl_folder link) (tl_tenant link) =
    (if tl_ignored link then (None, Ignored)
     else case tl_customer link of Some c \<Rightarrow> (Some c, Link) | None \<Rightarrow> by_alias uc reg (tl_tenant link))"
  using find_link_after[OF assms] by (auto simp: resolve_origin_def split: option.splits)

lemma customer_map_from_Some:
  "customer_map_from tenants k = Some c \<Longrightarrow>
     \<exists>t\<in>set tenants. (tn_folder t, tn_name t) = k \<and> tn_customer t = Some c \<and> tn_origin t \<in> {Alias, Link}"
  unfolding customer_map_from_def
  by (auto dest!: map_of_SomeD simp: set_map_filter_iff split: if_splits)

lemma list_tenants_origin:
  "t \<in> set (list_tenants_under uc dk base roots links reg) \<Longrightarrow>
     (tn_customer t, tn_origin t) = resolve_origin uc links reg (tn_folder t) (tn_name t)"
  by (auto simp: list_tenants_under_def split: prod.splits)

section \<open>Where a clue comes from\<close>

lemma branch_clue_in:
  "c \<in> set (branch_clue uc reg tm told) \<Longrightarrow>
     cl_at c = tm \<and> cl_strength c = Branch \<and> (\<exists>t. told = Some t \<and> customer_in_text uc reg t = Some (cl_customer c))"
  by (cases told) (auto simp: branch_clue_def split: option.splits)

lemma path_clues_in:
  "c \<in> set (path_clues roots tc folder tm details) \<Longrightarrow>
     cl_at c = tm \<and> cl_strength c = TenantPath \<and> (\<exists>name. tc (folder, name) = Some (cl_customer c))"
  unfolding path_clues_def set_map_filter_iff by (clarsimp split: option.splits) blast

lemma clues_of_event_in:
  assumes "c \<in> set (clues_of_event env uc ck reg roots tc folder e)"
  shows "from_rfc3339 ck (ce_started e) = Some (cl_at c)"
    and "Option.bind (ce_path e) (work_folder_for_path (work_prefixes env)) = Some folder"
    and "(cl_strength c = TenantPath \<and> (\<exists>name. tc (folder, name) = Some (cl_customer c))) \<or>
         (cl_strength c = Branch \<and> (\<exists>t. customer_in_text uc reg t = Some (cl_customer c)))"
proof -
  from assms obtain tm where tm: "from_rfc3339 ck (ce_started e) = Some tm"
    and f: "Option.bind (ce_path e) (work_folder_for_path (work_prefixes env)) = Some folder"
    by (cases "from_rfc3339 ck (ce_started e)") (auto simp: clues_of_event_def split: if_splits)
  show "Option.bind (ce_path e) (work_folder_for_path (work_prefixes env)) = Some folder" by (rule f)
  from assms tm f have "(\<exists>d. c \<in> set (path_clues roots tc folder tm d)) \<or> (\<exists>t. c \<in> set (branch_clue uc reg tm t))"
    by (auto simp: clues_of_event_def split: option.splits)
  then show "from_rfc3339 ck (ce_started e) = Some (cl_at c)"
    and "(cl_strength c = TenantPath \<and> (\<exists>name. tc (folder, name) = Some (cl_customer c))) \<or>
         (cl_strength c = Branch \<and> (\<exists>t. customer_in_text uc reg t = Some (cl_customer c)))"
    using tm path_clues_in branch_clue_in by blast+
qed

end
