(* ===== verification/Billing.thy ===== *)
theory Billing
  imports Clues
begin

text \<open>
  The arithmetic and the text of a billing line: rounding (\<open>billing_round.rs\<close>), the union of intervals,
  the joined descriptions, and the CSV and text renderings of \<open>billing.rs\<close>.
\<close>

section \<open>Half hours\<close>

definition HALF_HOUR_SECONDS :: int where "HALF_HOUR_SECONDS = 1800"

definition round_to_half_hour :: "int \<Rightarrow> int" where
  "round_to_half_hour s =
     (if s < HALF_HOUR_SECONDS div 2 then 0
      else ((s + HALF_HOUR_SECONDS - 1) div HALF_HOUR_SECONDS) * HALF_HOUR_SECONDS)"

definition round_billable_half_hour :: "int \<Rightarrow> int" where
  "round_billable_half_hour s = (if s \<le> 0 then 0 else max (round_to_half_hour s) HALF_HOUR_SECONDS)"

definition format_hours :: "int \<Rightarrow> string" where
  "format_hours s =
     (let halves = round_to_half_hour s div HALF_HOUR_SECONDS;
          whole_hours = show_nat (nat (halves div 2))
      in if halves mod 2 = 1 then whole_hours @ '',5'' else whole_hours)"

lemma round_to_half_hour_spec:
  "round_to_half_hour s = 0 \<longleftrightarrow> s < 900"
  "HALF_HOUR_SECONDS dvd round_to_half_hour s"
  "900 \<le> s \<Longrightarrow> s \<le> round_to_half_hour s \<and> round_to_half_hour s < s + HALF_HOUR_SECONDS"
proof -
  let ?q = "(1799 + s) div 1800"
  have q: "s \<le> ?q * 1800" "?q * 1800 < s + 1800" by linarith+
  show "round_to_half_hour s = 0 \<longleftrightarrow> s < 900"
  proof (cases "s < 900")
    case False
    with q(1) have "?q * 1800 \<noteq> 0" by linarith
    with False show ?thesis by (simp add: round_to_half_hour_def HALF_HOUR_SECONDS_def add.commute)
  qed (simp add: round_to_half_hour_def HALF_HOUR_SECONDS_def)
  show "HALF_HOUR_SECONDS dvd round_to_half_hour s" by (simp add: round_to_half_hour_def)
  show "900 \<le> s \<Longrightarrow> s \<le> round_to_half_hour s \<and> round_to_half_hour s < s + HALF_HOUR_SECONDS"
    using q by (simp add: round_to_half_hour_def HALF_HOUR_SECONDS_def add.commute)
qed

section \<open>Intervals\<close>

definition interval_at :: "clock \<Rightarrow> string \<Rightarrow> int \<Rightarrow> seconds_range" where
  "interval_at ck started_at duration_seconds =
     (let start = (case from_rfc3339 ck started_at of Some d \<Rightarrow> timestamp d | None \<Rightarrow> 0)
      in (start, start + max duration_seconds 0))"

definition block_interval :: "clock \<Rightarrow> block \<Rightarrow> seconds_range" where
  "block_interval ck b = interval_at ck (bk_start b) (bk_secs b)"

fun union_loop :: "int \<Rightarrow> seconds_range option \<Rightarrow> seconds_range list \<Rightarrow> int" where
  "union_loop tot cur [] = (case cur of None \<Rightarrow> tot | Some (cs, ce) \<Rightarrow> tot + (ce - cs))"
| "union_loop tot cur ((s, e) # rest) =
     (case cur of
        None \<Rightarrow> union_loop tot (Some (s, e)) rest
      | Some (cs, ce) \<Rightarrow>
          if s \<le> ce then union_loop tot (Some (cs, max ce e)) rest
          else union_loop (tot + (ce - cs)) (Some (s, e)) rest)"

definition union_seconds :: "seconds_range list \<Rightarrow> int" where
  "union_seconds intervals = union_loop 0 None (sort_key fst intervals)"

text \<open>The loop is a merge of overlapping ranges into the last one, the contract of \<open>coalescer\<close>.\<close>

definition join_overlap :: "seconds_range \<Rightarrow> seconds_range \<Rightarrow> seconds_range option" where
  "join_overlap p q = (if fst q \<le> snd p then Some (fst p, max (snd p) (snd q)) else None)"

definition forward_range :: "seconds_range \<Rightarrow> bool" where
  "forward_range r = (fst r \<le> snd r)"

definition starts_before :: "seconds_range \<Rightarrow> seconds_range \<Rightarrow> bool" where
  "starts_before p q = (fst p \<le> fst q)"

interpretation union: stable_coalescer join_overlap forward_range starts_before range_set
proof unfold_locales
  fix x y z :: seconds_range
  assume "join_overlap x y = Some z" "forward_range x" "forward_range y" "starts_before x y"
  then show "range_set z = range_set x \<union> range_set y"
    by (auto simp: join_overlap_def range_set_def forward_range_def starts_before_def split: if_splits)
qed (auto simp: join_overlap_def forward_range_def starts_before_def split: if_splits)

lemma union_loop_coalesce: "union_loop tot (Some r) rs = tot + range_sum (coalesce join_overlap (r # rs))"
proof (induction rs arbitrary: tot r)
  case (Cons q rs)
  show ?case
    by (cases r; cases q) (simp add: Cons.IH join_overlap_def range_sum_def)
qed (simp add: range_sum_def split: prod.splits)

lemma union_seconds_coalesce: "union_seconds ivs = range_sum (coalesce join_overlap (sort_key fst ivs))"
proof (cases "sort_key fst ivs")
  case (Cons r rs)
  have "union_loop 0 None (r # rs) = union_loop 0 (Some r) rs" by (cases r) simp
  with Cons show ?thesis by (simp add: union_seconds_def union_loop_coalesce)
qed (simp add: union_seconds_def range_sum_def)

lemma separated_sum:
  assumes "union.chain rs" "successively (\<lambda>p q. snd p < fst q) rs"
  shows "range_sum rs = int (card (\<Union>r\<in>set rs. range_set r))"
  using assms
proof (induction rs)
  case (Cons r rs)
  have fin: "finite (\<Union>r\<in>set rs. range_set r)" by (simp add: range_set_def)
  have ok: "forward_range r" "union.chain rs" "\<forall>q\<in>set rs. fst r \<le> fst q"
    using Cons.prems(1) unfolding union.chain_Cons by (auto simp: starts_before_def)
  have "\<forall>q\<in>set rs. snd r \<le> fst q"
  proof (cases rs)
    case (Cons q qs)
    then have "snd r < fst q" "\<forall>x\<in>set qs. fst q \<le> fst x"
      using Cons.prems(2) ok(2) unfolding Cons union.chain_Cons by (auto simp: starts_before_def)
    with Cons show ?thesis by auto
  qed simp
  then have "range_set r \<inter> (\<Union>r\<in>set rs. range_set r) = {}" by (fastforce simp: range_set_def)
  then have "card (\<Union>r\<in>set (r # rs). range_set r) = card (range_set r) + card (\<Union>r\<in>set rs. range_set r)"
    using fin by (simp add: card_Un_disjoint range_set_def)
  moreover have "int (card (range_set r)) = snd r - fst r"
    using ok(1) by (simp add: range_set_def forward_range_def)
  moreover have "range_sum rs = int (card (\<Union>r\<in>set rs. range_set r))"
    using Cons.IH[OF ok(2)] Cons.prems(2) by (cases rs) auto
  ultimately show ?case by (simp add: range_sum_def split: prod.splits)
qed (simp add: range_sum_def)

lemma union_seconds_card:
  assumes "list_all forward_range ivs"
  shows "union_seconds ivs = int (card (\<Union>r\<in>set ivs. range_set r))"
proof -
  have "sorted_wrt starts_before (sort_key fst ivs)"
    using sorted_sort_key[of fst ivs] by (simp add: sorted_map starts_before_def[abs_def])
  then have ch: "union.chain (sort_key fst ivs)"
    using assms by (simp add: union.chain_def list_all_iff)
  have "successively (\<lambda>p q. snd p < fst q) (coalesce join_overlap (sort_key fst ivs))"
    using union.coalesce_maximal[of "sort_key fst ivs"]
    by (rule successively_mono) (simp add: join_overlap_def not_le split: if_splits)
  from separated_sum[OF union.coalesce_chain[OF ch] this] union.coalesce_cov[OF ch]
  show ?thesis by (simp add: union_seconds_coalesce)
qed

section \<open>Texts\<close>

definition INVOICE_TEXT_MAX :: nat where "INVOICE_TEXT_MAX = 400"

fun join_loop :: "string \<Rightarrow> nat \<Rightarrow> string list \<Rightarrow> string \<times> nat" where
  "join_loop res used [] = (res, used)"
| "join_loop res used (d # ds) =
     (if 0 < used \<and> INVOICE_TEXT_MAX < char_count res + char_count d + 2 then (res, used)
      else join_loop ((if 0 < used then res @ ''; '' else res) @ d) (Suc used) ds)"

definition join_descriptions :: "string list \<Rightarrow> string" where
  "join_descriptions descriptions =
     (let (res, used) = join_loop [] 0 descriptions;
          omitted = length descriptions - used
      in if 0 < omitted then res @ '' (+'' @ show_nat omitted @ '' more)'' else res)"

lemma char_count_append: "char_count (xs @ ys) = char_count xs + char_count ys"
  by (simp add: char_count_def)

lemma join_snoc: "xs \<noteq> [] \<Longrightarrow> join sep (xs @ [y]) = join sep xs @ sep @ y"
  by (induction sep xs rule: join.induct) auto

lemma join_loop_spec:
  assumes "(res', used') = join_loop (join ''; '' ds) (length ds) es"
  shows "\<exists>n\<le>length es. used' = length ds + n \<and> res' = join ''; '' (ds @ take n es) \<and>
    (ds = [] \<and> es \<noteq> [] \<longrightarrow> 0 < n) \<and>
    (char_count res' \<le> INVOICE_TEXT_MAX \<or> n = 0 \<or> (ds = [] \<and> n = 1)) \<and>
    (n < length es \<longrightarrow> INVOICE_TEXT_MAX < char_count (join ''; '' (ds @ take (Suc n) es)))"
  using assms
proof (induction es arbitrary: ds)
  case (Cons e es)
  show ?case
  proof (cases "0 < length ds \<and> INVOICE_TEXT_MAX < char_count (join ''; '' ds) + char_count e + 2")
    case True
    then have "ds \<noteq> []" by auto
    then have "char_count (join ''; '' (ds @ [e])) = char_count (join ''; '' ds) + char_count e + 2"
      by (simp add: join_snoc char_count_append char_count_def continuation_byte_def)
    with True Cons.prems \<open>ds \<noteq> []\<close> show ?thesis by (intro exI[of _ 0]) simp
  next
    case False
    have j: "join ''; '' (ds @ [e]) = (if 0 < length ds then join ''; '' ds @ ''; '' else join ''; '' ds) @ e"
      by (cases "ds = []") (simp_all add: join_snoc)
    have c: "ds \<noteq> [] \<Longrightarrow> char_count (join ''; '' (ds @ [e])) \<le> INVOICE_TEXT_MAX"
      using False by (simp add: join_snoc char_count_append char_count_def continuation_byte_def)
    have "join_loop (join ''; '' ds) (length ds) (e # es) = join_loop (join ''; '' (ds @ [e])) (length (ds @ [e])) es"
      unfolding j by (subst join_loop.simps, subst if_not_P[OF False]) simp
    with Cons.prems have "(res', used') = join_loop (join ''; '' (ds @ [e])) (length (ds @ [e])) es" by (simp only:)
    from Cons.IH[OF this] obtain n where n: "n \<le> length es" "used' = length (ds @ [e]) + n"
      "res' = join ''; '' ((ds @ [e]) @ take n es)" "char_count res' \<le> INVOICE_TEXT_MAX \<or> n = 0"
      "n < length es \<longrightarrow> INVOICE_TEXT_MAX < char_count (join ''; '' ((ds @ [e]) @ take (Suc n) es))" by auto
    have "char_count res' \<le> INVOICE_TEXT_MAX \<or> (ds = [] \<and> n = 0)" using n(3,4) c by (cases "n = 0") auto
    with n show ?thesis by (intro exI[of _ "Suc n"]) auto
  qed
qed auto

definition BLANK :: string where "BLANK = EM_DASH"

definition or_blank :: "string option \<Rightarrow> string" where
  "or_blank v = (case v of None \<Rightarrow> BLANK | Some s \<Rightarrow> s)"

text \<open>The labels of the form, in UTF-8.\<close>

definition REIKNINGSHAEFT :: string where
  "REIKNINGSHAEFT = ''Reikningsh'' @ [CHR 0xC3, CHR 0xA6] @ ''ft''"

definition OREIKNINGSHAEFT :: string where
  "OREIKNINGSHAEFT = [CHR 0xC3, CHR 0x93] @ ''reikningsh'' @ [CHR 0xC3, CHR 0xA6] @ ''ft''"

definition TEGUND_SKRANINGAR :: string where
  "TEGUND_SKRANINGAR = ''Almenn skr'' @ [CHR 0xC3, CHR 0xA1] @ ''ning''"

definition TAXTI :: string where "TAXTI = ''Dagvinna''"

definition reikningshaefi :: "bool \<Rightarrow> string" where
  "reikningshaefi billable = (if billable then REIKNINGSHAEFT else OREIKNINGSHAEFT)"

section \<open>Cells\<close>

definition formula_start :: "char \<Rightarrow> bool" where
  "formula_start c = (c \<in> {CHR ''='', CHR ''+'', CHR ''-'', CHR ''@'', CHR 0x09, CHR 0x0D})"

definition csv_guard :: "string \<Rightarrow> string" where
  "csv_guard field = (case field of [] \<Rightarrow> field | c # _ \<Rightarrow> if formula_start c then CHR 0x27 # field else field)"

definition csv_special :: "char \<Rightarrow> bool" where
  "csv_special c = (c \<in> {CHR 0x22, CHR '','', CHR 0x0D, CHR 0x0A})"

definition double_quotes :: "string \<Rightarrow> string" where
  "double_quotes field = concat (map (\<lambda>c. if c = CHR 0x22 then [CHR 0x22, CHR 0x22] else [c]) field)"

definition csv_quote :: "string \<Rightarrow> string" where
  "csv_quote field = (if list_ex csv_special field then CHR 0x22 # double_quotes field @ [CHR 0x22] else field)"

definition csv_cell :: "string \<Rightarrow> string" where
  "csv_cell field = csv_quote (csv_guard field)"

text \<open>A reader for one record of RFC 4180, the specification the rendering is checked against.\<close>

fun read_quoted :: "string \<Rightarrow> string \<times> string" where
  "read_quoted [] = ([], [])"
| "read_quoted (c # cs) =
     (if c \<noteq> CHR 0x22 then (let (x, r) = read_quoted cs in (c # x, r))
      else case cs of
             [] \<Rightarrow> ([], [])
           | d # ds \<Rightarrow> if d = CHR 0x22 then (let (x, r) = read_quoted ds in (CHR 0x22 # x, r)) else ([], d # ds))"

definition field_end :: "char \<Rightarrow> bool" where
  "field_end c = (c = CHR '','' \<or> c = CHR 0x0A)"

definition read_cell :: "string \<Rightarrow> string \<times> string" where
  "read_cell s =
     (case s of
        c # cs \<Rightarrow> if c = CHR 0x22 then read_quoted cs
                   else (takeWhile (\<lambda>x. \<not> field_end x) s, dropWhile (\<lambda>x. \<not> field_end x) s)
      | [] \<Rightarrow> ([], []))"

fun read_record :: "nat \<Rightarrow> string \<Rightarrow> string list \<times> string" where
  "read_record 0 s = ([], s)"
| "read_record (Suc n) s =
     (let (c, r) = read_cell s;
          (cs, r') = read_record n (case r of x # xs \<Rightarrow> if x = CHR '','' then xs else r | [] \<Rightarrow> r)
      in (c # cs, r'))"

lemma double_quotes_simps [simp]:
  "double_quotes [] = []"
  "double_quotes (c # cs) = (if c = CHR 0x22 then CHR 0x22 # CHR 0x22 # double_quotes cs else c # double_quotes cs)"
  by (simp_all add: double_quotes_def)

lemma read_quoted_double:
  "rest = [] \<or> hd rest \<noteq> CHR 0x22 \<Longrightarrow> read_quoted (double_quotes f @ CHR 0x22 # rest) = (f, rest)"
  by (induction f) (auto split: list.splits)

lemma read_cell_quote:
  assumes "rest = [] \<or> field_end (hd rest)"
  shows "read_cell (csv_quote f @ rest) = (f, rest)"
proof (cases "list_ex csv_special f")
  case True
  with assms show ?thesis
    by (auto simp: csv_quote_def read_cell_def field_end_def intro!: read_quoted_double)
next
  case False
  then have plain: "\<forall>c\<in>set f. \<not> field_end c" "\<forall>c\<in>set f. c \<noteq> CHR 0x22"
    by (auto simp: list_ex_iff csv_special_def field_end_def)
  have tw: "takeWhile (\<lambda>x. \<not> field_end x) (f @ rest) = f" "dropWhile (\<lambda>x. \<not> field_end x) (f @ rest) = rest"
    using plain(1) assms by (cases rest; simp add: takeWhile_append2 dropWhile_append2)+
  show ?thesis
  proof (cases "f @ rest")
    case Nil
    then show ?thesis by (simp add: csv_quote_def read_cell_def)
  next
    case (Cons c cs)
    have "c \<noteq> CHR 0x22" using Cons plain(2) assms by (cases f) (auto simp: field_end_def)
    with Cons tw False show ?thesis by (simp add: csv_quote_def read_cell_def del: takeWhile.simps dropWhile.simps)
  qed
qed

lemma read_record_join:
  assumes "rest = [] \<or> hd rest = CHR 0x0A"
  shows "cells \<noteq> [] \<Longrightarrow> read_record (length cells) (join '','' (map csv_quote cells) @ rest) = (cells, rest)"
proof (induction cells rule: induct_list012)
  case (2 f)
  have "read_cell (csv_quote f @ rest) = (f, rest)" using assms by (intro read_cell_quote) (auto simp: field_end_def)
  then show ?case using assms by (cases rest) auto
next
  case (3 f g fs)
  have "read_cell (csv_quote f @ CHR '','' # (join '','' (map csv_quote (g # fs)) @ rest))
      = (f, CHR '','' # (join '','' (map csv_quote (g # fs)) @ rest))"
    by (intro read_cell_quote) (simp add: field_end_def)
  moreover have "read_record (length (g # fs)) (join '','' (map csv_quote (g # fs)) @ rest) = (g # fs, rest)"
    using 3 by simp
  ultimately show ?case by simp
qed simp

lemma csv_guard_safe: "csv_guard f \<noteq> [] \<Longrightarrow> \<not> formula_start (hd (csv_guard f))"
  by (cases f) (auto simp: csv_guard_def formula_start_def)

end
