(* ===== verification/WorkFolder.thy ===== *)
theory WorkFolder
  imports Billing
begin

text \<open>
  What a block's events say about it: the work folder they vote for, the title and the paths that
  occur most (\<open>billing.rs\<close>: \<open>work_folder_for_block\<close>, \<open>submodule_repo_map_under\<close>,
  \<open>dominant_title_for_blocks\<close>, \<open>distinct_paths_for_blocks\<close>). A compressed block has a digest card
  in place of its events.
\<close>

section \<open>Counting\<close>

text \<open>A \<open>HashMap\<close> of counts, filled by \<open>entry(k).or_insert(0) += n\<close> and read back in the order of
  falling counts, ties by key.\<close>

definition tally :: "(string \<times> int) list \<Rightarrow> string \<Rightarrow> int" where
  "tally votes k = sum_list (map snd (filter (\<lambda>v. fst v = k) votes))"

definition ranked :: "(string \<times> int) list \<Rightarrow> (string \<times> int) list" where
  "ranked votes = sort_key (\<lambda>(k, n). (- n, k)) (map (\<lambda>k. (k, tally votes k)) (remdups (map fst votes)))"

definition top_ranked :: "(string \<times> int) list \<Rightarrow> string option" where
  "top_ranked votes = (case ranked votes of [] \<Rightarrow> None | (k, n) # _ \<Rightarrow> Some k)"

text \<open>The loop the source runs, one entry at a time.\<close>

fun add_count :: "string \<Rightarrow> int \<Rightarrow> (string \<times> int) list \<Rightarrow> (string \<times> int) list" where
  "add_count k n [] = [(k, n)]"
| "add_count k n ((x, m) # cs) = (if x = k then (x, m + n) # cs else (x, m) # add_count k n cs)"

definition count_all :: "(string \<times> int) list \<Rightarrow> (string \<times> int) list" where
  "count_all votes = foldl (\<lambda>cs (k, n). add_count k n cs) [] votes"

lemma map_of_add_count: "map_of (add_count k n cs) x =
    (if x = k then Some (n + (case map_of cs k of None \<Rightarrow> 0 | Some m \<Rightarrow> m)) else map_of cs x)"
  by (induction k n cs rule: add_count.induct) (auto split: option.splits)

lemma dom_add_count: "fst ` set (add_count k n cs) = insert k (fst ` set cs)"
  by (induction k n cs rule: add_count.induct) auto

lemma distinct_add_count: "distinct (map fst cs) \<Longrightarrow> distinct (map fst (add_count k n cs))"
proof (induction k n cs rule: add_count.induct)
  case (2 k n x m cs)
  have "set (map fst (add_count k n cs)) = insert k (set (map fst cs))" by (simp add: dom_add_count)
  with 2 show ?case by auto
qed simp

lemma count_all_snoc: "count_all (vs @ [v]) = add_count (fst v) (snd v) (count_all vs)"
  by (cases v) (simp add: count_all_def)

lemma count_all_keys: "fst ` set (count_all vs) = fst ` set vs" "distinct (map fst (count_all vs))"
  by (induction vs rule: rev_induct) (auto simp: count_all_snoc dom_add_count distinct_add_count, simp_all add: count_all_def)

lemma count_all_tally: "map_of (count_all vs) k = (if k \<in> fst ` set vs then Some (tally vs k) else None)"
proof (induction vs rule: rev_induct)
  case (snoc v vs)
  have "tally vs k = 0" if "k \<notin> fst ` set vs"
    using that by (induction vs) (auto simp: tally_def)
  with snoc show ?case by (auto simp: count_all_snoc map_of_add_count tally_def)
qed (simp add: count_all_def)

lemma sort_key_same_set:
  assumes "distinct xs" "distinct ys" "set xs = set ys" "inj_on f (set xs)"
  shows "sort_key f xs = sort_key f ys"
proof -
  have "map f (sort_key f xs) = map f (sort_key f ys)"
    using assms by (intro sorted_distinct_set_unique) (simp_all add: distinct_map)
  with assms show ?thesis by (simp add: inj_on_map_eq_map)
qed

lemma ranked_count_all: "ranked votes = sort_key (\<lambda>(k, n). (- n, k)) (count_all votes)"
  unfolding ranked_def
proof (rule sort_key_same_set)
  show "distinct (map (\<lambda>k. (k, tally votes k)) (remdups (map fst votes)))"
    by (simp add: distinct_map inj_on_def)
  show "distinct (count_all votes)" using count_all_keys(2)[of votes] by (simp add: distinct_map)
  have "x \<in> set (count_all votes) \<longleftrightarrow> fst x \<in> fst ` set votes \<and> snd x = tally votes (fst x)" for x
  proof -
    have "x \<in> set (count_all votes) \<longleftrightarrow> map_of (count_all votes) (fst x) = Some (snd x)"
      using count_all_keys(2)[of votes] by simp
    then show ?thesis unfolding count_all_tally by auto
  qed
  then show "set (map (\<lambda>k. (k, tally votes k)) (remdups (map fst votes))) = set (count_all votes)"
  proof -
    assume c: "\<And>x. x \<in> set (count_all votes) \<longleftrightarrow> fst x \<in> fst ` set votes \<and> snd x = tally votes (fst x)"
    have m: "x \<in> set (map (\<lambda>k. (k, tally votes k)) ks) \<longleftrightarrow> fst x \<in> set ks \<and> snd x = tally votes (fst x)" for x ks
      by (cases x) auto
    show ?thesis by (intro set_eqI) (simp only: c m, simp)
  qed
qed (auto simp: inj_on_def)

lemma ranked_mem: "(k, n) \<in> set (ranked votes) \<longleftrightarrow> k \<in> fst ` set votes \<and> n = tally votes k"
  by (auto simp: ranked_def)

lemma ranked_sorted: "sorted (map (\<lambda>(k, n). (- n, k)) (ranked votes))"
  by (simp add: ranked_def)

lemma ranked_distinct: "distinct (map fst (ranked votes))"
  unfolding ranked_def by (auto simp: distinct_map inj_on_def)

text \<open>The winner has the most weight, and the least name among those with the most.\<close>

lemma top_ranked_Some:
  assumes "top_ranked votes = Some k"
  shows "k \<in> fst ` set votes"
    and "\<And>x. x \<in> fst ` set votes \<Longrightarrow> tally votes x < tally votes k \<or> (tally votes x = tally votes k \<and> k \<le> x)"
proof -
  from assms obtain n r where r: "ranked votes = (k, n) # r"
    by (auto simp: top_ranked_def split: list.splits)
  from ranked_mem[of k n votes] r show "k \<in> fst ` set votes" by simp
  fix x assume "x \<in> fst ` set votes"
  then have "(x, tally votes x) \<in> set (ranked votes)" by (simp add: ranked_mem)
  moreover have "n = tally votes k" using ranked_mem[of k n votes] r by simp
  ultimately show "tally votes x < tally votes k \<or> (tally votes x = tally votes k \<and> k \<le> x)"
    using ranked_sorted[of votes] r by (fastforce simp: less_eq_prod_def)
qed

lemma top_ranked_None: "top_ranked votes = None \<longleftrightarrow> votes = []"
proof -
  have "length (ranked votes) = length (remdups (map fst votes))" by (simp add: ranked_def)
  then have "ranked votes = [] \<longleftrightarrow> votes = []" by (metis length_0_conv map_is_Nil_conv remdups_eq_nil_iff)
  then show ?thesis by (auto simp: top_ranked_def split: list.splits)
qed

section \<open>Submodules\<close>

definition strip_suffix :: "string \<Rightarrow> string \<Rightarrow> string option" where
  "strip_suffix p s = map_option rev (strip_prefix (rev p) (rev s))"

definition submodule_name :: "string \<Rightarrow> string option" where
  "submodule_name raw =
     (let line = trim raw
      in case (case strip_prefix ''url = '' line of Some u \<Rightarrow> Some u | None \<Rightarrow> strip_prefix ''url='' line) of
           None \<Rightarrow> None
         | Some url \<Rightarrow>
             (let url = trim_end_char (CHR ''/'') (trim url);
                  name = last_segment (CHR ''/'') url;
                  name = (case strip_suffix ''.git'' name of Some n \<Rightarrow> n | None \<Rightarrow> name)
              in if name = [] then None else Some name))"

text \<open>The directories under the work root with the text of their \<open>.gitmodules\<close>, in the order
  \<open>read_dir\<close> gives them; a later entry replaces an earlier one.\<close>

definition submodule_repo_map_under :: "(string \<times> string option) list \<Rightarrow> string \<Rightarrow> string option" where
  "submodule_repo_map_under entries =
     foldl (\<lambda>m (folder_name, content).
       case content of
         None \<Rightarrow> m
       | Some c \<Rightarrow> foldl (\<lambda>m line. case submodule_name line of None \<Rightarrow> m | Some n \<Rightarrow> m(n := Some folder_name))
                    m (split_on (\<lambda>x. x = CHR 0x0A) c))
       (\<lambda>_. None) entries"

lemma submodule_repo_map_folder:
  "submodule_repo_map_under entries n = Some f \<Longrightarrow> \<exists>c. (f, Some c) \<in> set entries"
proof (induction entries rule: rev_induct)
  case (snoc e es)
  obtain folder content where e: "e = (folder, content)" by fastforce
  have lines: "foldl (\<lambda>m line. case submodule_name line of None \<Rightarrow> m | Some n \<Rightarrow> m(n := Some folder)) m ls n = Some f
      \<Longrightarrow> m n = Some f \<or> f = folder" for m ls
    by (induction ls arbitrary: m) (auto split: option.splits if_splits, (fastforce split: if_splits)+)
  show ?case
  proof (cases content)
    case None
    with snoc e show ?thesis by (auto simp: submodule_repo_map_under_def)
  next
    case (Some c)
    with snoc.prems e lines[of "submodule_repo_map_under es"]
    have "submodule_repo_map_under es n = Some f \<or> f = folder" by (simp add: submodule_repo_map_under_def)
    with snoc.IH e Some show ?thesis by auto
  qed
qed (simp add: submodule_repo_map_under_def)

section \<open>The folder a block bills under\<close>

text \<open>What the day's tables say of the blocks: the digest card of a compressed block, the events linked to
  a block (in the order of their start), and the submodules found on disk.\<close>

record block_view =
  vw_env :: env
  vw_cards :: "int \<Rightarrow> digest option"
  vw_events :: "int \<Rightarrow> clue_event list"
  vw_submodules :: "string \<Rightarrow> string option"

definition event_folder :: "block_view \<Rightarrow> clue_event \<Rightarrow> string option" where
  "event_folder v e =
     (case Option.bind (ce_path e) (work_folder_for_path (work_prefixes (vw_env v))) of
        Some f \<Rightarrow> Some f
      | None \<Rightarrow>
          (case ce_repo e of
             None \<Rightarrow> None
           | Some r \<Rightarrow>
               (let name = last_segment (CHR ''/'') r
                in case vw_submodules v name of
                     Some f \<Rightarrow> Some f
                   | None \<Rightarrow> if name = [] then None else Some name)))"

definition folder_votes :: "block_view \<Rightarrow> clue_event list \<Rightarrow> (string \<times> int) list" where
  "folder_votes v events =
     map (\<lambda>f. (f, 1)) (List.map_filter (event_folder v)
       (filter (\<lambda>e. \<not> is_lifecycle_row (ce_source e) (Some (ce_title e))) events))"

definition work_folder_for_block :: "block_view \<Rightarrow> int \<Rightarrow> string option" where
  "work_folder_for_block v block_id =
     (case vw_cards v block_id of
        Some c \<Rightarrow> dg_folder c
      | None \<Rightarrow> top_ranked (folder_votes v (vw_events v block_id)))"

section \<open>Titles and paths\<close>

definition cards_and_live_ids :: "block_view \<Rightarrow> int list \<Rightarrow> digest list \<times> int list" where
  "cards_and_live_ids v block_ids =
     (List.map_filter (vw_cards v) block_ids, filter (\<lambda>i. vw_cards v i = None) block_ids)"

definition add_title_weight :: "string \<Rightarrow> int \<Rightarrow> (string \<times> int) list" where
  "add_title_weight title weight = (let title = trim title in if title = [] then [] else [(title, weight)])"

definition card_titles :: "digest \<Rightarrow> (string \<times> int) list" where
  "card_titles c =
     concat (map (\<lambda>(i, title). add_title_weight title
         (if i < length (dg_title_counts c) then dg_title_counts c ! i else 1))
       (enumerate 0 (dg_titles c)))"

definition claude_source :: "string \<Rightarrow> bool" where
  "claude_source source = starts_with ''claude'' (nocase source)"

definition dominant_title_for_blocks :: "block_view \<Rightarrow> int list \<Rightarrow> string option" where
  "dominant_title_for_blocks v block_ids =
     (let (cards, live_ids) = cards_and_live_ids v block_ids;
          live_titles = map ce_title (filter (\<lambda>e. \<not> claude_source (ce_source e))
                          (concat (map (vw_events v) live_ids)))
      in top_ranked (concat (map card_titles cards)
           @ concat (map (\<lambda>t. add_title_weight t 1) live_titles)))"

definition MAX_PATHS :: nat where "MAX_PATHS = 4"

definition distinct_paths_for_blocks :: "block_view \<Rightarrow> int list \<Rightarrow> string list" where
  "distinct_paths_for_blocks v block_ids =
     (let (cards, live_ids) = cards_and_live_ids v block_ids
      in map fst (take MAX_PATHS (ranked
           (map (\<lambda>p. (p, 1)) (List.map_filter ce_path (concat (map (vw_events v) live_ids)))
            @ concat (map (\<lambda>c. zip (dg_paths c) (dg_path_counts c)) cards)))))"

text \<open>What the group of events says is never a word the owner did not see: the title of an event that is
  not an agent's, or a title kept on a card.\<close>

lemma add_title_weight_key: "(t, n) \<in> set (add_title_weight title weight) \<Longrightarrow> t = trim title \<and> t \<noteq> []"
  by (auto simp: add_title_weight_def Let_def split: if_splits)

lemma card_titles_key: "t \<in> fst ` set (card_titles c) \<Longrightarrow> t \<noteq> [] \<and> t \<in> trim ` set (dg_titles c)"
  by (auto simp: card_titles_def in_set_enumerate_eq dest!: add_title_weight_key)

lemma dominant_title_source:
  assumes "dominant_title_for_blocks v ids = Some t"
  shows "t \<noteq> []"
    and "(\<exists>i\<in>set ids. \<exists>c. vw_cards v i = Some c \<and> t \<in> trim ` set (dg_titles c)) \<or>
      (\<exists>i\<in>set ids. vw_cards v i = None \<and>
        (\<exists>e\<in>set (vw_events v i). \<not> claude_source (ce_source e) \<and> t = trim (ce_title e)))"
      (is ?from)
proof -
  from top_ranked_Some(1)[OF assms[unfolded dominant_title_for_blocks_def cards_and_live_ids_def prod.case Let_def]]
  obtain n where "(t, n) \<in> set (concat (map card_titles (List.map_filter (vw_cards v) ids))) \<or>
      (t, n) \<in> set (concat (map (\<lambda>t. add_title_weight t 1) (map ce_title (filter (\<lambda>e. \<not> claude_source (ce_source e))
        (concat (map (vw_events v) (filter (\<lambda>i. vw_cards v i = None) ids)))))))"
    unfolding set_append image_Un Un_iff by (metis (no_types, lifting) imageE prod.collapse)
  then have "t \<noteq> [] \<and> ?from"
  proof
    assume "(t, n) \<in> set (concat (map card_titles (List.map_filter (vw_cards v) ids)))"
    then obtain i c where "i \<in> set ids" "vw_cards v i = Some c" "t \<in> fst ` set (card_titles c)"
      by (force simp: set_map_filter_iff)
    with card_titles_key[of t c] show ?thesis by blast
  next
    assume "(t, n) \<in> set (concat (map (\<lambda>t. add_title_weight t 1) (map ce_title (filter (\<lambda>e. \<not> claude_source (ce_source e))
        (concat (map (vw_events v) (filter (\<lambda>i. vw_cards v i = None) ids)))))))"
    then obtain i e where "i \<in> set ids" "vw_cards v i = None" "e \<in> set (vw_events v i)"
        "\<not> claude_source (ce_source e)" "(t, n) \<in> set (add_title_weight (ce_title e) 1)"
      by auto
    with add_title_weight_key[of t n "ce_title e" 1] show ?thesis by blast
  qed
  then show "t \<noteq> []" and ?from by simp_all
qed

end
