(* ===== verification/Slices.thy ===== *)
theory Slices
  imports WorkFolder
begin

text \<open>
  From a block to its billing slices: \<open>tenant_shares.rs\<close> (\<open>load_shares\<close>, \<open>load_rows\<close>, \<open>parse_rows\<close>,
  \<open>save_shares\<close>, \<open>save_rows\<close>, \<open>clear_shares\<close>), \<open>tenant_split.rs\<close> (\<open>pinned_customer_for_block\<close>,
  \<open>summary_customer\<close>, \<open>tenant_slices_for_block\<close>) and \<open>billing_deild.rs\<close>. The JSON readers are
  parameters; a stored map of shares is read in name order.
\<close>

record share_entry =
  se_rows_json :: "string option"
  se_shares :: string

record json =
  read_rows :: "string \<Rightarrow> share_row list option"
  read_shares :: "string \<Rightarrow> (string \<times> rat) list option"
  show_rows :: "share_row list \<Rightarrow> string"
  show_shares :: "(string \<times> rat) list \<Rightarrow> string"

type_synonym share_table = "string \<times> string \<Rightarrow> share_entry option"

record billing_db =
  bd_view :: block_view
  bd_unicode :: unicode
  bd_clock :: clock
  bd_json :: json
  bd_registry :: registry
  bd_deildir :: "deild list"
  bd_pins :: "pin_row list"
  bd_day_events :: "string \<Rightarrow> infer_event list option"
  bd_roots :: "(string \<times> string) list"
  bd_tenants :: "string \<times> string \<Rightarrow> string option"
  bd_shares :: share_table
  bd_tickets :: "string \<Rightarrow> string option"
  bd_line_texts :: "string \<times> string \<times> string \<Rightarrow> (string \<times> string) option"

datatype billing_error = BadSharesJson | BadBlockDay | BadPinTime | ClampPanic

section \<open>Stored shares\<close>

definition parse_rows :: "json \<Rightarrow> string option \<Rightarrow> string \<Rightarrow> share_row list" where
  "parse_rows js rows_json shares_json =
     (case Option.bind rows_json (read_rows js) of
        Some rows \<Rightarrow> rows
      | None \<Rightarrow>
          (case read_shares js shares_json of
             Some shares \<Rightarrow> map (\<lambda>(c, f). \<lparr>sr_customer = c, sr_deild = None, sr_fraction = f\<rparr>) shares
           | None \<Rightarrow> []))"

definition load_rows :: "json \<Rightarrow> share_table \<Rightarrow> string \<times> string \<Rightarrow> share_row list option" where
  "load_rows js t k = map_option (\<lambda>e. parse_rows js (se_rows_json e) (se_shares e)) (t k)"

definition load_shares :: "json \<Rightarrow> share_table \<Rightarrow> string \<times> string \<Rightarrow> billing_error + (string \<times> rat) list option" where
  "load_shares js t k =
     (case t k of
        None \<Rightarrow> Inr None
      | Some e \<Rightarrow> map_sum id Some (ok_or BadSharesJson (read_shares js (se_shares e))))"

definition known_customer :: "registry \<Rightarrow> string \<Rightarrow> bool" where
  "known_customer reg name = list_ex (\<lambda>c. cu_name c = name) (rg_customers reg)"

definition save_rows :: "json \<Rightarrow> registry \<Rightarrow> string \<times> string \<Rightarrow> share_row list \<Rightarrow> share_table \<Rightarrow> share_error + share_table" where
  "save_rows js reg k rows t =
     and_then (validate_rows (known_customer reg) rows)
       (\<lambda>_. Inr (t(k \<mapsto> \<lparr>se_rows_json = Some (show_rows js rows), se_shares = ''{}''\<rparr>)))"

definition save_shares :: "json \<Rightarrow> registry \<Rightarrow> string \<times> string \<Rightarrow> (string \<times> rat) list \<Rightarrow> share_table \<Rightarrow> share_error + share_table" where
  "save_shares js reg k shares t =
     and_then (validate_rows (known_customer reg) (map (\<lambda>(c, f). \<lparr>sr_customer = c, sr_deild = None, sr_fraction = f\<rparr>) shares))
       (\<lambda>_. Inr (t(k \<mapsto> \<lparr>se_rows_json = (case t k of None \<Rightarrow> None | Some e \<Rightarrow> se_rows_json e),
                       se_shares = show_shares js shares\<rparr>)))"

definition clear_shares :: "string \<times> string \<Rightarrow> share_table \<Rightarrow> share_table" where
  "clear_shares k t = t(k := None)"

section \<open>The pinned customer of a block\<close>

fun pinned_votes ::
    "clock \<Rightarrow> session_pin list \<Rightarrow> (session_key \<times> (instant \<times> string option)) list \<Rightarrow> string \<Rightarrow> clue_event list \<Rightarrow> string list option" where
  "pinned_votes ck pins contexts folder [] = Some []"
| "pinned_votes ck pins contexts folder (e # es) =
     (case ce_session e of
        None \<Rightarrow> pinned_votes ck pins contexts folder es
      | Some sid \<Rightarrow>
          if is_lifecycle_row (ce_source e) (Some (ce_title e)) then pinned_votes ck pins contexts folder es
          else case from_rfc3339 ck (ce_started e) of
                 None \<Rightarrow> pinned_votes ck pins contexts folder es
               | Some tm \<Rightarrow>
                   (case map_of contexts (Some folder, sid) of
                      None \<Rightarrow> None
                    | Some (start, text_guess) \<Rightarrow>
                        (case resolve_event_customer pins sid tm start text_guess of
                           (Some c, True) \<Rightarrow> map_option ((#) c) (pinned_votes ck pins contexts folder es)
                         | _ \<Rightarrow> None)))"

definition pinned_customer_for_block :: "billing_db \<Rightarrow> block \<Rightarrow> string \<Rightarrow> billing_error + string option" where
  "pinned_customer_for_block db b folder =
     (case vw_cards (bd_view db) (bk_id b) of
        Some c \<Rightarrow> Inr (dg_pinned c)
      | None \<Rightarrow>
          (let events = vw_events (bd_view db) (bk_id b);
               session_ids = btree_keys (List.map_filter ce_session events)
           in if session_ids = [] then Inr None
              else and_then (ok_or BadPinTime (pins_for_sessions (bd_clock db) session_ids (bd_pins db)))
                (\<lambda>pins. if pins = [] then Inr None
                   else and_then (ok_or BadBlockDay (bd_day_events db (bk_day b)))
                     (\<lambda>day_events.
                        let contexts = session_contexts (vw_env (bd_view db)) (bd_unicode db) (bd_registry db) day_events
                        in Inr (case pinned_votes (bd_clock db) pins contexts folder events of
                                  None \<Rightarrow> None
                                | Some votes \<Rightarrow> (case btree_keys votes of [c] \<Rightarrow> Some c | _ \<Rightarrow> None))))))"

section \<open>Customer slices of a multi-tenant block\<close>

definition summary_customer :: "unicode \<Rightarrow> registry \<Rightarrow> string \<Rightarrow> string option" where
  "summary_customer uc reg told =
     customer_in_text uc \<lparr>rg_customers = filter (\<lambda>c. cu_name c \<noteq> HOUSE_CUSTOMER) (rg_customers reg), rg_folders = []\<rparr> told"

definition block_clues :: "billing_db \<Rightarrow> block \<Rightarrow> string \<Rightarrow> clue list" where
  "block_clues db b folder =
     clues_for_block (vw_env (bd_view db)) (bd_unicode db) (bd_clock db) (bd_registry db) (bd_roots db) (bd_tenants db)
       (vw_cards (bd_view db) (bk_id b)) (vw_events (bd_view db) (bk_id b)) folder"

definition whole_block :: "clock \<Rightarrow> block \<Rightarrow> string option \<Rightarrow> split_origin \<Rightarrow> customer_slice" where
  "whole_block ck b customer origin =
     \<lparr>cs_customer = customer, cs_intervals = [block_interval ck b], cs_origin = origin\<rparr>"

definition tenant_slices_for_block :: "billing_db \<Rightarrow> block \<Rightarrow> string \<Rightarrow> billing_error + customer_slice list option" where
  "tenant_slices_for_block db b folder =
     (let (start, e) = block_interval (bd_clock db) b
      in if \<not> list_ex (\<lambda>f. fm_folder f = folder \<and> fm_multi_tenant f) (rg_folders (bd_registry db)) then Inr None
         else and_then (load_shares (bd_json db) (bd_shares db) (bk_day b, bk_start b)) (\<lambda>stored.
           case stored of
             Some shares \<Rightarrow> map_sum id Some (ok_or ClampPanic (slices_from_shares start e shares))
           | None \<Rightarrow>
               and_then (pinned_customer_for_block db b folder) (\<lambda>pinned.
                 case pinned of
                   Some c \<Rightarrow> Inr (Some [whole_block (bd_clock db) b (Some c) Pinned])
                 | None \<Rightarrow>
                     (case split_block start e (block_clues db b folder) of
                        Some slices \<Rightarrow> Inr (Some slices)
                      | None \<Rightarrow> Inr (Some [whole_block (bd_clock db) b
                            (Option.bind (bk_desc b) (summary_customer (bd_unicode db) (bd_registry db))) Fallback])))))"

section \<open>Billing slices\<close>

definition ticket_summary :: "billing_db \<Rightarrow> string option \<Rightarrow> string option" where
  "ticket_summary db ticket =
     (case ticket of None \<Rightarrow> None | Some key \<Rightarrow> if key = [] then None else bd_tickets db key)"

definition block_haystack :: "billing_db \<Rightarrow> block \<Rightarrow> string" where
  "block_haystack db b =
     (case ticket_summary db (bk_jira b) of None \<Rightarrow> [] | Some summary \<Rightarrow> summary @ [CHR 0x0A])
     @ (case bk_desc b of None \<Rightarrow> [] | Some d \<Rightarrow> d)"

definition resolve_block :: "billing_db \<Rightarrow> block \<Rightarrow> string \<Rightarrow> resolved" where
  "resolve_block db b folder = resolve (bd_unicode db) (bd_registry db) folder (block_haystack db b)"

definition resolve_deild ::
    "unicode \<Rightarrow> string option \<Rightarrow> string \<Rightarrow> deild list \<Rightarrow> resolved \<Rightarrow> string option \<times> deild_origin" where
  "resolve_deild uc customer haystack deildir res =
     (case customer of
        None \<Rightarrow> (None, BlankDeild)
      | Some c \<Rightarrow>
          (case deild_in_text uc deildir c haystack of
             Some name \<Rightarrow> (Some name, Keyword)
           | None \<Rightarrow>
               if Some c = rs_customer res
               then (case rs_verkefni res of
                       Some verkefni \<Rightarrow> (Some verkefni, FolderDefault)
                     | None \<Rightarrow> (None, BlankDeild))
               else (None, BlankDeild)))"

definition to_slice :: "billing_db \<Rightarrow> block \<Rightarrow> string \<Rightarrow> string option \<Rightarrow> seconds_range list \<Rightarrow> split_origin \<Rightarrow> billing_slice" where
  "to_slice db b folder customer intervals origin =
     (let (dl, dorigin) = resolve_deild (bd_unicode db) customer (block_haystack db b) (bd_deildir db) (resolve_block db b folder)
      in \<lparr>bs_customer = customer, bs_deild = dl, bs_intervals = intervals, bs_origin = origin, bs_deild_origin = dorigin\<rparr>)"

definition or_else :: "'a option \<Rightarrow> 'a option \<Rightarrow> 'a option" where
  "or_else a b = (case a of Some x \<Rightarrow> Some x | None \<Rightarrow> b)"

definition resolve_block_slices :: "billing_db \<Rightarrow> block \<Rightarrow> string \<Rightarrow> billing_error + billing_slice list" where
  "resolve_block_slices db b folder =
     (let (start, e) = block_interval (bd_clock db) b;
          res = resolve_block db b folder;
          unsaved = and_then (tenant_slices_for_block db b folder) (\<lambda>slices.
            Inr (case slices of
                   Some ss \<Rightarrow> map (\<lambda>s. to_slice db b folder (or_else (cs_customer s) (rs_customer res)) (cs_intervals s) (cs_origin s)) ss
                 | None \<Rightarrow> [to_slice db b folder (rs_customer res) [(start, e)] Fallback]))
      in case load_rows (bd_json db) (bd_shares db) (bk_day b, bk_start b) of
           Some rows \<Rightarrow> if rows \<noteq> [] then ok_or ClampPanic (slices_from_rows start e rows) else unsaved
         | None \<Rightarrow> unsaved)"

section \<open>A saved split wins\<close>

lemma load_after_save_rows:
  assumes "save_rows js reg k rows t = Inr t'" "read_rows js (show_rows js rows) = Some rows"
  shows "load_rows js t' k = Some rows" and "j \<noteq> k \<Longrightarrow> load_rows js t' j = load_rows js t j"
  using assms by (auto simp: save_rows_def and_then_Inr load_rows_def parse_rows_def)

lemma resolve_saved:
  assumes "load_rows (bd_json db) (bd_shares db) (bk_day b, bk_start b) = Some rows" "rows \<noteq> []"
    "block_interval (bd_clock db) b = (s, e)" "s \<le> e"
  obtains slices where "resolve_block_slices db b folder = Inr slices"
    "map bs_customer slices = map (Some \<circ> sr_customer) (sort_key (\<lambda>r. (sr_customer r, sr_deild r)) rows)"
    "partition_range s e (concat (map bs_intervals slices))"
proof -
  from slices_from_rows_partition[OF assms(4,2)] obtain slices where
    "slices_from_rows s e rows = Some slices"
    "map bs_customer slices = map (Some \<circ> sr_customer) (sort_key (\<lambda>r. (sr_customer r, sr_deild r)) rows)"
    "partition_range s e (concat (map bs_intervals slices))" by blast
  with that assms(1-3) show thesis by (simp add: resolve_block_slices_def)
qed

lemma block_interval_forward: "block_interval ck b = (s, e) \<Longrightarrow> s \<le> e"
  by (auto simp: block_interval_def interval_at_def Let_def)

section \<open>Every second of the block is billed once\<close>

definition fills :: "int \<Rightarrow> int \<Rightarrow> seconds_range list \<Rightarrow> bool" where
  "fills s e ivs = ((\<Union>r\<in>set ivs. range_set r) = {s..<e} \<and> range_sum ivs = e - s)"

lemma fills_partition: "partition_range s e ivs \<Longrightarrow> fills s e ivs"
  by (simp add: fills_def partition_cover partition_sum)

lemma fills_single [simp]: "fills s e [(s, e)]"
  by (simp add: fills_def range_set_def range_sum_def)

lemma range_sum_concat: "range_sum (concat xss) = sum_list (map range_sum xss)"
  by (induction xss) (simp_all add: range_sum_def)

lemma fills_split:
  assumes "in_block s e clues" "split_block s e clues = Some slices"
  shows "fills s e (concat (map cs_intervals slices))"
proof -
  have "(\<Union>r\<in>set (concat (map cs_intervals slices)). range_set r) = (\<Union>sl\<in>set slices. slice_set sl)"
    by (auto simp: slice_set_def)
  moreover have "slice_seconds = range_sum \<circ> cs_intervals"
    by (rule ext) (simp add: slice_seconds_def range_sum_def)
  then have "range_sum (concat (map cs_intervals slices)) = sum_list (map slice_seconds slices)"
    by (simp add: range_sum_concat)
  ultimately show ?thesis using split_block_cover[OF assms] split_block_sum[OF assms] by (simp add: fills_def)
qed

lemma fills_shares:
  assumes "s \<le> e" "shares \<noteq> []" "slices_from_shares s e shares = Some slices"
  shows "fills s e (concat (map cs_intervals slices))"
proof -
  from share_bounds_partition[OF assms(1), of "map snd shares" s 0] assms(2) obtain bs where
    bs: "share_bounds s e s 0 (map snd shares) = Some bs" "length bs = length shares" "partition_range s e bs" by auto
  let ?mk = "\<lambda>c r. \<lparr>cs_customer = Some c, cs_intervals = [r], cs_origin = ManualSplit\<rparr>"
  have "length xs = length ys \<Longrightarrow> concat (map cs_intervals (map2 ?mk xs ys)) = ys" for xs ys
    by (induction xs ys rule: list_induct2) simp_all
  then have "concat (map cs_intervals (map2 ?mk (map fst shares) bs)) = bs" using bs(2) by (simp del: map_map)
  moreover have "slices = map2 ?mk (map fst shares) bs" using assms(3) bs(1) by (simp add: slices_from_shares_def)
  ultimately show ?thesis using bs(3) by (simp only: fills_partition)
qed

text \<open>The clues of a block lie in it, and a stored map of shares names someone.\<close>

definition sound_split :: "billing_db \<Rightarrow> block \<Rightarrow> string \<Rightarrow> bool" where
  "sound_split db b folder =
     (let (s, e) = block_interval (bd_clock db) b; clues = block_clues db b folder
      in (clues = [] \<or> in_block s e clues) \<and>
         (case load_shares (bd_json db) (bd_shares db) (bk_day b, bk_start b) of
            Inr (Some shares) \<Rightarrow> shares \<noteq> []
          | _ \<Rightarrow> True))"

lemma tenant_slices_fill:
  assumes "tenant_slices_for_block db b folder = Inr (Some ss)" "sound_split db b folder"
    "block_interval (bd_clock db) b = (s, e)"
  shows "fills s e (concat (map cs_intervals ss))"
proof -
  have le: "s \<le> e" using assms(3) by (rule block_interval_forward)
  from assms(1,3) obtain stored where
    l: "load_shares (bd_json db) (bd_shares db) (bk_day b, bk_start b) = Inr stored"
    by (auto simp: tenant_slices_for_block_def and_then_Inr split: if_splits)
  show ?thesis
  proof (cases stored)
    case (Some shares)
    with l assms have "shares \<noteq> []" "slices_from_shares s e shares = Some ss"
      by (auto simp: tenant_slices_for_block_def and_then_Inr sound_split_def ok_or_def split: if_splits option.splits)
    with le show ?thesis by (intro fills_shares)
  next
    case None
    with l assms(1,3) obtain pinned where p: "pinned_customer_for_block db b folder = Inr pinned"
      by (auto simp: tenant_slices_for_block_def and_then_Inr split: if_splits)
    show ?thesis
    proof (cases pinned)
      case (Some c)
      with None l p assms(1,3) show ?thesis
        by (auto simp: tenant_slices_for_block_def and_then_Inr whole_block_def split: if_splits)
    next
      case None
      with \<open>stored = None\<close> l p assms(1,3)
      have "(case split_block s e (block_clues db b folder) of Some slices \<Rightarrow> ss = slices
          | None \<Rightarrow> concat (map cs_intervals ss) = [(s, e)])"
        by (auto simp: tenant_slices_for_block_def and_then_Inr whole_block_def split: if_splits option.splits)
      moreover have "split_block s e [] = None" by (simp add: split_block_def survivors_def)
      moreover have "block_clues db b folder = [] \<or> in_block s e (block_clues db b folder)"
        using assms(2,3) by (simp add: sound_split_def Let_def)
      ultimately show ?thesis using fills_split[of s e "block_clues db b folder" ss]
        by (cases "split_block s e (block_clues db b folder)") auto
    qed
  qed
qed

lemma to_slice_simps [simp]:
  "bs_customer (to_slice db b folder c ivs r) = c" "bs_intervals (to_slice db b folder c ivs r) = ivs"
  "bs_origin (to_slice db b folder c ivs r) = r"
  by (simp_all add: to_slice_def split: prod.splits)

lemma concat_to_slice: "concat (map bs_intervals (map (\<lambda>s. to_slice db b folder (f s) (cs_intervals s) (g s)) ss))
    = concat (map cs_intervals ss)"
  by (induction ss) simp_all

lemma no_rows: "\<not> (\<exists>rows. x = Some rows \<and> rows \<noteq> []) \<Longrightarrow> x \<in> {None, Some []}"
  by (cases x) simp_all

lemma resolve_unsaved:
  assumes "resolve_block_slices db b folder = Inr slices"
    "load_rows (bd_json db) (bd_shares db) (bk_day b, bk_start b) \<in> {None, Some []}"
    "block_interval (bd_clock db) b = (s, e)"
  obtains t where "tenant_slices_for_block db b folder = Inr t"
    "slices = (case t of
        Some ss \<Rightarrow> map (\<lambda>s. to_slice db b folder (or_else (cs_customer s) (rs_customer (resolve_block db b folder)))
                      (cs_intervals s) (cs_origin s)) ss
      | None \<Rightarrow> [to_slice db b folder (rs_customer (resolve_block db b folder)) [(s, e)] Fallback])"
proof -
  from assms have "and_then (tenant_slices_for_block db b folder) (\<lambda>slices.
            Inr (case slices of
                   Some ss \<Rightarrow> map (\<lambda>x. to_slice db b folder (or_else (cs_customer x) (rs_customer (resolve_block db b folder)))
                      (cs_intervals x) (cs_origin x)) ss
                 | None \<Rightarrow> [to_slice db b folder (rs_customer (resolve_block db b folder)) [(s, e)] Fallback])) = Inr slices"
    unfolding resolve_block_slices_def assms(3) prod.case Let_def by (elim insertE) simp_all
  with that show thesis unfolding and_then_Inr by blast
qed

lemma resolve_slices_fill:
  assumes "resolve_block_slices db b folder = Inr slices" "sound_split db b folder"
    "block_interval (bd_clock db) b = (s, e)"
  shows "fills s e (concat (map bs_intervals slices))"
proof (cases "\<exists>rows. load_rows (bd_json db) (bd_shares db) (bk_day b, bk_start b) = Some rows \<and> rows \<noteq> []")
  case True
  then obtain rows where "load_rows (bd_json db) (bd_shares db) (bk_day b, bk_start b) = Some rows" "rows \<noteq> []" by blast
  from resolve_saved[OF this assms(3) block_interval_forward[OF assms(3)], of folder] obtain saved where
    "resolve_block_slices db b folder = Inr saved" "partition_range s e (concat (map bs_intervals saved))" by blast
  with assms(1) show ?thesis by (simp add: fills_partition)
next
  case False
  then have "load_rows (bd_json db) (bd_shares db) (bk_day b, bk_start b) \<in> {None, Some []}"
    by (rule no_rows)
  from resolve_unsaved[OF assms(1) this assms(3)] obtain t where t: "tenant_slices_for_block db b folder = Inr t"
    and sl: "slices = (case t of
        Some ss \<Rightarrow> map (\<lambda>s. to_slice db b folder (or_else (cs_customer s) (rs_customer (resolve_block db b folder)))
                      (cs_intervals s) (cs_origin s)) ss
      | None \<Rightarrow> [to_slice db b folder (rs_customer (resolve_block db b folder)) [(s, e)] Fallback])" by blast
  show ?thesis
  proof (cases t)
    case None
    with sl show ?thesis by simp
  next
    case (Some ss)
    with sl tenant_slices_fill[OF _ assms(2,3)] t show ?thesis by (simp only: option.case concat_to_slice)
  qed
qed

section \<open>Nothing on an invoice is invented\<close>

text \<open>A deild comes from a saved row, from a registered deild of the same customer whose keyword the text has,
  or from the pin of the folder when the customer is the pin's own.\<close>

definition known_deild :: "billing_db \<Rightarrow> block \<Rightarrow> string \<Rightarrow> billing_slice \<Rightarrow> bool" where
  "known_deild db b folder s =
     (case bs_deild s of
        None \<Rightarrow> True
      | Some name \<Rightarrow>
          (case bs_deild_origin s of
             ManualDeild \<Rightarrow>
               (\<exists>rows. load_rows (bd_json db) (bd_shares db) (bk_day b, bk_start b) = Some rows \<and>
                  list_ex (\<lambda>r. Some (sr_customer r) = bs_customer s \<and> sr_deild r = Some name) rows)
           | Keyword \<Rightarrow>
               list_ex (\<lambda>d. de_name d = name \<and> Some (de_customer d) = bs_customer s \<and>
                 list_ex (alias_matches (bd_unicode db) (block_haystack db b)) (de_keywords d)) (bd_deildir db)
           | FolderDefault \<Rightarrow>
               bs_customer s = rs_customer (resolve_block db b folder) \<and>
               Option.bind (folder_entry (bd_registry db) folder) fm_verkefni = Some name
           | BlankDeild \<Rightarrow> False))"

lemma rs_verkefni_resolve: "rs_verkefni (resolve uc reg folder t) = Option.bind (folder_entry reg folder) fm_verkefni"
  by (simp add: resolve_def Let_def)

lemma to_slice_known: "known_deild db b folder (to_slice db b folder customer ivs origin)"
proof (cases customer)
  case None
  then show ?thesis by (simp add: known_deild_def to_slice_def resolve_deild_def)
next
  case (Some c)
  show ?thesis
  proof (cases "deild_in_text (bd_unicode db) (bd_deildir db) c (block_haystack db b)")
    case (Some name)
    then have "name \<in> de_name ` {d\<in>set (bd_deildir db). de_customer d = c \<and>
        list_ex (alias_matches (bd_unicode db) (block_haystack db b)) (de_keywords d)}"
      unfolding deild_in_text_iff by simp
    with Some \<open>customer = Some c\<close> show ?thesis
      by (auto simp: known_deild_def to_slice_def resolve_deild_def list_ex_iff)
  next
    case None
    with Some show ?thesis
      by (auto simp: known_deild_def to_slice_def resolve_deild_def resolve_block_def rs_verkefni_resolve split: option.splits)
  qed
qed

lemma rows_known:
  assumes "slices_from_rows s e rows = Some slices" "sl \<in> set slices"
  shows "bs_deild_origin sl = ManualDeild \<and> (\<exists>r\<in>set rows. Some (sr_customer r) = bs_customer sl \<and> sr_deild r = bs_deild sl)"
proof -
  let ?o = "sort_key (\<lambda>r. (sr_customer r, sr_deild r)) rows"
  from assms(1) obtain bs where "slices = map2 (\<lambda>row r. \<lparr>bs_customer = Some (sr_customer row), bs_deild = sr_deild row,
      bs_intervals = [r], bs_origin = ManualSplit, bs_deild_origin = ManualDeild\<rparr>) ?o bs"
    by (auto simp: slices_from_rows_def Let_def)
  with assms(2) obtain row r where z: "(row, r) \<in> set (zip ?o bs)"
    "sl = \<lparr>bs_customer = Some (sr_customer row), bs_deild = sr_deild row,
      bs_intervals = [r], bs_origin = ManualSplit, bs_deild_origin = ManualDeild\<rparr>" by auto
  from set_zip_leftD[OF z(1)] z(2) show ?thesis by (intro conjI bexI[of _ row]) simp_all
qed

lemma slices_known:
  assumes "resolve_block_slices db b folder = Inr slices"
  shows "list_all (known_deild db b folder) slices"
proof -
  obtain s e where i: "block_interval (bd_clock db) b = (s, e)" by fastforce
  show ?thesis
  proof (cases "\<exists>rows. load_rows (bd_json db) (bd_shares db) (bk_day b, bk_start b) = Some rows \<and> rows \<noteq> []")
    case True
    then obtain rows where r: "load_rows (bd_json db) (bd_shares db) (bk_day b, bk_start b) = Some rows" "rows \<noteq> []" by blast
    with assms i have "slices_from_rows s e rows = Some slices" by (simp add: resolve_block_slices_def)
    note known = rows_known[OF this]
    have "known_deild db b folder sl" if "sl \<in> set slices" for sl
    proof (cases "bs_deild sl")
      case (Some name)
      from known[OF that] obtain row where "bs_deild_origin sl = ManualDeild" "row \<in> set rows"
        "Some (sr_customer row) = bs_customer sl" "sr_deild row = bs_deild sl" by blast
      then have "list_ex (\<lambda>r. Some (sr_customer r) = bs_customer sl \<and> sr_deild r = Some name) rows"
        using Some by (auto simp: list_ex_iff)
      with r(1) have "\<exists>rows. load_rows (bd_json db) (bd_shares db) (bk_day b, bk_start b) = Some rows \<and>
          list_ex (\<lambda>r. Some (sr_customer r) = bs_customer sl \<and> sr_deild r = Some name) rows" by blast
      then show ?thesis unfolding known_deild_def Some \<open>bs_deild_origin sl = ManualDeild\<close> by simp
    qed (simp add: known_deild_def)
    then show ?thesis by (simp add: list_all_iff)
  next
    case False
    then have "load_rows (bd_json db) (bd_shares db) (bk_day b, bk_start b) \<in> {None, Some []}"
      by (rule no_rows)
    then obtain t where "tenant_slices_for_block db b folder = Inr t"
      "slices = (case t of
        Some ss \<Rightarrow> map (\<lambda>s. to_slice db b folder (or_else (cs_customer s) (rs_customer (resolve_block db b folder)))
                      (cs_intervals s) (cs_origin s)) ss
      | None \<Rightarrow> [to_slice db b folder (rs_customer (resolve_block db b folder)) [(s, e)] Fallback])"
      by (rule resolve_unsaved[OF assms _ i])
    then have "\<exists>c ivs origin. sl = to_slice db b folder c ivs origin" if "sl \<in> set slices" for sl
      using that by (cases t) auto
    then show ?thesis unfolding list_all_iff using to_slice_known[of db b folder] by metis
  qed
qed

end
