(* ===== verification/BillingDay.thy ===== *)
theory BillingDay
  imports Slices "HOL-Library.Multiset"
begin

text \<open>
  A day's billing lines (\<open>billing.rs\<close>, \<open>rows_for_day\<close>): the slices of every billable block grouped into
  lines, the text of each line, the order of the lines, and the renderings \<open>render_csv\<close> and \<open>render_text\<close>.
\<close>

section \<open>Groups\<close>

text \<open>Customer, whether the line has a deild, the deild or else the folder, and whether it is billable.\<close>

type_synonym line_key = "string \<times> bool \<times> string \<times> bool"

record group_acc =
  gp_folder :: string
  gp_customer :: "string option"
  gp_verkefni :: "string option"
  gp_ticket :: "string option"
  gp_mixed :: bool
  gp_billable :: bool
  gp_intervals :: "seconds_range list"
  gp_descs :: "string list"
  gp_ids :: "int list"
  gp_starts :: "string list"
  gp_ends :: "string list"

definition some_nonempty :: "string option \<Rightarrow> string option" where
  "some_nonempty v = (case v of None \<Rightarrow> None | Some s \<Rightarrow> if s = [] then None else Some s)"

definition drop_blank_deild :: "billing_slice \<Rightarrow> billing_slice" where
  "drop_blank_deild s =
     s\<lparr>bs_deild := (case bs_deild s of None \<Rightarrow> None | Some d \<Rightarrow> if trim d = [] then None else Some d)\<rparr>"

definition line_key :: "string \<Rightarrow> bool \<Rightarrow> billing_slice \<Rightarrow> line_key" where
  "line_key folder billable s =
     (let customer = (case bs_customer s of None \<Rightarrow> [] | Some c \<Rightarrow> c)
      in case bs_deild s of
           Some d \<Rightarrow> (customer, True, d, billable)
         | None \<Rightarrow> (customer, False, folder, billable))"

definition new_group :: "string \<Rightarrow> string option \<Rightarrow> bool \<Rightarrow> billing_slice \<Rightarrow> group_acc" where
  "new_group folder ticket billable s =
     \<lparr>gp_folder = folder, gp_customer = bs_customer s, gp_verkefni = bs_deild s, gp_ticket = ticket,
      gp_mixed = False, gp_billable = billable, gp_intervals = [], gp_descs = [], gp_ids = [],
      gp_starts = [], gp_ends = []\<rparr>"

fun with_group :: "'k \<Rightarrow> 'g \<Rightarrow> ('g \<Rightarrow> 'g) \<Rightarrow> ('k \<times> 'g) list \<Rightarrow> ('k \<times> 'g) list" where
  "with_group k new f [] = [(k, f new)]"
| "with_group k new f ((x, g) # gs) = (if x = k then (x, f g) # gs else (x, g) # with_group k new f gs)"

definition add_description :: "string option \<Rightarrow> string list \<Rightarrow> string list" where
  "add_description desc descs =
     (case some_nonempty (map_option trim desc) of
        None \<Rightarrow> descs
      | Some d \<Rightarrow> if d \<in> set descs then descs else descs @ [d])"

definition into_group :: "block \<Rightarrow> string option \<Rightarrow> billing_slice \<Rightarrow> group_acc \<Rightarrow> group_acc" where
  "into_group b ticket s acc =
     (let acc = (if gp_ticket acc \<noteq> ticket then acc\<lparr>gp_mixed := True\<rparr> else acc);
          acc = acc\<lparr>gp_intervals := gp_intervals acc @ bs_intervals s\<rparr>
      in if gp_ids acc \<noteq> [] \<and> List.last (gp_ids acc) = bk_id b then acc
         else acc\<lparr>gp_ids := gp_ids acc @ [bk_id b], gp_starts := gp_starts acc @ [bk_start b],
                  gp_ends := gp_ends acc @ [bk_end b], gp_descs := add_description (bk_desc b) (gp_descs acc)\<rparr>)"

type_synonym groups = "(line_key \<times> group_acc) list"

definition add_slice :: "block \<Rightarrow> string \<Rightarrow> string option \<Rightarrow> bool \<Rightarrow> groups \<Rightarrow> billing_slice \<Rightarrow> groups" where
  "add_slice b folder ticket billable groups slice =
     (let s = drop_blank_deild slice
      in with_group (line_key folder billable s) (new_group folder ticket billable s) (into_group b ticket s) groups)"

definition block_folder :: "billing_db \<Rightarrow> block \<Rightarrow> string" where
  "block_folder db b = or_blank (work_folder_for_block (bd_view db) (bk_id b))"

fun group_blocks :: "billing_db \<Rightarrow> groups \<Rightarrow> block list \<Rightarrow> billing_error + groups" where
  "group_blocks db groups [] = Inr groups"
| "group_blocks db groups (b # bs) =
     (if bk_personal b then group_blocks db groups bs
      else (let folder = block_folder db b;
                ticket = some_nonempty (bk_jira b)
            in and_then (resolve_block_slices db b folder) (\<lambda>slices.
                 group_blocks db
                   (foldl (add_slice b folder ticket (rs_billable (resolve_block db b folder))) groups slices) bs)))"

section \<open>Lines\<close>

record billing_row =
  bw_day :: string
  bw_folder :: string
  bw_customer :: "string option"
  bw_verkefni :: "string option"
  bw_ticket :: "string option"
  bw_seconds :: int
  bw_hours :: rat
  bw_billable :: bool
  bw_text :: string
  bw_needs_description :: bool
  bw_block_count :: int
  bw_started :: string
  bw_ended :: string
  bw_paths :: "string list"
  bw_ids :: "int list"
  bw_text_origin :: "bool option"

definition needs_input :: "billing_row \<Rightarrow> bool" where
  "needs_input r = (bw_customer r = None \<or> bw_verkefni r = None)"

definition fallback_invoice_text :: "billing_db \<Rightarrow> group_acc \<Rightarrow> string" where
  "fallback_invoice_text db acc =
     (case dominant_title_for_blocks (bd_view db) (gp_ids acc) of
        Some title \<Rightarrow> title
      | None \<Rightarrow> if gp_folder acc = BLANK then ''Unspecified work'' else ''Work in '' @ gp_folder acc)"

text \<open>\<open>LineTextOrigin\<close>: whether the stored text was written by hand.\<close>

definition stored_line_text :: "billing_db \<Rightarrow> string \<Rightarrow> group_acc \<Rightarrow> (string \<times> bool) option" where
  "stored_line_text db day acc =
     map_option (\<lambda>(t, origin). (t, origin = ''manual''))
       (bd_line_texts db (day, gp_folder acc, case gp_customer acc of None \<Rightarrow> [] | Some c \<Rightarrow> c))"

definition least_text :: "string list \<Rightarrow> string" where
  "least_text xs = (if xs = [] then [] else Min (set xs))"

definition greatest_text :: "string list \<Rightarrow> string" where
  "greatest_text xs = (if xs = [] then [] else Max (set xs))"

definition billing_row :: "billing_db \<Rightarrow> string \<Rightarrow> group_acc \<Rightarrow> billing_row" where
  "billing_row db day acc =
     (let bare = (gp_descs acc = []);
          invoice = (if bare then fallback_invoice_text db acc else join_descriptions (gp_descs acc));
          (told, needs, origin) = (case stored_line_text db day acc of
              Some (t, manual) \<Rightarrow> (t, False, Some manual)
            | None \<Rightarrow> (invoice, bare, None));
          secs = union_seconds (gp_intervals acc)
      in \<lparr>bw_day = day, bw_folder = gp_folder acc, bw_customer = gp_customer acc, bw_verkefni = gp_verkefni acc,
          bw_ticket = (if gp_mixed acc then None else gp_ticket acc), bw_seconds = secs,
          bw_hours = f64_div (f64_of_int (round_to_half_hour secs)) 3600, bw_billable = gp_billable acc,
          bw_text = told, bw_needs_description = needs, bw_block_count = int (length (gp_ids acc)),
          bw_started = least_text (gp_starts acc), bw_ended = greatest_text (gp_ends acc),
          bw_paths = distinct_paths_for_blocks (bd_view db) (gp_ids acc), bw_ids = gp_ids acc,
          bw_text_origin = origin\<rparr>)"

definition row_order :: "billing_row \<Rightarrow> bool \<times> string option \<times> int" where
  "row_order r = (\<not> needs_input r, bw_customer r, - bw_seconds r)"

definition rows_for_day :: "billing_db \<Rightarrow> string \<Rightarrow> block list \<Rightarrow> billing_error + billing_row list" where
  "rows_for_day db day blocks =
     and_then (group_blocks db [] blocks) (\<lambda>groups.
       Inr (sort_key row_order
         (filter (\<lambda>r. 0 < round_to_half_hour (bw_seconds r)) (map (billing_row db day \<circ> snd) groups))))"

section \<open>Renderings\<close>

text \<open>The date as \<open>dd.mm.yyyy\<close> and the local time as \<open>HH:MM\<close>, for texts \<open>chrono\<close> can parse.\<close>

record display =
  date_dmy :: "string \<Rightarrow> string option"
  time_hm :: "string \<Rightarrow> string option"

definition FILL_IN :: string where "FILL_IN = ''fill in''"

definition date_display :: "display \<Rightarrow> billing_row \<Rightarrow> string" where
  "date_display ds r = (case date_dmy ds (bw_day r) of Some d \<Rightarrow> d | None \<Rightarrow> bw_day r)"

definition time_or_fill_in :: "display \<Rightarrow> string \<Rightarrow> string" where
  "time_or_fill_in ds t = (if t = [] then FILL_IN else case time_hm ds t of Some s \<Rightarrow> s | None \<Rightarrow> t)"

definition hours_display :: "billing_row \<Rightarrow> string" where
  "hours_display r = format_hours (bw_seconds r)"

definition pad :: "string \<Rightarrow> nat \<Rightarrow> string" where
  "pad s w = s @ replicate (w - char_count s) (CHR '' '')"

definition EN_DASH :: string where "EN_DASH = [CHR 0xE2, CHR 0x80, CHR 0x93]"

definition col_width :: "(billing_row \<Rightarrow> string) \<Rightarrow> billing_row list \<Rightarrow> nat" where
  "col_width f rows = foldr max (map (char_count \<circ> f) rows) 0"

definition text_line :: "display \<Rightarrow> nat \<Rightarrow> nat \<Rightarrow> nat \<Rightarrow> billing_row \<Rightarrow> string" where
  "text_line ds cw vw hw r =
     date_display ds r @ ''  '' @ time_or_fill_in ds (bw_started r) @ EN_DASH @ time_or_fill_in ds (bw_ended r)
     @ ''  '' @ pad (or_blank (bw_customer r)) cw @ ''  '' @ pad (or_blank (bw_verkefni r)) vw
     @ ''  '' @ pad (hours_display r) hw @ '' hrs  '' @ reikningshaefi (bw_billable r) @ ''  '' @ bw_text r"

definition render_text :: "display \<Rightarrow> billing_row list \<Rightarrow> string" where
  "render_text ds rows =
     (let cw = col_width (\<lambda>r. or_blank (bw_customer r)) rows;
          vw = col_width (\<lambda>r. or_blank (bw_verkefni r)) rows;
          hw = col_width hours_display rows
      in join [CHR 0x0A] (map (text_line ds cw vw hw) rows))"

definition csv_header :: "string list" where
  "csv_header = [''dagsetning'', ''vidskiptamadur'', ''verkefni'', ''tegund_skraningar'', ''taxti'', ''timar'',
     ''reikningshaefi'', ''texti_a_reikning'']"

definition csv_values :: "display \<Rightarrow> billing_row \<Rightarrow> string list" where
  "csv_values ds r =
     [csv_guard (date_display ds r), csv_guard (case bw_customer r of None \<Rightarrow> [] | Some c \<Rightarrow> c),
      csv_guard (case bw_verkefni r of None \<Rightarrow> [] | Some v \<Rightarrow> v), csv_guard TEGUND_SKRANINGAR, csv_guard TAXTI,
      hours_display r, csv_guard (reikningshaefi (bw_billable r)), csv_guard (bw_text r)]"

definition render_csv :: "display \<Rightarrow> billing_row list \<Rightarrow> string" where
  "render_csv ds rows =
     join [CHR 0x0A] (join '','' csv_header # map (\<lambda>r. join '','' (map csv_quote (csv_values ds r))) rows)"

section \<open>Grouping loses and doubles nothing\<close>

lemma keys_with_group: "fst ` set (with_group k new f gs) = insert k (fst ` set gs)"
  by (induction k new f gs rule: with_group.induct) auto

lemma distinct_with_group: "distinct (map fst gs) \<Longrightarrow> distinct (map fst (with_group k new f gs))"
proof (induction k new f gs rule: with_group.induct)
  case (2 k new f x g gs)
  have "set (map fst (with_group k new f gs)) = insert k (set (map fst gs))" by (simp add: keys_with_group)
  with 2 show ?case by auto
qed simp

lemma with_group_all:
  assumes "\<forall>p\<in>set gs. P p" "\<And>g. P (k, g) \<Longrightarrow> P (k, f g)" "P (k, new)"
  shows "\<forall>p\<in>set (with_group k new f gs). P p"
  using assms by (induction k new f gs rule: with_group.induct) auto

definition group_intervals :: "groups \<Rightarrow> seconds_range list" where
  "group_intervals groups = concat (map (gp_intervals \<circ> snd) groups)"

lemma intervals_with_group:
  assumes "\<And>g. gp_intervals (f g) = gp_intervals g @ ivs" "gp_intervals new = []"
  shows "mset (group_intervals (with_group k new f gs)) = mset (group_intervals gs) + mset ivs"
  using assms by (induction k new f gs rule: with_group.induct) (auto simp: group_intervals_def)

lemma into_group_intervals [simp]: "gp_intervals (into_group b ticket s g) = gp_intervals g @ bs_intervals s"
  by (simp add: into_group_def Let_def)

lemma new_group_simps [simp]:
  "gp_intervals (new_group folder ticket billable s) = []" "gp_ids (new_group folder ticket billable s) = []"
  by (simp_all add: new_group_def)

lemma drop_blank_deild_simps [simp]:
  "bs_intervals (drop_blank_deild s) = bs_intervals s" "bs_customer (drop_blank_deild s) = bs_customer s"
  by (simp_all add: drop_blank_deild_def)

lemma intervals_add_slice:
  "mset (group_intervals (add_slice b folder ticket billable gs s)) = mset (group_intervals gs) + mset (bs_intervals s)"
  by (simp add: add_slice_def Let_def intervals_with_group)

lemma intervals_add_slices:
  "mset (group_intervals (foldl (add_slice b folder ticket billable) gs ss)) =
     mset (group_intervals gs) + mset (concat (map bs_intervals ss))"
  by (induction ss arbitrary: gs) (simp_all add: intervals_add_slice)

text \<open>The intervals of the day, block by block.\<close>

definition slices_of :: "billing_db \<Rightarrow> block \<Rightarrow> billing_slice list" where
  "slices_of db b = (case resolve_block_slices db b (block_folder db b) of Inl _ \<Rightarrow> [] | Inr ss \<Rightarrow> ss)"

definition billable_blocks :: "block list \<Rightarrow> block list" where
  "billable_blocks blocks = filter (\<lambda>b. \<not> bk_personal b) blocks"

definition day_intervals :: "billing_db \<Rightarrow> block list \<Rightarrow> seconds_range list" where
  "day_intervals db blocks = concat (map (\<lambda>b. concat (map bs_intervals (slices_of db b))) (billable_blocks blocks))"

lemma group_blocks_intervals:
  "group_blocks db gs blocks = Inr gs' \<Longrightarrow>
     mset (group_intervals gs') = mset (group_intervals gs) + mset (day_intervals db blocks)"
proof (induction blocks arbitrary: gs)
  case (Cons b bs)
  show ?case
  proof (cases "bk_personal b")
    case False
    with Cons.prems obtain ss where r: "resolve_block_slices db b (block_folder db b) = Inr ss"
      and g: "group_blocks db (foldl (add_slice b (block_folder db b) (some_nonempty (bk_jira b))
                 (rs_billable (resolve_block db b (block_folder db b)))) gs ss) bs = Inr gs'"
      by (auto simp: and_then_Inr Let_def)
    from Cons.IH[OF g] r False show ?thesis
      by (simp add: intervals_add_slices day_intervals_def billable_blocks_def slices_of_def)
  qed (use Cons in \<open>simp add: day_intervals_def billable_blocks_def\<close>)
qed (simp add: day_intervals_def billable_blocks_def)

lemma group_blocks_keys:
  "group_blocks db gs blocks = Inr gs' \<Longrightarrow> distinct (map fst gs) \<Longrightarrow> distinct (map fst gs')"
proof (induction blocks arbitrary: gs)
  case (Cons b bs)
  have d: "distinct (map fst (foldl (add_slice b folder ticket billable) gs ss))" for folder ticket billable ss
    using Cons.prems(2)
    by (induction ss rule: rev_induct) (simp_all add: add_slice_def Let_def distinct_with_group)
  show ?case
  proof (cases "bk_personal b")
    case False
    with Cons.prems obtain ss where
      g: "group_blocks db (foldl (add_slice b (block_folder db b) (some_nonempty (bk_jira b))
                 (rs_billable (resolve_block db b (block_folder db b)))) gs ss) bs = Inr gs'"
      by (auto simp: and_then_Inr Let_def)
    from Cons.IH[OF g d] show ?thesis .
  qed (use Cons in simp)
qed simp

text \<open>What a group holds agrees with its key.\<close>

definition key_agrees :: "line_key \<times> group_acc \<Rightarrow> bool" where
  "key_agrees p =
     (case p of ((customer, has_deild, name, billable), g) \<Rightarrow>
        customer = (case gp_customer g of None \<Rightarrow> [] | Some c \<Rightarrow> c) \<and> has_deild = (gp_verkefni g \<noteq> None) \<and>
        name = (case gp_verkefni g of None \<Rightarrow> gp_folder g | Some d \<Rightarrow> d) \<and> billable = gp_billable g)"

lemma into_group_head [simp]:
  "gp_folder (into_group b ticket s g) = gp_folder g" "gp_customer (into_group b ticket s g) = gp_customer g"
  "gp_verkefni (into_group b ticket s g) = gp_verkefni g" "gp_billable (into_group b ticket s g) = gp_billable g"
  by (simp_all add: into_group_def Let_def)

lemma key_agrees_into: "key_agrees (k, into_group b ticket s g) = key_agrees (k, g)"
  by (cases k; cases "gp_verkefni g") (simp_all add: key_agrees_def)

lemma add_slice_agrees:
  "\<forall>p\<in>set gs. key_agrees p \<Longrightarrow> \<forall>p\<in>set (add_slice b folder ticket billable gs s). key_agrees p"
  unfolding add_slice_def Let_def
proof (rule with_group_all)
  show "key_agrees (line_key folder billable (drop_blank_deild s), new_group folder ticket billable (drop_blank_deild s))"
    by (simp add: key_agrees_def line_key_def new_group_def split: option.splits)
qed (simp_all only: key_agrees_into)

text \<open>The blocks of a line are billable blocks of the day.\<close>

lemma into_group_ids: "set (gp_ids (into_group b ticket s g)) = insert (bk_id b) (set (gp_ids g))"
proof (cases "gp_ids g \<noteq> [] \<and> List.last (gp_ids g) = bk_id b")
  case True
  then have "bk_id b \<in> set (gp_ids g)" using last_in_set by metis
  with True show ?thesis by (auto simp: into_group_def Let_def)
qed (auto simp: into_group_def Let_def)

lemma group_blocks_all:
  assumes "group_blocks db gs blocks = Inr gs'" "\<forall>p\<in>set gs. P p"
    "\<And>b folder ticket billable gs s. b \<in> set (billable_blocks blocks) \<Longrightarrow> \<forall>p\<in>set gs. P p \<Longrightarrow>
       \<forall>p\<in>set (add_slice b folder ticket billable gs s). P p"
  shows "\<forall>p\<in>set gs'. P p"
  using assms
proof (induction blocks arbitrary: gs)
  case (Cons b bs)
  show ?case
  proof (cases "bk_personal b")
    case True
    show ?thesis
    proof (rule Cons.IH)
      show "group_blocks db gs bs = Inr gs'" using Cons.prems(1) True by simp
      show "\<forall>p\<in>set gs. P p" by (rule Cons.prems(2))
      fix b' folder ticket billable s and gs :: groups
      assume "b' \<in> set (billable_blocks bs)" and "\<forall>p\<in>set gs. P p"
      then show "\<forall>p\<in>set (add_slice b' folder ticket billable gs s). P p"
        by (intro Cons.prems(3)) (simp_all add: billable_blocks_def)
    qed
  next
    case False
    with Cons.prems(1) obtain ss where
      g: "group_blocks db (foldl (add_slice b (block_folder db b) (some_nonempty (bk_jira b))
                 (rs_billable (resolve_block db b (block_folder db b)))) gs ss) bs = Inr gs'"
      by (auto simp: and_then_Inr Let_def)
    have b: "b \<in> set (billable_blocks (b # bs))" using False by (simp add: billable_blocks_def)
    have "\<forall>p\<in>set (foldl (add_slice b folder ticket billable) gs ss). P p" for folder ticket billable
    proof (induction ss rule: rev_induct)
      case (snoc s ss)
      from Cons.prems(3)[OF b snoc] show ?case by simp
    qed (simp add: Cons.prems(2))
    then have grouped: "\<forall>p\<in>set (foldl (add_slice b folder ticket billable) gs ss). P p" for folder ticket billable .
    show ?thesis
    proof (rule Cons.IH[OF g grouped])
      fix b' folder ticket billable s and gs :: groups
      assume "b' \<in> set (billable_blocks bs)" and "\<forall>p\<in>set gs. P p"
      then show "\<forall>p\<in>set (add_slice b' folder ticket billable gs s). P p"
        by (intro Cons.prems(3)) (simp_all add: billable_blocks_def)
    qed
  qed
qed simp

lemma group_blocks_ids:
  assumes "group_blocks db [] blocks = Inr gs"
  shows "\<forall>p\<in>set gs. set (gp_ids (snd p)) \<subseteq> bk_id ` set (billable_blocks blocks)"
proof (rule group_blocks_all[OF assms])
  fix b folder ticket billable s and gs :: groups
  assume b: "b \<in> set (billable_blocks blocks)"
    and gs: "\<forall>p\<in>set gs. set (gp_ids (snd p)) \<subseteq> bk_id ` set (billable_blocks blocks)"
  show "\<forall>p\<in>set (add_slice b folder ticket billable gs s). set (gp_ids (snd p)) \<subseteq> bk_id ` set (billable_blocks blocks)"
    unfolding add_slice_def Let_def by (rule with_group_all[OF gs]) (use b in \<open>simp_all add: into_group_ids\<close>)
qed simp

lemma group_blocks_agree:
  "group_blocks db [] blocks = Inr gs \<Longrightarrow> \<forall>p\<in>set gs. key_agrees p"
  by (erule group_blocks_all) (simp_all add: add_slice_agrees)

section \<open>The time on the lines\<close>

lemma union_seconds_le:
  assumes "list_all forward_range ivs"
  shows "0 \<le> union_seconds ivs" "union_seconds ivs \<le> range_sum ivs"
proof -
  have u: "union_seconds ivs = int (card (\<Union>r\<in>set ivs. range_set r))" by (rule union_seconds_card[OF assms])
  then show "0 \<le> union_seconds ivs" by simp
  have "int (card (\<Union>r\<in>set ivs. range_set r)) \<le> range_sum ivs" using assms
  proof (induction ivs)
    case (Cons r ivs)
    have "card (\<Union>x\<in>set (r # ivs). range_set x) \<le> card (range_set r) + card (\<Union>x\<in>set ivs. range_set x)"
      using card_Un_le by simp
    moreover have "int (card (range_set r)) = snd r - fst r" using Cons.prems by (simp add: range_set_def forward_range_def)
    moreover have "range_sum (r # ivs) = snd r - fst r + range_sum ivs" by (simp add: range_sum_def split: prod.splits)
    moreover have "int (card (\<Union>x\<in>set ivs. range_set x)) \<le> range_sum ivs" using Cons by simp
    ultimately show ?case by linarith
  qed (simp add: range_sum_def)
  with u show "union_seconds ivs \<le> range_sum ivs" by simp
qed

lemma sum_list_mset: "mset xs = mset ys \<Longrightarrow> sum_list (map f xs) = (sum_list (map f ys) :: int)"
  by (simp flip: sum_mset_sum_list)

lemma range_sum_mset: "mset xs = mset ys \<Longrightarrow> range_sum xs = range_sum ys"
  unfolding range_sum_def by (rule sum_list_mset)

lemma row_seconds [simp]: "bw_seconds (billing_row db day g) = union_seconds (gp_intervals g)"
  by (simp add: billing_row_def Let_def split: prod.splits option.splits)

lemma row_ids [simp]: "bw_ids (billing_row db day g) = gp_ids g"
  by (simp add: billing_row_def Let_def split: prod.splits option.splits)

lemma rows_for_dayE:
  assumes "rows_for_day db day blocks = Inr rows"
  obtains gs where "group_blocks db [] blocks = Inr gs"
    "mset rows = mset (filter (\<lambda>r. 0 < round_to_half_hour (bw_seconds r)) (map (billing_row db day \<circ> snd) gs))"
  using assms by (auto simp: rows_for_day_def and_then_Inr)

lemma sum_filter_le: "\<forall>x\<in>set xs. (0::int) \<le> f x \<Longrightarrow> sum_list (map f (filter P xs)) \<le> sum_list (map f xs)"
  by (induction xs) auto

lemma rows_total_le:
  assumes "rows_for_day db day blocks = Inr rows" "list_all forward_range (day_intervals db blocks)"
  shows "sum_list (map bw_seconds rows) \<le> range_sum (day_intervals db blocks)"
proof -
  from assms(1) obtain gs where g: "group_blocks db [] blocks = Inr gs"
    and r: "mset rows = mset (filter (\<lambda>r. 0 < round_to_half_hour (bw_seconds r)) (map (billing_row db day \<circ> snd) gs))"
    by (rule rows_for_dayE)
  have ivs: "mset (group_intervals gs) = mset (day_intervals db blocks)"
    using group_blocks_intervals[OF g] by (simp add: group_intervals_def)
  then have "set (group_intervals gs) = set (day_intervals db blocks)" by (rule mset_eq_setD)
  with assms(2) have fw: "list_all forward_range (gp_intervals (snd p))" if "p \<in> set gs" for p
    using that by (auto simp: list_all_iff group_intervals_def)
  have "sum_list (map bw_seconds rows) = sum_list (map bw_seconds
      (filter (\<lambda>r. 0 < round_to_half_hour (bw_seconds r)) (map (billing_row db day \<circ> snd) gs)))"
    using r by (rule sum_list_mset)
  also have "\<dots> \<le> sum_list (map bw_seconds (map (billing_row db day \<circ> snd) gs))"
    by (rule sum_filter_le) (use fw in \<open>auto simp: union_seconds_le(1)\<close>)
  also have "\<dots> \<le> sum_list (map (\<lambda>p. range_sum (gp_intervals (snd p))) gs)"
    unfolding map_map by (rule sum_list_mono) (use fw in \<open>simp add: union_seconds_le(2)\<close>)
  also have "\<dots> = range_sum (group_intervals gs)" by (simp add: group_intervals_def range_sum_concat comp_def)
  also have "\<dots> = range_sum (day_intervals db blocks)" using ivs by (rule range_sum_mset)
  finally show ?thesis .
qed

lemma day_intervals_total:
  assumes "list_all (\<lambda>b. sound_split db b (block_folder db b)) blocks"
    "rows_for_day db day blocks = Inr rows"
  shows "range_sum (day_intervals db blocks) = sum_list (map (\<lambda>b. max (bk_secs b) 0) (billable_blocks blocks))"
proof -
  have resolved: "group_blocks db gs bs = Inr gs' \<Longrightarrow> b \<in> set (billable_blocks bs) \<Longrightarrow>
      \<exists>ss. resolve_block_slices db b (block_folder db b) = Inr ss" for gs gs' bs b
    by (induction bs arbitrary: gs) (auto simp: billable_blocks_def and_then_Inr Let_def split: if_splits)
  have one: "range_sum (concat (map bs_intervals (slices_of db b))) = max (bk_secs b) 0"
    if "b \<in> set (billable_blocks blocks)" for b
  proof -
    from assms(2) obtain gs where "group_blocks db [] blocks = Inr gs" by (rule rows_for_dayE)
    from resolved[OF this that] obtain ss where ss: "resolve_block_slices db b (block_folder db b) = Inr ss" by blast
    have "sound_split db b (block_folder db b)" using assms(1) that by (auto simp: list_all_iff billable_blocks_def)
    moreover have "block_interval (bd_clock db) b = (fst (block_interval (bd_clock db) b), fst (block_interval (bd_clock db) b) + max (bk_secs b) 0)"
      by (simp add: block_interval_def interval_at_def Let_def)
    ultimately have "fills (fst (block_interval (bd_clock db) b)) (fst (block_interval (bd_clock db) b) + max (bk_secs b) 0)
        (concat (map bs_intervals ss))" by (rule resolve_slices_fill[OF ss])
    then show ?thesis by (simp add: fills_def slices_of_def ss)
  qed
  have "range_sum (day_intervals db blocks) = sum_list (map (\<lambda>b. range_sum (concat (map bs_intervals (slices_of db b)))) (billable_blocks blocks))"
    by (simp add: day_intervals_def range_sum_concat comp_def)
  also have "\<dots> = sum_list (map (\<lambda>b. max (bk_secs b) 0) (billable_blocks blocks))"
    by (rule arg_cong[where f = sum_list], rule map_cong[OF refl one])
  finally show ?thesis .
qed

section \<open>The CSV can be read back\<close>

fun read_records :: "nat \<Rightarrow> nat \<Rightarrow> string \<Rightarrow> string list list" where
  "read_records k 0 s = []"
| "read_records k (Suc n) s =
     (let (rec, r) = read_record k s in rec # read_records k n (case r of [] \<Rightarrow> [] | x # xs \<Rightarrow> xs))"

lemma read_records_join:
  "\<forall>r\<in>set recs. length r = k \<Longrightarrow> 0 < k \<Longrightarrow>
     read_records k (length recs) (join [CHR 0x0A] (map (\<lambda>r. join '','' (map csv_quote r)) recs)) = recs"
proof (induction recs rule: induct_list012)
  case (2 r)
  then have "read_record k (join '','' (map csv_quote r) @ []) = (r, [])"
    using read_record_join[of "[]" r] by auto
  then show ?case by simp
next
  case (3 r r' rs)
  let ?more = "join [CHR 0x0A] (map (\<lambda>r. join '','' (map csv_quote r)) (r' # rs))"
  have "read_record k (join '','' (map csv_quote r) @ (CHR 0x0A # ?more)) = (r, CHR 0x0A # ?more)"
    using read_record_join[of "CHR 0x0A # ?more" r] 3 by auto
  with 3 show ?case by simp
qed simp

lemma csv_header_plain: "map csv_quote csv_header = csv_header"
  by (simp add: csv_header_def csv_quote_def csv_special_def)

lemma render_csv_read:
  "read_records 8 (Suc (length rows)) (render_csv ds rows) = csv_header # map (csv_values ds) rows"
proof -
  have "render_csv ds rows = join [CHR 0x0A] (map (\<lambda>r. join '','' (map csv_quote r)) (csv_header # map (csv_values ds) rows))"
    by (simp add: render_csv_def csv_header_plain comp_def)
  moreover have "\<forall>r\<in>set (csv_header # map (csv_values ds) rows). length r = 8"
    by (auto simp: csv_header_def csv_values_def)
  ultimately show ?thesis using read_records_join[of "csv_header # map (csv_values ds) rows" 8] by simp
qed

section \<open>No cell starts a formula\<close>

definition safe_cell :: "string \<Rightarrow> bool" where
  "safe_cell f = (case f of [] \<Rightarrow> True | c # cs \<Rightarrow> \<not> formula_start c)"

lemma safe_guard: "safe_cell (csv_guard f)"
  using csv_guard_safe[of f] by (cases "csv_guard f") (simp_all add: safe_cell_def)

lemma digit_not_formula: "ascii_digit c \<Longrightarrow> \<not> formula_start c"
  by (auto simp: ascii_digit_def formula_start_def)

lemma safe_hours: "safe_cell (format_hours s)"
proof -
  have "safe_cell (show_nat n @ t)" for n t
    using show_nat_digits[of n] digit_not_formula by (cases "show_nat n") (auto simp: safe_cell_def)
  from this[of _ "[]"] this show ?thesis by (simp add: format_hours_def Let_def)
qed

lemma csv_values_safe: "list_all safe_cell (csv_values ds r)"
  by (simp add: csv_values_def safe_guard safe_hours hours_display_def)

end
