(* ===== verification/Undo.thy ===== *)
theory Undo
  imports BlockRow
begin

text \<open>
  The block tables and the before-image journal over them (\<open>undo.rs\<close>). The state is what the operations
  of \<open>block_service.rs\<close> and \<open>undo_last\<close> read and write: the rows of \<open>blocks\<close>, the links of
  \<open>block_events\<close>, the cards of \<open>block_digest\<close>, the skipped sessions, the start and session of the events, the
  journal \<open>block_undo\<close> newest first, and the next row id. A transaction that fails leaves the state it
  began with. A journal entry is the value its JSON text stands for; the column \<open>created_at\<close>, which
  nothing here reads or changes, and the tables that are only caches of the blocks are left out.
\<close>

section \<open>State\<close>

datatype block_change = ChangeDelete | ChangeMerge | ChangeSplit | ChangeTicket | ChangeHours | ChangeText | ChangePersonal | ChangeIgnored

type_synonym card = "int \<times> string \<times> string"

record snapshot =
  sn_row :: block
  sn_events :: "int set"
  sn_digest :: "card option"

record undo_entry =
  en_change :: block_change
  en_blocks :: "snapshot list"
  en_after :: "block option list"
  en_created :: "int list"

record block_db =
  db_blocks :: "int \<Rightarrow> block option"
  db_links :: "(int \<times> int) set"
  db_digests :: "int \<Rightarrow> card option"
  db_event_start :: "int \<Rightarrow> string option"
  db_event_session :: "int \<Rightarrow> string option"
  db_skips :: "string set"
  db_journal :: "undo_entry list"
  db_next :: int

datatype block_error =
    BlockNotFound int
  | BadStart string
  | AlreadySynced
  | AlreadyExported
  | NothingToMerge int
  | MergeSelf int
  | MergeTwice int
  | OtherDay int
  | AbsorbedSynced int
  | BadSplitPoint nat
  | StaleEntry

definition UNDO_DEPTH :: nat where "UNDO_DEPTH = 20"

definition get_block :: "block_db \<Rightarrow> int \<Rightarrow> block option" where
  "get_block db i = db_blocks db i"

definition update_block :: "int \<Rightarrow> (block \<Rightarrow> block) \<Rightarrow> block_db \<Rightarrow> block_db" where
  "update_block i f db = db\<lparr>db_blocks := (db_blocks db)(i := map_option f (db_blocks db i))\<rparr>"

text \<open>\<open>DELETE FROM blocks\<close>, with the links and the card that go with the row.\<close>

definition delete_row :: "int \<Rightarrow> block_db \<Rightarrow> block_db" where
  "delete_row i db =
     db\<lparr>db_blocks := (db_blocks db)(i := None), db_links := {l \<in> db_links db. fst l \<noteq> i},
        db_digests := (db_digests db)(i := None)\<rparr>"

definition links_of :: "block_db \<Rightarrow> int \<Rightarrow> int set" where
  "links_of db i = snd ` {l \<in> db_links db. fst l = i}"

lemma links_of_mem [simp]: "e \<in> links_of db i \<longleftrightarrow> (i, e) \<in> db_links db"
  by (force simp: links_of_def)

section \<open>The journal\<close>

definition snapshot_of :: "block_db \<Rightarrow> int \<Rightarrow> snapshot option" where
  "snapshot_of db i =
     map_option (\<lambda>b. \<lparr>sn_row = b, sn_events = links_of db i, sn_digest = db_digests db i\<rparr>) (db_blocks db i)"

definition record_change :: "block_change \<Rightarrow> int list \<Rightarrow> block_db \<Rightarrow> block_db" where
  "record_change change before db =
     (let blocks = List.map_filter (snapshot_of db) before
      in if blocks = [] then db
         else db\<lparr>db_journal := take UNDO_DEPTH
                (\<lparr>en_change = change, en_blocks = blocks, en_after = [], en_created = []\<rparr> # db_journal db)\<rparr>)"

definition id_of :: "snapshot \<Rightarrow> int" where
  "id_of s = bk_id (sn_row s)"

definition seal :: "int list \<Rightarrow> block_db \<Rightarrow> block_db" where
  "seal created db =
     (case db_journal db of
        [] \<Rightarrow> db
      | e # es \<Rightarrow>
          if en_after e \<noteq> [] then db
          else db\<lparr>db_journal := e\<lparr>en_after := map (\<lambda>s. db_blocks db (id_of s)) (en_blocks e), en_created := created\<rparr> # es\<rparr>)"

definition comparable :: "block \<Rightarrow> block" where
  "comparable b = b\<lparr>bk_tempo := None, bk_exported := None\<rparr>"

definition is_stale :: "block_db \<Rightarrow> undo_entry \<Rightarrow> bool" where
  "is_stale db e =
     (list_ex (\<lambda>(s, after). map_option comparable (db_blocks db (id_of s)) \<noteq> map_option comparable after)
        (zip (en_blocks e) (en_after e)) \<or> length (en_after e) \<noteq> length (en_blocks e))"

definition write_block :: "snapshot \<Rightarrow> block_db \<Rightarrow> block_db" where
  "write_block s db =
     (let row = sn_row s
      in db\<lparr>db_blocks := (db_blocks db)(bk_id row \<mapsto>
           (case db_blocks db (bk_id row) of
              Some live \<Rightarrow> row\<lparr>bk_tempo := bk_tempo live, bk_exported := bk_exported live\<rparr>
            | None \<Rightarrow> row\<lparr>bk_tempo := None\<rparr>))\<rparr>)"

definition synced_now :: "block_db \<Rightarrow> int \<Rightarrow> bool" where
  "synced_now db i = (case db_blocks db i of None \<Rightarrow> False | Some b \<Rightarrow> marker_set (bk_tempo b))"

definition restore_satellites :: "snapshot \<Rightarrow> block_db \<Rightarrow> block_db" where
  "restore_satellites s db =
     (let i = id_of s
      in db\<lparr>db_digests := (case sn_digest s of
               None \<Rightarrow> db_digests db
             | Some c \<Rightarrow> if db_digests db i = None then (db_digests db)(i \<mapsto> c) else db_digests db),
            db_links := {l \<in> db_links db. fst l \<noteq> i} \<union> Pair i ` {e \<in> sn_events s. db_event_start db e \<noteq> None}\<rparr>)"

datatype undo_outcome = Restored block_change "int list" | NothingToUndo | RefusedSynced int

definition refused :: "block_db \<Rightarrow> undo_entry \<Rightarrow> int option" where
  "refused db e =
     (case find (\<lambda>s. marker_set (bk_tempo (sn_row s)) \<or> synced_now db (id_of s)) (en_blocks e) of
        Some s \<Rightarrow> Some (id_of s)
      | None \<Rightarrow> find (synced_now db) (en_created e))"

definition apply_entry :: "undo_entry \<Rightarrow> block_db \<Rightarrow> block_db" where
  "apply_entry e db =
     (let db = foldl (\<lambda>db t. delete_row t db) db (en_created e);
          db = foldl (\<lambda>db s. write_block s db) db (en_blocks e)
      in foldl (\<lambda>db s. restore_satellites s db) db (en_blocks e))"

definition undo_last :: "block_db \<Rightarrow> (block_error + undo_outcome) \<times> block_db" where
  "undo_last db =
     (case db_journal db of
        [] \<Rightarrow> (Inr NothingToUndo, db)
      | e # es \<Rightarrow>
          (case refused db e of
             Some i \<Rightarrow> (Inr (RefusedSynced i), db)
           | None \<Rightarrow>
               if is_stale db e then (Inl StaleEntry, db\<lparr>db_journal := es\<rparr>)
               else (Inr (Restored (en_change e) (map id_of (en_blocks e))), (apply_entry e db)\<lparr>db_journal := es\<rparr>)))"

section \<open>Well-formed states\<close>

definition sealed :: "undo_entry \<Rightarrow> bool" where
  "sealed e = (en_blocks e \<noteq> [] \<and> length (en_after e) = length (en_blocks e))"

text \<open>Rows sit under their id, ids (those in the journal too) stay below the counter, links and cards belong to a row, a link names
  an event that exists, and every journal entry is sealed, at most \<open>UNDO_DEPTH\<close> of them.\<close>

definition db_ok :: "block_db \<Rightarrow> bool" where
  "db_ok db \<longleftrightarrow>
     (\<forall>i b. db_blocks db i = Some b \<longrightarrow> bk_id b = i \<and> i < db_next db) \<and>
     (\<forall>(i, e)\<in>db_links db. db_blocks db i \<noteq> None \<and> db_event_start db e \<noteq> None) \<and>
     (\<forall>i. db_digests db i \<noteq> None \<longrightarrow> db_blocks db i \<noteq> None) \<and>
     list_all sealed (db_journal db) \<and> length (db_journal db) \<le> UNDO_DEPTH \<and>
     (\<forall>e\<in>set (db_journal db). \<forall>s\<in>set (en_blocks e). id_of s < db_next db)"

lemma db_okD:
  assumes "db_ok db"
  shows "db_blocks db i = Some b \<Longrightarrow> bk_id b = i" "db_blocks db i = Some b \<Longrightarrow> i < db_next db"
    "(i, e) \<in> db_links db \<Longrightarrow> db_blocks db i \<noteq> None" "(i, e) \<in> db_links db \<Longrightarrow> db_event_start db e \<noteq> None"
    "db_blocks db i = None \<Longrightarrow> db_digests db i = None"
    "list_all sealed (db_journal db)" "length (db_journal db) \<le> UNDO_DEPTH"
    "x \<in> set (db_journal db) \<Longrightarrow> s \<in> set (en_blocks x) \<Longrightarrow> id_of s < db_next db"
  using assms unfolding db_ok_def by (blast | simp)+

lemma seal_sealed: "list_all sealed (db_journal db) \<Longrightarrow> seal created db = db"
  by (auto simp: seal_def sealed_def split: list.splits)

definition entry_for :: "block_change \<Rightarrow> int list \<Rightarrow> int list \<Rightarrow> block_db \<Rightarrow> block_db \<Rightarrow> undo_entry" where
  "entry_for change touched created before after =
     \<lparr>en_change = change, en_blocks = List.map_filter (snapshot_of before) touched,
      en_after = map (\<lambda>s. db_blocks after (id_of s)) (List.map_filter (snapshot_of before) touched), en_created = created\<rparr>"

text \<open>A recorded and sealed change leaves one entry in front of the journal.\<close>

lemma record_then_seal:
  assumes "List.map_filter (snapshot_of db) touched \<noteq> []"
    "db_journal db' = db_journal (record_change change touched db)"
  shows "seal created db' = db'\<lparr>db_journal := take UNDO_DEPTH (entry_for change touched created db db' # db_journal db)\<rparr>"
  using assms by (simp add: seal_def record_change_def Let_def entry_for_def UNDO_DEPTH_def)

lemma map_filter_defined: "\<forall>x\<in>set xs. f x = Some (g x) \<Longrightarrow> List.map_filter f xs = map g xs"
  by (induction xs) (simp_all add: map_filter_simps)

section \<open>Undo puts the state back\<close>

text \<open>\<open>changed_only T C db db'\<close>: \<open>db'\<close> differs from \<open>db\<close> only in the rows \<open>T\<close> (changed or gone, their markers
  kept) and the new rows \<open>C\<close>.\<close>

definition changed_only :: "int list \<Rightarrow> int list \<Rightarrow> block_db \<Rightarrow> block_db \<Rightarrow> bool" where
  "changed_only T C db db' \<longleftrightarrow>
     distinct T \<and> T \<noteq> [] \<and> set T \<inter> set C = {} \<and>
     (\<forall>i\<in>set T. \<exists>b. db_blocks db i = Some b \<and> bk_tempo b = None \<and>
        (case db_blocks db' i of
           Some b' \<Rightarrow> bk_tempo b' = None \<and> bk_exported b' = bk_exported b \<and> db_digests db' i = db_digests db i
         | None \<Rightarrow> db_digests db' i = None)) \<and>
     (\<forall>i\<in>set C. db_blocks db i = None \<and> (\<forall>b. db_blocks db' i = Some b \<longrightarrow> bk_tempo b = None)) \<and>
     (\<forall>i. i \<notin> set T \<union> set C \<longrightarrow> db_blocks db' i = db_blocks db i \<and> db_digests db' i = db_digests db i) \<and>
     (\<forall>i e. i \<notin> set T \<union> set C \<longrightarrow> ((i, e) \<in> db_links db') = ((i, e) \<in> db_links db)) \<and>
     db_event_start db' = db_event_start db"

lemma foldl_delete_row:
  "db_blocks (foldl (\<lambda>db t. delete_row t db) db C) = (\<lambda>i. if i \<in> set C then None else db_blocks db i)"
  "db_digests (foldl (\<lambda>db t. delete_row t db) db C) = (\<lambda>i. if i \<in> set C then None else db_digests db i)"
  "db_links (foldl (\<lambda>db t. delete_row t db) db C) = {l \<in> db_links db. fst l \<notin> set C}"
  "db_event_start (foldl (\<lambda>db t. delete_row t db) db C) = db_event_start db"
  "db_event_session (foldl (\<lambda>db t. delete_row t db) db C) = db_event_session db"
  "db_skips (foldl (\<lambda>db t. delete_row t db) db C) = db_skips db"
  "db_next (foldl (\<lambda>db t. delete_row t db) db C) = db_next db"
  by (induction C arbitrary: db) (auto simp: delete_row_def)

text \<open>Rows written back by a list of snapshots with distinct ids.\<close>

definition back_row :: "block_db \<Rightarrow> block \<Rightarrow> block" where
  "back_row db row =
     (case db_blocks db (bk_id row) of
        Some live \<Rightarrow> row\<lparr>bk_tempo := bk_tempo live, bk_exported := bk_exported live\<rparr>
      | None \<Rightarrow> row\<lparr>bk_tempo := None\<rparr>)"

lemma write_block_simps [simp]:
  "db_blocks (write_block s db) = (db_blocks db)(id_of s \<mapsto> back_row db (sn_row s))"
  "db_digests (write_block s db) = db_digests db" "db_links (write_block s db) = db_links db"
  "db_event_start (write_block s db) = db_event_start db" "db_event_session (write_block s db) = db_event_session db"
  "db_skips (write_block s db) = db_skips db" "db_next (write_block s db) = db_next db"
  by (simp_all add: write_block_def Let_def id_of_def back_row_def)

lemma foldl_write_block:
  "distinct (map id_of ss) \<Longrightarrow>
     db_blocks (foldl (\<lambda>db s. write_block s db) db ss) =
       (\<lambda>i. case find (\<lambda>s. id_of s = i) ss of Some s \<Rightarrow> Some (back_row db (sn_row s)) | None \<Rightarrow> db_blocks db i)"
  "db_digests (foldl (\<lambda>db s. write_block s db) db ss) = db_digests db"
  "db_links (foldl (\<lambda>db s. write_block s db) db ss) = db_links db"
  "db_event_start (foldl (\<lambda>db s. write_block s db) db ss) = db_event_start db"
  "db_event_session (foldl (\<lambda>db s. write_block s db) db ss) = db_event_session db"
  "db_skips (foldl (\<lambda>db s. write_block s db) db ss) = db_skips db"
  "db_next (foldl (\<lambda>db s. write_block s db) db ss) = db_next db"
proof -
  show "distinct (map id_of ss) \<Longrightarrow>
     db_blocks (foldl (\<lambda>db s. write_block s db) db ss) =
       (\<lambda>i. case find (\<lambda>s. id_of s = i) ss of Some s \<Rightarrow> Some (back_row db (sn_row s)) | None \<Rightarrow> db_blocks db i)"
  proof (induction ss arbitrary: db)
    case (Cons s ss)
    have other: "back_row (write_block s db) (sn_row t) = back_row db (sn_row t)" if "t \<in> set ss" for t
    proof -
      have "id_of s \<notin> id_of ` set ss" using Cons.prems by simp
      with that have "id_of t \<noteq> id_of s" by (metis image_eqI)
      then have "bk_id (sn_row t) \<noteq> id_of s" by (simp add: id_of_def)
      then show ?thesis by (simp add: back_row_def)
    qed
    have d: "distinct (map id_of ss)" using Cons.prems by simp
    show ?case
    proof
      fix i
      show "db_blocks (foldl (\<lambda>db s. write_block s db) db (s # ss)) i =
         (case find (\<lambda>s. id_of s = i) (s # ss) of Some s \<Rightarrow> Some (back_row db (sn_row s)) | None \<Rightarrow> db_blocks db i)"
      proof (cases "find (\<lambda>s. id_of s = i) ss")
        case None
        then show ?thesis by (simp add: Cons.IH[OF d])
      next
        case (Some t)
        then have t: "t \<in> set ss" "id_of t = i" by (auto simp: find_Some_iff)
        with Cons.prems have "id_of s \<noteq> i" by auto
        with Some t other show ?thesis by (simp add: Cons.IH[OF d])
      qed
    qed
  qed simp
qed (induction ss arbitrary: db, simp_all)+

lemma restore_satellites_simps [simp]:
  "db_blocks (restore_satellites s db) = db_blocks db"
  "db_event_start (restore_satellites s db) = db_event_start db"
  "db_event_session (restore_satellites s db) = db_event_session db"
  "db_skips (restore_satellites s db) = db_skips db" "db_next (restore_satellites s db) = db_next db"
  by (simp_all add: restore_satellites_def Let_def)

lemma restore_links: "(i, e) \<in> db_links (restore_satellites s db) \<longleftrightarrow>
    (if i = id_of s then e \<in> sn_events s \<and> db_event_start db e \<noteq> None else (i, e) \<in> db_links db)"
  by (auto simp: restore_satellites_def Let_def)

lemma foldl_restore_satellites:
  "db_blocks (foldl (\<lambda>db s. restore_satellites s db) db ss) = db_blocks db"
  "db_event_start (foldl (\<lambda>db s. restore_satellites s db) db ss) = db_event_start db"
  "db_event_session (foldl (\<lambda>db s. restore_satellites s db) db ss) = db_event_session db"
  "db_skips (foldl (\<lambda>db s. restore_satellites s db) db ss) = db_skips db"
  "db_next (foldl (\<lambda>db s. restore_satellites s db) db ss) = db_next db"
  by (induction ss arbitrary: db) simp_all

lemma foldl_restore_other:
  assumes "i \<notin> id_of ` set ss"
  shows "db_digests (foldl (\<lambda>db s. restore_satellites s db) db ss) i = db_digests db i"
    "(i, e) \<in> db_links (foldl (\<lambda>db s. restore_satellites s db) db ss) \<longleftrightarrow> (i, e) \<in> db_links db"
  using assms by (induction ss arbitrary: db) (auto simp: restore_satellites_def Let_def split: option.splits)

lemma foldl_restore_mine:
  assumes "distinct (map id_of ss)" "s \<in> set ss"
  shows "db_digests (foldl (\<lambda>db s. restore_satellites s db) db ss) (id_of s) =
      (case db_digests db (id_of s) of Some c \<Rightarrow> Some c | None \<Rightarrow> sn_digest s)"
    "(id_of s, e) \<in> db_links (foldl (\<lambda>db s. restore_satellites s db) db ss) \<longleftrightarrow>
      e \<in> sn_events s \<and> db_event_start db e \<noteq> None"
proof -
  obtain xs ys where ss: "ss = xs @ s # ys" using assms(2) by (meson split_list)
  let ?db = "foldl (\<lambda>db s. restore_satellites s db) db xs"
  have x: "id_of s \<notin> id_of ` set xs" and y: "id_of s \<notin> id_of ` set ys" using assms(1) ss by auto
  have d: "db_digests (restore_satellites s ?db) (id_of s) = (case db_digests db (id_of s) of Some c \<Rightarrow> Some c | None \<Rightarrow> sn_digest s)"
    using foldl_restore_other(1)[OF x] by (auto simp: restore_satellites_def Let_def split: option.splits)
  show "db_digests (foldl (\<lambda>db s. restore_satellites s db) db ss) (id_of s) =
      (case db_digests db (id_of s) of Some c \<Rightarrow> Some c | None \<Rightarrow> sn_digest s)"
    unfolding ss foldl_append foldl_Cons foldl_restore_other(1)[OF y] by (rule d)
  have "(id_of s, e) \<in> db_links (restore_satellites s ?db) \<longleftrightarrow> e \<in> sn_events s \<and> db_event_start db e \<noteq> None"
    by (simp only: restore_links foldl_restore_satellites if_True simp_thms)
  then show "(id_of s, e) \<in> db_links (foldl (\<lambda>db s. restore_satellites s db) db ss) \<longleftrightarrow>
      e \<in> sn_events s \<and> db_event_start db e \<noteq> None"
    unfolding ss foldl_append foldl_Cons foldl_restore_other(2)[OF y] .
qed


lemma snapshot_of_Some: "db_blocks db i = Some b \<Longrightarrow>
    snapshot_of db i = Some \<lparr>sn_row = b, sn_events = links_of db i, sn_digest = db_digests db i\<rparr>"
  by (simp add: snapshot_of_def)

text \<open>The entry a change leaves behind is neither refused nor stale, and applying it gives the tables back.\<close>

lemma entry_blocks:
  assumes "db_ok db" "changed_only T C db db'"
  shows "map id_of (en_blocks (entry_for change T C db db')) = T"
    and "s \<in> set (en_blocks (entry_for change T C db db')) \<Longrightarrow>
      \<exists>i\<in>set T. \<exists>b. db_blocks db i = Some b \<and> id_of s = i \<and> sn_row s = b \<and> sn_events s = links_of db i \<and> sn_digest s = db_digests db i"
    and "i \<in> set T \<Longrightarrow> \<exists>s\<in>set (en_blocks (entry_for change T C db db')). id_of s = i"
proof -
  have some: "\<exists>b. db_blocks db i = Some b \<and> bk_id b = i" if "i \<in> set T" for i
    using assms that unfolding changed_only_def db_ok_def by blast
  let ?g = "\<lambda>i. \<lparr>sn_row = the (db_blocks db i), sn_events = links_of db i, sn_digest = db_digests db i\<rparr>"
  have "\<forall>i\<in>set T. snapshot_of db i = Some (?g i)" using some snapshot_of_Some by fastforce
  then have m: "en_blocks (entry_for change T C db db') = map ?g T"
    by (simp add: entry_for_def map_filter_defined)
  have g: "id_of (?g i) = i" if "i \<in> set T" for i using some[OF that] by (auto simp: id_of_def)
  show "map id_of (en_blocks (entry_for change T C db db')) = T" unfolding m map_map by (rule map_idI) (simp add: g)
  show "s \<in> set (en_blocks (entry_for change T C db db')) \<Longrightarrow>
      \<exists>i\<in>set T. \<exists>b. db_blocks db i = Some b \<and> id_of s = i \<and> sn_row s = b \<and> sn_events s = links_of db i \<and> sn_digest s = db_digests db i"
    unfolding m using some g by fastforce
  show "i \<in> set T \<Longrightarrow> \<exists>s\<in>set (en_blocks (entry_for change T C db db')). id_of s = i"
    unfolding m using g by fastforce
qed

lemma foldl_apply_other:
  "db_event_session (apply_entry e db) = db_event_session db" "db_skips (apply_entry e db) = db_skips db"
  "db_next (apply_entry e db) = db_next db" "db_event_start (apply_entry e db) = db_event_start db"
  by (simp_all add: apply_entry_def Let_def foldl_restore_satellites foldl_write_block foldl_delete_row)

lemma row_markers: "bk_tempo b = None \<Longrightarrow> b\<lparr>bk_tempo := None\<rparr> = b"
    "bk_tempo b = None \<Longrightarrow> b\<lparr>bk_tempo := None, bk_exported := bk_exported b\<rparr> = b"
  by (cases b; simp)+

lemma apply_entry_restores:
  fixes change :: block_change
  assumes "db_ok db" "changed_only T C db db'"
  defines "e \<equiv> entry_for change T C db db'"
  shows "db_blocks (apply_entry e db') = db_blocks db" (is ?blocks)
    and "db_digests (apply_entry e db') = db_digests db" (is ?digests)
    and "db_links (apply_entry e db') = db_links db" (is ?links)
proof -
  note eb = entry_blocks[OF assms(1,2), where change = change, folded e_def]
  have ids: "map id_of (en_blocks e) = T" using entry_blocks(1)[OF assms(1,2)] by (simp add: e_def)
  have d: "distinct (map id_of (en_blocks e))" unfolding ids using assms(2) by (simp add: changed_only_def)
  have created: "en_created e = C" by (simp add: e_def entry_for_def)
  have idset: "id_of ` set (en_blocks e) = set T" using ids by (metis list.set_map)
  let ?db1 = "foldl (\<lambda>db t. delete_row t db) db' C"
  let ?db2 = "foldl (\<lambda>db s. write_block s db) ?db1 (en_blocks e)"
  have ap: "apply_entry e db' = foldl (\<lambda>db s. restore_satellites s db) ?db2 (en_blocks e)"
    by (simp add: apply_entry_def created Let_def)
  have T: "\<exists>b. db_blocks db i = Some b \<and> bk_id b = i \<and> bk_tempo b = None \<and> i \<notin> set C \<and>
      (case db_blocks db' i of
         Some b' \<Rightarrow> bk_tempo b' = None \<and> bk_exported b' = bk_exported b \<and> db_digests db' i = db_digests db i
       | None \<Rightarrow> db_digests db' i = None)" if "i \<in> set T" for i
    using assms(1,2) that unfolding changed_only_def db_ok_def by blast
  have other: "db_blocks db' i = db_blocks db i" "db_digests db' i = db_digests db i"
      "((i, x) \<in> db_links db') = ((i, x) \<in> db_links db)" if "i \<notin> set T" "i \<notin> set C" for i x
    using assms(2) that unfolding changed_only_def by blast+
  have C: "db_blocks db i = None" "db_digests db i = None" "(i, x) \<notin> db_links db" if "i \<in> set C" for i x
  proof -
    show b: "db_blocks db i = None" using assms(2) that unfolding changed_only_def by blast
    show "db_digests db i = None" by (rule db_okD(5)[OF assms(1) b])
    show "(i, x) \<notin> db_links db" using db_okD(3)[OF assms(1)] b by blast
  qed
  have evs: "db_event_start ?db2 = db_event_start db"
    using assms(2) by (simp add: foldl_write_block foldl_delete_row changed_only_def)
  show ?blocks
  proof
    fix i
    have "db_blocks ?db2 i = db_blocks db i"
    proof (cases "i \<in> set T")
      case True
      from T[OF True] obtain b where b: "db_blocks db i = Some b" "bk_id b = i" "bk_tempo b = None" "i \<notin> set C"
        "case db_blocks db' i of Some b' \<Rightarrow> bk_tempo b' = None \<and> bk_exported b' = bk_exported b \<and> db_digests db' i = db_digests db i
           | None \<Rightarrow> db_digests db' i = None" by blast
      from eb(3)[OF True] obtain s0 where "s0 \<in> set (en_blocks e)" "id_of s0 = i" by blast
      then obtain s where f: "find (\<lambda>s. id_of s = i) (en_blocks e) = Some s"
        by (cases "find (\<lambda>s. id_of s = i) (en_blocks e)") (auto simp: find_None_iff)
      then have s: "s \<in> set (en_blocks e)" "id_of s = i" by (auto simp: find_Some_iff)
      from eb(2)[OF s(1)] s(2) b(1) have row: "sn_row s = b" by auto
      have "back_row ?db1 b = b"
        using b by (cases "db_blocks db' i") (simp_all add: back_row_def foldl_delete_row row_markers)
      with f row b(1) show ?thesis by (simp add: foldl_write_block(1)[OF d])
    next
      case False
      then have "find (\<lambda>s. id_of s = i) (en_blocks e) = None" using idset by (auto simp: find_None_iff)
      with False other(1) C(1) show ?thesis by (simp add: foldl_write_block(1)[OF d] foldl_delete_row)
    qed
    then show "db_blocks (apply_entry e db') i = db_blocks db i" by (simp add: ap foldl_restore_satellites)
  qed
  have dig1: "db_digests ?db2 i = (if i \<in> set C then None else db_digests db' i)" for i
    by (simp add: foldl_write_block foldl_delete_row)
  have lnk1: "((i, x) \<in> db_links ?db2) = ((i, x) \<in> db_links db' \<and> i \<notin> set C)" for i x
    by (simp add: foldl_write_block foldl_delete_row)
  show ?digests
  proof
    fix i
    show "db_digests (apply_entry e db') i = db_digests db i"
    proof (cases "i \<in> set T")
      case True
      from T[OF True] obtain b where b: "db_blocks db i = Some b" "i \<notin> set C"
        "case db_blocks db' i of Some b' \<Rightarrow> bk_tempo b' = None \<and> bk_exported b' = bk_exported b \<and> db_digests db' i = db_digests db i
           | None \<Rightarrow> db_digests db' i = None" by blast
      from eb(3)[OF True] obtain s where s: "s \<in> set (en_blocks e)" "id_of s = i" by blast
      from eb(2)[OF s(1)] s(2) have "sn_digest s = db_digests db i" by auto
      with foldl_restore_mine(1)[OF d s(1), of ?db2] s(2) b show ?thesis
        by (simp add: ap dig1 split: option.splits)
    next
      case False
      then have "i \<notin> id_of ` set (en_blocks e)" unfolding idset .
      from foldl_restore_other(1)[OF this, of ?db2] False other(2) C(2) show ?thesis by (simp add: ap dig1)
    qed
  qed
  show ?links
  proof (rule set_eqI, clarify)
    fix i x
    show "((i, x) \<in> db_links (apply_entry e db')) = ((i, x) \<in> db_links db)"
    proof (cases "i \<in> set T")
      case True
      from eb(3)[OF True] obtain s where s: "s \<in> set (en_blocks e)" "id_of s = i" by blast
      from eb(2)[OF s(1)] s(2) have "sn_events s = links_of db i" by auto
      with foldl_restore_mine(2)[OF d s(1), of x ?db2] s(2) db_okD(4)[OF assms(1), of i x] evs show ?thesis
        by (auto simp: ap)
    next
      case False
      then have "i \<notin> id_of ` set (en_blocks e)" unfolding idset .
      from foldl_restore_other(2)[OF this, of x ?db2] False other(3) C(3) show ?thesis by (auto simp: ap lnk1)
    qed
  qed
qed

lemma entry_not_refused:
  assumes "db_ok db" "changed_only T C db db'"
  shows "refused db' (entry_for change T C db db') = None"
proof -
  let ?e = "entry_for change T C db db'"
  have "\<not> marker_set (bk_tempo (sn_row s)) \<and> \<not> synced_now db' (id_of s)" if "s \<in> set (en_blocks ?e)" for s
  proof -
    from entry_blocks(2)[OF assms that] obtain i b where i: "i \<in> set T" "db_blocks db i = Some b" "id_of s = i" "sn_row s = b"
      by blast
    from assms(2) i(1) obtain b' where b': "db_blocks db i = Some b'" "bk_tempo b' = None"
      "case db_blocks db' i of
           Some b'' \<Rightarrow> bk_tempo b'' = None \<and> bk_exported b'' = bk_exported b' \<and> db_digests db' i = db_digests db i
         | None \<Rightarrow> db_digests db' i = None"
      unfolding changed_only_def by blast
    from b'(3) have "\<not> synced_now db' i" by (simp add: synced_now_def split: option.splits)
    with b' i show ?thesis by simp
  qed
  then have "find (\<lambda>s. marker_set (bk_tempo (sn_row s)) \<or> synced_now db' (id_of s)) (en_blocks ?e) = None"
    by (auto simp: find_None_iff)
  moreover have "find (synced_now db') (en_created ?e) = None"
  proof -
    have "\<not> synced_now db' i" if "i \<in> set C" for i
    proof -
      have "\<forall>b. db_blocks db' i = Some b \<longrightarrow> bk_tempo b = None" using assms(2) that unfolding changed_only_def by blast
      then show ?thesis by (auto simp: synced_now_def split: option.splits)
    qed
    then show ?thesis by (auto simp: find_None_iff entry_for_def)
  qed
  ultimately show ?thesis by (simp add: refused_def)
qed

lemma entry_not_stale: "\<not> is_stale db' (entry_for change T C db db')"
proof -
  have "\<not> list_ex (\<lambda>(s, after). map_option comparable (db_blocks db' (id_of s)) \<noteq> map_option comparable after)
      (zip ss (map (\<lambda>s. db_blocks db' (id_of s)) ss))" for ss
    by (induction ss) simp_all
  then show ?thesis by (simp add: is_stale_def entry_for_def)
qed

lemma undo_restores:
  assumes "db_ok db" "changed_only T C db db'" "db_journal db' = entry_for change T C db db' # rest"
  shows "undo_last db' = (Inr (Restored change T),
    db'\<lparr>db_blocks := db_blocks db, db_links := db_links db, db_digests := db_digests db, db_journal := rest\<rparr>)"
proof -
  let ?e = "entry_for change T C db db'"
  have "(apply_entry ?e db')\<lparr>db_journal := rest\<rparr>
      = db'\<lparr>db_blocks := db_blocks db, db_links := db_links db, db_digests := db_digests db, db_journal := rest\<rparr>"
    using apply_entry_restores[OF assms(1,2), of change] by (intro block_db.equality) (simp_all add: foldl_apply_other)
  moreover have "en_change ?e = change" by (simp add: entry_for_def)
  ultimately show ?thesis
    using entry_not_refused[OF assms(1,2), of change] entry_not_stale[of db' change T C db] entry_blocks(1)[OF assms(1,2), of change]
    by (simp add: undo_last_def assms(3))
qed

end
