(* ===== verification/Blocks.thy ===== *)
theory Blocks
  imports Undo
begin

text \<open>
  The owner's changes to blocks (\<open>block_service.rs\<close>). Each operation runs in one transaction: it journals
  the rows it is about to touch, writes, seals the journal entry and commits; an error before the commit
  leaves the state as it was. The audit log and the search index that a change refreshes afterwards keep
  no state a block depends on and are left out.
\<close>

section \<open>Operations\<close>

text \<open>\<open>chrono\<close>'s reader of RFC 3339 texts and its printer \<open>%Y-%m-%dT%H:%M:%S%:z\<close>, which drops the
  fraction of the second.\<close>

record stamps =
  st_parse :: "string \<Rightarrow> instant option"
  st_show :: "int \<Rightarrow> string"

definition derive_ended_at :: "stamps \<Rightarrow> string \<Rightarrow> int \<Rightarrow> block_error + string" where
  "derive_ended_at st started_at duration_seconds =
     (case st_parse st started_at of
        None \<Rightarrow> Inl (BadStart started_at)
      | Some start \<Rightarrow> Inr (st_show st (timestamp (start + seconds duration_seconds))))"

text \<open>\<open>MARK_DIRTY_IF_SYNCED\<close>.\<close>

definition mark_dirty_if_synced :: "block \<Rightarrow> block" where
  "mark_dirty_if_synced b =
     b\<lparr>bk_dirty := (case bk_tempo b of None \<Rightarrow> bk_dirty b | Some t \<Rightarrow> if t \<noteq> [] then True else bk_dirty b)\<rparr>"

definition fresh :: "int \<Rightarrow> block_db \<Rightarrow> (block_error + block) \<times> block_db" where
  "fresh i db = (case get_block db i of None \<Rightarrow> Inl (BlockNotFound i) | Some b \<Rightarrow> Inr b, db)"

definition set_ticket :: "string option \<Rightarrow> block \<Rightarrow> block" where
  "set_ticket key b =
     (case key of
        Some k \<Rightarrow> mark_dirty_if_synced (b\<lparr>bk_jira := Some k, bk_origin := Some Manual, bk_personal := False\<rparr>)
      | None \<Rightarrow> mark_dirty_if_synced (b\<lparr>bk_jira := None, bk_origin := Some Manual\<rparr>))"

definition assign_ticket :: "int \<Rightarrow> string option \<Rightarrow> block_db \<Rightarrow> (block_error + block) \<times> block_db" where
  "assign_ticket i key db =
     fresh i (seal [] (update_block i (set_ticket key) (record_change ChangeTicket [i] db)))"

definition set_hours :: "int \<Rightarrow> string \<Rightarrow> block \<Rightarrow> block" where
  "set_hours secs ended_at b =
     mark_dirty_if_synced (b\<lparr>bk_secs := secs, bk_end := ended_at, bk_by := Some ''manual''\<rparr>)"

definition set_duration :: "stamps \<Rightarrow> int \<Rightarrow> nat \<Rightarrow> block_db \<Rightarrow> (block_error + block) \<times> block_db" where
  "set_duration st i mins db =
     (case db_blocks db i of
        None \<Rightarrow> (Inl (BlockNotFound i), db)
      | Some b \<Rightarrow>
          (case derive_ended_at st (bk_start b) (int mins * 60) of
             Inl e \<Rightarrow> (Inl e, db)
           | Inr new_end \<Rightarrow>
               fresh i (seal [] (update_block i (set_hours (int mins * 60) new_end) (record_change ChangeHours [i] db)))))"

definition set_text :: "string \<Rightarrow> block \<Rightarrow> block" where
  "set_text description b =
     mark_dirty_if_synced (b\<lparr>bk_desc := Some description, bk_by := Some ''manual'',
       bk_desc_origin := (if bk_note b \<noteq> None then Some Hand else bk_desc_origin b)\<rparr>)"

definition set_description :: "int \<Rightarrow> string \<Rightarrow> block_db \<Rightarrow> (block_error + block) \<times> block_db" where
  "set_description i description db =
     fresh i (seal [] (update_block i (set_text description) (record_change ChangeText [i] db)))"

definition set_personal :: "int \<Rightarrow> bool \<Rightarrow> block_db \<Rightarrow> (block_error + block) \<times> block_db" where
  "set_personal i personal db =
     fresh i (seal [] (update_block i (\<lambda>b. b\<lparr>bk_personal := personal\<rparr>) (record_change ChangePersonal [i] db)))"

definition nonempty_text :: "string option \<Rightarrow> bool" where
  "nonempty_text v = (case v of None \<Rightarrow> False | Some s \<Rightarrow> s \<noteq> [])"

definition clear_skips :: "int \<Rightarrow> block_db \<Rightarrow> block_db" where
  "clear_skips i db =
     db\<lparr>db_skips := {s \<in> db_skips db. \<not> (\<exists>l\<in>db_links db. fst l = i \<and> db_event_session db (snd l) = Some s)}\<rparr>"

definition set_ignored :: "string \<Rightarrow> int \<Rightarrow> bool \<Rightarrow> ignore_reason option \<Rightarrow> block_db \<Rightarrow> (block_error + block) \<times> block_db" where
  "set_ignored now i ignored reason db =
     (case get_block db i of
        None \<Rightarrow> (Inl (BlockNotFound i), db)
      | Some b \<Rightarrow>
          (let db' = record_change ChangeIgnored [i] db
           in if ignored then
                (if nonempty_text (bk_tempo b) then (Inl AlreadySynced, db)
                 else if nonempty_text (bk_exported b) then (Inl AlreadyExported, db)
                 else fresh i (seal [] (update_block i
                        (\<lambda>b. b\<lparr>bk_ignored := Some now, bk_personal := True, bk_reason := reason\<rparr>) db')))
              else fresh i (seal [] (update_block i
                     (\<lambda>b. b\<lparr>bk_ignored := None, bk_reason := None, bk_personal := False\<rparr>) (clear_skips i db')))))"

definition unexported_on :: "string \<Rightarrow> block \<Rightarrow> bool" where
  "unexported_on day b = (bk_day b = day \<and> bk_exported b \<in> {None, Some []})"

text \<open>The rows written are counted over the ids handed out so far.\<close>

definition mark_exported :: "string \<Rightarrow> string \<Rightarrow> block_db \<Rightarrow> nat \<times> block_db" where
  "mark_exported now day db =
     (length (filter (\<lambda>i. case db_blocks db i of None \<Rightarrow> False | Some b \<Rightarrow> unexported_on day b) [1..db_next db - 1]),
      db\<lparr>db_blocks := (\<lambda>i. map_option (\<lambda>b. if unexported_on day b then b\<lparr>bk_exported := Some now\<rparr> else b) (db_blocks db i))\<rparr>)"

definition delete_block :: "int \<Rightarrow> block_db \<Rightarrow> (block_error + unit) \<times> block_db" where
  "delete_block i db =
     (if db_blocks db i = None then (Inl (BlockNotFound i), db)
      else (Inr (), seal [] (delete_row i (record_change ChangeDelete [i] db))))"

fun merge_others :: "block_db \<Rightarrow> block \<Rightarrow> block list \<Rightarrow> int list \<Rightarrow> block_error + block list" where
  "merge_others db primary others [] = Inr others"
| "merge_others db primary others (i # ids) =
     (if i = bk_id primary then Inl (MergeSelf i)
      else if list_ex (\<lambda>b. bk_id b = i) others then Inl (MergeTwice i)
      else case get_block db i of
             None \<Rightarrow> Inl (BlockNotFound i)
           | Some b \<Rightarrow>
               if bk_day b \<noteq> bk_day primary then Inl (OtherDay i)
               else if is_synced b then Inl (AbsorbedSynced i)
               else merge_others db primary (others @ [b]) ids)"

text \<open>\<open>UPDATE OR IGNORE block_events\<close>, then the absorbed row goes with the links left on it.\<close>

definition absorb :: "int \<Rightarrow> block_db \<Rightarrow> int \<Rightarrow> block_db" where
  "absorb primary db i =
     delete_row i (db\<lparr>db_links := {l \<in> db_links db. fst l \<noteq> i} \<union> Pair primary ` links_of db i
                              \<union> {l \<in> db_links db. fst l = i \<and> (primary, snd l) \<in> db_links db}\<rparr>)"

definition merge_blocks :: "stamps \<Rightarrow> int \<Rightarrow> int list \<Rightarrow> block_db \<Rightarrow> (block_error + block \<times> int list) \<times> block_db" where
  "merge_blocks st primary_id absorb_ids db =
     (if absorb_ids = [] then (Inl (NothingToMerge primary_id), db)
      else case get_block db primary_id of
        None \<Rightarrow> (Inl (BlockNotFound primary_id), db)
      | Some primary \<Rightarrow>
          (case merge_others db primary [] absorb_ids of
             Inl e \<Rightarrow> (Inl e, db)
           | Inr others \<Rightarrow>
               (let started_at = Min (set (map bk_start (primary # others)));
                    total_seconds = sum_list (map bk_secs (primary # others))
                in case derive_ended_at st started_at total_seconds of
                     Inl e \<Rightarrow> (Inl e, db)
                   | Inr ended_at \<Rightarrow>
                       (let touched = primary_id # map bk_id others;
                            db = record_change ChangeMerge touched db;
                            db = foldl (absorb primary_id) db (map bk_id others);
                            db = update_block primary_id (\<lambda>b. mark_dirty_if_synced
                                   (b\<lparr>bk_start := started_at, bk_end := ended_at, bk_secs := total_seconds\<rparr>)) db;
                            (res, db) = fresh primary_id (seal [] db)
                        in (map_sum id (\<lambda>b. (b, map bk_id others)) res, db)))))"

definition tail_block :: "int \<Rightarrow> string \<Rightarrow> int \<Rightarrow> block \<Rightarrow> block" where
  "tail_block i boundary secs b =
     \<lparr>bk_id = i, bk_day = bk_day b, bk_jira = bk_jira b, bk_start = boundary, bk_end = bk_end b, bk_secs = secs,
      bk_desc = bk_desc b, bk_by = Some ''manual'', bk_flagged = bk_flagged b, bk_tempo = None,
      bk_personal = bk_personal b, bk_dirty = False, bk_exported = None, bk_ignored = None, bk_reason = None,
      bk_dsecs = None, bk_origin = bk_origin b, bk_note = None, bk_desc_origin = None\<rparr>"

definition insert_block :: "block \<Rightarrow> block_db \<Rightarrow> block_db" where
  "insert_block b db = db\<lparr>db_blocks := (db_blocks db)(db_next db \<mapsto> b), db_next := db_next db + 1\<rparr>"

definition moves_to_tail :: "block_db \<Rightarrow> int \<Rightarrow> string \<Rightarrow> int \<times> int \<Rightarrow> bool" where
  "moves_to_tail db i boundary l =
     (fst l = i \<and> (case db_event_start db (snd l) of None \<Rightarrow> False | Some s \<Rightarrow> boundary \<le> s))"

definition rebucket :: "int \<Rightarrow> int \<Rightarrow> string \<Rightarrow> block_db \<Rightarrow> block_db" where
  "rebucket i second_id boundary db =
     db\<lparr>db_links := (\<lambda>l. if moves_to_tail db i boundary l then (second_id, snd l) else l) ` db_links db\<rparr>"

definition split_block_at :: "stamps \<Rightarrow> int \<Rightarrow> nat \<Rightarrow> block_db \<Rightarrow> (block_error + block \<times> block) \<times> block_db" where
  "split_block_at st i first_minutes db =
     (case get_block db i of
        None \<Rightarrow> (Inl (BlockNotFound i), db)
      | Some b \<Rightarrow>
          (let first_secs = int first_minutes * 60
           in if first_secs \<le> 0 \<or> bk_secs b \<le> first_secs then (Inl (BadSplitPoint first_minutes), db)
              else case derive_ended_at st (bk_start b) first_secs of
                     Inl e \<Rightarrow> (Inl e, db)
                   | Inr boundary \<Rightarrow>
                       (let second_id = db_next db;
                            db = record_change ChangeSplit [i] db;
                            db = update_block i (set_hours first_secs boundary) db;
                            db = insert_block (tail_block second_id boundary (bk_secs b - first_secs) b) db;
                            db = rebucket i second_id boundary db;
                            db = seal [second_id] db
                        in (case (get_block db i, get_block db second_id) of
                              (Some x, Some y) \<Rightarrow> Inr (x, y)
                            | (None, _) \<Rightarrow> Inl (BlockNotFound i)
                            | (_, None) \<Rightarrow> Inl (BlockNotFound second_id), db))))"

section \<open>The operations as one step\<close>

datatype block_op =
    AssignTicket int "string option"
  | SetDuration int nat
  | SetDescription int string
  | SetPersonal int bool
  | SetIgnored int bool "ignore_reason option"
  | DeleteBlock int
  | MergeBlocks int "int list"
  | SplitBlock int nat

definition outcome :: "(block_error + 'a) \<times> block_db \<Rightarrow> block_error option \<times> block_db" where
  "outcome r = (case fst r of Inl e \<Rightarrow> Some e | Inr _ \<Rightarrow> None, snd r)"

fun run_op :: "stamps \<Rightarrow> string \<Rightarrow> block_op \<Rightarrow> block_db \<Rightarrow> block_error option \<times> block_db" where
  "run_op st now (AssignTicket i key) db = outcome (assign_ticket i key db)"
| "run_op st now (SetDuration i mins) db = outcome (set_duration st i mins db)"
| "run_op st now (SetDescription i t) db = outcome (set_description i t db)"
| "run_op st now (SetPersonal i p) db = outcome (set_personal i p db)"
| "run_op st now (SetIgnored i ig reason) db = outcome (set_ignored now i ig reason db)"
| "run_op st now (DeleteBlock i) db = outcome (delete_block i db)"
| "run_op st now (MergeBlocks i ids) db = outcome (merge_blocks st i ids db)"
| "run_op st now (SplitBlock i m) db = outcome (split_block_at st i m db)"

fun op_touches :: "block_op \<Rightarrow> int list" where
  "op_touches (AssignTicket i key) = [i]"
| "op_touches (SetDuration i mins) = [i]"
| "op_touches (SetDescription i t) = [i]"
| "op_touches (SetPersonal i p) = [i]"
| "op_touches (SetIgnored i ig reason) = [i]"
| "op_touches (DeleteBlock i) = [i]"
| "op_touches (MergeBlocks i ids) = i # ids"
| "op_touches (SplitBlock i m) = [i]"

fun op_change :: "block_op \<Rightarrow> block_change" where
  "op_change (AssignTicket i key) = ChangeTicket"
| "op_change (SetDuration i mins) = ChangeHours"
| "op_change (SetDescription i t) = ChangeText"
| "op_change (SetPersonal i p) = ChangePersonal"
| "op_change (SetIgnored i ig reason) = ChangeIgnored"
| "op_change (DeleteBlock i) = ChangeDelete"
| "op_change (MergeBlocks i ids) = ChangeMerge"
| "op_change (SplitBlock i m) = ChangeSplit"

section \<open>Shared facts of the writers\<close>

lemma record_change_simps [simp]:
  "db_blocks (record_change c T db) = db_blocks db" "db_links (record_change c T db) = db_links db"
  "db_digests (record_change c T db) = db_digests db" "db_event_start (record_change c T db) = db_event_start db"
  "db_event_session (record_change c T db) = db_event_session db" "db_skips (record_change c T db) = db_skips db"
  "db_next (record_change c T db) = db_next db"
  by (simp_all add: record_change_def Let_def)

lemma update_block_simps [simp]:
  "db_blocks (update_block i f db) = (db_blocks db)(i := map_option f (db_blocks db i))"
  "db_links (update_block i f db) = db_links db"
  "db_digests (update_block i f db) = db_digests db" "db_event_start (update_block i f db) = db_event_start db"
  "db_event_session (update_block i f db) = db_event_session db" "db_skips (update_block i f db) = db_skips db"
  "db_journal (update_block i f db) = db_journal db" "db_next (update_block i f db) = db_next db"
  by (simp_all add: update_block_def)

lemma delete_row_simps [simp]:
  "db_blocks (delete_row i db) = (db_blocks db)(i := None)"
  "db_links (delete_row i db) = {l \<in> db_links db. fst l \<noteq> i}"
  "db_digests (delete_row i db) = (db_digests db)(i := None)" "db_event_start (delete_row i db) = db_event_start db"
  "db_journal (delete_row i db) = db_journal db" "db_next (delete_row i db) = db_next db"
  by (simp_all add: delete_row_def)

lemma clear_skips_simps [simp]:
  "db_blocks (clear_skips i db) = db_blocks db" "db_links (clear_skips i db) = db_links db"
  "db_digests (clear_skips i db) = db_digests db" "db_event_start (clear_skips i db) = db_event_start db"
  "db_journal (clear_skips i db) = db_journal db" "db_next (clear_skips i db) = db_next db"
  by (simp_all add: clear_skips_def)

lemma seal_simps [simp]:
  "db_blocks (seal C db) = db_blocks db" "db_links (seal C db) = db_links db"
  "db_digests (seal C db) = db_digests db" "db_event_start (seal C db) = db_event_start db"
  "db_next (seal C db) = db_next db" "db_skips (seal C db) = db_skips db"
  by (simp_all add: seal_def split: list.splits)

lemma insert_block_simps [simp]:
  "db_blocks (insert_block b db) = (db_blocks db)(db_next db \<mapsto> b)"
  "db_links (insert_block b db) = db_links db" "db_digests (insert_block b db) = db_digests db"
  "db_event_start (insert_block b db) = db_event_start db" "db_journal (insert_block b db) = db_journal db"
  "db_next (insert_block b db) = db_next db + 1"
  by (simp_all add: insert_block_def)

lemma rebucket_simps [simp]:
  "db_blocks (rebucket i j s db) = db_blocks db" "db_digests (rebucket i j s db) = db_digests db"
  "db_event_start (rebucket i j s db) = db_event_start db" "db_journal (rebucket i j s db) = db_journal db"
  "db_next (rebucket i j s db) = db_next db"
  by (simp_all add: rebucket_def)

lemma mark_dirty_simps [simp]:
  "bk_id (mark_dirty_if_synced b) = bk_id b" "bk_tempo (mark_dirty_if_synced b) = bk_tempo b"
  "bk_exported (mark_dirty_if_synced b) = bk_exported b" "bk_secs (mark_dirty_if_synced b) = bk_secs b"
  "bk_personal (mark_dirty_if_synced b) = bk_personal b" "bk_jira (mark_dirty_if_synced b) = bk_jira b"
  "bk_start (mark_dirty_if_synced b) = bk_start b" "bk_end (mark_dirty_if_synced b) = bk_end b"
  "bk_day (mark_dirty_if_synced b) = bk_day b" "bk_desc (mark_dirty_if_synced b) = bk_desc b"
  "bk_ignored (mark_dirty_if_synced b) = bk_ignored b"
  by (simp_all add: mark_dirty_if_synced_def)

text \<open>A writer keeps the id and the markers of a row.\<close>

definition keeps_markers :: "(block \<Rightarrow> block) \<Rightarrow> bool" where
  "keeps_markers f = (\<forall>b. bk_id (f b) = bk_id b \<and> bk_tempo (f b) = bk_tempo b \<and> bk_exported (f b) = bk_exported b)"

lemma writers_keep [simp]:
  "keeps_markers (set_ticket key)" "keeps_markers (set_hours secs ended_at)" "keeps_markers (set_text t)"
  "keeps_markers (\<lambda>b. b\<lparr>bk_personal := p\<rparr>)"
  "keeps_markers (\<lambda>b. b\<lparr>bk_ignored := Some now, bk_personal := True, bk_reason := reason\<rparr>)"
  "keeps_markers (\<lambda>b. b\<lparr>bk_ignored := None, bk_reason := None, bk_personal := False\<rparr>)"
  "keeps_markers (\<lambda>b. mark_dirty_if_synced (b\<lparr>bk_start := s, bk_end := e, bk_secs := n\<rparr>))"
  by (simp_all add: keeps_markers_def set_ticket_def set_hours_def set_text_def split: option.splits)

definition never_sent :: "block_db \<Rightarrow> int list \<Rightarrow> bool" where
  "never_sent db T = list_all (\<lambda>i. case db_blocks db i of None \<Rightarrow> True | Some b \<Rightarrow> bk_tempo b = None) T"

lemma changed_only_update:
  assumes "db_blocks db i = Some b" "never_sent db [i]" "keeps_markers f"
    "db_blocks db' = (db_blocks db)(i \<mapsto> f b)" "db_links db' = db_links db"
    "db_digests db' = db_digests db" "db_event_start db' = db_event_start db"
  shows "changed_only [i] [] db db'"
  using assms by (simp add: changed_only_def never_sent_def keeps_markers_def)

lemma change_then_undo:
  assumes "db_ok db" "changed_only T C db db2" "db_journal db2 = db_journal (record_change ch T db)"
  shows "undo_last (seal C db2) = (Inr (Restored ch T), (seal C db2)\<lparr>db_blocks := db_blocks db, db_links := db_links db,
      db_digests := db_digests db, db_journal := take (UNDO_DEPTH - 1) (db_journal db)\<rparr>)"
    and "length (db_journal (seal C db2)) = min UNDO_DEPTH (Suc (length (db_journal db)))"
proof -
  from assms(2) obtain i b where i: "i \<in> set T" "db_blocks db i = Some b"
    unfolding changed_only_def by (metis list.set_intros(1) neq_Nil_conv)
  have ne: "List.map_filter (snapshot_of db) T \<noteq> []"
  proof -
    from i obtain s where "snapshot_of db i = Some s" by (auto simp: snapshot_of_def)
    with i(1) have "s \<in> set (List.map_filter (snapshot_of db) T)" by (induction T) (auto simp: map_filter_simps split: option.splits)
    then show ?thesis by (metis empty_iff list.set(1))
  qed
  from record_then_seal[OF ne assms(3)]
  have s: "seal C db2 = db2\<lparr>db_journal := take UNDO_DEPTH (entry_for ch T C db db2 # db_journal db)\<rparr>" .
  have c: "changed_only T C db (seal C db2)" using assms(2) unfolding changed_only_def seal_simps .
  have "entry_for ch T C db (seal C db2) = entry_for ch T C db db2" by (simp add: entry_for_def)
  then have j: "db_journal (seal C db2) = entry_for ch T C db (seal C db2) # take (UNDO_DEPTH - 1) (db_journal db)"
    unfolding s by (simp add: UNDO_DEPTH_def)
  from undo_restores[OF assms(1) c j]
  show "undo_last (seal C db2) = (Inr (Restored ch T), (seal C db2)\<lparr>db_blocks := db_blocks db, db_links := db_links db,
      db_digests := db_digests db, db_journal := take (UNDO_DEPTH - 1) (db_journal db)\<rparr>)" .
  show "length (db_journal (seal C db2)) = min UNDO_DEPTH (Suc (length (db_journal db)))"
    unfolding j by (simp add: UNDO_DEPTH_def)
qed

section \<open>Each operation can be undone\<close>

lemma outcome_None: "outcome r = (None, db') \<longleftrightarrow> (\<exists>x. r = (Inr x, db'))"
  by (cases r; cases "fst r") (auto simp: outcome_def)

lemma fresh_Inr: "fresh i db = (Inr x, db') \<longleftrightarrow> db' = db \<and> db_blocks db i = Some x"
  by (auto simp: fresh_def get_block_def split: option.splits)

text \<open>What an operation that succeeds has done: the rows it touched and the rows it made.\<close>

definition done_as :: "block_change \<Rightarrow> int list \<Rightarrow> block_db \<Rightarrow> block_db \<Rightarrow> bool" where
  "done_as ch T db db' = (\<exists>C db2. db' = seal C db2 \<and> changed_only T C db db2 \<and> db_journal db2 = db_journal (record_change ch T db))"

lemma done_as_update:
  assumes "db_blocks db' i = Some b'" "never_sent db [i]" "keeps_markers f"
    "db' = seal [] (update_block i f db2)" "db_journal db2 = db_journal (record_change ch [i] db)"
    "db_blocks db2 = db_blocks db" "db_links db2 = db_links db" "db_digests db2 = db_digests db"
    "db_event_start db2 = db_event_start db"
  shows "done_as ch [i] db db'"
proof -
  from assms(1,4,6) obtain b where b: "db_blocks db i = Some b" by auto
  have "changed_only [i] [] db (update_block i f db2)"
    by (rule changed_only_update[OF b assms(2,3)]) (simp_all add: assms b)
  then show ?thesis using assms(4,5) unfolding done_as_def by (intro exI[of _ "[]"] exI[of _ "update_block i f db2"]) simp
qed

lemma done_as_fresh:
  assumes "fresh i (seal [] (update_block i f db2)) = (Inr x, db')" "never_sent db [i]" "keeps_markers f"
    "db_journal db2 = db_journal (record_change ch [i] db)"
    "db_blocks db2 = db_blocks db" "db_links db2 = db_links db" "db_digests db2 = db_digests db"
    "db_event_start db2 = db_event_start db"
  shows "done_as ch [i] db db'"
proof -
  from assms(1) have "db' = seal [] (update_block i f db2)" "db_blocks db' i = Some x" by (simp_all add: fresh_Inr)
  from done_as_update[OF this(2) assms(2,3) this(1) assms(4-8)] show ?thesis .
qed

lemma delete_done:
  assumes "delete_block i db = (Inr x, db')" "never_sent db [i]"
  shows "done_as ChangeDelete [i] db db'"
proof -
  from assms(1) obtain b where b: "db_blocks db i = Some b"
    and db': "db' = seal [] (delete_row i (record_change ChangeDelete [i] db))"
    by (auto simp: delete_block_def split: if_splits)
  have "changed_only [i] [] db (delete_row i (record_change ChangeDelete [i] db))"
    using b assms(2) by (auto simp: changed_only_def never_sent_def)
  with db' show ?thesis unfolding done_as_def by (intro exI[of _ "[]"] exI[of _ "delete_row i (record_change ChangeDelete [i] db)"]) simp
qed

section \<open>Merging\<close>

lemma merge_others_Inr:
  assumes "db_ok db"
  shows "merge_others db primary others ids = Inr res \<Longrightarrow>
    \<exists>new. res = others @ new \<and> map bk_id new = ids \<and> bk_id primary \<notin> set ids \<and> distinct ids \<and>
    set ids \<inter> bk_id ` set others = {} \<and>
    (\<forall>b\<in>set new. db_blocks db (bk_id b) = Some b \<and> bk_day b = bk_day primary \<and> \<not> is_synced b)"
proof (induction ids arbitrary: others)
  case (Cons i ids)
  then obtain b where b: "db_blocks db i = Some b" "i \<noteq> bk_id primary" "\<forall>x\<in>set others. bk_id x \<noteq> i"
      "bk_day b = bk_day primary" "\<not> is_synced b" "merge_others db primary (others @ [b]) ids = Inr res"
    by (auto simp: get_block_def list_ex_iff split: if_splits option.splits)
  have "bk_id b = i" by (rule db_okD(1)[OF assms b(1)])
  from Cons.IH[OF b(6)] obtain new where new: "res = (others @ [b]) @ new" "map bk_id new = ids" "bk_id primary \<notin> set ids"
    "distinct ids" "set ids \<inter> bk_id ` set (others @ [b]) = {}"
    "\<forall>b\<in>set new. db_blocks db (bk_id b) = Some b \<and> bk_day b = bk_day primary \<and> \<not> is_synced b" by blast
  have all: "\<forall>x\<in>set (b # new). db_blocks db (bk_id x) = Some x \<and> bk_day x = bk_day primary \<and> \<not> is_synced x"
    using new(6) b(1,4,5) \<open>bk_id b = i\<close> by (simp only: list.set ball_simps simp_thms)
  have fresh: "i \<notin> set ids" "set ids \<inter> bk_id ` set others = {}" using new(5) \<open>bk_id b = i\<close> by auto
  have "i \<notin> bk_id ` set others" using b(3) by auto
  with fresh(2) have disj: "set (i # ids) \<inter> bk_id ` set others = {}" by simp
  show ?case
    by (intro exI[of _ "b # new"] conjI) (use new(1-4) fresh(1) disj all b(2) \<open>bk_id b = i\<close> in \<open>simp_all only: append.assoc append.simps list.map list.set insert_iff distinct.simps simp_thms\<close>)
qed simp

lemma absorb_simps [simp]:
  "db_blocks (absorb p db i) = (db_blocks db)(i := None)" "db_digests (absorb p db i) = (db_digests db)(i := None)"
  "db_event_start (absorb p db i) = db_event_start db" "db_journal (absorb p db i) = db_journal db"
  "db_next (absorb p db i) = db_next db"
  "(x, e) \<in> db_links (absorb p db i) \<longleftrightarrow> x \<noteq> i \<and> ((x, e) \<in> db_links db \<or> (x = p \<and> (i, e) \<in> db_links db))"
  by (auto simp: absorb_def)

lemma foldl_absorb:
  "db_blocks (foldl (absorb p) db ids) = (\<lambda>i. if i \<in> set ids then None else db_blocks db i)"
  "db_digests (foldl (absorb p) db ids) = (\<lambda>i. if i \<in> set ids then None else db_digests db i)"
  "db_event_start (foldl (absorb p) db ids) = db_event_start db" "db_journal (foldl (absorb p) db ids) = db_journal db"
  "db_next (foldl (absorb p) db ids) = db_next db"
  by (induction ids arbitrary: db) auto

lemma foldl_absorb_links:
  "p \<notin> set ids \<Longrightarrow> distinct ids \<Longrightarrow> (x, e) \<in> db_links (foldl (absorb p) db ids) \<longleftrightarrow>
     x \<notin> set ids \<and> ((x, e) \<in> db_links db \<or> (x = p \<and> (\<exists>i\<in>set ids. (i, e) \<in> db_links db)))"
  by (induction ids arbitrary: db) auto

text \<open>A merge that succeeds, in one place.\<close>

definition merged_row :: "string \<Rightarrow> string \<Rightarrow> int \<Rightarrow> block \<Rightarrow> block" where
  "merged_row started_at ended_at secs b = mark_dirty_if_synced (b\<lparr>bk_start := started_at, bk_end := ended_at, bk_secs := secs\<rparr>)"

lemma merge_blocksE:
  assumes "db_ok db" "merge_blocks st p ids db = (Inr (m, absorbed), db')"
  obtains primary others ended_at db2 where "db_blocks db p = Some primary" "bk_id primary = p" "ids \<noteq> []" "absorbed = ids"
    "map bk_id others = ids" "p \<notin> set ids" "distinct ids"
    "\<forall>b\<in>set others. db_blocks db (bk_id b) = Some b \<and> bk_day b = bk_day primary \<and> \<not> is_synced b"
    "derive_ended_at st (Min (set (map bk_start (primary # others)))) (sum_list (map bk_secs (primary # others))) = Inr ended_at"
    "m = merged_row (Min (set (map bk_start (primary # others)))) ended_at (sum_list (map bk_secs (primary # others))) primary"
    "db2 = update_block p (merged_row (Min (set (map bk_start (primary # others)))) ended_at (sum_list (map bk_secs (primary # others))))
      (foldl (absorb p) (record_change ChangeMerge (p # ids) db) ids)"
    "db' = seal [] db2"
proof -
  from assms(2) obtain primary where p: "db_blocks db p = Some primary" and ne: "ids \<noteq> []"
    by (auto simp: merge_blocks_def get_block_def split: if_splits option.splits)
  have id: "bk_id primary = p" by (rule db_okD(1)[OF assms(1) p])
  from assms(2) p ne obtain others where oth: "merge_others db primary [] ids = Inr others"
    by (auto simp: merge_blocks_def get_block_def split: sum.splits)
  let ?s = "Min (set (map bk_start (primary # others)))"
  let ?n = "sum_list (map bk_secs (primary # others))"
  from assms(2) p ne oth obtain ended_at where e: "derive_ended_at st ?s ?n = Inr ended_at"
    by (cases "derive_ended_at st ?s ?n") (auto simp: merge_blocks_def get_block_def Let_def)
  from merge_others_Inr[OF assms(1) oth] id have m: "map bk_id others = ids" "p \<notin> set ids" "distinct ids"
    "\<forall>b\<in>set others. db_blocks db (bk_id b) = Some b \<and> bk_day b = bk_day primary \<and> \<not> is_synced b" by auto
  let ?db2 = "update_block p (merged_row ?s ended_at ?n) (foldl (absorb p) (record_change ChangeMerge (p # ids) db) ids)"
  from assms(2) have "merge_blocks st p ids db = (map_sum id (\<lambda>b. (b, ids)) (fst (fresh p (seal [] ?db2))), snd (fresh p (seal [] ?db2)))"
    unfolding merge_blocks_def merged_row_def
    using p ne oth e m(1) by (simp only: if_False get_block_def option.case sum.case Let_def split_def)
  moreover have "fresh p (seal [] ?db2) = (Inr (merged_row ?s ended_at ?n primary), seal [] ?db2)"
    using p m(2) by (simp add: fresh_def get_block_def foldl_absorb)
  ultimately have "m = merged_row ?s ended_at ?n primary" "absorbed = ids" "db' = seal [] ?db2" using assms(2) by simp_all
  with that[OF p id ne _ m(1-4) e] show thesis by blast
qed

lemma merge_done:
  assumes "db_ok db" "merge_blocks st p ids db = (Inr r, db')" "never_sent db (p # ids)"
  shows "done_as ChangeMerge (p # ids) db db'"
proof -
  obtain m absorbed where "r = (m, absorbed)" by fastforce
  with assms(2) have "merge_blocks st p ids db = (Inr (m, absorbed), db')" by simp
  from merge_blocksE[OF assms(1) this] obtain primary others ended_at db2 where
    p: "db_blocks db p = Some primary" and ids: "map bk_id others = ids" "p \<notin> set ids" "distinct ids"
      "\<forall>b\<in>set others. db_blocks db (bk_id b) = Some b \<and> bk_day b = bk_day primary \<and> \<not> is_synced b"
    and db2: "db2 = update_block p (merged_row (Min (set (map bk_start (primary # others)))) ended_at (sum_list (map bk_secs (primary # others))))
      (foldl (absorb p) (record_change ChangeMerge (p # ids) db) ids)"
    and db': "db' = seal [] db2" by metis
  have sent: "bk_tempo primary = None" "\<forall>i\<in>set ids. \<forall>b. db_blocks db i = Some b \<longrightarrow> bk_tempo b = None"
    using assms(3) p by (auto simp: never_sent_def list_all_iff split: option.splits)
  have ex: "\<exists>b. db_blocks db i = Some b" if "i \<in> set ids" for i
    using ids(1,4) that by force
  have "changed_only (p # ids) [] db db2"
    unfolding changed_only_def
  proof (intro conjI allI impI ballI)
    fix i assume "i \<in> set (p # ids)"
    then consider "i = p" | "i \<in> set ids" "i \<noteq> p" using ids(2) by auto
    then show "\<exists>b. db_blocks db i = Some b \<and> bk_tempo b = None \<and>
        (case db_blocks db2 i of
           Some b' \<Rightarrow> bk_tempo b' = None \<and> bk_exported b' = bk_exported b \<and> db_digests db2 i = db_digests db i
         | None \<Rightarrow> db_digests db2 i = None)"
    proof cases
      case 1
      with p sent(1) ids(2) show ?thesis by (simp add: db2 foldl_absorb merged_row_def)
    next
      case 2
      with ex[OF 2(1)] sent(2) show ?thesis by (auto simp: db2 foldl_absorb)
    qed
  qed (use ids(2,3) in \<open>auto simp: db2 foldl_absorb foldl_absorb_links\<close>)
  with db' show ?thesis
    unfolding done_as_def by (intro exI[of _ "[]"] exI[of _ db2]) (simp add: db2 foldl_absorb)
qed

section \<open>Splitting\<close>

lemma split_blockE:
  assumes "split_block_at st i m db = (Inr (x, y), db')" "db_ok db"
  obtains b boundary db2 where "db_blocks db i = Some b" "i < db_next db" "0 < m" "int m * 60 < bk_secs b"
    "derive_ended_at st (bk_start b) (int m * 60) = Inr boundary"
    "x = set_hours (int m * 60) boundary b" "y = tail_block (db_next db) boundary (bk_secs b - int m * 60) b"
    "db2 = rebucket i (db_next db) boundary (insert_block y (update_block i (set_hours (int m * 60) boundary)
       (record_change ChangeSplit [i] db)))"
    "db' = seal [db_next db] db2"
proof -
  from assms(1) obtain b where b: "db_blocks db i = Some b" by (auto simp: split_block_at_def get_block_def split: option.splits)
  have i: "i < db_next db" by (rule db_okD(2)[OF assms(2) b])
  from assms(1) b have m: "0 < m" "int m * 60 < bk_secs b"
    by (auto simp: split_block_at_def get_block_def Let_def split: if_splits)
  from assms(1) b m obtain boundary where d: "derive_ended_at st (bk_start b) (int m * 60) = Inr boundary"
    by (cases "derive_ended_at st (bk_start b) (int m * 60)") (auto simp: split_block_at_def get_block_def Let_def)
  let ?y = "tail_block (db_next db) boundary (bk_secs b - int m * 60) b"
  let ?db2 = "rebucket i (db_next db) boundary (insert_block ?y (update_block i (set_hours (int m * 60) boundary)
       (record_change ChangeSplit [i] db)))"
  have "split_block_at st i m db = (Inr (set_hours (int m * 60) boundary b, ?y), seal [db_next db] ?db2)"
    using b m d i by (simp add: split_block_at_def get_block_def Let_def)
  with assms(1) have "x = set_hours (int m * 60) boundary b" "y = ?y" "db' = seal [db_next db] ?db2"
    unfolding assms(1) prod.inject sum.inject by blast+
  with that[OF b i m d] show thesis by blast
qed

lemma rebucket_links:
  assumes "\<forall>e. (j, e) \<notin> db_links db" "i \<noteq> j"
  shows "(k, e) \<in> db_links (rebucket i j s db) \<longleftrightarrow>
     (if k = j then (i, e) \<in> db_links db \<and> moves_to_tail db i s (i, e)
      else (k, e) \<in> db_links db \<and> \<not> moves_to_tail db i s (k, e))"
proof -
  have mv: "moves_to_tail db i s l \<Longrightarrow> fst l = i" for l by (simp add: moves_to_tail_def)
  show ?thesis
  proof (cases "k = j")
    case True
    have "(j, e) \<in> db_links (rebucket i j s db) \<longleftrightarrow> (\<exists>l\<in>db_links db. moves_to_tail db i s l \<and> snd l = e)"
      using assms(1) by (auto simp: rebucket_def image_iff)
    also have "\<dots> \<longleftrightarrow> (i, e) \<in> db_links db \<and> moves_to_tail db i s (i, e)" using mv by force
    finally show ?thesis using True by simp
  next
    case False
    then show ?thesis by (auto simp: rebucket_def image_iff)
  qed
qed

lemma split_done:
  assumes "db_ok db" "split_block_at st i m db = (Inr r, db')" "never_sent db [i]"
  shows "done_as ChangeSplit [i] db db'"
proof -
  obtain x y where "r = (x, y)" by fastforce
  with assms(2) have "split_block_at st i m db = (Inr (x, y), db')" by simp
  from split_blockE[OF this assms(1)] obtain b boundary db2 where b: "db_blocks db i = Some b" "i < db_next db"
    and y: "y = tail_block (db_next db) boundary (bk_secs b - int m * 60) b"
    and db2: "db2 = rebucket i (db_next db) boundary (insert_block y (update_block i (set_hours (int m * 60) boundary)
       (record_change ChangeSplit [i] db)))"
    and db': "db' = seal [db_next db] db2" by metis
  have nx: "db_blocks db (db_next db) = None"
  proof (rule ccontr)
    assume "db_blocks db (db_next db) \<noteq> None"
    then obtain c where "db_blocks db (db_next db) = Some c" by blast
    from db_okD(2)[OF assms(1) this] show False by simp
  qed
  have nl: "\<forall>e. (db_next db, e) \<notin> db_links db" using db_okD(3)[OF assms(1)] nx by blast
  have "bk_tempo b = None" using assms(3) b by (simp add: never_sent_def)
  have "changed_only [i] [db_next db] db db2"
    unfolding changed_only_def
  proof (intro conjI allI impI ballI)
    fix k assume "k \<in> set [i]"
    then show "\<exists>b. db_blocks db k = Some b \<and> bk_tempo b = None \<and>
        (case db_blocks db2 k of
           Some b' \<Rightarrow> bk_tempo b' = None \<and> bk_exported b' = bk_exported b \<and> db_digests db2 k = db_digests db k
         | None \<Rightarrow> db_digests db2 k = None)"
      using b \<open>bk_tempo b = None\<close> by (simp add: db2 set_hours_def)
  next
    fix k e assume "k \<notin> set [i] \<union> set [db_next db]"
    then show "((k, e) \<in> db_links db2) = ((k, e) \<in> db_links db)"
      using b(2) nl by (simp add: db2 rebucket_links moves_to_tail_def)
  qed (use b nx in \<open>auto simp: db2 y tail_block_def\<close>)
  with db' show ?thesis
    unfolding done_as_def by (intro exI[of _ "[db_next db]"] exI[of _ db2]) (simp add: db2)
qed

text \<open>Whatever operation succeeds on rows that were never sent, one undo brings the tables back.\<close>

lemma run_op_done:
  assumes "db_ok db" "run_op st now op db = (None, db')" "never_sent db (op_touches op)"
  shows "done_as (op_change op) (op_touches op) db db'"
proof (cases op)
  case (AssignTicket i key)
  with assms(2) obtain x where x: "fresh i (seal [] (update_block i (set_ticket key) (record_change ChangeTicket [i] db))) = (Inr x, db')"
    by (auto simp: outcome_None assign_ticket_def)
  from assms(3) AssignTicket have ns: "never_sent db [i]" by simp
  from done_as_fresh[OF x ns, of ChangeTicket] AssignTicket show ?thesis by simp
next
  case (SetDuration i mins)
  with assms(2) obtain x new_end where
    x: "fresh i (seal [] (update_block i (set_hours (int mins * 60) new_end) (record_change ChangeHours [i] db))) = (Inr x, db')"
    by (auto simp: outcome_None set_duration_def split: option.splits sum.splits)
  from assms(3) SetDuration have ns: "never_sent db [i]" by simp
  from done_as_fresh[OF x ns, of ChangeHours] SetDuration show ?thesis by simp
next
  case (SetDescription i t)
  with assms(2) obtain x where x: "fresh i (seal [] (update_block i (set_text t) (record_change ChangeText [i] db))) = (Inr x, db')"
    by (auto simp: outcome_None set_description_def)
  from assms(3) SetDescription have ns: "never_sent db [i]" by simp
  from done_as_fresh[OF x ns, of ChangeText] SetDescription show ?thesis by simp
next
  case (SetPersonal i pers)
  with assms(2) obtain x where x: "fresh i (seal [] (update_block i (\<lambda>b. b\<lparr>bk_personal := pers\<rparr>) (record_change ChangePersonal [i] db))) = (Inr x, db')"
    by (auto simp: outcome_None set_personal_def)
  from assms(3) SetPersonal have ns: "never_sent db [i]" by simp
  from done_as_fresh[OF x ns, of ChangePersonal] SetPersonal show ?thesis by simp
next
  case (SetIgnored i ig reason)
  with assms(2) obtain x where x: "set_ignored now i ig reason db = (Inr x, db')" by (auto simp: outcome_None)
  from assms(3) SetIgnored have ns: "never_sent db [i]" by simp
  have "done_as ChangeIgnored [i] db db'"
  proof (cases ig)
    case True
    with x have x: "fresh i (seal [] (update_block i (\<lambda>b. b\<lparr>bk_ignored := Some now, bk_personal := True, bk_reason := reason\<rparr>)
         (record_change ChangeIgnored [i] db))) = (Inr x, db')"
      by (auto simp: set_ignored_def Let_def split: option.splits if_splits)
    show ?thesis by (rule done_as_fresh[OF x ns]) simp_all
  next
    case False
    with x have x: "fresh i (seal [] (update_block i (\<lambda>b. b\<lparr>bk_ignored := None, bk_reason := None, bk_personal := False\<rparr>)
         (clear_skips i (record_change ChangeIgnored [i] db)))) = (Inr x, db')"
      by (auto simp: set_ignored_def Let_def split: option.splits if_splits)
    show ?thesis by (rule done_as_fresh[OF x ns]) simp_all
  qed
  with SetIgnored show ?thesis by simp
next
  case (DeleteBlock i)
  with assms(2,3) show ?thesis using delete_done by (auto simp: outcome_None)
next
  case (MergeBlocks i ids)
  with assms(2,3) show ?thesis using merge_done[OF assms(1)] by (auto simp: outcome_None)
next
  case (SplitBlock i m)
  with assms(2,3) show ?thesis using split_done[OF assms(1)] by (auto simp: outcome_None)
qed

lemma undo_round_trip:
  assumes "db_ok db" "run_op st now op db = (None, db')" "never_sent db (op_touches op)"
  shows "\<exists>db''. undo_last db' = (Inr (Restored (op_change op) (op_touches op)), db'') \<and>
    db_blocks db'' = db_blocks db \<and> db_links db'' = db_links db \<and> db_digests db'' = db_digests db"
proof -
  from run_op_done[OF assms] obtain C db2 where "db' = seal C db2" "changed_only (op_touches op) C db db2"
    "db_journal db2 = db_journal (record_change (op_change op) (op_touches op) db)" unfolding done_as_def by blast
  with change_then_undo(1)[OF assms(1) this(2,3)] show ?thesis by simp
qed

end
