(* ===== verification/BlockSteps.thy ===== *)
theory BlockSteps
  imports Blocks
begin

text \<open>
  The block tables as a state machine: the owner's operations, undo, the billing export, the write-back of
  a Tempo sync and the arrival and purge of events, in any order. \<open>db_ok\<close> holds in every reachable state,
  an operation that fails changes nothing, and the totals of a merge and a split are those of their inputs.
\<close>

section \<open>A failed operation changes nothing\<close>

lemma not_found_noop:
  assumes "db_ok db" "db_blocks db i = None"
  shows "seal [] (update_block i f (record_change ch [i] db)) = db"
proof -
  have "record_change ch [i] db = db" using assms(2) by (simp add: record_change_def snapshot_of_def map_filter_simps)
  moreover have "update_block i f db = db" using assms(2) by (simp add: update_block_def fun_upd_idem)
  ultimately show ?thesis using seal_sealed[OF db_okD(6)[OF assms(1)]] by simp
qed

lemma outcome_Some: "outcome r = (Some e, db') \<longleftrightarrow> r = (Inl e, db')"
  by (cases r; cases "fst r") (auto simp: outcome_def)

lemma fresh_Inl: "fresh i db = (Inl e, db') \<longleftrightarrow> db' = db \<and> db_blocks db i = None \<and> e = BlockNotFound i"
  by (auto simp: fresh_def get_block_def split: option.splits)

lemma fresh_error:
  assumes "db_ok db" "fresh i (seal [] (update_block i f (record_change ch [i] db))) = (Inl e, db')"
  shows "db' = db"
proof -
  from assms(2) have "db' = seal [] (update_block i f (record_change ch [i] db))" "db_blocks db i = None"
    by (auto simp: fresh_Inl split: if_splits)
  with not_found_noop[OF assms(1)] show ?thesis by simp
qed

lemma merge_error:
  assumes "db_ok db" "merge_blocks st p ids db = (Inl e, db')"
  shows "db' = db"
proof (rule ccontr)
  assume ne: "db' \<noteq> db"
  with assms(2) obtain primary where p: "db_blocks db p = Some primary" and ids: "ids \<noteq> []"
    by (auto simp: merge_blocks_def get_block_def split: if_splits option.splits)
  from assms(2) p ids ne obtain others where oth: "merge_others db primary [] ids = Inr others"
    by (cases "merge_others db primary [] ids") (auto simp: merge_blocks_def get_block_def)
  let ?s = "Min (set (map bk_start (primary # others)))"
  let ?n = "sum_list (map bk_secs (primary # others))"
  have id: "bk_id primary = p" by (rule db_okD(1)[OF assms(1) p])
  show False
  proof (cases "derive_ended_at st ?s ?n")
    case (Inl x)
    with assms(2) p ids oth ne show ?thesis by (simp add: merge_blocks_def get_block_def Let_def)
  next
    case (Inr ended_at)
    from merge_others_Inr[OF assms(1) oth] id have m: "map bk_id others = ids" "p \<notin> set ids" by auto
    let ?db2 = "update_block p (merged_row ?s ended_at ?n) (foldl (absorb p) (record_change ChangeMerge (p # ids) db) ids)"
    have "merge_blocks st p ids db = (map_sum id (\<lambda>b. (b, ids)) (fst (fresh p (seal [] ?db2))), snd (fresh p (seal [] ?db2)))"
      unfolding merge_blocks_def merged_row_def
      using p ids oth Inr m(1) by (simp only: if_False get_block_def option.case sum.case Let_def split_def)
    moreover have "fresh p (seal [] ?db2) = (Inr (merged_row ?s ended_at ?n primary), seal [] ?db2)"
      using p m(2) by (simp add: fresh_def get_block_def foldl_absorb)
    ultimately show ?thesis using assms(2) by simp
  qed
qed

lemma split_error:
  assumes "db_ok db" "split_block_at st i m db = (Inl e, db')"
  shows "db' = db"
proof (rule ccontr)
  assume ne: "db' \<noteq> db"
  with assms(2) obtain b where b: "db_blocks db i = Some b" by (auto simp: split_block_at_def get_block_def split: option.splits)
  have i: "i < db_next db" by (rule db_okD(2)[OF assms(1) b])
  from assms(2) b ne have m: "0 < m" "int m * 60 < bk_secs b"
    by (auto simp: split_block_at_def get_block_def Let_def split: if_splits)
  from assms(2) b m ne obtain boundary where d: "derive_ended_at st (bk_start b) (int m * 60) = Inr boundary"
    by (cases "derive_ended_at st (bk_start b) (int m * 60)") (auto simp: split_block_at_def get_block_def Let_def)
  from assms(2) b m d i show False by (simp add: split_block_at_def get_block_def Let_def)
qed

lemma set_ignored_error:
  assumes "set_ignored now i ig reason db = (Inl e, db')"
  shows "db' = db"
proof (cases "db_blocks db i")
  case (Some b)
  with assms show ?thesis by (auto simp: set_ignored_def get_block_def fresh_def Let_def split: if_splits)
qed (use assms in \<open>simp add: set_ignored_def get_block_def\<close>)

lemma run_op_error:
  assumes "db_ok db" "run_op st now op db = (Some e, db')"
  shows "db' = db"
proof (cases op)
  case (SetDuration i mins)
  with assms(2) fresh_error[OF assms(1)] show ?thesis
    by (auto simp: outcome_Some set_duration_def split: option.splits sum.splits)
next
  case (SetIgnored i ig reason)
  with assms(2) show ?thesis using set_ignored_error by (auto simp: outcome_Some)
next
  case (DeleteBlock i)
  with assms(2) show ?thesis by (auto simp: outcome_Some delete_block_def split: if_splits)
next
  case (MergeBlocks p ids)
  with assms(2) show ?thesis using merge_error[OF assms(1)] by (auto simp: outcome_Some)
next
  case (SplitBlock i m)
  with assms(2) show ?thesis using split_error[OF assms(1)] by (auto simp: outcome_Some)
qed (use assms(2) fresh_error[OF assms(1)] in \<open>auto simp: outcome_Some assign_ticket_def set_description_def set_personal_def\<close>)

section \<open>The invariant\<close>

definition rows_ok :: "block_db \<Rightarrow> bool" where
  "rows_ok db \<longleftrightarrow>
     (\<forall>i b. db_blocks db i = Some b \<longrightarrow> bk_id b = i \<and> i < db_next db) \<and>
     (\<forall>i e. (i, e) \<in> db_links db \<longrightarrow> db_blocks db i \<noteq> None \<and> db_event_start db e \<noteq> None) \<and>
     (\<forall>i. db_digests db i \<noteq> None \<longrightarrow> db_blocks db i \<noteq> None)"

definition journal_ok :: "block_db \<Rightarrow> bool" where
  "journal_ok db \<longleftrightarrow>
     list_all sealed (db_journal db) \<and> length (db_journal db) \<le> UNDO_DEPTH \<and>
     (\<forall>e\<in>set (db_journal db). \<forall>s\<in>set (en_blocks e). id_of s < db_next db)"

lemma db_ok_iff: "db_ok db \<longleftrightarrow> rows_ok db \<and> journal_ok db"
  unfolding db_ok_def rows_ok_def journal_ok_def by fast

lemma rows_ok_same:
  assumes "rows_ok db" "db_blocks db' = db_blocks db" "db_links db' \<subseteq> db_links db" "db_digests db' = db_digests db"
    "db_event_start db' = db_event_start db" "db_next db' = db_next db"
  shows "rows_ok db'"
  using assms unfolding rows_ok_def by (metis subsetD)

lemma rows_ok_record: "rows_ok db \<Longrightarrow> rows_ok (record_change c T db)"
  by (erule rows_ok_same) simp_all

lemma rows_ok_seal: "rows_ok db \<Longrightarrow> rows_ok (seal C db)"
  by (erule rows_ok_same) simp_all

lemma rows_ok_clear_skips: "rows_ok db \<Longrightarrow> rows_ok (clear_skips i db)"
  by (erule rows_ok_same) simp_all

lemma rows_ok_update_id:
  assumes "rows_ok db" "\<And>b. bk_id (f b) = bk_id b"
  shows "rows_ok (update_block i f db)"
  using assms by (auto simp: rows_ok_def split: if_splits)

lemma rows_ok_update: "rows_ok db \<Longrightarrow> keeps_markers f \<Longrightarrow> rows_ok (update_block i f db)"
  by (erule rows_ok_update_id) (simp add: keeps_markers_def)

lemma rows_ok_delete: "rows_ok db \<Longrightarrow> rows_ok (delete_row i db)"
  by (auto simp: rows_ok_def split: if_splits)

lemma rows_ok_absorb:
  assumes "rows_ok db" "db_blocks db p \<noteq> None" "i \<noteq> p"
  shows "rows_ok (absorb p db i)"
  using assms unfolding rows_ok_def absorb_simps by (auto split: if_splits)

lemma rows_ok_absorbs:
  "rows_ok db \<Longrightarrow> db_blocks db p \<noteq> None \<Longrightarrow> p \<notin> set ids \<Longrightarrow> rows_ok (foldl (absorb p) db ids)"
proof (induction ids arbitrary: db)
  case (Cons i ids)
  then have "rows_ok (absorb p db i)" by (intro rows_ok_absorb) auto
  with Cons show ?case by simp
qed simp

lemma rows_ok_insert:
  assumes "rows_ok db" "bk_id b = db_next db"
  shows "rows_ok (insert_block b db)"
  unfolding rows_ok_def insert_block_simps
proof (intro conjI allI impI)
  fix i x assume "((db_blocks db)(db_next db \<mapsto> b)) i = Some x"
  with assms show "bk_id x = i" "i < db_next db + 1" by (cases "i = db_next db"; force simp: rows_ok_def)+
qed (use assms(1) in \<open>auto simp: rows_ok_def\<close>)

lemma rows_ok_rebucket:
  assumes "rows_ok db" "db_blocks db j \<noteq> None"
  shows "rows_ok (rebucket i j s db)"
proof -
  have "\<exists>k. (k, e) \<in> db_links db \<and> (x = k \<or> x = j)" if "(x, e) \<in> db_links (rebucket i j s db)" for x e
    using that by (auto simp: rebucket_def split: if_splits)
  with assms show ?thesis unfolding rows_ok_def rebucket_simps by metis
qed

lemma journal_after:
  assumes "db_ok db" "db_journal db2 = db_journal (record_change ch T db)" "db_next db \<le> db_next db2"
  shows "journal_ok (seal C db2)"
proof -
  have j: "journal_ok db" using assms(1) by (simp add: db_ok_iff)
  show ?thesis
  proof (cases "List.map_filter (snapshot_of db) T = []")
    case True
    then have "db_journal db2 = db_journal db" using assms(2) by (simp add: record_change_def)
    moreover from this j have "seal C db2 = db2" by (intro seal_sealed) (simp add: journal_ok_def)
    ultimately show ?thesis using j assms(3) by (fastforce simp: journal_ok_def)
  next
    case False
    from record_then_seal[OF False assms(2)]
    have s: "seal C db2 = db2\<lparr>db_journal := take UNDO_DEPTH (entry_for ch T C db db2 # db_journal db)\<rparr>" .
    let ?e = "entry_for ch T C db db2"
    have e: "sealed ?e" using False by (simp add: sealed_def entry_for_def)
    have ids: "id_of x < db_next db" if "x \<in> set (en_blocks ?e)" for x
    proof -
      from that have "x \<in> set (List.map_filter (snapshot_of db) T)" by (simp add: entry_for_def)
      then have "\<exists>i\<in>set T. snapshot_of db i = Some x"
        by (induction T) (auto simp: map_filter_simps split: option.splits)
      then obtain i b where "db_blocks db i = Some b" "sn_row x = b" by (auto simp: snapshot_of_def)
      with db_okD(1,2)[OF assms(1)] show ?thesis by (auto simp: id_of_def)
    qed
    have "list_all sealed (?e # db_journal db)" using e j by (simp add: journal_ok_def)
    then have "list_all sealed (take UNDO_DEPTH (?e # db_journal db))"
      by (metis append_take_drop_id list_all_append)
    moreover have "\<forall>x\<in>set (take UNDO_DEPTH (?e # db_journal db)). \<forall>y\<in>set (en_blocks x). id_of y < db_next db2"
    proof (intro ballI)
      fix x y assume "x \<in> set (take UNDO_DEPTH (?e # db_journal db))" and y: "y \<in> set (en_blocks x)"
      then have "x \<in> set (?e # db_journal db)" by (meson in_set_takeD)
      then consider "x = ?e" | "x \<in> set (db_journal db)" by auto
      then have "id_of y < db_next db"
      proof cases
        case 1
        with y ids show ?thesis by simp
      next
        case 2
        from db_okD(8)[OF assms(1) 2 y] show ?thesis .
      qed
      with assms(3) show "id_of y < db_next db2" by simp
    qed
    moreover have "length (take UNDO_DEPTH (?e # db_journal db)) \<le> UNDO_DEPTH" by simp
    moreover have "db_journal (seal C db2) = take UNDO_DEPTH (?e # db_journal db)" "db_next (seal C db2) = db_next db2"
      unfolding s by simp_all
    ultimately show ?thesis unfolding journal_ok_def by (simp only: simp_thms)
  qed
qed

section \<open>Every operation and undo keep it\<close>

lemma fresh_ok:
  assumes "fresh i (seal [] (update_block i f db2)) = (r, db')" "db_ok db" "keeps_markers f"
    "db_journal db2 = db_journal (record_change ch [i] db)" "rows_ok db2" "db_next db2 = db_next db"
  shows "db_ok db'"
proof -
  have "rows_ok (seal [] (update_block i f db2))" by (intro rows_ok_seal rows_ok_update assms(3,5))
  moreover have "journal_ok (seal [] (update_block i f db2))"
    by (rule journal_after[OF assms(2), of _ ch "[i]"]) (simp_all add: assms(4,6))
  moreover have "db' = seal [] (update_block i f db2)" using assms(1) by (simp add: fresh_def)
  ultimately show ?thesis by (simp add: db_ok_iff)
qed

lemma recorded_rows: "db_ok db \<Longrightarrow> rows_ok (record_change ch T db)"
  by (simp add: db_ok_iff rows_ok_record)

lemma merge_ok:
  assumes "db_ok db" "merge_blocks st p ids db = (Inr r, db')"
  shows "db_ok db'"
proof -
  obtain m absorbed where "r = (m, absorbed)" by fastforce
  with assms(2) have "merge_blocks st p ids db = (Inr (m, absorbed), db')" by simp
  from merge_blocksE[OF assms(1) this] obtain primary s e n db2 where
    p: "db_blocks db p = Some primary" and ids: "p \<notin> set ids"
    and db2: "db2 = update_block p (merged_row s e n) (foldl (absorb p) (record_change ChangeMerge (p # ids) db) ids)"
    and db': "db' = seal [] db2" by metis
  have "rows_ok (foldl (absorb p) (record_change ChangeMerge (p # ids) db) ids)"
    using p ids recorded_rows[OF assms(1)] by (intro rows_ok_absorbs) simp_all
  then have "rows_ok db2"
    unfolding db2 by (intro rows_ok_update) (simp_all add: keeps_markers_def merged_row_def)
  moreover have "journal_ok (seal [] db2)"
    by (rule journal_after[OF assms(1), of _ ChangeMerge "p # ids"]) (simp_all add: db2 foldl_absorb)
  ultimately show ?thesis by (simp add: db' db_ok_iff rows_ok_seal)
qed

lemma split_ok:
  assumes "db_ok db" "split_block_at st i m db = (Inr r, db')"
  shows "db_ok db'"
proof -
  obtain x y where "r = (x, y)" by fastforce
  with assms(2) have "split_block_at st i m db = (Inr (x, y), db')" by simp
  from split_blockE[OF this assms(1)] obtain b boundary db2 where y: "y = tail_block (db_next db) boundary (bk_secs b - int m * 60) b"
    and db2: "db2 = rebucket i (db_next db) boundary (insert_block y (update_block i (set_hours (int m * 60) boundary)
       (record_change ChangeSplit [i] db)))"
    and db': "db' = seal [db_next db] db2" by metis
  let ?u = "update_block i (set_hours (int m * 60) boundary) (record_change ChangeSplit [i] db)"
  have "rows_ok ?u" using recorded_rows[OF assms(1)] by (intro rows_ok_update) simp_all
  then have "rows_ok (insert_block y ?u)" by (rule rows_ok_insert) (simp add: y tail_block_def)
  then have "rows_ok db2" unfolding db2 by (rule rows_ok_rebucket) simp
  moreover have "journal_ok (seal [db_next db] db2)"
    by (rule journal_after[OF assms(1), of _ ChangeSplit "[i]"]) (simp_all add: db2)
  ultimately show ?thesis by (simp add: db' db_ok_iff rows_ok_seal)
qed

lemma run_op_ok:
  assumes "db_ok db" "run_op st now op db = (r, db')"
  shows "db_ok db'"
proof (cases r)
  case (Some e)
  with run_op_error[OF assms(1)] assms show ?thesis by blast
next
  case None
  with assms(2) have n: "run_op st now op db = (None, db')" by simp
  show ?thesis
  proof (cases op)
    case (AssignTicket i key)
    with n obtain x where x: "fresh i (seal [] (update_block i (set_ticket key) (record_change ChangeTicket [i] db))) = (Inr x, db')"
      by (auto simp: outcome_None assign_ticket_def)
    show ?thesis by (rule fresh_ok[OF x assms(1)]) (simp_all add: recorded_rows[OF assms(1)])
  next
    case (SetDuration i mins)
    with n obtain x e where x: "fresh i (seal [] (update_block i (set_hours (int mins * 60) e) (record_change ChangeHours [i] db))) = (Inr x, db')"
      by (auto simp: outcome_None set_duration_def split: option.splits sum.splits)
    show ?thesis by (rule fresh_ok[OF x assms(1)]) (simp_all add: recorded_rows[OF assms(1)])
  next
    case (SetDescription i t)
    with n obtain x where x: "fresh i (seal [] (update_block i (set_text t) (record_change ChangeText [i] db))) = (Inr x, db')"
      by (auto simp: outcome_None set_description_def)
    show ?thesis by (rule fresh_ok[OF x assms(1)]) (simp_all add: recorded_rows[OF assms(1)])
  next
    case (SetPersonal i pers)
    with n obtain x where x: "fresh i (seal [] (update_block i (\<lambda>b. b\<lparr>bk_personal := pers\<rparr>) (record_change ChangePersonal [i] db))) = (Inr x, db')"
      by (auto simp: outcome_None set_personal_def)
    show ?thesis by (rule fresh_ok[OF x assms(1)]) (simp_all add: recorded_rows[OF assms(1)])
  next
    case (SetIgnored i ig reason)
    with n obtain x where x: "set_ignored now i ig reason db = (Inr x, db')" by (auto simp: outcome_None)
    show ?thesis
    proof (cases ig)
      case True
      with x have f: "fresh i (seal [] (update_block i (\<lambda>b. b\<lparr>bk_ignored := Some now, bk_personal := True, bk_reason := reason\<rparr>)
         (record_change ChangeIgnored [i] db))) = (Inr x, db')"
        by (auto simp: set_ignored_def Let_def split: option.splits if_splits)
      show ?thesis by (rule fresh_ok[OF f assms(1)]) (simp_all add: recorded_rows[OF assms(1)])
    next
      case False
      with x have f: "fresh i (seal [] (update_block i (\<lambda>b. b\<lparr>bk_ignored := None, bk_reason := None, bk_personal := False\<rparr>)
         (clear_skips i (record_change ChangeIgnored [i] db)))) = (Inr x, db')"
        by (auto simp: set_ignored_def Let_def split: option.splits if_splits)
      show ?thesis
        by (rule fresh_ok[OF f assms(1)]) (simp_all add: recorded_rows[OF assms(1)] rows_ok_clear_skips)
    qed
  next
    case (DeleteBlock i)
    with n have db': "db' = seal [] (delete_row i (record_change ChangeDelete [i] db))"
      by (auto simp: outcome_None delete_block_def split: if_splits)
    have "rows_ok (delete_row i (record_change ChangeDelete [i] db))" using recorded_rows[OF assms(1)] by (rule rows_ok_delete)
    moreover have "journal_ok (seal [] (delete_row i (record_change ChangeDelete [i] db)))"
      by (rule journal_after[OF assms(1), of _ ChangeDelete "[i]"]) simp_all
    ultimately show ?thesis by (simp add: db' db_ok_iff rows_ok_seal)
  next
    case (MergeBlocks p ids)
    with n show ?thesis using merge_ok[OF assms(1)] by (auto simp: outcome_None)
  next
    case (SplitBlock i m)
    with n show ?thesis using split_ok[OF assms(1)] by (auto simp: outcome_None)
  qed
qed

lemma rows_ok_write:
  assumes "rows_ok db" "id_of s < db_next db"
  shows "rows_ok (write_block s db)"
proof -
  have "bk_id (back_row db (sn_row s)) = id_of s" by (simp add: back_row_def id_of_def split: option.splits)
  with assms show ?thesis unfolding rows_ok_def write_block_simps by (auto split: if_splits)
qed

lemma rows_ok_satellites:
  assumes "rows_ok db" "db_blocks db (id_of s) \<noteq> None"
  shows "rows_ok (restore_satellites s db)"
proof -
  have "db_digests (restore_satellites s db) i \<noteq> None \<Longrightarrow> db_digests db i \<noteq> None \<or> i = id_of s" for i
    by (auto simp: restore_satellites_def Let_def split: option.splits if_splits)
  with assms show ?thesis
    unfolding rows_ok_def restore_satellites_simps restore_links by (metis (no_types, lifting))
qed

lemma rows_ok_deletes: "rows_ok db \<Longrightarrow> rows_ok (foldl (\<lambda>db t. delete_row t db) db C)"
  by (induction C arbitrary: db) (simp_all add: rows_ok_delete)

lemma rows_ok_writes:
  "rows_ok db \<Longrightarrow> \<forall>s\<in>set ss. id_of s < db_next db \<Longrightarrow> rows_ok (foldl (\<lambda>db s. write_block s db) db ss)"
proof (induction ss arbitrary: db)
  case (Cons s ss)
  have "rows_ok (write_block s db)" using Cons.prems by (intro rows_ok_write) simp_all
  then show ?case using Cons by simp
qed simp

lemma writes_present:
  "db_blocks db i \<noteq> None \<or> i \<in> id_of ` set ss \<Longrightarrow> db_blocks (foldl (\<lambda>db s. write_block s db) db ss) i \<noteq> None"
proof (induction ss arbitrary: db)
  case (Cons s ss)
  then have "db_blocks (write_block s db) i \<noteq> None \<or> i \<in> id_of ` set ss" by auto
  from Cons.IH[OF this] show ?case by simp
qed simp

lemma rows_ok_restores:
  "rows_ok db \<Longrightarrow> \<forall>s\<in>set ss. db_blocks db (id_of s) \<noteq> None \<Longrightarrow> rows_ok (foldl (\<lambda>db s. restore_satellites s db) db ss)"
proof (induction ss arbitrary: db)
  case (Cons s ss)
  have "rows_ok (restore_satellites s db)" using Cons.prems by (intro rows_ok_satellites) simp_all
  then show ?case using Cons by simp
qed simp

lemma undo_ok:
  assumes "db_ok db" "undo_last db = (r, db')"
  shows "db_ok db'"
proof (cases "db_journal db")
  case Nil
  with assms show ?thesis by (simp add: undo_last_def)
next
  case (Cons e es)
  have r: "rows_ok db" and j: "journal_ok db" using assms(1) by (simp_all add: db_ok_iff)
  have popped: "rows_ok x \<Longrightarrow> db_next x = db_next db \<Longrightarrow> db_ok (x\<lparr>db_journal := es\<rparr>)" for x
    using j Cons by (auto simp: db_ok_iff journal_ok_def rows_ok_def)
  have ids: "\<forall>s\<in>set (en_blocks e). id_of s < db_next db" using j Cons by (simp add: journal_ok_def)
  let ?d = "foldl (\<lambda>db t. delete_row t db) db (en_created e)"
  let ?w = "foldl (\<lambda>db s. write_block s db) ?d (en_blocks e)"
  have "rows_ok ?w" using rows_ok_deletes[OF r] ids by (intro rows_ok_writes) (simp_all add: foldl_delete_row)
  moreover have "\<forall>s\<in>set (en_blocks e). db_blocks ?w (id_of s) \<noteq> None" by (intro ballI writes_present) simp
  ultimately have "rows_ok (apply_entry e db)" unfolding apply_entry_def Let_def by (rule rows_ok_restores)
  from popped[OF this] popped[OF r] have "db_ok ((apply_entry e db)\<lparr>db_journal := es\<rparr>)" "db_ok (db\<lparr>db_journal := es\<rparr>)"
    by (simp_all add: foldl_apply_other)
  with assms Cons show ?thesis by (auto simp: undo_last_def split: option.splits if_splits)
qed

section \<open>Reachable states\<close>

text \<open>What a Tempo sync writes back to a block it has sent, and the events that come and go.\<close>

definition write_back :: "int \<Rightarrow> string \<Rightarrow> block_db \<Rightarrow> block_db" where
  "write_back i worklog_id db = update_block i (\<lambda>b. b\<lparr>bk_tempo := Some worklog_id, bk_dirty := False\<rparr>) db"

definition purge_event :: "int \<Rightarrow> block_db \<Rightarrow> block_db" where
  "purge_event e db =
     db\<lparr>db_event_start := (db_event_start db)(e := None), db_event_session := (db_event_session db)(e := None),
        db_links := {l \<in> db_links db. snd l \<noteq> e}\<rparr>"

definition add_event :: "int \<Rightarrow> string \<Rightarrow> string option \<Rightarrow> block_db \<Rightarrow> block_db" where
  "add_event e start session db =
     db\<lparr>db_event_start := (db_event_start db)(e \<mapsto> start), db_event_session := (db_event_session db)(e := session)\<rparr>"

definition exported_rows :: "string \<Rightarrow> string \<Rightarrow> block_db \<Rightarrow> int \<Rightarrow> block option" where
  "exported_rows now day db =
     (\<lambda>i. map_option (\<lambda>b. if unexported_on day b then b\<lparr>bk_exported := Some now\<rparr> else b) (db_blocks db i))"

inductive block_step :: "stamps \<Rightarrow> block_db \<Rightarrow> block_db \<Rightarrow> bool" for st :: stamps where
  step_op: "run_op st now op db = (r, db') \<Longrightarrow> block_step st db db'"
| step_undo: "undo_last db = (r, db') \<Longrightarrow> block_step st db db'"
| step_export: "mark_exported now day db = (n, db') \<Longrightarrow> block_step st db db'"
| step_sync: "block_step st db (write_back i worklog_id db)"
| step_event: "block_step st db (add_event e start session db)"
| step_purge: "block_step st db (purge_event e db)"

inductive reachable :: "stamps \<Rightarrow> block_db \<Rightarrow> block_db \<Rightarrow> bool" for st :: stamps and db0 :: block_db where
  reach_start: "reachable st db0 db0"
| reach_step: "reachable st db0 db \<Longrightarrow> block_step st db db' \<Longrightarrow> reachable st db0 db'"

inductive_cases block_stepE: "block_step st db db'"

lemma block_step_ok:
  assumes "block_step st db db'" "db_ok db"
  shows "db_ok db'"
  using assms
proof cases
  case (step_op now op r)
  then show ?thesis using run_op_ok[OF assms(2)] by blast
next
  case (step_undo r)
  then show ?thesis using undo_ok[OF assms(2)] by blast
next
  case (step_export now day n)
  then have db': "db' = db\<lparr>db_blocks := exported_rows now day db\<rparr>"
    by (simp add: mark_exported_def exported_rows_def)
  have row: "exported_rows now day db i = Some x \<Longrightarrow> \<exists>y. db_blocks db i = Some y \<and> bk_id x = bk_id y" for i x
    by (auto simp: exported_rows_def)
  have gone: "exported_rows now day db i = None \<longleftrightarrow> db_blocks db i = None" for i
    by (simp add: exported_rows_def)
  have "rows_ok db'"
    unfolding rows_ok_def
  proof (intro conjI allI impI)
    fix i x assume "db_blocks db' i = Some x"
    with row[of i x] db' obtain y where "db_blocks db i = Some y" "bk_id x = bk_id y" by auto
    with db_okD(1,2)[OF assms(2)] db' show "bk_id x = i" "i < db_next db'" by simp_all
  next
    fix i e assume "(i, e) \<in> db_links db'"
    then have "(i, e) \<in> db_links db" by (simp add: db')
    from db_okD(3,4)[OF assms(2) this] show "db_blocks db' i \<noteq> None" "db_event_start db' e \<noteq> None"
      by (simp_all add: db' gone del: not_None_eq)
  next
    fix i assume "db_digests db' i \<noteq> None"
    then have "db_digests db i \<noteq> None" by (simp add: db')
    with db_okD(5)[OF assms(2), of i] show "db_blocks db' i \<noteq> None" by (auto simp: db' gone simp del: not_None_eq)
  qed
  moreover have "journal_ok db'" using assms(2) by (simp add: db' db_ok_iff journal_ok_def)
  ultimately show ?thesis by (simp add: db_ok_iff)
next
  case (step_sync i worklog_id)
  have "rows_ok (write_back i worklog_id db)"
    unfolding write_back_def using assms(2) by (intro rows_ok_update_id) (simp_all add: db_ok_iff)
  moreover have "journal_ok (write_back i worklog_id db)"
    using assms(2) by (simp add: db_ok_iff journal_ok_def write_back_def)
  ultimately show ?thesis using step_sync by (simp add: db_ok_iff)
next
  case (step_event e start session)
  then show ?thesis using assms(2) by (auto simp: db_ok_iff rows_ok_def journal_ok_def add_event_def)
next
  case (step_purge e)
  then show ?thesis using assms(2) by (auto simp: db_ok_iff rows_ok_def journal_ok_def purge_event_def)
qed

lemma reachable_ok: "reachable st db0 db \<Longrightarrow> db_ok db0 \<Longrightarrow> db_ok db"
  by (induction rule: reachable.induct) (auto dest: block_step_ok)

definition empty_db :: block_db where
  "empty_db = \<lparr>db_blocks = (\<lambda>_. None), db_links = {}, db_digests = (\<lambda>_. None), db_event_start = (\<lambda>_. None),
     db_event_session = (\<lambda>_. None), db_skips = {}, db_journal = [], db_next = 1\<rparr>"

lemma empty_db_ok: "db_ok empty_db"
  by (simp add: db_ok_def empty_db_def)

section \<open>What a merge and a split leave\<close>

lemma merge_result:
  assumes "db_ok db" "merge_blocks st p ids db = (Inr (m, absorbed), db')"
  obtains primary others where "db_blocks db p = Some primary" "map bk_id others = ids" "absorbed = ids"
    "\<forall>b\<in>set others. db_blocks db (bk_id b) = Some b \<and> bk_day b = bk_day primary \<and> \<not> is_synced b"
    "bk_secs m = sum_list (map bk_secs (primary # others))" "bk_start m = Min (set (map bk_start (primary # others)))"
    "bk_tempo m = bk_tempo primary" "bk_day m = bk_day primary" "bk_jira m = bk_jira primary" "bk_desc m = bk_desc primary"
    "db_blocks db' = (\<lambda>i. if i = p then Some m else if i \<in> set ids then None else db_blocks db i)"
    "links_of db' p = (\<Union>i\<in>set (p # ids). links_of db i)"
proof -
  from merge_blocksE[OF assms] obtain primary others e db2 where x: "db_blocks db p = Some primary" "absorbed = ids"
    "map bk_id others = ids" "p \<notin> set ids" "distinct ids"
    "\<forall>b\<in>set others. db_blocks db (bk_id b) = Some b \<and> bk_day b = bk_day primary \<and> \<not> is_synced b"
    and m: "m = merged_row (Min (set (map bk_start (primary # others)))) e (sum_list (map bk_secs (primary # others))) primary"
    and db2: "db2 = update_block p (merged_row (Min (set (map bk_start (primary # others)))) e (sum_list (map bk_secs (primary # others))))
      (foldl (absorb p) (record_change ChangeMerge (p # ids) db) ids)" and db': "db' = seal [] db2" by metis
  have f: "bk_secs m = sum_list (map bk_secs (primary # others))" "bk_start m = Min (set (map bk_start (primary # others)))"
    "bk_tempo m = bk_tempo primary" "bk_day m = bk_day primary" "bk_jira m = bk_jira primary" "bk_desc m = bk_desc primary"
    by (simp_all add: m merged_row_def)
  have rows: "db_blocks db' = (\<lambda>i. if i = p then Some m else if i \<in> set ids then None else db_blocks db i)"
    unfolding db' db2 seal_simps update_block_simps foldl_absorb record_change_simps m
    using x(1,4) by (intro ext) simp
  have links: "links_of db' p = (\<Union>i\<in>set (p # ids). links_of db i)"
    using x(4,5) by (intro set_eqI) (auto simp: db' db2 foldl_absorb_links)
  show thesis by (rule that[OF x(1,3,2,6) f rows links])
qed

lemma split_result:
  assumes "db_ok db" "split_block_at st i m db = (Inr (x, y), db')"
  obtains b where "db_blocks db i = Some b" "bk_secs x = int m * 60" "bk_secs x + bk_secs y = bk_secs b"
    "0 < bk_secs x" "0 < bk_secs y" "bk_start x = bk_start b" "bk_end x = bk_start y" "bk_end y = bk_end b"
    "bk_tempo x = bk_tempo b" "bk_tempo y = None"
    "db_blocks db' = (db_blocks db)(i \<mapsto> x, bk_id y \<mapsto> y)" "db_blocks db (bk_id y) = None"
    "links_of db' i \<union> links_of db' (bk_id y) = links_of db i" "links_of db' i \<inter> links_of db' (bk_id y) = {}"
proof -
  from split_blockE[OF assms(2,1)] obtain b boundary db2 where b: "db_blocks db i = Some b" "i < db_next db" "0 < m" "int m * 60 < bk_secs b"
    and x: "x = set_hours (int m * 60) boundary b" and y: "y = tail_block (db_next db) boundary (bk_secs b - int m * 60) b"
    and db2: "db2 = rebucket i (db_next db) boundary (insert_block y (update_block i (set_hours (int m * 60) boundary)
       (record_change ChangeSplit [i] db)))" and db': "db' = seal [db_next db] db2" by metis
  have nx: "db_blocks db (db_next db) = None"
  proof (rule ccontr)
    assume "db_blocks db (db_next db) \<noteq> None"
    then obtain c where "db_blocks db (db_next db) = Some c" by blast
    from db_okD(2)[OF assms(1) this] show False by simp
  qed
  have nl: "\<forall>e. (db_next db, e) \<notin> db_links db" using db_okD(3)[OF assms(1)] nx by blast
  have id: "bk_id y = db_next db" by (simp add: y tail_block_def)
  have rows: "db_blocks db' = (db_blocks db)(i \<mapsto> x, bk_id y \<mapsto> y)"
    using b(1) by (simp add: db' db2 x id)
  have links: "links_of db' i \<union> links_of db' (bk_id y) = links_of db i" "links_of db' i \<inter> links_of db' (bk_id y) = {}"
    using b(2) nl by (auto simp: db' db2 id rebucket_links moves_to_tail_def)
  show thesis
    by (rule that[OF b(1) _ _ _ _ _ _ _ _ _ rows _ links]) (use b(3,4) nx id in \<open>simp_all add: x y set_hours_def tail_block_def\<close>)
qed

section \<open>Undo never touches a block that was sent\<close>

lemma refused_None:
  assumes "refused db e = None"
  shows "s \<in> set (en_blocks e) \<Longrightarrow> \<not> synced_now db (id_of s)" "i \<in> set (en_created e) \<Longrightarrow> \<not> synced_now db i"
  using assms by (auto simp: refused_def find_None_iff split: option.splits)

lemma foldl_write_other:
  "i \<notin> id_of ` set ss \<Longrightarrow> db_blocks (foldl (\<lambda>db s. write_block s db) db ss) i = db_blocks db i"
  by (induction ss arbitrary: db) auto

lemma undo_keeps_synced:
  assumes "undo_last db = (r, db')" "synced_now db i"
  shows "db_blocks db' i = db_blocks db i \<and> links_of db' i = links_of db i"
proof (cases "db_journal db")
  case Nil
  with assms(1) show ?thesis by (simp add: undo_last_def)
next
  case (Cons e es)
  show ?thesis
  proof (cases "refused db e = None \<and> \<not> is_stale db e")
    case False
    with assms(1) Cons have "db' = db \<or> db' = db\<lparr>db_journal := es\<rparr>"
      by (auto simp: undo_last_def split: option.splits if_splits)
    then show ?thesis by (auto simp: links_of_def)
  next
    case True
    with assms(1) Cons have db': "db' = (apply_entry e db)\<lparr>db_journal := es\<rparr>" by (simp add: undo_last_def)
    have n: "i \<notin> id_of ` set (en_blocks e)" "i \<notin> set (en_created e)"
      using refused_None[of db e] True assms(2) by auto
    let ?d = "foldl (\<lambda>db t. delete_row t db) db (en_created e)"
    let ?w = "foldl (\<lambda>db s. write_block s db) ?d (en_blocks e)"
    have ap: "apply_entry e db = foldl (\<lambda>db s. restore_satellites s db) ?w (en_blocks e)"
      by (simp add: apply_entry_def Let_def)
    have "db_blocks (apply_entry e db) i = db_blocks db i"
      using n by (simp add: ap foldl_restore_satellites foldl_write_other foldl_delete_row)
    moreover have "links_of (apply_entry e db) i = links_of db i"
      using n by (intro set_eqI) (simp add: ap foldl_restore_other(2)[OF n(1)] foldl_write_block foldl_delete_row)
    ultimately show ?thesis by (simp add: db' links_of_def)
  qed
qed

text \<open>Every undo makes progress or says why it cannot.\<close>

lemma undo_progress:
  assumes "undo_last db = (r, db')"
  shows "case r of
      Inr NothingToUndo \<Rightarrow> db_journal db = [] \<and> db' = db
    | Inr (RefusedSynced i) \<Rightarrow> db_journal db \<noteq> [] \<and> db' = db
    | Inr (Restored ch ids) \<Rightarrow> db_journal db' = tl (db_journal db) \<and> db_journal db \<noteq> []
    | Inl e \<Rightarrow> e = StaleEntry \<and> db_journal db \<noteq> [] \<and> db' = db\<lparr>db_journal := tl (db_journal db)\<rparr>"
  using assms by (auto simp: undo_last_def split: list.splits option.splits if_splits)

end
