(* ===== verification/UndoStack.thy ===== *)
theory UndoStack
  imports BlockSteps
begin

text \<open>
  Undo against its specification. The abstract machine is a current store and a stack of at most
  \<open>UNDO_DEPTH\<close> earlier stores; a successful change pushes, an undo pops. The journal of \<open>undo.rs\<close>, with its
  snapshots, seals and staleness checks, simulates it as long as nothing has been sent to Tempo.
\<close>

type_synonym store = "(int \<Rightarrow> block option) \<times> (int \<times> int) set \<times> (int \<Rightarrow> card option)"

definition store_of :: "block_db \<Rightarrow> store" where
  "store_of db = (db_blocks db, db_links db, db_digests db)"

type_synonym history = "store \<times> store list"

datatype owner_action = Do block_op | UndoLast

definition act :: "stamps \<Rightarrow> string \<Rightarrow> owner_action \<Rightarrow> block_db \<Rightarrow> block_db" where
  "act st now a db = (case a of Do op \<Rightarrow> snd (run_op st now op db) | UndoLast \<Rightarrow> snd (undo_last db))"

inductive history_step :: "owner_action \<Rightarrow> history \<Rightarrow> history \<Rightarrow> bool" where
  push: "history_step (Do op) (cur, past) (cur', take UNDO_DEPTH (cur # past))"
| stay: "history_step (Do op) h h"
| pop: "history_step UndoLast (cur, s # past) (s, past)"
| bottom: "history_step UndoLast (cur, []) (cur, [])"

inductive_cases history_pushE: "history_step (Do op) h h'"
inductive_simps history_undo: "history_step UndoLast (cur, past) h'"

fun history_run :: "owner_action list \<Rightarrow> history \<Rightarrow> history \<Rightarrow> bool" where
  "history_run [] h h' = (h' = h)"
| "history_run (a # as) h h' = (\<exists>m. history_step a h m \<and> history_run as m h')"

section \<open>What the journal promises\<close>

fun tracks :: "block_db \<Rightarrow> store list \<Rightarrow> bool" where
  "tracks db [] = True"
| "tracks db (s # ss) =
     (case undo_last db of
        (Inr (Restored ch T), db') \<Rightarrow> store_of db' = s \<and> tracks db' ss
      | _ \<Rightarrow> False)"

definition unsent :: "block_db \<Rightarrow> bool" where
  "unsent db = (\<forall>i b. db_blocks db i = Some b \<longrightarrow> bk_tempo b = None)"

definition follows :: "block_db \<Rightarrow> history \<Rightarrow> bool" where
  "follows db h \<longleftrightarrow> db_ok db \<and> unsent db \<and> store_of db = fst h \<and> length (db_journal db) = length (snd h) \<and>
     list_all (\<lambda>s. \<forall>i b. fst s i = Some b \<longrightarrow> bk_tempo b = None) (snd h) \<and> tracks db (snd h)"

text \<open>Undo reads the store, the starts of the events and the journal, nothing else.\<close>

lemma store_of_eq: "store_of db1 = store_of db2 \<longleftrightarrow>
    db_blocks db1 = db_blocks db2 \<and> db_links db1 = db_links db2 \<and> db_digests db1 = db_digests db2"
  by (simp add: store_of_def)

lemma apply_entry_cong:
  assumes "store_of db1 = store_of db2" "db_event_start db1 = db_event_start db2"
  shows "store_of (apply_entry e db1) = store_of (apply_entry e db2)"
    "db_event_start (apply_entry e db1) = db_event_start db1"
proof -
  let ?same = "\<lambda>a b. store_of a = store_of b \<and> db_event_start a = db_event_start b"
  have d: "?same (foldl (\<lambda>db t. delete_row t db) a C) (foldl (\<lambda>db t. delete_row t db) b C)" if "?same a b" for a b C
    using that by (simp add: store_of_eq foldl_delete_row cong: if_cong)
  have w: "?same (foldl (\<lambda>db s. write_block s db) a ss) (foldl (\<lambda>db s. write_block s db) b ss)" if "?same a b" for a b ss
    using that
  proof (induction ss arbitrary: a b)
    case (Cons s ss)
    have "?same (write_block s a) (write_block s b)" using Cons.prems by (simp add: store_of_eq back_row_def)
    from Cons.IH[OF this] show ?case by simp
  qed simp
  have r: "?same (foldl (\<lambda>db s. restore_satellites s db) a ss) (foldl (\<lambda>db s. restore_satellites s db) b ss)" if "?same a b" for a b ss
    using that
  proof (induction ss arbitrary: a b)
    case (Cons s ss)
    have "?same (restore_satellites s a) (restore_satellites s b)"
      using Cons.prems by (simp add: store_of_eq restore_satellites_def Let_def cong: option.case_cong if_cong)
    from Cons.IH[OF this] show ?case by simp
  qed simp
  have "?same db1 db2" using assms by simp
  from r[OF w[OF d[OF this]]] show "store_of (apply_entry e db1) = store_of (apply_entry e db2)"
    unfolding apply_entry_def Let_def by blast
  show "db_event_start (apply_entry e db1) = db_event_start db1" by (rule foldl_apply_other(4))
qed

lemma journal_indep:
  "store_of (db\<lparr>db_journal := j\<rparr>) = store_of db" "db_event_start (db\<lparr>db_journal := j\<rparr>) = db_event_start db"
  by (simp_all add: store_of_def)

lemma undo_cong:
  assumes "store_of db1 = store_of db2" "db_event_start db1 = db_event_start db2"
    "undo_last db1 = (Inr (Restored ch T), db1')" "db_journal db1 = e # es1" "db_journal db2 = e # es2"
  obtains db2' where "undo_last db2 = (Inr (Restored ch T), db2')" "store_of db1' = store_of db2'"
    "db_event_start db1' = db_event_start db2'" "db_journal db1' = es1" "db_journal db2' = es2"
proof -
  have b: "db_blocks db1 = db_blocks db2" using assms(1) by (simp add: store_of_eq)
  have sy: "synced_now db1 = synced_now db2" by (rule ext) (simp add: synced_now_def b)
  then have r: "refused db1 e = refused db2 e" unfolding refused_def sy by simp
  have s: "is_stale db1 e = is_stale db2 e" by (simp add: is_stale_def b)
  from assms(3,4) have n: "refused db1 e = None" "\<not> is_stale db1 e" "ch = en_change e" "T = map id_of (en_blocks e)"
    "db1' = (apply_entry e db1)\<lparr>db_journal := es1\<rparr>"
    by (auto simp: undo_last_def split: option.splits if_splits)
  have "undo_last db2 = (Inr (Restored ch T), (apply_entry e db2)\<lparr>db_journal := es2\<rparr>)"
    using n(1-4) assms(5) r s by (simp add: undo_last_def)
  moreover note apply_entry_cong[OF assms(1,2), of e] apply_entry_cong(2)[OF assms(1,2)[symmetric], of e]
  ultimately show thesis using that n(5) assms(2) by (simp add: journal_indep)
qed

lemma undo_needs_entry: "undo_last db = (Inr (Restored ch T), db') \<Longrightarrow> \<exists>e es. db_journal db = e # es"
  by (auto simp: undo_last_def split: list.splits)

lemma tracks_cong:
  assumes "tracks db1 ss" "store_of db1 = store_of db2" "db_event_start db1 = db_event_start db2"
    "take n (db_journal db1) = take n (db_journal db2)" "length ss \<le> n"
  shows "tracks db2 ss"
  using assms
proof (induction ss arbitrary: db1 db2 n)
  case (Cons s ss)
  from Cons.prems(1) obtain ch T db1' where u: "undo_last db1 = (Inr (Restored ch T), db1')" "store_of db1' = s" "tracks db1' ss"
    by (auto split: prod.splits sum.splits undo_outcome.splits)
  from undo_needs_entry[OF u(1)] obtain e es1 where j1: "db_journal db1 = e # es1" by blast
  from Cons.prems(5) obtain k where k: "n = Suc k" "length ss \<le> k" by (cases n) auto
  with Cons.prems(4) j1 obtain es2 where j2: "db_journal db2 = e # es2" "take k es1 = take k es2"
    by (cases "db_journal db2") auto
  from undo_cong[OF Cons.prems(2,3) u(1) j1 j2(1)] obtain db2' where db2': "undo_last db2 = (Inr (Restored ch T), db2')"
    "store_of db1' = store_of db2'" "db_event_start db1' = db_event_start db2'" "db_journal db1' = es1" "db_journal db2' = es2" .
  have "take k (db_journal db1') = take k (db_journal db2')" using db2'(4,5) j2(2) by simp
  from Cons.IH[OF u(3) db2'(2,3) this k(2)] show ?case using db2'(1,2) u(2) by simp
qed simp

lemma tracks_take: "tracks db ss \<Longrightarrow> tracks db (take n ss)"
proof (induction ss arbitrary: db n)
  case (Cons s ss)
  then show ?case by (cases n) (auto split: prod.splits sum.splits undo_outcome.splits)
qed simp

section \<open>A change pushes\<close>

lemma change_keeps_unsent: "changed_only T C db db' \<Longrightarrow> unsent db \<Longrightarrow> unsent db'"
  unfolding unsent_def changed_only_def by (metis (mono_tags, lifting) UnE option.simps(5))

lemma unsent_never: "unsent db \<Longrightarrow> never_sent db T"
  by (auto simp: unsent_def never_sent_def list_all_iff split: option.splits)

lemma run_op_pushes:
  assumes "db_ok db" "unsent db" "run_op st now op db = (None, db')"
  shows "unsent db'" "length (db_journal db') = min UNDO_DEPTH (Suc (length (db_journal db)))"
    "\<exists>ch T db''. undo_last db' = (Inr (Restored ch T), db'') \<and> store_of db'' = store_of db \<and>
       db_event_start db'' = db_event_start db \<and> db_journal db'' = take (UNDO_DEPTH - 1) (db_journal db)"
proof -
  from run_op_done[OF assms(1,3) unsent_never[OF assms(2)]] obtain C db2 where d: "db' = seal C db2"
    "changed_only (op_touches op) C db db2" "db_journal db2 = db_journal (record_change (op_change op) (op_touches op) db)"
    unfolding done_as_def by blast
  show "unsent db'" using change_keeps_unsent[OF d(2) assms(2)] by (simp add: d(1) unsent_def)
  show "length (db_journal db') = min UNDO_DEPTH (Suc (length (db_journal db)))"
    unfolding d(1) by (rule change_then_undo(2)[OF assms(1) d(2,3)])
  have "db_event_start db2 = db_event_start db" using d(2) by (simp add: changed_only_def)
  with change_then_undo(1)[OF assms(1) d(2,3)]
  show "\<exists>ch T db''. undo_last db' = (Inr (Restored ch T), db'') \<and> store_of db'' = store_of db \<and>
       db_event_start db'' = db_event_start db \<and> db_journal db'' = take (UNDO_DEPTH - 1) (db_journal db)"
    by (simp add: d(1) store_of_def)
qed

lemma follows_push:
  assumes "follows db h" "run_op st now op db = (None, db')"
  shows "follows db' (store_of db', take UNDO_DEPTH (store_of db # snd h))"
proof -
  from assms(1) have f: "db_ok db" "unsent db" "store_of db = fst h" "length (db_journal db) = length (snd h)"
    "list_all (\<lambda>s. \<forall>i b. fst s i = Some b \<longrightarrow> bk_tempo b = None) (snd h)" "tracks db (snd h)" by (simp_all add: follows_def)
  note p = run_op_pushes[OF f(1,2) assms(2)]
  from p(3) obtain ch T db'' where u: "undo_last db' = (Inr (Restored ch T), db'')" "store_of db'' = store_of db"
    "db_event_start db'' = db_event_start db" "db_journal db'' = take (UNDO_DEPTH - 1) (db_journal db)" by blast
  have "tracks db'' (take (UNDO_DEPTH - 1) (snd h))"
    by (rule tracks_cong[OF tracks_take[OF f(6)] u(2,3)[symmetric], of "UNDO_DEPTH - 1"]) (simp_all add: u(4))
  moreover have t: "take UNDO_DEPTH (store_of db # snd h) = store_of db # take (UNDO_DEPTH - 1) (snd h)"
    by (simp add: UNDO_DEPTH_def)
  ultimately have "tracks db' (take UNDO_DEPTH (store_of db # snd h))" using u(1,2) by simp
  moreover have "fst (store_of db) i = Some b \<Longrightarrow> bk_tempo b = None" for i b
    using f(2) by (simp add: unsent_def store_of_def)
  moreover have "list_all P (take n xs)" if "list_all P xs" for P n and xs :: "store list"
    using that by (metis append_take_drop_id list_all_append)
  moreover have "min UNDO_DEPTH (Suc n) = Suc (min n (UNDO_DEPTH - 1))" for n by (simp add: UNDO_DEPTH_def)
  ultimately show ?thesis
    using p(1,2) run_op_ok[OF f(1) assms(2)] f(4,5) unfolding follows_def t by simp
qed

lemma follows_pop:
  assumes "follows db h"
  shows "follows (snd (undo_last db)) (case snd h of [] \<Rightarrow> h | s # ss \<Rightarrow> (s, ss))"
proof (cases "snd h")
  case Nil
  with assms have "db_journal db = []" by (simp add: follows_def)
  then have "snd (undo_last db) = db" by (simp add: undo_last_def)
  with assms Nil show ?thesis by simp
next
  case (Cons s ss)
  with assms have f: "db_ok db" "length (db_journal db) = Suc (length ss)" "tracks db (s # ss)"
    "list_all (\<lambda>s. \<forall>i b. fst s i = Some b \<longrightarrow> bk_tempo b = None) (s # ss)" by (simp_all add: follows_def)
  from f(3) obtain ch T db' where u: "undo_last db = (Inr (Restored ch T), db')" "store_of db' = s" "tracks db' ss"
    by (auto split: prod.splits sum.splits undo_outcome.splits)
  have "db_journal db' = tl (db_journal db)" using undo_progress[OF u(1)] by simp
  moreover have "unsent db'" using f(4) u(2) by (auto simp: unsent_def store_of_def)
  ultimately show ?thesis using undo_ok[OF f(1) u(1)] u f(2,4) Cons by (simp add: follows_def)
qed

text \<open>The simulation, for one action and for a run.\<close>

lemma follows_step:
  assumes "follows db h"
  shows "\<exists>h'. history_step a h h' \<and> follows (act st now a db) h'"
proof (cases a)
  case (Do op)
  obtain r db' where o: "run_op st now op db = (r, db')" by fastforce
  have c: "fst h = store_of db" "db_ok db" using assms by (simp_all add: follows_def)
  show ?thesis
  proof (cases r)
    case None
    with o have "follows db' (store_of db', take UNDO_DEPTH (store_of db # snd h))" using follows_push[OF assms] by simp
    moreover have "history_step a h (store_of db', take UNDO_DEPTH (store_of db # snd h))"
      unfolding Do using push[of op "fst h" "snd h" "store_of db'"] c(1) by (metis prod.collapse)
    moreover have "act st now a db = db'" using o Do by (simp add: act_def)
    ultimately show ?thesis by metis
  next
    case (Some e)
    with o run_op_error[OF c(2)] have "db' = db" by blast
    then have "act st now a db = db" using o Do by (simp add: act_def)
    with assms stay[of op h] Do show ?thesis by metis
  qed
next
  case UndoLast
  obtain cur past where h: "h = (cur, past)" by fastforce
  have "history_step a h (case snd h of [] \<Rightarrow> h | s # ss \<Rightarrow> (s, ss))"
    unfolding UndoLast h by (cases past) (auto intro: pop bottom)
  moreover have "act st now a db = snd (undo_last db)" using UndoLast by (simp add: act_def)
  ultimately show ?thesis using follows_pop[OF assms] by metis
qed

lemma follows_run:
  "follows db h \<Longrightarrow> \<exists>h'. history_run as h h' \<and> follows (foldl (\<lambda>db a. act st now a db) db as) h'"
proof (induction as arbitrary: db h)
  case (Cons a as)
  from follows_step[OF Cons.prems] obtain m where m: "history_step a h m" "follows (act st now a db) m" by blast
  from Cons.IH[OF m(2)] obtain h' where "history_run as m h'"
    "follows (foldl (\<lambda>db a. act st now a db) (act st now a db) as) h'" by blast
  with m(1) show ?case unfolding history_run.simps foldl.simps by blast
qed simp

text \<open>Undoing to the end: within as many steps as the journal is long, nothing is left to undo or a block
  sent to Tempo stands in the way.\<close>

definition undo_ends :: "block_db \<Rightarrow> bool" where
  "undo_ends db = (db_journal db = [] \<or> (\<exists>i. undo_last db = (Inr (RefusedSynced i), db)))"

lemma undo_reaches_end:
  "length (db_journal db) = n \<Longrightarrow> \<exists>k\<le>n. undo_ends (((\<lambda>db. snd (undo_last db)) ^^ k) db)"
proof (induction n arbitrary: db)
  case 0
  then show ?case by (simp add: undo_ends_def)
next
  case (Suc n)
  obtain r db' where u: "undo_last db = (r, db')" by fastforce
  show ?case
  proof (cases "undo_ends db")
    case True
    then show ?thesis by (intro exI[of _ 0]) simp
  next
    case False
    have "length (db_journal db') = n"
      using undo_progress[OF u] False u Suc.prems
      by (auto simp: undo_ends_def split: sum.splits undo_outcome.splits)
    from Suc.IH[OF this] obtain k where "k \<le> n" "undo_ends (((\<lambda>db. snd (undo_last db)) ^^ k) db')" by blast
    then show ?thesis using u by (intro exI[of _ "Suc k"]) (simp add: funpow_Suc_right del: funpow.simps)
  qed
qed

end
