(* ===== verification/Timeline.thy ===== *)
theory Timeline
  imports Billing
begin

text \<open>
  The pure helpers of \<open>timeline.rs\<close>: the confidence label of a block and the gaps between blocks. The merge
  loop of \<open>day_gaps\<close> is the one of \<open>union_seconds\<close>, so the interpretation \<open>union\<close> carries its facts.
\<close>

definition block_confidence :: "nat \<Rightarrow> string" where
  "block_confidence distinct_sources =
     (if distinct_sources \<le> 1 then ''low'' else if distinct_sources = 2 then ''medium'' else ''high'')"

definition day_gaps :: "seconds_range list \<Rightarrow> int \<Rightarrow> seconds_range list" where
  "day_gaps blocks min_gap =
     List.map_filter (\<lambda>(p, q). let (_, prev_end) = p; (next_start, _) = q
                               in if min_gap \<le> next_start - prev_end then Some (prev_end, next_start) else None)
       (windows2 (coalesce join_overlap (sort_key fst blocks)))"

section \<open>What the merged list looks like\<close>

definition merged_blocks :: "seconds_range list \<Rightarrow> seconds_range list" where
  "merged_blocks blocks = coalesce join_overlap (sort_key fst blocks)"

lemma merged_facts:
  assumes "list_all forward_range blocks"
  shows "union.chain (merged_blocks blocks)"
    and "\<Union> (range_set ` set (merged_blocks blocks)) = \<Union> (range_set ` set blocks)"
    and "successively (\<lambda>p q. snd p < fst q) (merged_blocks blocks)"
proof -
  have "sorted_wrt starts_before (sort_key fst blocks)"
    using sorted_sort_key[of fst blocks] by (simp add: sorted_map starts_before_def[abs_def])
  then have ch: "union.chain (sort_key fst blocks)"
    using assms by (simp add: union.chain_def list_all_iff)
  from union.coalesce_chain[OF ch] show "union.chain (merged_blocks blocks)" by (simp add: merged_blocks_def)
  from union.coalesce_cov[OF ch]
  show "\<Union> (range_set ` set (merged_blocks blocks)) = \<Union> (range_set ` set blocks)" by (simp add: merged_blocks_def)
  show "successively (\<lambda>p q. snd p < fst q) (merged_blocks blocks)"
    unfolding merged_blocks_def using union.coalesce_maximal[of "sort_key fst blocks"]
    by (rule successively_mono) (simp add: join_overlap_def not_le split: if_splits)
qed

text \<open>Its ranges end where some block ends and start where some block starts, and each block lies in one.\<close>

lemma coalesce_ends: "r \<in> set (coalesce join_overlap xs) \<Longrightarrow> (\<exists>b\<in>set xs. snd b = snd r) \<and> (\<exists>b\<in>set xs. fst b = fst r)"
proof (induction xs arbitrary: r rule: coalesce_induct[where f = join_overlap])
  case (two x y ys)
  show ?case
  proof (cases "join_overlap x y")
    case None
    with two.prems have "r = x \<or> r \<in> set (coalesce join_overlap (y # ys))" by simp
    with two.IH(1)[OF None, of r] show ?thesis by auto
  next
    case (Some z)
    then have z: "z = (fst x, max (snd x) (snd y))" by (simp add: join_overlap_def split: if_splits)
    from Some two.prems have "r \<in> set (coalesce join_overlap (z # ys))" by simp
    from two.IH(2)[OF Some this] z show ?thesis by (auto simp: max_def split: if_splits)
  qed
qed auto

lemma coalesce_holds:
  "b \<in> set xs \<Longrightarrow> sorted (map fst xs) \<Longrightarrow> \<exists>r\<in>set (coalesce join_overlap xs). fst r \<le> fst b \<and> snd b \<le> snd r"
proof (induction xs arbitrary: b rule: coalesce_induct[where f = join_overlap])
  case (two x y ys)
  show ?case
  proof (cases "join_overlap x y")
    case None
    from two.prems have "b = x \<or> b \<in> set (y # ys)" by simp
    with None two.IH(1)[of b] two.prems(2) show ?thesis by auto
  next
    case (Some z)
    then have z: "z = (fst x, max (snd x) (snd y))" by (simp add: join_overlap_def split: if_splits)
    have sorted: "sorted (map fst (z # ys))" using two.prems(2) z by auto
    show ?thesis
    proof (cases "b \<in> set ys")
      case True
      with two.IH(2)[OF Some _ sorted, of b] Some show ?thesis by auto
    next
      case False
      with two.prems have "fst z \<le> fst b" "snd b \<le> snd z" using z by auto
      moreover from two.IH(2)[OF Some _ sorted, of z] Some
      obtain r where "r \<in> set (coalesce join_overlap (x # y # ys))" "fst r \<le> fst z" "snd z \<le> snd r" by auto
      ultimately show ?thesis by (meson order_trans)
    qed
  qed
qed auto

lemma windows2_split: "(p, q) \<in> set (windows2 xs) \<longleftrightarrow> (\<exists>us vs. xs = us @ p # q # vs)"
proof (induction xs rule: windows2.induct)
  case (1 a b xs)
  show ?case
  proof
    assume "(p, q) \<in> set (windows2 (a # b # xs))"
    then consider "p = a" "q = b" | "(p, q) \<in> set (windows2 (b # xs))" by auto
    then show "\<exists>us vs. a # b # xs = us @ p # q # vs"
    proof cases
      case 1
      then show ?thesis by (intro exI[of _ "[]"] exI[of _ xs]) simp
    next
      case 2
      with "1.IH" obtain us vs where "b # xs = us @ p # q # vs" by auto
      then have "a # b # xs = (a # us) @ p # q # vs" by simp
      then show ?thesis by blast
    qed
  next
    assume "\<exists>us vs. a # b # xs = us @ p # q # vs"
    then obtain us vs where e: "a # b # xs = us @ p # q # vs" by blast
    show "(p, q) \<in> set (windows2 (a # b # xs))"
    proof (cases us)
      case (Cons u us')
      with e have "b # xs = us' @ p # q # vs" by simp
      with "1.IH" have "(p, q) \<in> set (windows2 (b # xs))" by blast
      then show ?thesis by simp
    qed (use e in simp)
  qed
qed (auto simp: Cons_eq_append_conv)

lemma day_gaps_mem:
  "(s, e) \<in> set (day_gaps blocks min_gap) \<longleftrightarrow>
     min_gap \<le> e - s \<and> (\<exists>us p q vs. merged_blocks blocks = us @ p # q # vs \<and> snd p = s \<and> fst q = e)"
proof -
  have "(s, e) \<in> set (day_gaps blocks min_gap) \<longleftrightarrow>
      (\<exists>p q. (p, q) \<in> set (windows2 (merged_blocks blocks)) \<and> snd p = s \<and> fst q = e \<and> min_gap \<le> e - s)"
    unfolding day_gaps_def merged_blocks_def map_filter_def by (force simp: case_prod_beta)
  then show ?thesis unfolding windows2_split by blast
qed

lemma successive_order:
  assumes "union.chain (us @ p # q # vs)" "successively (\<lambda>p q. snd p < fst q) (us @ p # q # vs)"
    and "r \<in> set (us @ p # q # vs)"
  shows "snd r \<le> snd p \<or> fst q \<le> fst r"
proof -
  have q: "\<forall>r\<in>set (q # vs). fst q \<le> fst r" using assms(1)
    by (auto simp: union.chain_def sorted_wrt_append starts_before_def)
  have "\<forall>r\<in>set us. snd r \<le> snd p"
    using assms(1,2)
  proof (induction us)
    case (Cons u us)
    from Cons.prems have ch: "union.chain (us @ p # q # vs)"
      and sc: "successively (\<lambda>p q. snd p < fst q) (us @ p # q # vs)" and fw: "forward_range p"
      by (auto simp: union.chain_def successively_Cons split: list.splits)
    have "snd u < fst (hd (us @ p # q # vs))" using Cons.prems(2) by (cases us) auto
    moreover have "fst (hd (us @ p # q # vs)) \<le> fst p"
      using ch by (cases us) (auto simp: union.chain_Cons starts_before_def)
    ultimately have "snd u \<le> snd p" using fw by (simp add: forward_range_def)
    with Cons.IH[OF ch sc] show ?case by simp
  qed simp
  with q assms(3) show ?thesis by auto
qed

lemma gap_adjacent:
  assumes ch: "union.chain ms" and sc: "successively (\<lambda>p q. snd p < fst q) ms"
    and p: "p \<in> set ms" and q: "q \<in> set ms" and lt: "snd p < fst q"
    and between: "\<And>r. r \<in> set ms \<Longrightarrow> snd r \<le> snd p \<or> fst q \<le> fst r"
  shows "\<exists>us vs. ms = us @ p # q # vs"
proof -
  from p obtain us rest where ms: "ms = us @ p # rest" by (meson split_list)
  have fw: "fst r \<le> snd r" if "r \<in> set ms" for r
    using ch that by (simp add: union.chain_def forward_range_def)
  have before: "\<forall>r\<in>set us. fst r \<le> fst p" and after: "sorted_wrt starts_before rest"
    using ch unfolding ms by (auto simp: union.chain_def sorted_wrt_append starts_before_def)
  have "q \<in> set rest"
    using q before fw[OF p] lt unfolding ms by auto
  then obtain r vs where rest: "rest = r # vs" by (cases rest) auto
  have r: "r \<in> set ms" using ms rest by simp
  have pr: "snd p < fst r" using sc unfolding ms rest by (simp add: successively_append_iff)
  from between[OF r] fw[OF r] pr have le: "fst q \<le> fst r" by linarith
  have "q = r"
  proof (rule ccontr)
    assume "q \<noteq> r"
    with \<open>q \<in> set rest\<close> rest have "q \<in> set vs" by simp
    then obtain w ws where vs: "vs = w # ws" by (cases vs) auto
    have "snd r < fst w" using sc unfolding ms rest vs by (simp add: successively_append_iff)
    moreover have "fst w \<le> fst q" using \<open>q \<in> set vs\<close> after unfolding rest vs by (auto simp: starts_before_def)
    ultimately show False using le fw[OF r] by linarith
  qed
  with ms rest show ?thesis by blast
qed

section \<open>Exactly the uncovered stretches between blocks\<close>

lemma day_gaps_iff:
  assumes fw: "list_all forward_range blocks" and pos: "0 < min_gap"
  shows "(s, e) \<in> set (day_gaps blocks min_gap) \<longleftrightarrow>
     min_gap \<le> e - s \<and> (\<exists>b\<in>set blocks. snd b = s) \<and> (\<exists>b\<in>set blocks. fst b = e)
     \<and> (\<forall>b\<in>set blocks. snd b \<le> s \<or> e \<le> fst b)"
    (is "?gap \<longleftrightarrow> ?free")
proof -
  note ch = merged_facts(1)[OF fw] and cov = merged_facts(2)[OF fw] and sc = merged_facts(3)[OF fw]
  have ends: "(\<exists>b\<in>set blocks. snd b = snd r) \<and> (\<exists>b\<in>set blocks. fst b = fst r)" if "r \<in> set (merged_blocks blocks)" for r
    using coalesce_ends[of r "sort_key fst blocks"] that by (simp add: merged_blocks_def)
  have holds: "\<exists>r\<in>set (merged_blocks blocks). fst r \<le> fst b \<and> snd b \<le> snd r" if "b \<in> set blocks" for b
    using coalesce_holds[of b "sort_key fst blocks"] that by (simp add: merged_blocks_def)
  show ?thesis
  proof
    assume ?gap
    then obtain us p q vs where g: "min_gap \<le> e - s" and m: "merged_blocks blocks = us @ p # q # vs" "snd p = s" "fst q = e"
      unfolding day_gaps_mem by blast
    have "snd b \<le> s \<or> e \<le> fst b" if b: "b \<in> set blocks" for b
    proof -
      from holds[OF b] obtain r where r: "r \<in> set (merged_blocks blocks)" "fst r \<le> fst b" "snd b \<le> snd r" by blast
      from successive_order[OF ch[unfolded m(1)] sc[unfolded m(1)] r(1)[unfolded m(1)]] r(2,3) m(2,3) show ?thesis by linarith
    qed
    with g ends[of p] ends[of q] m show ?free by auto
  next
    assume free: ?free
    then obtain b c where b: "b \<in> set blocks" "snd b = s" and c: "c \<in> set blocks" "fst c = e" by blast
    have lt: "s < e" using free pos by linarith
    have empty: "t \<notin> \<Union> (range_set ` set (merged_blocks blocks))" if "s \<le> t" "t < e" for t
      unfolding cov using free that by (force simp: range_set_def)
    from holds[OF b(1)] obtain p where p: "p \<in> set (merged_blocks blocks)" "fst p \<le> fst b" "s \<le> snd p" using b(2) by auto
    from holds[OF c(1)] obtain q where q: "q \<in> set (merged_blocks blocks)" "fst q \<le> e" "snd c \<le> snd q" using c(2) by auto
    have fwb: "forward_range b" "forward_range c" using fw b(1) c(1) by (simp_all add: list_all_iff)
    have sp: "snd p = s"
    proof (rule ccontr)
      assume "snd p \<noteq> s"
      then have "s \<in> range_set p" using p fwb(1) b(2) by (simp add: range_set_def forward_range_def)
      with empty[of s] p(1) lt show False by auto
    qed
    have fq: "fst q = e"
    proof (rule ccontr)
      assume "fst q \<noteq> e"
      then have "e - 1 \<in> range_set q" using q fwb(2) c(2) by (simp add: range_set_def forward_range_def)
      with empty[of "e - 1"] q(1) lt show False by auto
    qed
    have between: "snd r \<le> snd p \<or> fst q \<le> fst r" if r: "r \<in> set (merged_blocks blocks)" for r
    proof -
      from ends[OF r] obtain b1 b2 where b1: "b1 \<in> set blocks" "snd b1 = snd r" and b2: "b2 \<in> set blocks" "fst b2 = fst r"
        by blast
      have "fst b1 \<le> snd b1" "fst b2 \<le> snd b2" using fw b1(1) b2(1) by (simp_all add: list_all_iff forward_range_def)
      moreover have "s \<notin> range_set r" using empty[of s] lt r by auto
      moreover have "snd b1 \<le> s \<or> e \<le> fst b1" "snd b2 \<le> s \<or> e \<le> fst b2" using free b1(1) b2(1) by blast+
      ultimately show ?thesis using b1(2) b2(2) sp fq lt by (auto simp: range_set_def)
    qed
    have "snd p < fst q" using sp fq lt by simp
    from gap_adjacent[OF ch sc p(1) q(1) this between] sp fq free show ?gap unfolding day_gaps_mem by blast
  qed
qed

end
