(* ===== verification/TempoLines.thy ===== *)
theory TempoLines
  imports BlockSteps Billing
begin

text \<open>
  The Tempo ticket lines of a day (\<open>tempo_lines.rs\<close>): the blocks of one ticket, the stored text and hours
  override, and the seconds a sync will send. The hash, the stored Mirres facts and the text rules of
  \<open>line_text_rules.rs\<close> (regular expressions) are parameters.
\<close>

section \<open>Rows\<close>

type_synonym tempo_key = "string \<times> string"

record line_row =
  lr_text :: "string option"
  lr_origin :: "string option"
  lr_hash :: "string option"
  lr_hours :: "int option"
  lr_check :: "string option"
  lr_match_status :: "string option"
  lr_match_id :: "string option"
  lr_match_basis :: "string option"
  lr_send_error :: "string option"
  lr_auto_sent :: "string option"
  lr_confirmed :: "string option"

record line_billing =
  lb_account :: string
  lb_customer :: "string option"

record tempo_env =
  te_clock :: clock
  te_unicode :: unicode
  te_sha256 :: "string \<Rightarrow> string"
  te_billing :: "tempo_key \<Rightarrow> line_billing option"
  te_unsafe :: "string \<Rightarrow> bool"

record tempo_db =
  td_db :: block_db
  td_rows :: "tempo_key \<Rightarrow> line_row option"
  td_issue :: "string \<Rightarrow> string option"
  td_summary :: "string \<Rightarrow> string option"

definition empty_row :: line_row where
  "empty_row = \<lparr>lr_text = None, lr_origin = None, lr_hash = None, lr_hours = None, lr_check = None,
     lr_match_status = None, lr_match_id = None, lr_match_basis = None, lr_send_error = None, lr_auto_sent = None, lr_confirmed = None\<rparr>"

datatype line_check = CheckPassed | CheckNeedsLook

definition parse_check :: "string option \<Rightarrow> line_check option" where
  "parse_check v =
     (case v of
        None \<Rightarrow> None
      | Some s \<Rightarrow> if s = ''passed'' then Some CheckPassed else if s = ''needs_look'' then Some CheckNeedsLook else None)"

definition show_check :: "line_check \<Rightarrow> string" where
  "show_check c = (case c of CheckPassed \<Rightarrow> ''passed'' | CheckNeedsLook \<Rightarrow> ''needs_look'')"

text \<open>\<open>text_origin\<close> reads as \<open>LineTextOrigin::Manual\<close>.\<close>

definition manual_origin :: "line_row \<Rightarrow> bool" where
  "manual_origin r = (lr_origin r = Some ''manual'')"

section \<open>The blocks of a line\<close>

text \<open>The rows of \<open>blocks\<close> in id order, and \<open>list_blocks_for_day\<close>.\<close>

definition all_blocks :: "block_db \<Rightarrow> block list" where
  "all_blocks db = List.map_filter (db_blocks db) [1..db_next db - 1]"

definition list_blocks_for_day :: "block_db \<Rightarrow> string \<Rightarrow> block list" where
  "list_blocks_for_day db day = sort_key bk_start (filter (\<lambda>b. bk_day b = day) (all_blocks db))"

definition ticketed_blocks :: "block_db \<Rightarrow> string \<Rightarrow> block list" where
  "ticketed_blocks db day =
     filter (\<lambda>b. \<not> bk_personal b \<and> (case bk_jira b of None \<Rightarrow> False | Some issue \<Rightarrow> issue \<noteq> [])) (list_blocks_for_day db day)"

definition blocks_by_ticket :: "block_db \<Rightarrow> string \<Rightarrow> (string \<times> block list) list" where
  "blocks_by_ticket db day =
     map (\<lambda>issue. (issue, filter (\<lambda>b. bk_jira b = Some issue) (ticketed_blocks db day)))
       (btree_keys (List.map_filter bk_jira (ticketed_blocks db day)))"

definition blocks_for_ticket :: "block_db \<Rightarrow> tempo_key \<Rightarrow> block list" where
  "blocks_for_ticket db key = (case map_of (blocks_by_ticket db (fst key)) (snd key) of None \<Rightarrow> [] | Some bs \<Rightarrow> bs)"

definition descriptions_of :: "block list \<Rightarrow> string list" where
  "descriptions_of blocks = filter (\<lambda>d. d \<noteq> []) (map trim (List.map_filter bk_desc blocks))"

definition source_hash :: "tempo_env \<Rightarrow> string list \<Rightarrow> string" where
  "source_hash te descriptions = te_sha256 te (join [CHR 0x0A] (sort descriptions))"

definition distinct_descriptions :: "string list \<Rightarrow> string list" where
  "distinct_descriptions descriptions =
     foldl (\<lambda>unique d. let t = trim d in if t = [] \<or> t \<in> set unique then unique else unique @ [t]) [] descriptions"

text \<open>\<open>summarize_descriptions\<close> without a model.\<close>

definition fallback_description :: "string \<Rightarrow> string list \<Rightarrow> string" where
  "fallback_description issue descriptions =
     (let unique = distinct_descriptions descriptions
      in if unique = [] then ''Work on '' @ issue else join ''; '' unique)"

section \<open>The seconds of a line\<close>

text \<open>The letter o with an acute accent, in either case, read as a plain o; the rest in ASCII lower case.\<close>

fun fold_acute_o :: "string \<Rightarrow> string" where
  "fold_acute_o (c # d # cs) =
     (if c = CHR 0xC3 \<and> (d = CHR 0xB3 \<or> d = CHR 0x93) then CHR ''o'' # fold_acute_o cs
      else nocase [c] @ fold_acute_o (d # cs))"
| "fold_acute_o [c] = nocase [c]"
| "fold_acute_o [] = []"

fun first_word :: "string \<Rightarrow> string" where
  "first_word [] = []"
| "first_word (c # cs) = (if strip_any white_space (c # cs) \<noteq> None then [] else c # first_word cs)"

definition is_apro :: "line_billing option \<Rightarrow> bool" where
  "is_apro billing =
     (case billing of
        None \<Rightarrow> False
      | Some b \<Rightarrow>
          first_word (fold_acute_o (trim (case lb_customer b of None \<Rightarrow> [] | Some c \<Rightarrow> c))) = ''apro''
          \<or> starts_with ''apro-'' (nocase (lb_account b)))"

record tempo_line =
  ln_day :: string
  ln_issue :: string
  ln_text :: "string option"
  ln_manual :: "bool option"
  ln_fallback :: string
  ln_union :: int
  ln_override :: "int option"
  ln_effective :: int
  ln_check :: "line_check option"
  ln_billing :: "line_billing option"

definition build_line :: "tempo_env \<Rightarrow> tempo_db \<Rightarrow> tempo_key \<Rightarrow> block list \<Rightarrow> tempo_line" where
  "build_line te td key blocks =
     (let stored = td_rows td key;
          billing = te_billing te key;
          secs = union_seconds (map (block_interval (te_clock te)) blocks);
          union = (if is_apro billing then round_to_half_hour secs else round_billable_half_hour secs);
          override_seconds = Option.bind stored lr_hours
      in \<lparr>ln_day = fst key, ln_issue = snd key, ln_text = Option.bind stored lr_text,
          ln_manual = Option.bind stored (\<lambda>r. map_option (\<lambda>s. s = ''manual'') (lr_origin r)),
          ln_fallback = fallback_description (snd key) (descriptions_of blocks), ln_union = union,
          ln_override = override_seconds,
          ln_effective = (case override_seconds of Some s \<Rightarrow> s | None \<Rightarrow> union),
          ln_check = Option.bind stored (\<lambda>r. parse_check (lr_check r)), ln_billing = billing\<rparr>)"

definition lines_for_day :: "tempo_env \<Rightarrow> tempo_db \<Rightarrow> string \<Rightarrow> tempo_line list" where
  "lines_for_day te td day = map (\<lambda>(issue, blocks). build_line te td (day, issue) blocks) (blocks_by_ticket (td_db td) day)"

definition line_for :: "tempo_env \<Rightarrow> tempo_db \<Rightarrow> tempo_key \<Rightarrow> tempo_line option" where
  "line_for te td key = map_option (build_line te td key) (map_of (blocks_by_ticket (td_db td) (fst key)) (snd key))"

section \<open>Writing a line\<close>

definition with_row :: "tempo_key \<Rightarrow> (line_row \<Rightarrow> line_row) \<Rightarrow> tempo_db \<Rightarrow> tempo_db" where
  "with_row key f td = td\<lparr>td_rows := (td_rows td)(key := map_option f (td_rows td key))\<rparr>"

definition ensure_row :: "tempo_key \<Rightarrow> tempo_db \<Rightarrow> tempo_db" where
  "ensure_row key td =
     (case td_rows td key of Some _ \<Rightarrow> td | None \<Rightarrow> td\<lparr>td_rows := (td_rows td)(key \<mapsto> empty_row)\<rparr>)"

definition on_line :: "tempo_key \<Rightarrow> block \<Rightarrow> bool" where
  "on_line key b = (bk_day b = fst key \<and> bk_jira b = Some (snd key) \<and> \<not> bk_personal b)"

definition dirty_line :: "tempo_key \<Rightarrow> block_db \<Rightarrow> block_db" where
  "dirty_line key db =
     db\<lparr>db_blocks := (\<lambda>i. map_option (\<lambda>b. if on_line key b \<and> nonempty_text (bk_tempo b) then b\<lparr>bk_dirty := True\<rparr> else b)
          (db_blocks db i))\<rparr>"

definition finish_write :: "tempo_key \<Rightarrow> tempo_db \<Rightarrow> tempo_db" where
  "finish_write key td =
     td\<lparr>td_rows := (case td_rows td key of
            Some r \<Rightarrow> if lr_text r = None \<and> lr_hours r = None then (td_rows td)(key := None) else td_rows td
          | None \<Rightarrow> td_rows td),
        td_db := dirty_line key (td_db td)\<rparr>"

definition squashed :: "unicode \<Rightarrow> string \<Rightarrow> nat list" where
  "squashed uc t = filter (\<lambda>n. n \<notin> {9, 10, 11, 12, 13, 32, 133, 160, 5760, 8192, 8193, 8194, 8195, 8196, 8197, 8198,
     8199, 8200, 8201, 8202, 8232, 8233, 8239, 8287, 12288}) (lower_chars uc t)"

definition static_check :: "tempo_env \<Rightarrow> string \<Rightarrow> string \<Rightarrow> line_check option" where
  "static_check te t ticket_summary =
     (let summary = squashed (te_unicode te) ticket_summary
      in if (summary \<noteq> [] \<and> squashed (te_unicode te) t = summary) \<or> te_unsafe te t then Some CheckNeedsLook else None)"

definition set_line_text :: "tempo_env \<Rightarrow> tempo_key \<Rightarrow> string \<Rightarrow> tempo_db \<Rightarrow> tempo_line option \<times> tempo_db" where
  "set_line_text te key raw td =
     (if line_for te td key = None then (None, td)
      else (let trimmed = trim raw;
                told = (if trimmed = [] then None else Some trimmed);
                summary = (case td_summary td (snd key) of None \<Rightarrow> [] | Some s \<Rightarrow> s);
                status = Option.bind told (\<lambda>t. map_option (\<lambda>_. ''needs_look'') (static_check te t summary));
                td = ensure_row key td;
                td = with_row key (\<lambda>r. r\<lparr>lr_text := told, lr_origin := map_option (\<lambda>_. ''manual'') told,
                       lr_hash := None, lr_check := status\<rparr>) td;
                td = finish_write key td
            in (line_for te td key, td)))"

datatype hours_error = InvalidHours int

definition check_hours :: "int option \<Rightarrow> hours_error + unit" where
  "check_hours secs =
     (case secs of
        Some s \<Rightarrow> if s \<le> 0 \<or> s mod HALF_HOUR_SECONDS \<noteq> 0 then Inl (InvalidHours s) else Inr ()
      | None \<Rightarrow> Inr ())"

definition write_hours :: "tempo_key \<Rightarrow> int option \<Rightarrow> tempo_db \<Rightarrow> tempo_db" where
  "write_hours key secs td = finish_write key (with_row key (\<lambda>r. r\<lparr>lr_hours := secs\<rparr>) (ensure_row key td))"

definition set_line_hours ::
    "tempo_env \<Rightarrow> tempo_key \<Rightarrow> int option \<Rightarrow> tempo_db \<Rightarrow> (hours_error + tempo_line option) \<times> tempo_db" where
  "set_line_hours te key secs td =
     (case check_hours secs of
        Inl e \<Rightarrow> (Inl e, td)
      | Inr _ \<Rightarrow>
          if line_for te td key = None then (Inr None, td)
          else (let td = write_hours key secs td in (Inr (line_for te td key), td)))"

definition pin_hours :: "tempo_key \<Rightarrow> int option \<Rightarrow> tempo_db \<Rightarrow> (hours_error + unit) \<times> tempo_db" where
  "pin_hours key secs td =
     (case check_hours secs of Inl e \<Rightarrow> (Inl e, td) | Inr _ \<Rightarrow> (Inr (), write_hours key secs td))"

definition wants_text :: "tempo_key option \<Rightarrow> tempo_key \<Rightarrow> line_row option \<Rightarrow> string \<Rightarrow> bool" where
  "wants_text forced key stored hash =
     (case forced of
        Some f \<Rightarrow> f = key
      | None \<Rightarrow>
          (case stored of
             Some r \<Rightarrow> if lr_text r \<noteq> None then \<not> manual_origin r \<and> lr_hash r \<noteq> Some hash else True
           | None \<Rightarrow> True))"

definition pending_generation ::
    "tempo_env \<Rightarrow> tempo_db \<Rightarrow> string \<Rightarrow> tempo_key option \<Rightarrow> (tempo_key \<times> string list \<times> string) list" where
  "pending_generation te td day forced =
     filter (\<lambda>(key, descriptions, hash). wants_text forced key (td_rows td key) hash)
       (map (\<lambda>(issue, blocks). ((day, issue), descriptions_of blocks, source_hash te (descriptions_of blocks)))
         (blocks_by_ticket (td_db td) day))"

definition commit_generated :: "tempo_key \<Rightarrow> string \<Rightarrow> string \<Rightarrow> bool \<Rightarrow> tempo_db \<Rightarrow> tempo_db" where
  "commit_generated key t hash force td =
     (if (case td_rows td key of None \<Rightarrow> False | Some r \<Rightarrow> manual_origin r) \<and> \<not> force then td
      else finish_write key (with_row key (\<lambda>r. r\<lparr>lr_text := Some t, lr_origin := Some ''generated'',
             lr_hash := Some hash, lr_check := None\<rparr>) (ensure_row key td)))"

definition set_check :: "tempo_key \<Rightarrow> line_check option \<Rightarrow> tempo_db \<Rightarrow> tempo_db" where
  "set_check key status td =
     with_row key (\<lambda>r. if lr_text r \<noteq> None \<and> lr_origin r = Some ''generated''
                        then r\<lparr>lr_check := map_option show_check status\<rparr> else r) td"

end
