(* ===== verification/TempoSync.thy ===== *)
theory TempoSync
  imports TempoLines
begin

text \<open>
  The Tempo sync of a day (\<open>collectors/tempo.rs\<close>) and the check that a line is not already in Tempo
  (\<open>tempo_match.rs\<close>). Tempo, Jira and the text model are the record \<open>tempo_net\<close>; every request sent is
  kept, in order, in the log of the state.
\<close>

section \<open>Numbers as text\<close>

definition show_int :: "int \<Rightarrow> string" where
  "show_int n = (if n < 0 then CHR ''-'' # show_nat (nat (- n)) else show_nat (nat n))"

definition digits_value :: "string \<Rightarrow> int" where
  "digits_value s = foldl (\<lambda>n c. 10 * n + (int (of_char c) - 48)) 0 s"

text \<open>\<open>str::parse::<i64>\<close>.\<close>

definition parse_i64 :: "string \<Rightarrow> int option" where
  "parse_i64 s =
     (let (neg, ds) = (case s of c # cs \<Rightarrow> if c = CHR ''-'' then (True, cs) else if c = CHR ''+'' then (False, cs) else (False, s)
                       | [] \<Rightarrow> (False, []));
          n = (if neg then - digits_value ds else digits_value ds)
      in if ds \<noteq> [] \<and> list_all ascii_digit ds \<and> - (2 ^ 63) \<le> n \<and> n < 2 ^ 63 then Some n else None)"

section \<open>The entries already in Tempo\<close>

record pulled_worklog =
  pw_id :: string
  pw_day :: string
  pw_issue :: int
  pw_seconds :: int
  pw_description :: string

datatype match_verdict = AlreadyInTempo string | Different | Unchecked

definition SAME_HOURS_TOLERANCE_SECONDS :: int where "SAME_HOURS_TOLERANCE_SECONDS = 1800"
definition ALREADY_IN_TEMPO :: string where "ALREADY_IN_TEMPO = ''already_in_tempo''"

type_synonym matcher = "string \<Rightarrow> string list \<Rightarrow> bool list option"

definition line_text :: "tempo_line \<Rightarrow> string" where
  "line_text line = (case ln_text line of Some t \<Rightarrow> t | None \<Rightarrow> ln_fallback line)"

definition fingerprint :: "tempo_env \<Rightarrow> tempo_line \<Rightarrow> string" where
  "fingerprint te line = te_sha256 te (show_int (ln_effective line) @ [CHR 0x0A] @ line_text line)"

definition owned_by_worklog :: "block_db \<Rightarrow> string \<Rightarrow> bool" where
  "owned_by_worklog db tempo_id = list_ex (\<lambda>b. bk_tempo b = Some tempo_id) (all_blocks db)"

definition match_candidates :: "tempo_db \<Rightarrow> tempo_line \<Rightarrow> int \<Rightarrow> pulled_worklog list \<Rightarrow> pulled_worklog list" where
  "match_candidates td line issue_id existing =
     filter (\<lambda>w. pw_day w = ln_day line \<and> pw_issue w = issue_id \<and>
         \<bar>pw_seconds w - ln_effective line\<bar> \<le> SAME_HOURS_TOLERANCE_SECONDS \<and>
         \<not> owned_by_worklog (td_db td) (pw_id w)) existing"

definition check_line :: "tempo_db \<Rightarrow> tempo_line \<Rightarrow> pulled_worklog list \<Rightarrow> matcher \<Rightarrow> match_verdict" where
  "check_line td line existing matcher =
     (case Option.bind (td_issue td (ln_issue line)) parse_i64 of
        None \<Rightarrow> Unchecked
      | Some issue_id \<Rightarrow>
          (let candidates = match_candidates td line issue_id existing;
               texts = map pw_description candidates
           in if candidates = [] then Different
              else case matcher (line_text line) texts of
                     None \<Rightarrow> Unchecked
                   | Some answers \<Rightarrow>
                       if length answers \<noteq> length texts then Unchecked
                       else (case position (\<lambda>same. same) answers of
                               Some i \<Rightarrow> AlreadyInTempo (pw_id (candidates ! i))
                             | None \<Rightarrow> Different)))"

definition mark_already :: "tempo_env \<Rightarrow> tempo_line \<Rightarrow> string \<Rightarrow> tempo_db \<Rightarrow> tempo_db" where
  "mark_already te line tempo_id td =
     with_row (ln_day line, ln_issue line)
       (\<lambda>r. r\<lparr>lr_match_status := Some ALREADY_IN_TEMPO, lr_match_id := Some tempo_id, lr_match_basis := Some (fingerprint te line)\<rparr>)
       (ensure_row (ln_day line, ln_issue line) td)"

definition is_already :: "tempo_env \<Rightarrow> tempo_db \<Rightarrow> tempo_line \<Rightarrow> bool" where
  "is_already te td line =
     (case td_rows td (ln_day line, ln_issue line) of
        None \<Rightarrow> False
      | Some r \<Rightarrow> lr_match_status r = Some ALREADY_IN_TEMPO \<and> lr_match_basis r = Some (fingerprint te line))"

section \<open>Requests and outcomes\<close>

record payload =
  py_issue_id :: string
  py_seconds :: int
  py_date :: string
  py_time :: string
  py_description :: string
  py_author :: string

datatype request = Post payload | Put string payload

datatype json_id = JsonNumber string | JsonString string | JsonOther

datatype reply = NotSent | HttpError nat string | Undecodable nat | Accepted nat json_id

record tempo_net =
  nt_author :: string
  nt_lookup :: "string \<Rightarrow> string option"
  nt_worklogs :: "string \<Rightarrow> pulled_worklog list option"
  nt_matcher :: matcher
  nt_writer :: "(tempo_key \<Rightarrow> string option) option"
  nt_reply :: "request list \<Rightarrow> request \<Rightarrow> reply"
  nt_now :: string

datatype sync_reason = NoTicket | UnknownIssue string | RoundsToZero int | InTempo | ErrorBody string | NoUsableId

record sync_result =
  sr_block :: int
  sr_status :: string
  sr_reason :: "sync_reason option"
  sr_tempo :: "string option"
  sr_payload :: "payload option"
  sr_http :: "nat option"

datatype sync_error = BlockError int sync_reason | GroupError string sync_reason

record sync_state =
  sy_td :: tempo_db
  sy_log :: "request list"
  sy_synced :: nat
  sy_skipped :: nat
  sy_errors :: "sync_error list"
  sy_results :: "sync_result list"

datatype sync_fail = NoTicketLine string | NoDescriptions string | SendFailed | DecodeFailed

definition result_row :: "string \<Rightarrow> sync_reason option \<Rightarrow> string option \<Rightarrow> payload option \<Rightarrow> nat option \<Rightarrow> block \<Rightarrow> sync_result" where
  "result_row status reason tempo pay http b =
     \<lparr>sr_block = bk_id b, sr_status = status, sr_reason = reason, sr_tempo = tempo, sr_payload = pay, sr_http = http\<rparr>"

definition add_results :: "sync_result list \<Rightarrow> sync_state \<Rightarrow> sync_state" where
  "add_results rs st = st\<lparr>sy_results := sy_results st @ rs\<rparr>"

definition skip_blocks :: "sync_reason \<Rightarrow> block list \<Rightarrow> sync_state \<Rightarrow> sync_state" where
  "skip_blocks reason blocks st =
     add_results (map (result_row ''skipped'' (Some reason) None None None) blocks)
       (st\<lparr>sy_skipped := sy_skipped st + length blocks\<rparr>)"

section \<open>Groups\<close>

definition needs_sync :: "block \<Rightarrow> bool" where
  "needs_sync b = (bk_tempo b = None \<or> bk_tempo b = Some [] \<or> bk_dirty b)"

definition fetch_eligible_blocks :: "block_db \<Rightarrow> string \<Rightarrow> block list" where
  "fetch_eligible_blocks db day =
     filter (\<lambda>b. \<not> bk_personal b \<and> needs_sync b) (list_blocks_for_day db day)"

definition fetch_blocks_for_issue :: "block_db \<Rightarrow> string \<Rightarrow> string \<Rightarrow> block list" where
  "fetch_blocks_for_issue db day issue =
     filter (\<lambda>b. \<not> bk_personal b \<and> bk_jira b = Some issue) (list_blocks_for_day db day)"

datatype group_classification = AllUnsynced | SharedId string | MixedLegacy

definition normalised_tempo_id_str :: "string option \<Rightarrow> string option" where
  "normalised_tempo_id_str raw =
     (case raw of None \<Rightarrow> None | Some s \<Rightarrow> if trim s = [] then None else Some (trim s))"

fun classify_loop :: "string option \<Rightarrow> block list \<Rightarrow> group_classification" where
  "classify_loop seen [] = (case seen of Some i \<Rightarrow> SharedId i | None \<Rightarrow> AllUnsynced)"
| "classify_loop seen (b # bs) =
     (case normalised_tempo_id_str (bk_tempo b) of
        None \<Rightarrow> classify_loop seen bs
      | Some i \<Rightarrow>
          (case seen of
             None \<Rightarrow> classify_loop (Some i) bs
           | Some prev \<Rightarrow> if prev = i then classify_loop seen bs else MixedLegacy))"

definition classify_group :: "block list \<Rightarrow> group_classification" where
  "classify_group blocks = classify_loop None blocks"

definition normalise_tempo_id :: "json_id \<Rightarrow> string option" where
  "normalise_tempo_id v =
     (case (case v of JsonNumber n \<Rightarrow> Some n | JsonString s \<Rightarrow> Some s | JsonOther \<Rightarrow> None) of
        None \<Rightarrow> None
      | Some s \<Rightarrow> (let t = trim s in if t = [] \<or> nocase t = ''null'' then None else Some t))"

definition start_time :: "string \<Rightarrow> string" where
  "start_time started = (if 19 \<le> length started then take 8 (drop 11 started) else ''09:00:00'')"

definition resolve_issue_id :: "tempo_net \<Rightarrow> string \<Rightarrow> tempo_db \<Rightarrow> string option \<times> tempo_db" where
  "resolve_issue_id net key td =
     (case td_issue td key of
        Some i \<Rightarrow> (Some i, td)
      | None \<Rightarrow>
          (case nt_lookup net key of
             None \<Rightarrow> (None, td)
           | Some i \<Rightarrow> (Some i, td\<lparr>td_issue := (td_issue td)(key \<mapsto> i),
                 td_summary := (case td_summary td key of None \<Rightarrow> (td_summary td)(key \<mapsto> []) | Some _ \<Rightarrow> td_summary td)\<rparr>)))"

section \<open>One line\<close>

text \<open>The text sent for a line, writing and storing one first when there is none.\<close>

definition line_description ::
    "tempo_env \<Rightarrow> tempo_net \<Rightarrow> tempo_key \<Rightarrow> bool \<Rightarrow> tempo_line \<Rightarrow> tempo_db \<Rightarrow> (sync_fail + string) \<times> tempo_db" where
  "line_description te net key dry_run line td =
     (case ln_text line of
        Some t \<Rightarrow> (Inr t, td)
      | None \<Rightarrow>
          if dry_run then (Inr (ln_fallback line), td)
          else (case pending_generation te td (fst key) (Some key) of
                  [] \<Rightarrow> (Inl (NoDescriptions (snd key)), td)
                | (_, _, hash) # _ \<Rightarrow>
                    (case Option.bind (nt_writer net) (\<lambda>w. w key) of
                       Some t \<Rightarrow> (Inr t, commit_generated key t hash False td)
                     | None \<Rightarrow> (Inr (ln_fallback line), td))))"

definition already_sent ::
    "tempo_env \<Rightarrow> tempo_net \<Rightarrow> string \<Rightarrow> bool \<Rightarrow> tempo_line \<Rightarrow> tempo_db \<Rightarrow> bool \<times> tempo_db" where
  "already_sent te net day dry_run line td =
     (if is_already te td line then (True, td)
      else if dry_run then (False, td)
      else case nt_worklogs net day of
             None \<Rightarrow> (False, td)
           | Some existing \<Rightarrow>
               (case check_line td line existing (nt_matcher net) of
                  AlreadyInTempo tempo_id \<Rightarrow> (True, mark_already te line tempo_id td)
                | _ \<Rightarrow> (False, td)))"

definition send :: "tempo_net \<Rightarrow> request \<Rightarrow> sync_state \<Rightarrow> reply \<times> sync_state" where
  "send net r st = (nt_reply net (sy_log st) r, st\<lparr>sy_log := sy_log st @ [r]\<rparr>)"

definition head_tail :: "(string \<Rightarrow> block \<Rightarrow> sync_result) \<Rightarrow> string \<Rightarrow> string \<Rightarrow> block list \<Rightarrow> sync_result list" where
  "head_tail mk head_status tail_status blocks =
     (case blocks of [] \<Rightarrow> [] | b # bs \<Rightarrow> mk head_status b # map (mk tail_status) bs)"

definition line_sent :: "string \<Rightarrow> tempo_key \<Rightarrow> tempo_db \<Rightarrow> tempo_db" where
  "line_sent now key td =
     with_row key (\<lambda>r. if lr_send_error r \<noteq> None
                        then r\<lparr>lr_send_error := None, lr_auto_sent := Some (case lr_auto_sent r of Some t \<Rightarrow> t | None \<Rightarrow> now)\<rparr>
                        else r) td"

definition write_ids :: "string \<Rightarrow> block list \<Rightarrow> tempo_db \<Rightarrow> tempo_db" where
  "write_ids tempo_id blocks td = td\<lparr>td_db := foldl (\<lambda>db b. write_back (bk_id b) tempo_id db) (td_db td) blocks\<rparr>"

definition error_rows :: "sync_reason \<Rightarrow> payload option \<Rightarrow> nat option \<Rightarrow> block list \<Rightarrow> sync_result list" where
  "error_rows reason pay http blocks =
     (case blocks of
        [] \<Rightarrow> []
      | b # bs \<Rightarrow> result_row ''error'' (Some reason) None pay http b
                  # map (result_row ''error'' (Some reason) None None http) bs)"

definition on_reply ::
    "tempo_net \<Rightarrow> tempo_key \<Rightarrow> block list \<Rightarrow> block list \<Rightarrow> string option \<Rightarrow> payload \<Rightarrow> reply \<Rightarrow> sync_state
     \<Rightarrow> (sync_fail + unit) \<times> sync_state" where
  "on_reply net key all_in_group eligible existing_id pay r st =
     (case r of
        NotSent \<Rightarrow> (Inl SendFailed, st)
      | HttpError http body \<Rightarrow>
          (Inr (), add_results (error_rows (ErrorBody body) (Some pay) (Some http) eligible)
             (st\<lparr>sy_errors := sy_errors st @ [GroupError (snd key) (ErrorBody body)]\<rparr>))
      | Undecodable http \<Rightarrow> (Inl DecodeFailed, st)
      | Accepted http v \<Rightarrow>
          (case (case normalise_tempo_id v of Some s \<Rightarrow> Some s | None \<Rightarrow> existing_id) of
             None \<Rightarrow>
               (Inr (), add_results (error_rows NoUsableId None (Some http) eligible)
                  (st\<lparr>sy_errors := sy_errors st @ [GroupError (snd key) NoUsableId]\<rparr>))
           | Some tempo_id \<Rightarrow>
               (let td = line_sent (nt_now net) key (write_ids tempo_id all_in_group (sy_td st));
                    (hd_status, tl_status) = (if existing_id = None then (''synced'', ''synced-aggregated'')
                                              else (''updated'', ''updated-aggregated''))
                in (Inr (), add_results (head_tail (\<lambda>s. result_row s None (Some tempo_id) None (Some http)) hd_status tl_status eligible)
                      (st\<lparr>sy_td := td, sy_synced := sy_synced st + 1\<rparr>)))))"

definition sync_group_aggregated ::
    "tempo_env \<Rightarrow> tempo_net \<Rightarrow> bool \<Rightarrow> tempo_key \<Rightarrow> string \<Rightarrow> block list \<Rightarrow> block list \<Rightarrow> string option \<Rightarrow> sync_state
     \<Rightarrow> (sync_fail + unit) \<times> sync_state" where
  "sync_group_aggregated te net dry_run key issue_id all_in_group eligible existing_id st =
     (case line_for te (sy_td st) key of
        None \<Rightarrow> (Inl (NoTicketLine (snd key)), st)
      | Some line \<Rightarrow>
          if ln_effective line = 0
          then (Inr (), skip_blocks (RoundsToZero (sum_list (map bk_secs all_in_group))) eligible st)
          else
            (let (already, td) = (if existing_id = None then already_sent te net (fst key) dry_run line (sy_td st)
                                  else (False, sy_td st));
                 st = st\<lparr>sy_td := td\<rparr>
             in if already then (Inr (), skip_blocks InTempo eligible st)
                else case line_description te net key dry_run line (sy_td st) of
                       (Inl e, td) \<Rightarrow> (Inl e, st\<lparr>sy_td := td\<rparr>)
                     | (Inr description, td) \<Rightarrow>
                         (let st = st\<lparr>sy_td := td\<rparr>;
                              pay = \<lparr>py_issue_id = issue_id, py_seconds = ln_effective line, py_date = fst key,
                                     py_time = start_time (case all_in_group of [] \<Rightarrow> [] | bs \<Rightarrow> Min (set (map bk_start bs))),
                                     py_description = description, py_author = nt_author net\<rparr>
                          in if dry_run
                             then (Inr (), add_results (head_tail (\<lambda>s. result_row s None existing_id (Some pay) None)
                                     (if existing_id = None then ''dry-run'' else ''dry-run-update'')
                                     (if existing_id = None then ''dry-run-aggregated'' else ''dry-run-update-aggregated'') eligible) st)
                             else (let (r, st) = send net (case existing_id of Some i \<Rightarrow> Put i pay | None \<Rightarrow> Post pay) st
                                   in on_reply net key all_in_group eligible existing_id pay r st))))"

section \<open>One block, for days synced block by block\<close>

definition sync_block_legacy ::
    "tempo_net \<Rightarrow> bool \<Rightarrow> string \<Rightarrow> string \<Rightarrow> block \<Rightarrow> sync_state \<Rightarrow> (sync_fail + unit) \<times> sync_state" where
  "sync_block_legacy net dry_run issue issue_id b st =
     (let timespent = round_to_half_hour (bk_secs b);
          existing_id = normalised_tempo_id_str (bk_tempo b);
          pay = \<lparr>py_issue_id = issue_id, py_seconds = timespent, py_date = bk_day b, py_time = start_time (bk_start b),
                 py_description = (case bk_desc b of Some d \<Rightarrow> d | None \<Rightarrow> ''Work on '' @ issue), py_author = nt_author net\<rparr>
      in if timespent = 0 then (Inr (), skip_blocks (RoundsToZero (bk_secs b)) [b] st)
         else if dry_run
         then (Inr (), add_results [result_row (if existing_id = None then ''dry-run'' else ''dry-run-update'') None existing_id (Some pay) None b] st)
         else
           (let (r, st) = send net (case existing_id of Some i \<Rightarrow> Put i pay | None \<Rightarrow> Post pay) st
            in case r of
                 NotSent \<Rightarrow> (Inl SendFailed, st)
               | HttpError http body \<Rightarrow>
                   (Inr (), add_results [result_row ''error'' (Some (ErrorBody body)) None (Some pay) (Some http) b]
                      (st\<lparr>sy_errors := sy_errors st @ [BlockError (bk_id b) (ErrorBody body)]\<rparr>))
               | Undecodable http \<Rightarrow> (Inl DecodeFailed, st)
               | Accepted http v \<Rightarrow>
                   (case (case normalise_tempo_id v of Some s \<Rightarrow> Some s | None \<Rightarrow> existing_id) of
                      None \<Rightarrow>
                        (Inr (), add_results [result_row ''error'' (Some NoUsableId) None (Some pay) (Some http) b]
                           (st\<lparr>sy_errors := sy_errors st @ [BlockError (bk_id b) NoUsableId]\<rparr>))
                    | Some tempo_id \<Rightarrow>
                        (Inr (), add_results [result_row (if existing_id = None then ''synced'' else ''updated'') None (Some tempo_id) None (Some http) b]
                           (st\<lparr>sy_td := write_ids tempo_id [b] (sy_td st), sy_synced := sy_synced st + 1\<rparr>)))))"

fun sync_blocks_legacy ::
    "tempo_net \<Rightarrow> bool \<Rightarrow> string \<Rightarrow> string \<Rightarrow> block list \<Rightarrow> sync_state \<Rightarrow> (sync_fail + unit) \<times> sync_state" where
  "sync_blocks_legacy net dry_run issue issue_id [] st = (Inr (), st)"
| "sync_blocks_legacy net dry_run issue issue_id (b # bs) st =
     (case sync_block_legacy net dry_run issue issue_id b st of
        (Inl e, st) \<Rightarrow> (Inl e, st)
      | (Inr _, st) \<Rightarrow> sync_blocks_legacy net dry_run issue issue_id bs st)"

section \<open>The day\<close>

definition sync_group ::
    "tempo_env \<Rightarrow> tempo_net \<Rightarrow> bool \<Rightarrow> string \<Rightarrow> string option \<Rightarrow> block list \<Rightarrow> sync_state \<Rightarrow> (sync_fail + unit) \<times> sync_state" where
  "sync_group te net dry_run day issue_opt eligible st =
     (case issue_opt of
        None \<Rightarrow> (Inr (), skip_blocks NoTicket eligible st)
      | Some issue \<Rightarrow>
          (let all_in_group = fetch_blocks_for_issue (td_db (sy_td st)) day issue;
               classification = classify_group all_in_group;
               (issue_id, td) = resolve_issue_id net issue (sy_td st);
               st = st\<lparr>sy_td := td\<rparr>
           in case issue_id of
                None \<Rightarrow>
                  (Inr (), add_results (map (result_row ''error'' (Some (UnknownIssue issue)) None None None) eligible)
                     (st\<lparr>sy_errors := sy_errors st @ map (\<lambda>b. BlockError (bk_id b) (UnknownIssue issue)) eligible\<rparr>))
              | Some iid \<Rightarrow>
                  (case classification of
                     AllUnsynced \<Rightarrow> sync_group_aggregated te net dry_run (day, issue) iid all_in_group eligible None st
                   | SharedId existing_id \<Rightarrow>
                       sync_group_aggregated te net dry_run (day, issue) iid all_in_group eligible (Some existing_id) st
                   | MixedLegacy \<Rightarrow> sync_blocks_legacy net dry_run issue iid eligible st)))"

fun sync_groups ::
    "tempo_env \<Rightarrow> tempo_net \<Rightarrow> bool \<Rightarrow> string \<Rightarrow> (string option \<times> block list) list \<Rightarrow> sync_state \<Rightarrow> (sync_fail + unit) \<times> sync_state" where
  "sync_groups te net dry_run day [] st = (Inr (), st)"
| "sync_groups te net dry_run day ((issue, eligible) # gs) st =
     (case sync_group te net dry_run day issue eligible st of
        (Inl e, st) \<Rightarrow> (Inl e, st)
      | (Inr _, st) \<Rightarrow> sync_groups te net dry_run day gs st)"

definition eligible_groups :: "block_db \<Rightarrow> string \<Rightarrow> string option \<Rightarrow> (string option \<times> block list) list" where
  "eligible_groups db day only_issue =
     (let eligible = fetch_eligible_blocks db day;
          eligible = (case only_issue of Some only \<Rightarrow> filter (\<lambda>b. bk_jira b = Some only) eligible | None \<Rightarrow> eligible)
      in map (\<lambda>issue. (issue, filter (\<lambda>b. bk_jira b = issue) eligible)) (btree_keys (map bk_jira eligible)))"

definition start_sync :: "tempo_db \<Rightarrow> sync_state" where
  "start_sync td = \<lparr>sy_td = td, sy_log = [], sy_synced = 0, sy_skipped = 0, sy_errors = [], sy_results = []\<rparr>"

definition sync_day ::
    "tempo_env \<Rightarrow> tempo_net \<Rightarrow> bool \<Rightarrow> string \<Rightarrow> string option \<Rightarrow> tempo_db \<Rightarrow> (sync_fail + unit) \<times> sync_state" where
  "sync_day te net dry_run day only_issue td =
     sync_groups te net dry_run day (eligible_groups (td_db td) day only_issue) (start_sync td)"

section \<open>What a line's writers may change\<close>

text \<open>Only the Tempo id and the dirty flag of the blocks of the line.\<close>

definition remarked :: "tempo_key \<Rightarrow> block \<Rightarrow> block option \<Rightarrow> bool" where
  "remarked key b v = ((\<exists>t d. v = Some (b\<lparr>bk_tempo := t, bk_dirty := d\<rparr>)) \<and> (on_line key b \<or> v = Some b))"

definition line_frame :: "tempo_key \<Rightarrow> block_db \<Rightarrow> block_db \<Rightarrow> bool" where
  "line_frame key db db' \<longleftrightarrow>
     db_next db' = db_next db \<and> (\<forall>i. db_blocks db i = None \<longrightarrow> db_blocks db' i = None) \<and>
     (\<forall>i b. db_blocks db i = Some b \<longrightarrow> remarked key b (db_blocks db' i))"

lemma remarked_same: "remarked key b (Some b)"
  unfolding remarked_def by (intro conjI exI[of _ "bk_tempo b"] exI[of _ "bk_dirty b"] disjI2) simp_all

lemma remarked_dirty: "on_line key b \<Longrightarrow> remarked key b (Some (b\<lparr>bk_dirty := True\<rparr>))"
  unfolding remarked_def by (intro conjI exI[of _ "bk_tempo b"] exI[of _ True] disjI1) simp_all

lemma remarked_both: "on_line key b \<Longrightarrow> remarked key b (Some (b\<lparr>bk_tempo := t, bk_dirty := d\<rparr>))"
  by (auto simp: remarked_def)

lemma on_line_marks [simp]: "on_line key (b\<lparr>bk_tempo := t, bk_dirty := d\<rparr>) = on_line key b"
  by (simp add: on_line_def)

lemma remarked_trans:
  assumes "remarked key b (Some b2)" "remarked key b2 v"
  shows "remarked key b v"
proof -
  from assms(1) obtain t d where b2: "b2 = b\<lparr>bk_tempo := t, bk_dirty := d\<rparr>" "on_line key b \<or> b2 = b"
    by (auto simp: remarked_def)
  from assms(2) obtain t' d' where v: "v = Some (b2\<lparr>bk_tempo := t', bk_dirty := d'\<rparr>)" "on_line key b2 \<or> v = Some b2"
    by (auto simp: remarked_def)
  have "v = Some (b\<lparr>bk_tempo := t', bk_dirty := d'\<rparr>)" unfolding v(1) b2(1) by simp
  moreover have "on_line key b \<or> v = Some b" using v(2) b2(2) unfolding b2(1) on_line_marks by blast
  ultimately show ?thesis unfolding remarked_def by blast
qed

lemma line_frameD: "line_frame key db db' \<Longrightarrow> db_blocks db i = Some b \<Longrightarrow> remarked key b (db_blocks db' i)"
  unfolding line_frame_def by blast

lemma line_frameI:
  assumes "db_next db' = db_next db" "\<And>i. db_blocks db i = None \<Longrightarrow> db_blocks db' i = None"
    "\<And>i b. db_blocks db i = Some b \<Longrightarrow> remarked key b (db_blocks db' i)"
  shows "line_frame key db db'"
  using assms unfolding line_frame_def by blast

lemma line_frame_refl: "line_frame key db db"
  by (rule line_frameI) (simp_all add: remarked_same)

lemma line_frame_trans:
  assumes "line_frame key db1 db2" "line_frame key db2 db3"
  shows "line_frame key db1 db3"
proof (rule line_frameI)
  show "db_next db3 = db_next db1" using assms by (simp add: line_frame_def)
  show "db_blocks db1 i = None \<Longrightarrow> db_blocks db3 i = None" for i using assms unfolding line_frame_def by blast
  fix i b assume "db_blocks db1 i = Some b"
  from line_frameD[OF assms(1) this] obtain b2 where "db_blocks db2 i = Some b2" "remarked key b (Some b2)"
    unfolding remarked_def by force
  from remarked_trans[OF this(2) line_frameD[OF assms(2) this(1)]] show "remarked key b (db_blocks db3 i)" .
qed

lemma line_frame_dirty: "line_frame key db (dirty_line key db)"
  by (rule line_frameI) (simp_all add: dirty_line_def remarked_same remarked_dirty)

text \<open>Blocks that are still rows of the line.\<close>

definition members :: "tempo_key \<Rightarrow> block_db \<Rightarrow> block list \<Rightarrow> bool" where
  "members key db bs = list_all (\<lambda>b. case db_blocks db (bk_id b) of None \<Rightarrow> False | Some x \<Rightarrow> on_line key x) bs"

lemma members_frame:
  assumes "line_frame key' db db'" "members key db bs"
  shows "members key db' bs"
proof -
  have "case db_blocks db' (bk_id b) of None \<Rightarrow> False | Some x \<Rightarrow> on_line key x" if "b \<in> set bs" for b
  proof -
    from assms(2) that obtain x where x: "db_blocks db (bk_id b) = Some x" "on_line key x"
      by (auto simp: members_def list_all_iff split: option.splits)
    with line_frameD[OF assms(1) x(1)] show ?thesis by (auto simp: remarked_def)
  qed
  then show ?thesis by (simp add: members_def list_all_iff)
qed

lemma line_frame_write_back:
  assumes "db_blocks db i = Some b" "on_line key b"
  shows "line_frame key db (write_back i tempo_id db)"
  using assms by (intro line_frameI) (auto simp: write_back_def remarked_same remarked_both)

lemma line_frame_write_ids:
  "members key db bs \<Longrightarrow> line_frame key db (foldl (\<lambda>db b. write_back (bk_id b) tempo_id db) db bs)"
proof (induction bs arbitrary: db)
  case Nil
  then show ?case by (simp add: line_frame_refl)
next
  case (Cons b bs)
  from Cons.prems obtain x where "db_blocks db (bk_id b) = Some x" "on_line key x"
    by (auto simp: members_def split: option.splits)
  then have f: "line_frame key db (write_back (bk_id b) tempo_id db)" by (rule line_frame_write_back)
  have "members key (write_back (bk_id b) tempo_id db) bs"
    by (rule members_frame[OF f]) (use Cons.prems in \<open>simp add: members_def\<close>)
  from line_frame_trans[OF f Cons.IH[OF this]] show ?case by simp
qed

text \<open>The tables of the lines.\<close>

lemma with_row_db [simp]: "td_db (with_row key f td) = td_db td" "td_issue (with_row key f td) = td_issue td"
  by (simp_all add: with_row_def)

lemma ensure_row_db [simp]: "td_db (ensure_row key td) = td_db td" "td_issue (ensure_row key td) = td_issue td"
  by (simp_all add: ensure_row_def split: option.splits)

lemma finish_write_db [simp]: "td_db (finish_write key td) = dirty_line key (td_db td)"
  by (simp add: finish_write_def)

lemma frame_commit: "line_frame key (td_db td) (td_db (commit_generated key t hash force td))"
  by (simp add: commit_generated_def line_frame_refl line_frame_dirty)

lemma frame_description: "line_description te net key dry line td = (r, td') \<Longrightarrow> line_frame key (td_db td) (td_db td')"
  by (auto simp: line_description_def line_frame_refl split: option.splits if_splits list.splits intro: frame_commit)

lemma already_sent_db: "already_sent te net day dry line td = (r, td') \<Longrightarrow> td_db td' = td_db td"
  by (auto simp: already_sent_def mark_already_def split: option.splits if_splits match_verdict.splits)

lemma resolve_issue_db: "resolve_issue_id net issue td = (r, td') \<Longrightarrow> td_db td' = td_db td"
  by (auto simp: resolve_issue_id_def split: option.splits)

lemma sync_state_simps [simp]:
  "sy_td (add_results rs st) = sy_td st" "sy_log (add_results rs st) = sy_log st"
  "sy_td (skip_blocks reason bs st) = sy_td st" "sy_log (skip_blocks reason bs st) = sy_log st"
  by (simp_all add: add_results_def skip_blocks_def)

lemma send_simps: "send net r st = (rep, st') \<Longrightarrow> sy_td st' = sy_td st \<and> sy_log st' = sy_log st @ [r] \<and> rep = nt_reply net (sy_log st) r"
  by (auto simp: send_def)

lemma frame_on_reply:
  assumes "on_reply net key all el ex pay r st = (res, st')" "members key (td_db (sy_td st)) all"
  shows "line_frame key (td_db (sy_td st)) (td_db (sy_td st')) \<and> sy_log st' = sy_log st"
  using assms line_frame_write_ids[OF assms(2)]
  by (auto simp: on_reply_def line_sent_def write_ids_def line_frame_refl Let_def
      split: reply.splits option.splits if_splits)

text \<open>The requests of one line.\<close>

definition line_request :: "tempo_key \<Rightarrow> string option \<Rightarrow> request \<Rightarrow> bool" where
  "line_request key existing_id r =
     (case r of Post p \<Rightarrow> existing_id = None \<and> py_date p = fst key
              | Put i p \<Rightarrow> existing_id = Some i \<and> py_date p = fst key)"

text \<open>Before a request a line writes only its own table: the mark of a check, the text it generates.\<close>

definition local_step :: "tempo_env \<Rightarrow> tempo_net \<Rightarrow> bool \<Rightarrow> tempo_key \<Rightarrow> tempo_db \<Rightarrow> tempo_db \<Rightarrow> bool" where
  "local_step te net dry key td td2 \<longleftrightarrow>
     (\<exists>td1. (td1 = td \<or> (\<exists>line a. (ln_day line, ln_issue line) = key \<and> already_sent te net (fst key) dry line td = (a, td1))) \<and>
        (td2 = td1 \<or> (\<exists>line d. line_description te net key dry line td1 = (d, td2))))"

lemma local_step_refl: "local_step te net dry key td td"
  unfolding local_step_def by blast

lemma local_step_already:
  "already_sent te net (fst key) dry line td = (a, td1) \<Longrightarrow> (ln_day line, ln_issue line) = key \<Longrightarrow>
     local_step te net dry key td td1"
  unfolding local_step_def by blast

text \<open>A property both writes keep is kept.\<close>

lemma local_step_keeps:
  assumes "local_step te net dry key td td2" "P td"
    and "\<And>line a td td'. already_sent te net (fst key) dry line td = (a, td') \<Longrightarrow> (ln_day line, ln_issue line) = key \<Longrightarrow> P td \<Longrightarrow> P td'"
    and "\<And>line d td td'. line_description te net key dry line td = (d, td') \<Longrightarrow> P td \<Longrightarrow> P td'"
  shows "P td2"
  using assms unfolding local_step_def by metis

lemma local_step_frame:
  assumes "local_step te net dry key td td2"
  shows "line_frame key (td_db td) (td_db td2)"
proof -
  from assms obtain td1 where
    "td1 = td \<or> (\<exists>line a. (ln_day line, ln_issue line) = key \<and> already_sent te net (fst key) dry line td = (a, td1))"
    "td2 = td1 \<or> (\<exists>line d. line_description te net key dry line td1 = (d, td2))" unfolding local_step_def by blast
  moreover from this(1) have "td_db td1 = td_db td" by (auto dest: already_sent_db)
  ultimately show ?thesis using frame_description line_frame_refl by metis
qed

lemma line_for_key: "line_for te td key = Some line \<Longrightarrow> (ln_day line, ln_issue line) = key"
  by (auto simp: line_for_def build_line_def Let_def)

definition line_request_of :: "string option \<Rightarrow> payload \<Rightarrow> request" where
  "line_request_of ex pay = (case ex of Some i \<Rightarrow> Put i pay | None \<Rightarrow> Post pay)"

lemma aggregated_cases:
  assumes "sync_group_aggregated te net dry key iid all el ex st = (res, st')"
  obtains (quiet) "local_step te net dry key (sy_td st) (sy_td st')" "sy_log st' = sy_log st" "sy_synced st' = sy_synced st"
  | (sent) line pay r st3 where "line_for te (sy_td st) key = Some line" "ln_effective line \<noteq> 0" "\<not> dry"
      "py_seconds pay = ln_effective line" "py_date pay = fst key"
      "local_step te net dry key (sy_td st) (sy_td st3)" "sy_synced st3 = sy_synced st"
      "sy_log st3 = sy_log st @ [line_request_of ex pay]" "on_reply net key all el ex pay r st3 = (res, st')"
proof (cases "line_for te (sy_td st) key")
  case None
  with assms show ?thesis by (intro quiet) (simp_all add: sync_group_aggregated_def local_step_refl)
next
  case (Some line)
  show ?thesis
  proof (cases "ln_effective line = 0")
    case True
    with assms Some show ?thesis by (intro quiet) (auto simp: sync_group_aggregated_def local_step_refl skip_blocks_def add_results_def)
  next
    case False
    obtain already td1 where a: "(if ex = None then already_sent te net (fst key) dry line (sy_td st) else (False, sy_td st)) = (already, td1)"
      by fastforce
    then have l1: "td1 = sy_td st \<or> (\<exists>a. already_sent te net (fst key) dry line (sy_td st) = (a, td1))" by (auto split: if_splits)
    note key = line_for_key[OF Some]
    from l1 key have q1: "local_step te net dry key (sy_td st) td1" using local_step_refl local_step_already by metis
    obtain desc td2 where l: "line_description te net key dry line td1 = (desc, td2)" by fastforce
    have q2: "local_step te net dry key (sy_td st) td2" using l1 l key unfolding local_step_def by blast
    show ?thesis
    proof (cases "already \<or> isl desc")
      case True
      have "local_step te net dry key (sy_td st) (sy_td st') \<and> sy_log st' = sy_log st \<and> sy_synced st' = sy_synced st"
      proof (cases already)
        case True
        with assms Some False a have "st' = skip_blocks InTempo el (st\<lparr>sy_td := td1\<rparr>)"
          by (simp add: sync_group_aggregated_def Let_def)
        with q1 show ?thesis by (simp add: skip_blocks_def add_results_def)
      next
        case na: False
        with True obtain e where e: "desc = Inl e" by (cases desc) simp_all
        with assms Some False a na l have "st' = st\<lparr>sy_td := td1\<rparr>\<lparr>sy_td := td2\<rparr>"
          by (simp add: sync_group_aggregated_def Let_def)
        with q2 show ?thesis by simp
      qed
      then show ?thesis by (intro quiet) simp_all
    next
      case go: False
      then obtain description where d: "desc = Inr description" by (cases desc) simp_all
      let ?pay = "\<lparr>py_issue_id = iid, py_seconds = ln_effective line, py_date = fst key,
                   py_time = start_time (case all of [] \<Rightarrow> [] | bs \<Rightarrow> Min (set (map bk_start bs))),
                   py_description = description, py_author = nt_author net\<rparr>"
      let ?st2 = "st\<lparr>sy_td := td1\<rparr>\<lparr>sy_td := td2\<rparr>"
      let ?rows = "head_tail (\<lambda>s. result_row s None ex (Some ?pay) None)
          (if ex = None then ''dry-run'' else ''dry-run-update'')
          (if ex = None then ''dry-run-aggregated'' else ''dry-run-update-aggregated'') el"
      have u: "sync_group_aggregated te net dry key iid all el ex st = (if dry then (Inr (), add_results ?rows ?st2)
          else (let (r, st) = send net (case ex of Some i \<Rightarrow> Put i ?pay | None \<Rightarrow> Post ?pay) ?st2
                in on_reply net key all el ex ?pay r st))"
        using Some False a go l d by (simp add: sync_group_aggregated_def Let_def)
      show ?thesis
      proof (cases dry)
        case True
        with u assms have "st' = add_results ?rows ?st2" by simp
        with q2 show ?thesis by (intro quiet) (simp_all add: add_results_def)
      next
        case nd: False
        obtain r st3 where s: "send net (line_request_of ex ?pay) ?st2 = (r, st3)" by fastforce
        have o: "on_reply net key all el ex ?pay r st3 = (res, st')"
          using u assms nd s unfolding line_request_of_def by simp
        from send_simps[OF s] have st3: "sy_td st3 = td2" "sy_log st3 = sy_log st @ [line_request_of ex ?pay]" by simp_all
        have "sy_synced st3 = sy_synced st" using s by (auto simp: send_def)
        with sent[OF Some False nd _ _ _ _ _ o] q2 st3 show ?thesis by simp
      qed
    qed
  qed
qed

lemma line_request_of_ok: "py_date pay = fst key \<Longrightarrow> line_request key ex (line_request_of ex pay)"
  by (cases ex) (simp_all add: line_request_def line_request_of_def)

lemma aggregated_effect:
  assumes "sync_group_aggregated te net dry key iid all el ex st = (res, st')" "members key (td_db (sy_td st)) all"
  shows "line_frame key (td_db (sy_td st)) (td_db (sy_td st'))"
    and "\<exists>new. sy_log st' = sy_log st @ new \<and> length new \<le> 1 \<and> list_all (line_request key ex) new \<and> (dry \<longrightarrow> new = [])"
proof -
  have "line_frame key (td_db (sy_td st)) (td_db (sy_td st')) \<and>
    (\<exists>new. sy_log st' = sy_log st @ new \<and> length new \<le> 1 \<and> list_all (line_request key ex) new \<and> (dry \<longrightarrow> new = []))"
    using assms(1)
  proof (cases rule: aggregated_cases)
    case quiet
    with local_step_frame[OF quiet(1)] show ?thesis by simp
  next
    case (sent line pay r st3)
    note f = local_step_frame[OF sent(6)]
    have "members key (td_db (sy_td st3)) all" by (rule members_frame[OF f assms(2)])
    from frame_on_reply[OF sent(9) this] line_frame_trans[OF f] sent(8)
    have "line_frame key (td_db (sy_td st)) (td_db (sy_td st'))" "sy_log st' = sy_log st @ [line_request_of ex pay]" by simp_all
    with line_request_of_ok[OF sent(5), of ex] sent(3) show ?thesis
      by (intro conjI exI[of _ "[line_request_of ex pay]"]) simp_all
  qed
  then show "line_frame key (td_db (sy_td st)) (td_db (sy_td st'))"
    and "\<exists>new. sy_log st' = sy_log st @ new \<and> length new \<le> 1 \<and> list_all (line_request key ex) new \<and> (dry \<longrightarrow> new = [])"
    by blast+
qed

lemma legacy_cases:
  assumes "sync_block_legacy net dry issue iid b st = (res, st')"
  obtains (quiet) "sy_td st' = sy_td st" "sy_log st' = sy_log st"
  | (sent) pay where "\<not> dry" "py_seconds pay = round_to_half_hour (bk_secs b)" "round_to_half_hour (bk_secs b) \<noteq> 0"
      "sy_log st' = sy_log st @ [line_request_of (normalised_tempo_id_str (bk_tempo b)) pay]"
      "sy_td st' = sy_td st \<or> (\<exists>i. sy_td st' = write_ids i [b] (sy_td st))"
proof (cases "dry \<or> round_to_half_hour (bk_secs b) = 0")
  case True
  with assms show ?thesis
    by (intro quiet) (auto simp: sync_block_legacy_def Let_def skip_blocks_def add_results_def split: if_splits)
next
  case False
  let ?ex = "normalised_tempo_id_str (bk_tempo b)"
  let ?pay = "\<lparr>py_issue_id = iid, py_seconds = round_to_half_hour (bk_secs b), py_date = bk_day b, py_time = start_time (bk_start b),
                 py_description = (case bk_desc b of Some d \<Rightarrow> d | None \<Rightarrow> ''Work on '' @ issue), py_author = nt_author net\<rparr>"
  let ?r = "nt_reply net (sy_log st) (line_request_of ?ex ?pay)"
  have "sy_log st' = sy_log st @ [line_request_of ?ex ?pay] \<and>
      (sy_td st' = sy_td st \<or> (\<exists>i. sy_td st' = write_ids i [b] (sy_td st)))"
  proof (cases ?r)
    case (Accepted http v)
    with assms False show ?thesis
      by (cases "case normalise_tempo_id v of Some s \<Rightarrow> Some s | None \<Rightarrow> ?ex")
         (auto simp: sync_block_legacy_def Let_def send_def add_results_def line_request_of_def)
  qed (use assms False in \<open>auto simp: sync_block_legacy_def Let_def send_def add_results_def line_request_of_def\<close>)
  with False sent[of ?pay] show ?thesis by simp
qed

lemma legacy_effect:
  assumes "sync_block_legacy net dry issue iid b st = (res, st')" "members key (td_db (sy_td st)) [b]"
  shows "line_frame key (td_db (sy_td st)) (td_db (sy_td st'))"
    and "\<exists>new. sy_log st' = sy_log st @ new \<and> (dry \<longrightarrow> new = []) \<and>
      list_all (\<lambda>r. case r of Post p \<Rightarrow> normalised_tempo_id_str (bk_tempo b) = None
                           | Put i p \<Rightarrow> normalised_tempo_id_str (bk_tempo b) = Some i) new"
proof -
  let ?ex = "normalised_tempo_id_str (bk_tempo b)"
  let ?P = "\<lambda>r. case r of Post p \<Rightarrow> ?ex = None | Put i p \<Rightarrow> ?ex = Some i"
  have "line_frame key (td_db (sy_td st)) (td_db (sy_td st')) \<and>
      (\<exists>new. sy_log st' = sy_log st @ new \<and> (dry \<longrightarrow> new = []) \<and> list_all ?P new)"
    using assms(1)
  proof (cases rule: legacy_cases)
    case quiet
    then show ?thesis by (simp add: line_frame_refl)
  next
    case (sent pay)
    have "line_frame key (td_db (sy_td st)) (td_db (sy_td st'))"
      using sent(5) line_frame_write_ids[OF assms(2)] by (auto simp: line_frame_refl write_ids_def)
    moreover have "?P (line_request_of ?ex pay)" by (cases ?ex) (simp_all add: line_request_of_def)
    ultimately show ?thesis using sent(1,4) by (intro conjI exI[of _ "[line_request_of ?ex pay]"]) simp_all
  qed
  then show "line_frame key (td_db (sy_td st)) (td_db (sy_td st'))"
    and "\<exists>new. sy_log st' = sy_log st @ new \<and> (dry \<longrightarrow> new = []) \<and> list_all ?P new" by blast+
qed

section \<open>What a group is\<close>

lemma classify_loop_spec:
  "classify_loop seen bs = AllUnsynced \<Longrightarrow> seen = None \<and> (\<forall>b\<in>set bs. normalised_tempo_id_str (bk_tempo b) = None)"
  "classify_loop seen bs = SharedId i \<Longrightarrow> (seen = Some i \<or> (seen = None \<and> (\<exists>b\<in>set bs. normalised_tempo_id_str (bk_tempo b) = Some i))) \<and>
     (\<forall>b\<in>set bs. normalised_tempo_id_str (bk_tempo b) \<in> {None, Some i})"
proof -
  show "classify_loop seen bs = AllUnsynced \<Longrightarrow> seen = None \<and> (\<forall>b\<in>set bs. normalised_tempo_id_str (bk_tempo b) = None)"
  proof (induction bs arbitrary: seen)
    case (Cons b bs)
    show ?case
    proof (cases "normalised_tempo_id_str (bk_tempo b)")
      case None
      with Cons.prems Cons.IH[of seen] show ?thesis by simp
    next
      case (Some x)
      with Cons.prems Cons.IH[of "Some x"] Cons.IH[of seen] show ?thesis by (cases seen) (simp_all split: if_splits)
    qed
  qed (simp split: option.splits)
  show "classify_loop seen bs = SharedId i \<Longrightarrow> (seen = Some i \<or> (seen = None \<and> (\<exists>b\<in>set bs. normalised_tempo_id_str (bk_tempo b) = Some i))) \<and>
     (\<forall>b\<in>set bs. normalised_tempo_id_str (bk_tempo b) \<in> {None, Some i})"
  proof (induction bs arbitrary: seen)
    case (Cons b bs)
    show ?case
    proof (cases "normalised_tempo_id_str (bk_tempo b)")
      case None
      with Cons.prems have "classify_loop seen bs = SharedId i" by simp
      from Cons.IH[OF this] None show ?thesis by auto
    next
      case (Some x)
      show ?thesis
      proof (cases seen)
        case None
        with Some Cons.prems have "classify_loop (Some x) bs = SharedId i" by simp
        from Cons.IH[OF this] Some None show ?thesis by auto
      next
        case (Some y)
        with \<open>normalised_tempo_id_str (bk_tempo b) = Some x\<close> Cons.prems have "y = x" "classify_loop seen bs = SharedId i"
          by (simp_all split: if_splits)
        from Cons.IH[OF this(2)] this(1) Some \<open>normalised_tempo_id_str (bk_tempo b) = Some x\<close> show ?thesis by auto
      qed
    qed
  qed (simp split: option.splits)
qed

definition group_request :: "block list \<Rightarrow> request \<Rightarrow> bool" where
  "group_request grp r =
     (case r of
        Post p \<Rightarrow> classify_group grp = AllUnsynced \<or>
                  (classify_group grp = MixedLegacy \<and> list_ex (\<lambda>b. normalised_tempo_id_str (bk_tempo b) = None) grp)
      | Put i p \<Rightarrow> list_ex (\<lambda>b. normalised_tempo_id_str (bk_tempo b) = Some i) grp)"

lemma legacy_group_effect:
  assumes "sync_blocks_legacy net dry issue iid bs st = (res, st')" "members key (td_db (sy_td st)) bs"
    "set bs \<subseteq> set grp" "classify_group grp = MixedLegacy"
  shows "line_frame key (td_db (sy_td st)) (td_db (sy_td st'))
    \<and> (\<exists>new. sy_log st' = sy_log st @ new \<and> (dry \<longrightarrow> new = []) \<and> list_all (group_request grp) new)"
  using assms(1-3)
proof (induction bs arbitrary: st)
  case Nil
  then show ?case by (simp add: line_frame_refl)
next
  case (Cons b bs)
  obtain r st1 where s: "sync_block_legacy net dry issue iid b st = (r, st1)" by fastforce
  have m: "members key (td_db (sy_td st)) [b]" using Cons.prems(2) by (simp add: members_def)
  note f = legacy_effect(1)[OF s m]
  from legacy_effect(2)[OF s m] obtain n1 where n1: "sy_log st1 = sy_log st @ n1" "dry \<longrightarrow> n1 = []"
    "list_all (\<lambda>r. case r of Post p \<Rightarrow> normalised_tempo_id_str (bk_tempo b) = None
                           | Put i p \<Rightarrow> normalised_tempo_id_str (bk_tempo b) = Some i) n1" by blast
  have b: "b \<in> set grp" using Cons.prems(3) by simp
  have g1: "list_all (group_request grp) n1"
    unfolding list_all_iff
  proof
    fix q assume "q \<in> set n1"
    with n1(3) have "case q of Post p \<Rightarrow> normalised_tempo_id_str (bk_tempo b) = None
                           | Put i p \<Rightarrow> normalised_tempo_id_str (bk_tempo b) = Some i" by (simp add: list_all_iff)
    with b assms(4) show "group_request grp q" by (cases q) (auto simp: group_request_def list_ex_iff)
  qed
  show ?case
  proof (cases r)
    case (Inl e)
    with Cons.prems(1) s have "st' = st1" by simp
    with f n1 g1 show ?thesis by blast
  next
    case (Inr u)
    with Cons.prems(1) s have rest: "sync_blocks_legacy net dry issue iid bs st1 = (res, st')" by simp
    have "members key (td_db (sy_td st1)) bs"
      by (rule members_frame[OF f]) (use Cons.prems(2) in \<open>simp add: members_def\<close>)
    from Cons.IH[OF rest this] Cons.prems(3) obtain n2 where
      "line_frame key (td_db (sy_td st1)) (td_db (sy_td st'))" "sy_log st' = sy_log st1 @ n2" "dry \<longrightarrow> n2 = []"
      "list_all (group_request grp) n2" by auto
    with line_frame_trans[OF f] n1 g1 show ?thesis by (intro conjI exI[of _ "n1 @ n2"]) simp_all
  qed
qed

lemma group_effect:
  assumes "sync_group te net dry day (Some issue) el st = (res, st')"
    "grp = fetch_blocks_for_issue (td_db (sy_td st)) day issue"
    "members (day, issue) (td_db (sy_td st)) grp" "set el \<subseteq> set grp"
  shows "line_frame (day, issue) (td_db (sy_td st)) (td_db (sy_td st'))
    \<and> (\<exists>new. sy_log st' = sy_log st @ new \<and> (dry \<longrightarrow> new = []) \<and> list_all (group_request grp) new)"
proof -
  obtain iid td where r: "resolve_issue_id net issue (sy_td st) = (iid, td)" by fastforce
  have td: "td_db td = td_db (sy_td st)" by (rule resolve_issue_db[OF r])
  let ?st = "st\<lparr>sy_td := td\<rparr>"
  have m: "members (day, issue) (td_db (sy_td ?st)) grp" using assms(3) td by simp
  show ?thesis
  proof (cases iid)
    case None
    with assms(1) r td show ?thesis by (auto simp: sync_group_def line_frame_refl)
  next
    case (Some i)
    have agg: "line_frame (day, issue) (td_db (sy_td st)) (td_db (sy_td st')) \<and>
        (\<exists>new. sy_log st' = sy_log st @ new \<and> (dry \<longrightarrow> new = []) \<and> list_all (group_request grp) new)"
      if "sync_group_aggregated te net dry (day, issue) i grp el ex ?st = (res, st')"
        and ok: "\<And>q. line_request (day, issue) ex q \<Longrightarrow> group_request grp q" for ex
    proof -
      from aggregated_effect[OF that(1) m] obtain new where
        "line_frame (day, issue) (td_db td) (td_db (sy_td st'))" "sy_log st' = sy_log st @ new"
        "list_all (line_request (day, issue) ex) new" "dry \<longrightarrow> new = []" by auto
      with ok td show ?thesis by (auto simp: list_all_iff)
    qed
    show ?thesis
    proof (cases "classify_group grp")
      case AllUnsynced
      with assms(1,2) r Some show ?thesis
        by (intro agg[of None]) (auto simp: sync_group_def group_request_def line_request_def split: request.splits)
    next
      case (SharedId x)
      have "list_ex (\<lambda>b. normalised_tempo_id_str (bk_tempo b) = Some x) grp"
        using classify_loop_spec(2)[OF SharedId[unfolded classify_group_def]] by (auto simp: list_ex_iff)
      with SharedId assms(1,2) r Some show ?thesis
        by (intro agg[of "Some x"]) (auto simp: sync_group_def group_request_def line_request_def split: request.splits)
    next
      case MixedLegacy
      with assms(1,2) r Some have l: "sync_blocks_legacy net dry issue i el ?st = (res, st')" by (simp add: sync_group_def)
      have "members (day, issue) (td_db (sy_td ?st)) el"
        using m assms(4) by (auto simp: members_def list_all_iff)
      from legacy_group_effect[OF l this assms(4) MixedLegacy] td show ?thesis by simp
    qed
  qed
qed

section \<open>The groups of a day do not touch each other\<close>

lemma fetch_blocks_sorted:
  "fetch_blocks_for_issue db day issue = sort_key bk_start (List.map_filter (\<lambda>i. case db_blocks db i of
     None \<Rightarrow> None | Some b \<Rightarrow> if bk_day b = day \<and> \<not> bk_personal b \<and> bk_jira b = Some issue then Some b else None) [1..db_next db - 1])"
proof -
  have f: "filter P (filter Q (List.map_filter f xs)) = List.map_filter (\<lambda>i. case f i of None \<Rightarrow> None | Some b \<Rightarrow> if Q b \<and> P b then Some b else None) xs"
    for P Q :: "block \<Rightarrow> bool" and f :: "int \<Rightarrow> block option" and xs
    by (induction xs) (auto simp: map_filter_simps split: option.splits)
  show ?thesis
    unfolding fetch_blocks_for_issue_def list_blocks_for_day_def all_blocks_def filter_sort f by simp
qed

lemma fetch_blocks_frame:
  assumes "line_frame (day, issue) db db'" "issue' \<noteq> issue"
  shows "fetch_blocks_for_issue db' day issue' = fetch_blocks_for_issue db day issue'"
proof -
  have "(case db_blocks db' i of None \<Rightarrow> None | Some b \<Rightarrow> if bk_day b = day \<and> \<not> bk_personal b \<and> bk_jira b = Some issue' then Some b else None)
      = (case db_blocks db i of None \<Rightarrow> None | Some b \<Rightarrow> if bk_day b = day \<and> \<not> bk_personal b \<and> bk_jira b = Some issue' then Some b else None)" for i
  proof (cases "db_blocks db i")
    case None
    with assms(1) have "db_blocks db' i = None" unfolding line_frame_def by blast
    with None show ?thesis by simp
  next
    case (Some b)
    from line_frameD[OF assms(1) Some] obtain t d where b': "db_blocks db' i = Some (b\<lparr>bk_tempo := t, bk_dirty := d\<rparr>)"
      "on_line (day, issue) b \<or> db_blocks db' i = Some b" by (auto simp: remarked_def)
    from b'(2) show ?thesis
    proof
      assume "on_line (day, issue) b"
      with b'(1) Some assms(2) show ?thesis by (simp add: on_line_def)
    qed (simp add: Some)
  qed
  moreover have "db_next db' = db_next db" using assms(1) by (simp add: line_frame_def)
  ultimately show ?thesis by (simp add: fetch_blocks_sorted)
qed

definition ids_ok :: "block_db \<Rightarrow> bool" where
  "ids_ok db = (\<forall>i b. db_blocks db i = Some b \<longrightarrow> bk_id b = i)"

lemma ids_ok_frame:
  assumes "line_frame key db db'" "ids_ok db"
  shows "ids_ok db'"
  unfolding ids_ok_def
proof (intro allI impI)
  fix i b assume b: "db_blocks db' i = Some b"
  with assms(1) obtain b0 where b0: "db_blocks db i = Some b0" unfolding line_frame_def by fastforce
  from line_frameD[OF assms(1) b0] b have "bk_id b = bk_id b0" by (auto simp: remarked_def)
  with assms(2) b0 show "bk_id b = i" by (simp add: ids_ok_def)
qed

lemma fetch_blocks_row:
  assumes "b \<in> set (fetch_blocks_for_issue db day issue)"
  obtains i where "db_blocks db i = Some b" "on_line (day, issue) b"
proof -
  from assms obtain i where "db_blocks db i = Some b"
    by (auto simp: fetch_blocks_for_issue_def list_blocks_for_day_def all_blocks_def set_map_filter_iff)
  moreover from assms have "on_line (day, issue) b"
    by (auto simp: fetch_blocks_for_issue_def list_blocks_for_day_def on_line_def)
  ultimately show thesis by (rule that)
qed

lemma fetch_blocks_members:
  assumes "ids_ok db"
  shows "members (day, issue) db (fetch_blocks_for_issue db day issue)"
proof -
  have "case db_blocks db (bk_id b) of None \<Rightarrow> False | Some x \<Rightarrow> on_line (day, issue) x"
    if "b \<in> set (fetch_blocks_for_issue db day issue)" for b
    using that assms by (elim fetch_blocks_row) (simp add: ids_ok_def)
  then show ?thesis by (simp add: members_def list_all_iff)
qed

section \<open>The whole day\<close>

definition sound_groups :: "string \<Rightarrow> block_db \<Rightarrow> (string option \<times> block list) list \<Rightarrow> bool" where
  "sound_groups day db gs \<longleftrightarrow>
     distinct (map fst gs) \<and>
     (\<forall>issue el. (Some issue, el) \<in> set gs \<longrightarrow> set el \<subseteq> set (fetch_blocks_for_issue db day issue))"

lemma eligible_groups_sound: "sound_groups day db (eligible_groups db day only_issue)"
proof -
  have "distinct (map fst (eligible_groups db day only_issue))"
    by (simp add: eligible_groups_def Let_def o_def btree_keys_distinct)
  moreover have "set el \<subseteq> set (fetch_blocks_for_issue db day issue)"
    if "(Some issue, el) \<in> set (eligible_groups db day only_issue)" for issue el
    using that
    by (auto simp: eligible_groups_def Let_def fetch_eligible_blocks_def fetch_blocks_for_issue_def split: option.splits)
  ultimately show ?thesis by (simp add: sound_groups_def)
qed

definition untouched :: "string \<Rightarrow> block_db \<Rightarrow> block_db \<Rightarrow> bool" where
  "untouched day db db' =
     (\<forall>i b. db_blocks db i = Some b \<and> (bk_personal b \<or> bk_day b \<noteq> day \<or> bk_jira b = None) \<longrightarrow> db_blocks db' i = Some b)"

lemma untouched_frame: "line_frame (day, issue) db db' \<Longrightarrow> untouched day db db'"
  unfolding untouched_def by (auto dest!: line_frameD simp: remarked_def on_line_def)

lemma untouched_trans: "untouched day db1 db2 \<Longrightarrow> untouched day db2 db3 \<Longrightarrow> untouched day db1 db3"
  unfolding untouched_def by blast

lemma untouched_refl: "untouched day db db"
  by (simp add: untouched_def)

definition justified :: "string \<Rightarrow> block_db \<Rightarrow> string option set \<Rightarrow> request \<Rightarrow> bool" where
  "justified day db issues r = (\<exists>issue. Some issue \<in> issues \<and> group_request (fetch_blocks_for_issue db day issue) r)"

lemma sync_groups_effect:
  assumes "sync_groups te net dry day gs st = (res, st')" "ids_ok (td_db (sy_td st))" "sound_groups day (td_db (sy_td st)) gs"
  shows "untouched day (td_db (sy_td st)) (td_db (sy_td st')) \<and>
    (\<exists>new. sy_log st' = sy_log st @ new \<and> (dry \<longrightarrow> new = []) \<and> list_all (justified day (td_db (sy_td st)) (fst ` set gs)) new)"
  using assms
proof (induction gs arbitrary: st)
  case Nil
  then show ?case by (simp add: untouched_refl)
next
  case (Cons g gs)
  obtain io el where g: "g = (io, el)" by fastforce
  obtain r st1 where s: "sync_group te net dry day io el st = (r, st1)" by fastforce
  let ?db = "td_db (sy_td st)" and ?db1 = "td_db (sy_td st1)"
  have step: "untouched day ?db ?db1 \<and> ids_ok ?db1 \<and> sound_groups day ?db1 gs \<and>
      (\<forall>issue. Some issue \<in> fst ` set gs \<longrightarrow> fetch_blocks_for_issue ?db1 day issue = fetch_blocks_for_issue ?db day issue) \<and>
      (\<exists>new. sy_log st1 = sy_log st @ new \<and> (dry \<longrightarrow> new = []) \<and> list_all (justified day ?db (fst ` set (g # gs))) new)"
  proof (cases io)
    case None
    with s have "sy_td st1 = sy_td st" "sy_log st1 = sy_log st" by (auto simp: sync_group_def)
    with Cons.prems(2,3) show ?thesis by (auto simp: untouched_refl sound_groups_def)
  next
    case (Some issue)
    have m: "members (day, issue) ?db (fetch_blocks_for_issue ?db day issue)" by (rule fetch_blocks_members[OF Cons.prems(2)])
    have el: "set el \<subseteq> set (fetch_blocks_for_issue ?db day issue)" using Cons.prems(3) g Some by (simp add: sound_groups_def)
    from group_effect[OF s[unfolded Some] refl m el] obtain new where
      f: "line_frame (day, issue) ?db ?db1" and new: "sy_log st1 = sy_log st @ new" "dry \<longrightarrow> new = []"
        "list_all (group_request (fetch_blocks_for_issue ?db day issue)) new" by blast
    have other: "fetch_blocks_for_issue ?db1 day i = fetch_blocks_for_issue ?db day i" if "Some i \<in> fst ` set gs" for i
    proof -
      have "i \<noteq> issue" using that Cons.prems(3) g Some by (auto simp: sound_groups_def)
      with f show ?thesis by (rule fetch_blocks_frame)
    qed
    have "sound_groups day ?db1 gs"
      unfolding sound_groups_def
    proof (intro conjI allI impI)
      show "distinct (map fst gs)" using Cons.prems(3) by (simp add: sound_groups_def)
      fix i e assume "(Some i, e) \<in> set gs"
      moreover from this have "Some i \<in> fst ` set gs" by force
      ultimately show "set e \<subseteq> set (fetch_blocks_for_issue ?db1 day i)"
        using other Cons.prems(3) by (simp add: sound_groups_def)
    qed
    moreover have "list_all (justified day ?db (fst ` set (g # gs))) new"
      using new(3) g Some by (auto simp: list_all_iff justified_def)
    ultimately show ?thesis using f other new(1,2) untouched_frame[OF f] ids_ok_frame[OF f Cons.prems(2)] by blast
  qed
  then obtain n1 where n1: "sy_log st1 = sy_log st @ n1" "dry \<longrightarrow> n1 = []" "list_all (justified day ?db (fst ` set (g # gs))) n1"
    and st1: "untouched day ?db ?db1" "ids_ok ?db1" "sound_groups day ?db1 gs"
    and same: "\<And>issue. Some issue \<in> fst ` set gs \<Longrightarrow> fetch_blocks_for_issue ?db1 day issue = fetch_blocks_for_issue ?db day issue"
    by blast
  show ?case
  proof (cases r)
    case (Inl e)
    with Cons.prems(1) s g have "st' = st1" by simp
    with n1 st1(1) show ?thesis by blast
  next
    case (Inr u)
    with Cons.prems(1) s g have rest: "sync_groups te net dry day gs st1 = (res, st')" by simp
    from Cons.IH[OF rest st1(2,3)] obtain n2 where n2: "sy_log st' = sy_log st1 @ n2" "dry \<longrightarrow> n2 = []"
      "list_all (justified day ?db1 (fst ` set gs)) n2" "untouched day ?db1 (td_db (sy_td st'))" by blast
    have "list_all (justified day ?db (fst ` set (g # gs))) n2"
      using n2(3) same by (fastforce simp: list_all_iff justified_def)
    with n1 n2 untouched_trans[OF st1(1) n2(4)] show ?thesis by (intro conjI exI[of _ "n1 @ n2"]) simp_all
  qed
qed

text \<open>Every request of a sync is justified by the blocks the day had when the sync began.\<close>

lemma sync_day_requests:
  assumes "ids_ok (td_db td)" "sync_day te net dry day only_issue td = (res, st')"
  shows "untouched day (td_db td) (td_db (sy_td st'))" "dry \<Longrightarrow> sy_log st' = []"
    "list_all (justified day (td_db td) UNIV) (sy_log st')"
proof -
  from sync_groups_effect[OF assms(2)[unfolded sync_day_def]] assms(1) eligible_groups_sound
  obtain new where n: "sy_log st' = new" "dry \<longrightarrow> new = []" "untouched day (td_db td) (td_db (sy_td st'))"
    "list_all (justified day (td_db td) (fst ` set (eligible_groups (td_db td) day only_issue))) new"
    by (auto simp: start_sync_def)
  then show "untouched day (td_db td) (td_db (sy_td st'))" "dry \<Longrightarrow> sy_log st' = []" by simp_all
  show "list_all (justified day (td_db td) UNIV) (sy_log st')"
    using n(1,4) by (auto simp: list_all_iff justified_def)
qed

section \<open>A line that went through needs no further sync\<close>

lemma write_ids_rows:
  "db_blocks db i \<noteq> None \<Longrightarrow> i \<in> bk_id ` set bs \<Longrightarrow>
     \<exists>x. db_blocks (foldl (\<lambda>db b. write_back (bk_id b) tempo_id db) db bs) i = Some x \<and> bk_tempo x = Some tempo_id \<and> \<not> bk_dirty x"
proof (induction bs rule: rev_induct)
  case (snoc b bs)
  let ?db = "foldl (\<lambda>db b. write_back (bk_id b) tempo_id db) db bs"
  have ex: "\<exists>x. db_blocks ?db i = Some x"
  proof -
    have "db_blocks (foldl (\<lambda>db b. write_back (bk_id b) tempo_id db) d cs) i \<noteq> None" if "db_blocks d i \<noteq> None" for d cs
      using that
    proof (induction cs arbitrary: d)
      case (Cons a cs)
      have "db_blocks (write_back (bk_id a) tempo_id d) i \<noteq> None" using Cons.prems by (auto simp: write_back_def split: option.split)
      from Cons.IH[OF this] show ?case by simp
    qed simp
    with snoc.prems(1) show ?thesis by blast
  qed
  show ?case
  proof (cases "i = bk_id b")
    case True
    with ex show ?thesis by (auto simp: write_back_def)
  next
    case False
    with snoc show ?thesis by (auto simp: write_back_def)
  qed
qed simp

lemma in_all_blocks:
  assumes "ids_ok db" "b \<in> set (fetch_blocks_for_issue db day issue)"
  shows "db_blocks db (bk_id b) = Some b" "1 \<le> bk_id b" "bk_id b < db_next db"
proof -
  from assms(2) obtain i where i: "i \<in> set [1..db_next db - 1]" "db_blocks db i = Some b"
    by (auto simp: fetch_blocks_for_issue_def list_blocks_for_day_def all_blocks_def set_map_filter_iff)
  with assms(1) have "bk_id b = i" by (simp add: ids_ok_def)
  with i show "db_blocks db (bk_id b) = Some b" "1 \<le> bk_id b" "bk_id b < db_next db" by simp_all
qed

lemma fetch_blocks_ids:
  assumes "line_frame (day, issue) db db'" "ids_ok db" "b \<in> set (fetch_blocks_for_issue db' day issue)"
  shows "bk_id b \<in> bk_id ` set (fetch_blocks_for_issue db day issue)"
proof -
  note b = in_all_blocks[OF ids_ok_frame[OF assms(1,2)] assms(3)]
  have line: "on_line (day, issue) b"
    using assms(3) by (auto simp: fetch_blocks_for_issue_def list_blocks_for_day_def on_line_def)
  from assms(1) b(1) obtain b0 where b0: "db_blocks db (bk_id b) = Some b0" unfolding line_frame_def by fastforce
  from line_frameD[OF assms(1) b0] b(1) have "on_line (day, issue) b0" using line by (auto simp: remarked_def)
  moreover have "bk_id b0 = bk_id b" using assms(2) b0 by (simp add: ids_ok_def)
  moreover have "db_next db' = db_next db" using assms(1) by (simp add: line_frame_def)
  ultimately have "b0 \<in> set (fetch_blocks_for_issue db day issue)"
    using b0 b(2,3) by (auto simp: fetch_blocks_for_issue_def list_blocks_for_day_def all_blocks_def set_map_filter_iff on_line_def intro!: bexI[of _ "bk_id b"])
  with \<open>bk_id b0 = bk_id b\<close> show ?thesis by (metis image_eqI)
qed

definition clean_id :: "string \<Rightarrow> bool" where
  "clean_id i = (i \<noteq> [] \<and> trim i = i)"

lemma normalise_clean: "normalise_tempo_id v = Some s \<Longrightarrow> clean_id s"
  by (auto simp: clean_id_def normalise_tempo_id_def Let_def split: json_id.splits option.splits if_splits)

lemma on_reply_synced:
  assumes "on_reply net (day, issue) all el ex pay r st = (res, st')" "sy_synced st < sy_synced st'"
    "ids_ok (td_db (sy_td st))" "bk_id ` set (fetch_blocks_for_issue (td_db (sy_td st)) day issue) \<subseteq> bk_id ` set all"
    "members (day, issue) (td_db (sy_td st)) all" "pred_option clean_id ex"
  shows "\<exists>tempo_id. clean_id tempo_id \<and> (\<forall>b\<in>set (fetch_blocks_for_issue (td_db (sy_td st')) day issue). bk_tempo b = Some tempo_id \<and> \<not> bk_dirty b)"
proof -
  from assms(1,2) obtain http v tempo_id where r: "r = Accepted http v"
    and i: "(case normalise_tempo_id v of Some s \<Rightarrow> Some s | None \<Rightarrow> ex) = Some tempo_id"
    by (auto simp: on_reply_def split: reply.splits option.splits) (auto simp: add_results_def)
  let ?db = "td_db (sy_td st)"
  let ?db' = "foldl (\<lambda>db b. write_back (bk_id b) tempo_id db) ?db all"
  have db': "td_db (sy_td st') = ?db'"
    using assms(1) r i by (cases "ex = None") (auto simp: on_reply_def line_sent_def write_ids_def Let_def)
  have f: "line_frame (day, issue) ?db ?db'" by (rule line_frame_write_ids[OF assms(5)])
  have "clean_id tempo_id" using i assms(6) by (auto split: option.splits dest: normalise_clean)
  moreover have "bk_tempo b = Some tempo_id \<and> \<not> bk_dirty b" if b: "b \<in> set (fetch_blocks_for_issue ?db' day issue)" for b
  proof -
    from fetch_blocks_ids[OF f assms(3) b] assms(4) have "bk_id b \<in> bk_id ` set all" by blast
    moreover have row: "db_blocks ?db' (bk_id b) = Some b" by (rule in_all_blocks(1)[OF ids_ok_frame[OF f assms(3)] b])
    moreover from row f have "db_blocks ?db (bk_id b) \<noteq> None" unfolding line_frame_def by fastforce
    ultimately show ?thesis using write_ids_rows[of ?db "bk_id b" all tempo_id] by auto
  qed
  ultimately show ?thesis using db' by auto
qed

end
