(* ===== verification/Tz.thy ===== *)
theory Tz
  imports TempoSync
begin

text \<open>
  The day-bucket timezone (\<open>tz.rs\<close>): \<open>$WORKLOG_TZ\<close> read as a fixed offset, the local date of an instant and
  the UTC window of a local day. A \<open>NaiveDate\<close> is the number of days since 1970-01-01, a \<open>FixedOffset\<close> a
  number of seconds east of UTC.
\<close>

type_synonym naive_date = int
type_synonym fixed_offset = int

text \<open>\<open>str::parse::<i32>\<close>, and \<open>FixedOffset::east_opt\<close>: less than a day either way.\<close>

definition parse_i32 :: "string \<Rightarrow> int option" where
  "parse_i32 s = Option.bind (parse_i64 s) (\<lambda>n. if - (2 ^ 31) \<le> n \<and> n < 2 ^ 31 then Some n else None)"

definition east_opt :: "int \<Rightarrow> fixed_offset option" where
  "east_opt secs = (if - 86400 < secs \<and> secs < 86400 then Some secs else None)"

definition parse_offset :: "string \<Rightarrow> fixed_offset option" where
  "parse_offset s =
     (case s of
        [] \<Rightarrow> None
      | c # rest \<Rightarrow>
          (case (if c = CHR ''+'' then Some 1 else if c = CHR ''-'' then Some (- 1) else None) of
             None \<Rightarrow> None
           | Some sig \<Rightarrow>
               (case (case split_once (CHR '':'') rest of
                        Some (h, m) \<Rightarrow> Option.bind (parse_i32 h) (\<lambda>h. map_option (Pair h) (parse_i32 m))
                      | None \<Rightarrow> map_option (\<lambda>h. (h, 0)) (parse_i32 rest)) of
                  None \<Rightarrow> None
                | Some (hours, mins) \<Rightarrow>
                    if \<not> (0 \<le> hours \<and> hours \<le> 23) \<or> \<not> (0 \<le> mins \<and> mins \<le> 59) then None
                    else east_opt (sig * (hours * 3600 + mins * 60)))))"

definition day_offset :: "string option \<Rightarrow> fixed_offset" where
  "day_offset configured =
     (case map_option trim configured of
        None \<Rightarrow> 0
      | Some s \<Rightarrow>
          if s = [] then 0
          else if nocase s = ''utc'' \<or> s = ''Z'' then 0
          else (case parse_offset s of Some off \<Rightarrow> off | None \<Rightarrow> 0))"

definition is_valid_tz :: "string \<Rightarrow> bool" where
  "is_valid_tz s = (let s = trim s in s = [] \<or> nocase s = ''utc'' \<or> s = ''Z'' \<or> parse_offset s \<noteq> None)"

text \<open>The environment variable wins over the stored setting, unless it is blank.\<close>

definition configured_tz :: "string option \<Rightarrow> string option \<Rightarrow> string option" where
  "configured_tz env_var stored =
     (case env_var of Some v \<Rightarrow> if trim v \<noteq> [] then Some v else stored | None \<Rightarrow> stored)"

definition DAY_NS :: span where
  "DAY_NS = seconds 86400"

definition local_date :: "fixed_offset \<Rightarrow> instant \<Rightarrow> naive_date" where
  "local_date off ts = (ts + seconds off) div DAY_NS"

definition utc_window_for_local_day :: "fixed_offset \<Rightarrow> naive_date \<Rightarrow> instant \<times> instant" where
  "utc_window_for_local_day off d = (d * DAY_NS - seconds off, (d + 1) * DAY_NS - seconds off)"

lemma day_ns_pos: "0 < DAY_NS"
  by (simp add: DAY_NS_def time_defs)

lemma parse_offset_bounds: "parse_offset s = Some off \<Longrightarrow> - 86400 < off \<and> off < 86400 \<and> off mod 60 = 0"
  unfolding parse_offset_def east_opt_def
  by (auto split: list.splits if_splits option.splits prod.splits simp: zmod_zminus1_eq_if)

lemma day_offset_bounds: "- 86400 < day_offset configured \<and> day_offset configured < 86400"
  by (auto simp: day_offset_def dest: parse_offset_bounds split: option.splits)

lemma local_date_iff:
  "local_date off ts = d \<longleftrightarrow> fst (utc_window_for_local_day off d) \<le> ts \<and> ts < snd (utc_window_for_local_day off d)"
proof -
  have "(ts + seconds off) div DAY_NS = d \<longleftrightarrow> d * DAY_NS \<le> ts + seconds off \<and> ts + seconds off < (d + 1) * DAY_NS"
    (is "?l \<longleftrightarrow> ?r")
  proof
    assume ?l
    with div_mult_mod_eq[of "ts + seconds off" DAY_NS] pos_mod_bound[OF day_ns_pos, of "ts + seconds off"]
      pos_mod_sign[OF day_ns_pos, of "ts + seconds off"]
    show ?r by (simp add: algebra_simps)
  next
    assume r: ?r
    have "ts + seconds off = d * DAY_NS + (ts + seconds off - d * DAY_NS)" by simp
    moreover have "0 \<le> ts + seconds off - d * DAY_NS" "ts + seconds off - d * DAY_NS < DAY_NS"
      using r by (simp_all add: algebra_simps)
    ultimately show ?l by (metis add.commute div_mult_self1 div_pos_pos_trivial add_0 day_ns_pos less_irrefl)
  qed
  then show ?thesis by (auto simp: local_date_def utc_window_for_local_day_def)
qed

lemma windows_tile: "snd (utc_window_for_local_day off d) = fst (utc_window_for_local_day off (d + 1))"
  by (simp add: utc_window_for_local_day_def)

text \<open>A setting that passes the check never falls back silently.\<close>

lemma valid_tz_used:
  "is_valid_tz s \<Longrightarrow> nocase (trim s) \<noteq> ''utc'' \<Longrightarrow> trim s \<noteq> ''Z'' \<Longrightarrow> trim s \<noteq> [] \<Longrightarrow>
     parse_offset (trim s) = Some (day_offset (Some s))"
  by (auto simp: is_valid_tz_def day_offset_def Let_def)

end
