(* ===== verification/Decisions.thy ===== *)
theory Decisions
  imports Sessions F64
begin

text \<open>
  The permanent decision log (\<open>verdict_decisions.rs\<close>): what the Verdict classifier guessed and what the
  Owner corrected. A stored row keeps kind and source as text and the options and the ranking as JSON; the
  JSON reader and printer are the record \<open>json_codec\<close>. The table is the list of its rows by ascending id.
\<close>

section \<open>Rows\<close>

datatype decision_kind = Project | Ticket | LineText

datatype decision_source = Verdict | Owner

record ranked_option =
  ro_id :: string
  ro_prob :: rat

record ranking =
  rk_ranking :: "ranked_option list"
  rk_abstain :: rat
  rk_agreed :: bool

record decision_row =
  dr_kind :: decision_kind
  dr_source :: decision_source
  dr_subject :: string
  dr_state :: string
  dr_options :: "string list"
  dr_ranking :: "ranking option"
  dr_chosen :: "string option"
  dr_previous :: "string option"
  dr_decided :: string

record stored_decision =
  sd_id :: int
  sd_kind :: string
  sd_source :: string
  sd_subject :: string
  sd_state :: string
  sd_options :: string
  sd_ranking :: "string option"
  sd_chosen :: "string option"
  sd_previous :: "string option"
  sd_decided :: string

record json_codec =
  jc_options :: "string list \<Rightarrow> string"
  jc_read_options :: "string \<Rightarrow> string list option"
  jc_ranking :: "ranking \<Rightarrow> string"
  jc_read_ranking :: "string \<Rightarrow> ranking option"

datatype bad_column = BadColumn nat

definition kind_str :: "decision_kind \<Rightarrow> string" where
  "kind_str k = (case k of Project \<Rightarrow> ''project'' | Ticket \<Rightarrow> ''ticket'' | LineText \<Rightarrow> ''line_text'')"

definition source_str :: "decision_source \<Rightarrow> string" where
  "source_str s = (case s of Verdict \<Rightarrow> ''verdict'' | Owner \<Rightarrow> ''owner'')"

definition parse_kind :: "string \<Rightarrow> decision_kind option" where
  "parse_kind s = find (\<lambda>k. kind_str k = s) [Project, Ticket, LineText]"

definition parse_source :: "string \<Rightarrow> decision_source option" where
  "parse_source s = find (\<lambda>v. source_str v = s) [Verdict, Owner]"

lemma parse_kind_str [simp]: "parse_kind (kind_str k) = Some k"
  by (cases k) (simp_all add: parse_kind_def kind_str_def)

lemma parse_source_str [simp]: "parse_source (source_str s) = Some s"
  by (cases s) (simp_all add: parse_source_def source_str_def)

lemma kind_str_inject [simp]: "kind_str a = kind_str b \<longleftrightarrow> a = b"
  by (cases a; cases b) (simp_all add: kind_str_def)

definition row_from :: "json_codec \<Rightarrow> stored_decision \<Rightarrow> bad_column + decision_row" where
  "row_from jc s =
     and_then (ok_or (BadColumn 0) (parse_kind (sd_kind s))) (\<lambda>kind.
     and_then (ok_or (BadColumn 1) (parse_source (sd_source s))) (\<lambda>source.
       Inr \<lparr>dr_kind = kind, dr_source = source, dr_subject = sd_subject s, dr_state = sd_state s,
         dr_options = (case jc_read_options jc (sd_options s) of Some os \<Rightarrow> os | None \<Rightarrow> []),
         dr_ranking = Option.bind (sd_ranking s) (jc_read_ranking jc),
         dr_chosen = sd_chosen s, dr_previous = sd_previous s, dr_decided = sd_decided s\<rparr>))"

section \<open>Writing\<close>

text \<open>\<open>INTEGER PRIMARY KEY\<close>: one more than the highest id in the table.\<close>

definition next_rowid :: "stored_decision list \<Rightarrow> int" where
  "next_rowid rows = (if rows = [] then 1 else sd_id (List.last rows) + 1)"

definition record_decision :: "json_codec \<Rightarrow> decision_row \<Rightarrow> stored_decision list \<Rightarrow> int \<times> stored_decision list" where
  "record_decision jc row rows =
     (next_rowid rows,
      rows @ [\<lparr>sd_id = next_rowid rows, sd_kind = kind_str (dr_kind row), sd_source = source_str (dr_source row),
         sd_subject = dr_subject row, sd_state = dr_state row, sd_options = jc_options jc (dr_options row),
         sd_ranking = map_option (jc_ranking jc) (dr_ranking row), sd_chosen = dr_chosen row,
         sd_previous = dr_previous row, sd_decided = dr_decided row\<rparr>])"

text \<open>The \<open>DELETE\<close> before Verdict's newest answer on a subject: its earlier answers without a choice go.\<close>

definition drop_unchosen :: "decision_kind \<Rightarrow> string \<Rightarrow> stored_decision list \<Rightarrow> stored_decision list" where
  "drop_unchosen kind subject rows =
     filter (\<lambda>s. \<not> (sd_kind s = kind_str kind \<and> sd_source s = source_str Verdict \<and> sd_subject s = subject
                     \<and> sd_chosen s = None)) rows"

section \<open>Reading\<close>

definition list_since :: "json_codec \<Rightarrow> decision_kind \<Rightarrow> string \<Rightarrow> stored_decision list \<Rightarrow> bad_column + decision_row list" where
  "list_since jc kind since rows =
     try_map (row_from jc)
       (sort_key (\<lambda>s. (sd_decided s, sd_id s)) (filter (\<lambda>s. sd_kind s = kind_str kind \<and> since \<le> sd_decided s) rows))"

definition latest_for :: "json_codec \<Rightarrow> decision_kind \<Rightarrow> string \<Rightarrow> stored_decision list \<Rightarrow> bad_column + decision_row option" where
  "latest_for jc kind subject rows =
     (case max_by_key (\<lambda>s. (sd_decided s, sd_id s)) (filter (\<lambda>s. sd_kind s = kind_str kind \<and> sd_subject s = subject) rows) of
        None \<Rightarrow> Inr None
      | Some s \<Rightarrow> and_then (row_from jc s) (\<lambda>r. Inr (Some r)))"

text \<open>\<open>CAST(subject AS INTEGER)\<close>: leading blanks and the longest signed run of digits, zero without one.\<close>

definition cast_integer :: "string \<Rightarrow> int" where
  "cast_integer s =
     (let s = dropWhile (\<lambda>c. c \<in> set [CHR 0x20, CHR 0x09, CHR 0x0A, CHR 0x0B, CHR 0x0C, CHR 0x0D]) s;
          (neg, r) = (case s of c # cs \<Rightarrow> if c = CHR ''-'' then (True, cs) else if c = CHR ''+'' then (False, cs) else (False, s)
                      | [] \<Rightarrow> (False, []));
          n = foldl (\<lambda>n c. 10 * n + (int (of_char c) - 48)) 0 (takeWhile ascii_digit r)
      in max (- (2 ^ 63)) (min (2 ^ 63 - 1) (if neg then - n else n)))"

definition examples_for :: "(int \<Rightarrow> string option) \<Rightarrow> stored_decision list \<Rightarrow> string \<Rightarrow> nat \<Rightarrow> string list" where
  "examples_for title_of rows folder limit =
     (let chosen = filter (\<lambda>d. sd_kind d = ''project'' \<and> sd_source d = ''owner'' \<and> sd_chosen d = Some folder) rows;
          newest = filter (\<lambda>d. list_all (\<lambda>x. sd_subject x = sd_subject d \<longrightarrow> sd_id x \<le> sd_id d) chosen) chosen;
          joined = filter (\<lambda>d. title_of (cast_integer (sd_subject d)) \<noteq> None) newest
      in take limit (List.map_filter (\<lambda>d. title_of (cast_integer (sd_subject d)))
           (rev (sort_key (\<lambda>d. (sd_decided d, sd_id d)) joined))))"

section \<open>What the log keeps\<close>

definition log_ok :: "stored_decision list \<Rightarrow> bool" where
  "log_ok rows =
     (sorted_wrt (\<lambda>a b. sd_id a < sd_id b) rows
      \<and> list_all (\<lambda>s. parse_kind (sd_kind s) \<noteq> None \<and> parse_source (sd_source s) \<noteq> None) rows)"

text \<open>What \<open>serde_json\<close> promises of the JSON it wrote for the columns of \<open>row\<close>.\<close>

definition reads_back :: "json_codec \<Rightarrow> decision_row \<Rightarrow> bool" where
  "reads_back jc row =
     (jc_read_options jc (jc_options jc (dr_options row)) = Some (dr_options row)
      \<and> (case dr_ranking row of None \<Rightarrow> True | Some r \<Rightarrow> jc_read_ranking jc (jc_ranking jc r) = Some r))"

lemma next_rowid_above: "log_ok rows \<Longrightarrow> s \<in> set rows \<Longrightarrow> sd_id s < next_rowid rows"
proof -
  assume ok: "log_ok rows" and s: "s \<in> set rows"
  obtain xs x where rows: "rows = xs @ [x]" using s by (cases rows rule: rev_cases) auto
  from ok rows s have "sd_id s \<le> sd_id x" by (auto simp: log_ok_def sorted_wrt_append)
  with rows show ?thesis by (simp add: next_rowid_def)
qed

lemma log_ok_record: "log_ok rows \<Longrightarrow> log_ok (snd (record_decision jc row rows))"
  using next_rowid_above[of rows] by (auto simp: log_ok_def record_decision_def sorted_wrt_append)

lemma log_ok_filter: "log_ok rows \<Longrightarrow> log_ok (filter P rows)"
  by (auto simp: log_ok_def sorted_wrt_filter list_all_iff)

lemma log_ok_drop: "log_ok rows \<Longrightarrow> log_ok (drop_unchosen kind subject rows)"
  unfolding drop_unchosen_def by (rule log_ok_filter)

lemma row_from_total: "log_ok rows \<Longrightarrow> s \<in> set rows \<Longrightarrow> \<exists>r. row_from jc s = Inr r"
  by (auto simp: log_ok_def list_all_iff row_from_def)

lemma row_from_stored:
  "reads_back jc row \<Longrightarrow> row_from jc (List.last (snd (record_decision jc row rows))) = Inr row"
  by (cases "dr_ranking row") (auto simp: record_decision_def row_from_def reads_back_def)

text \<open>A row written at or after every other decision on its subject is the latest one.\<close>

lemma latest_recorded:
  assumes ok: "log_ok rows" and codec: "reads_back jc row"
    and newest: "\<And>s. s \<in> set rows \<Longrightarrow> sd_kind s = kind_str (dr_kind row) \<Longrightarrow> sd_subject s = dr_subject row \<Longrightarrow> sd_decided s \<le> dr_decided row"
  shows "latest_for jc (dr_kind row) (dr_subject row) (snd (record_decision jc row rows)) = Inr (Some row)"
proof -
  let ?rows = "snd (record_decision jc row rows)"
  let ?new = "List.last ?rows"
  let ?of = "filter (\<lambda>s. sd_kind s = kind_str (dr_kind row) \<and> sd_subject s = dr_subject row)"
  let ?key = "\<lambda>s :: stored_decision. (sd_decided s, sd_id s)"
  have split: "?of ?rows = ?of rows @ [?new]" by (simp add: record_decision_def)
  have new: "?key ?new = (dr_decided row, next_rowid rows)" by (simp add: record_decision_def)
  have "\<exists>m. max_by_key ?key (?of ?rows) = Some m"
  proof (cases "max_by_key ?key (?of ?rows)")
    case None
    with split show ?thesis by simp
  qed (rule exI)
  then obtain m where m: "max_by_key ?key (?of ?rows) = Some m" ..
  from max_by_key_Some[OF m] have mem: "m \<in> set (?of rows @ [?new])" and top: "?key ?new \<le> ?key m"
    unfolding split by auto
  have "m = ?new"
  proof (rule ccontr)
    assume "m \<noteq> ?new"
    with mem have "m \<in> set rows" "sd_kind m = kind_str (dr_kind row)" "sd_subject m = dr_subject row" by auto
    from newest[OF this] next_rowid_above[OF ok this(1)] top new show False by auto
  qed
  with m row_from_stored[OF codec] show ?thesis by (simp add: latest_for_def)
qed

lemma latest_total: "log_ok rows \<Longrightarrow> \<exists>r. latest_for jc kind subject rows = Inr r"
proof -
  assume ok: "log_ok rows"
  show ?thesis
  proof (cases "max_by_key (\<lambda>s. (sd_decided s, sd_id s)) (filter (\<lambda>s. sd_kind s = kind_str kind \<and> sd_subject s = subject) rows)")
    case (Some s)
    with max_by_key_Some[OF Some] row_from_total[OF ok, of s jc] show ?thesis by (auto simp: latest_for_def)
  qed (simp add: latest_for_def)
qed

lemma list_since_total: "log_ok rows \<Longrightarrow> \<exists>rs. list_since jc kind since rows = Inr rs"
proof -
  assume ok: "log_ok rows"
  let ?rows = "sort_key (\<lambda>s. (sd_decided s, sd_id s)) (filter (\<lambda>s. sd_kind s = kind_str kind \<and> since \<le> sd_decided s) rows)"
  have "\<forall>s\<in>set ?rows. row_from jc s = Inr (projr (row_from jc s))"
  proof
    fix s assume "s \<in> set ?rows"
    then have "s \<in> set rows" by simp
    from row_from_total[OF ok this, of jc] show "row_from jc s = Inr (projr (row_from jc s))" by auto
  qed
  from try_map_all[OF this] show ?thesis by (auto simp: list_since_def)
qed

end
