(* ===== verification/TempoLedger.thy ===== *)
theory TempoLedger
  imports TempoSync
begin

text \<open>
  What a sync of a day guarantees as a whole: the seconds it sends, and that a line that went through is
  from then on updated, never posted again.
\<close>

section \<open>Stored hours are half hours\<close>

definition half_hours :: "int \<Rightarrow> bool" where
  "half_hours s = (0 < s \<and> s mod HALF_HOUR_SECONDS = 0)"

definition hours_ok :: "tempo_db \<Rightarrow> bool" where
  "hours_ok td = (\<forall>key r s. td_rows td key = Some r \<longrightarrow> lr_hours r = Some s \<longrightarrow> half_hours s)"

lemma hours_okI:
  assumes "hours_ok td"
    "\<And>key r s. td_rows td' key = Some r \<Longrightarrow> lr_hours r = Some s \<Longrightarrow>
       half_hours s \<or> (\<exists>r'. td_rows td key = Some r' \<and> lr_hours r' = Some s)"
  shows "hours_ok td'"
  using assms unfolding hours_ok_def by blast

lemma hours_ok_rows: "td_rows td' = td_rows td \<Longrightarrow> hours_ok td' = hours_ok td"
  by (simp add: hours_ok_def)

lemma hours_ok_ensure: "hours_ok td \<Longrightarrow> hours_ok (ensure_row key td)"
  by (auto simp: hours_ok_def ensure_row_def empty_row_def split: option.splits if_splits)

lemma hours_ok_with:
  assumes "hours_ok td" "\<And>r s. lr_hours (f r) = Some s \<Longrightarrow> lr_hours r = Some s \<or> half_hours s"
  shows "hours_ok (with_row key f td)"
  using assms unfolding hours_ok_def with_row_def by (auto split: if_splits) blast+

lemma hours_ok_finish: "hours_ok td \<Longrightarrow> hours_ok (finish_write key td)"
  by (auto simp: hours_ok_def finish_write_def split: option.splits if_splits)

lemma check_hours_half: "check_hours secs = Inr u \<longleftrightarrow> (case secs of None \<Rightarrow> True | Some s \<Rightarrow> half_hours s)"
  by (auto simp: check_hours_def half_hours_def split: option.splits)

lemma hours_ok_write_hours:
  assumes "hours_ok td" "check_hours secs = Inr u"
  shows "hours_ok (write_hours key secs td)"
  unfolding write_hours_def
  by (intro hours_ok_finish hours_ok_with hours_ok_ensure)
     (use assms in \<open>auto simp: check_hours_half\<close>)

lemma hours_ok_set_text: "hours_ok td \<Longrightarrow> hours_ok (snd (set_line_text te key raw td))"
  unfolding set_line_text_def Let_def
  by (auto intro!: hours_ok_finish hours_ok_with hours_ok_ensure)

lemma hours_ok_set_hours: "hours_ok td \<Longrightarrow> hours_ok (snd (set_line_hours te key secs td))"
  unfolding set_line_hours_def Let_def
  by (auto split: sum.splits intro: hours_ok_write_hours)

lemma hours_ok_pin: "hours_ok td \<Longrightarrow> hours_ok (snd (pin_hours key secs td))"
  unfolding pin_hours_def by (auto split: sum.splits intro: hours_ok_write_hours)

lemma hours_ok_commit: "hours_ok td \<Longrightarrow> hours_ok (commit_generated key t hash force td)"
  unfolding commit_generated_def
  by (auto intro!: hours_ok_finish hours_ok_with hours_ok_ensure)

lemma hours_ok_mark_already: "hours_ok td \<Longrightarrow> hours_ok (mark_already te line i td)"
  unfolding mark_already_def by (auto intro!: hours_ok_with hours_ok_ensure)

lemma hours_ok_line_sent: "hours_ok td \<Longrightarrow> hours_ok (line_sent now key td)"
  unfolding line_sent_def by (auto intro!: hours_ok_with split: if_splits)

lemma hours_ok_resolve: "resolve_issue_id net issue td = (r, td') \<Longrightarrow> hours_ok td' = hours_ok td"
  by (auto simp: resolve_issue_id_def intro!: hours_ok_rows split: option.splits)

lemma hours_ok_write_ids [simp]: "hours_ok (write_ids i bs td) = hours_ok td"
  by (rule hours_ok_rows) (simp add: write_ids_def)

lemma hours_ok_already: "already_sent te net day dry line td = (r, td') \<Longrightarrow> hours_ok td \<Longrightarrow> hours_ok td'"
  by (auto simp: already_sent_def split: option.splits if_splits match_verdict.splits intro: hours_ok_mark_already)

lemma hours_ok_description: "line_description te net key dry line td = (r, td') \<Longrightarrow> hours_ok td \<Longrightarrow> hours_ok td'"
  by (auto simp: line_description_def split: option.splits if_splits list.splits intro: hours_ok_commit)

section \<open>The seconds of a line\<close>

lemma round_half: "round_to_half_hour s \<noteq> 0 \<Longrightarrow> half_hours (round_to_half_hour s)"
proof -
  assume "round_to_half_hour s \<noteq> 0"
  with round_to_half_hour_spec[of s] have "900 \<le> s" by linarith
  with round_to_half_hour_spec[of s] show ?thesis by (auto simp: half_hours_def dvd_eq_mod_eq_0)
qed

lemma round_billable_half: "round_billable_half_hour s \<noteq> 0 \<Longrightarrow> half_hours (round_billable_half_hour s)"
proof -
  assume n: "round_billable_half_hour s \<noteq> 0"
  show ?thesis
  proof (cases "round_to_half_hour s = 0")
    case True
    with n show ?thesis by (auto simp: round_billable_half_hour_def half_hours_def HALF_HOUR_SECONDS_def split: if_splits)
  next
    case False
    from round_half[OF this] n show ?thesis
      by (auto simp: round_billable_half_hour_def half_hours_def HALF_HOUR_SECONDS_def max_def split: if_splits)
  qed
qed

lemma line_seconds:
  assumes "hours_ok td" "line_for te td key = Some line" "ln_effective line \<noteq> 0"
  shows "half_hours (ln_effective line)"
proof -
  from assms(2) obtain bs where l: "line = build_line te td key bs" by (auto simp: line_for_def)
  show ?thesis
  proof (cases "Option.bind (td_rows td key) lr_hours")
    case None
    with l assms(3) round_half round_billable_half show ?thesis by (auto simp: build_line_def Let_def)
  next
    case (Some s)
    then obtain r where "td_rows td key = Some r" "lr_hours r = Some s" by (auto simp: bind_eq_Some_conv)
    with assms(1) have "half_hours s" unfolding hours_ok_def by blast
    with l Some show ?thesis by (simp add: build_line_def Let_def)
  qed
qed

section \<open>The seconds of a day\<close>

definition request_seconds :: "request \<Rightarrow> int" where
  "request_seconds r = (case r of Post p \<Rightarrow> py_seconds p | Put i p \<Rightarrow> py_seconds p)"

definition sound_log :: "sync_state \<Rightarrow> bool" where
  "sound_log st = (hours_ok (sy_td st) \<and> list_all (half_hours \<circ> request_seconds) (sy_log st))"

lemma sound_log_simps [simp]:
  "sound_log (add_results rs st) = sound_log st" "sound_log (skip_blocks reason bs st) = sound_log st"
  "sound_log (st\<lparr>sy_errors := es\<rparr>) = sound_log st" "sound_log (st\<lparr>sy_synced := n\<rparr>) = sound_log st"
  by (simp_all add: sound_log_def)

lemma sound_log_td: "sound_log st \<Longrightarrow> hours_ok td \<Longrightarrow> sound_log (st\<lparr>sy_td := td\<rparr>)"
  by (simp add: sound_log_def)

lemma sound_log_reply:
  assumes "on_reply net key all el ex pay r st = (res, st')" "sound_log st"
  shows "sound_log st'"
proof -
  from assms(2) have h: "hours_ok (sy_td st)" by (simp add: sound_log_def)
  have "sound_log (st\<lparr>sy_td := line_sent (nt_now net) key (write_ids i all (sy_td st)), sy_synced := n\<rparr>)" for i n
    using sound_log_td[OF assms(2), of "line_sent (nt_now net) key (write_ids i all (sy_td st))"] h
    by (simp add: hours_ok_line_sent sound_log_def)
  with assms show ?thesis
    by (auto simp: on_reply_def Let_def split: reply.splits option.splits if_splits)
qed

lemma hours_ok_local:
  assumes "local_step te net dry key td td2" "hours_ok td"
  shows "hours_ok td2"
  using assms by (rule local_step_keeps) (blast intro: hours_ok_already hours_ok_description)+

lemma request_seconds_of [simp]: "request_seconds (line_request_of ex pay) = py_seconds pay"
  by (simp add: request_seconds_def line_request_of_def split: option.splits)

lemma sound_log_aggregated:
  assumes "sync_group_aggregated te net dry key iid all el ex st = (res, st')" "sound_log st"
  shows "sound_log st'"
  using assms(1)
proof (cases rule: aggregated_cases)
  case quiet
  with assms(2) show ?thesis by (simp add: sound_log_def hours_ok_local)
next
  case (sent line pay r st3)
  have h: "hours_ok (sy_td st)" using assms(2) by (simp add: sound_log_def)
  have "half_hours (py_seconds pay)" using line_seconds[OF h sent(1,2)] sent(4) by simp
  with assms(2) sent(8) hours_ok_local[OF sent(6) h] have "sound_log st3" by (simp add: sound_log_def)
  from sound_log_reply[OF sent(9) this] show ?thesis .
qed

lemma sound_log_legacy:
  assumes "sync_block_legacy net dry issue iid b st = (res, st')" "sound_log st"
  shows "sound_log st'"
  using assms(1)
proof (cases rule: legacy_cases)
  case quiet
  with assms(2) show ?thesis by (simp add: sound_log_def)
next
  case (sent pay)
  have "half_hours (py_seconds pay)" using round_half[OF sent(3)] sent(2) by simp
  with assms(2) sent(4,5) show ?thesis by (auto simp: sound_log_def)
qed

lemma sound_log_blocks:
  "sync_blocks_legacy net dry issue iid bs st = (res, st') \<Longrightarrow> sound_log st \<Longrightarrow> sound_log st'"
proof (induction bs arbitrary: st)
  case (Cons b bs)
  obtain r st1 where s: "sync_block_legacy net dry issue iid b st = (r, st1)" by fastforce
  note s1 = sound_log_legacy[OF s Cons.prems(2)]
  show ?case
  proof (cases r)
    case (Inl e)
    with Cons.prems(1) s s1 show ?thesis by simp
  next
    case (Inr u)
    with Cons.prems(1) s have "sync_blocks_legacy net dry issue iid bs st1 = (res, st')" by simp
    from Cons.IH[OF this s1] show ?thesis .
  qed
qed simp

lemma sound_log_group:
  assumes "sync_group te net dry day io el st = (res, st')" "sound_log st"
  shows "sound_log st'"
proof (cases io)
  case None
  with assms show ?thesis by (auto simp: sync_group_def)
next
  case (Some issue)
  obtain iid td where r: "resolve_issue_id net issue (sy_td st) = (iid, td)" by fastforce
  have "hours_ok td" using hours_ok_resolve[OF r] assms(2) by (simp add: sound_log_def)
  note s1 = sound_log_td[OF assms(2) this]
  show ?thesis
  proof (cases iid)
    case None
    with assms(1) Some r s1 show ?thesis by (auto simp: sync_group_def)
  next
    case (Some i)
    show ?thesis
      using assms(1) \<open>io = Some issue\<close> r Some s1
      by (auto simp: sync_group_def Let_def split: group_classification.splits
          dest: sound_log_aggregated sound_log_blocks)
  qed
qed

lemma sound_log_groups:
  "sync_groups te net dry day gs st = (res, st') \<Longrightarrow> sound_log st \<Longrightarrow> sound_log st'"
proof (induction gs arbitrary: st)
  case (Cons g gs)
  obtain io el where g: "g = (io, el)" by fastforce
  obtain r st1 where s: "sync_group te net dry day io el st = (r, st1)" by fastforce
  note s1 = sound_log_group[OF s Cons.prems(2)]
  show ?case
  proof (cases r)
    case (Inl e)
    with Cons.prems(1) s s1 g show ?thesis by simp
  next
    case (Inr u)
    with Cons.prems(1) s g have "sync_groups te net dry day gs st1 = (res, st')" by simp
    from Cons.IH[OF this s1] show ?thesis .
  qed
qed simp

lemma sync_day_seconds:
  assumes "hours_ok td" "sync_day te net dry day only_issue td = (res, st')"
  shows "list_all (half_hours \<circ> request_seconds) (sy_log st')" "hours_ok (sy_td st')"
proof -
  have "sound_log (start_sync td)" using assms(1) by (simp add: sound_log_def start_sync_def)
  from sound_log_groups[OF assms(2)[unfolded sync_day_def] this] have "sound_log st'" .
  then show "list_all (half_hours \<circ> request_seconds) (sy_log st')" "hours_ok (sy_td st')" by (simp_all add: sound_log_def)
qed

section \<open>Sent once, updated ever after\<close>

lemma classify_clean:
  assumes "classify_group bs = SharedId i"
  shows "clean_id i"
proof -
  from classify_loop_spec(2)[OF assms[unfolded classify_group_def]] obtain b :: block where
    "normalised_tempo_id_str (bk_tempo b) = Some i" by auto
  then show ?thesis by (auto simp: normalised_tempo_id_str_def clean_id_def split: option.splits if_splits)
qed

lemma classify_shared:
  assumes "bs \<noteq> []" "\<forall>b\<in>set bs. bk_tempo b = Some i" "clean_id i"
  shows "classify_group bs = SharedId i"
proof -
  have n: "normalised_tempo_id_str (Some i) = Some i" using assms(3) by (simp add: normalised_tempo_id_str_def clean_id_def)
  have "seen = None \<and> cs \<noteq> [] \<or> seen = Some i \<Longrightarrow> \<forall>b\<in>set cs. bk_tempo b = Some i \<Longrightarrow> classify_loop seen cs = SharedId i" for seen cs
    by (induction cs arbitrary: seen) (auto simp: n)
  with assms(1,2) show ?thesis by (simp add: classify_group_def)
qed

lemma fetch_ids_frame:
  assumes "line_frame (day, issue) db db'" "ids_ok db"
  shows "bk_id ` set (fetch_blocks_for_issue db' day issue) \<subseteq> bk_id ` set (fetch_blocks_for_issue db day issue)"
  using fetch_blocks_ids[OF assms] by blast

lemma aggregated_synced:
  assumes "sync_group_aggregated te net dry (day, issue) iid all el ex st = (res, st')" "sy_synced st < sy_synced st'"
    "ids_ok (td_db (sy_td st))" "all = fetch_blocks_for_issue (td_db (sy_td st)) day issue" "pred_option clean_id ex"
  shows "\<exists>i. clean_id i \<and> (\<forall>b\<in>set (fetch_blocks_for_issue (td_db (sy_td st')) day issue). bk_tempo b = Some i \<and> \<not> bk_dirty b)"
  using assms(1)
proof (cases rule: aggregated_cases)
  case quiet
  with assms(2) show ?thesis by simp
next
  case (sent line pay r st3)
  note f = local_step_frame[OF sent(6)]
  have "members (day, issue) (td_db (sy_td st3)) all"
    by (rule members_frame[OF f]) (simp add: assms(4) fetch_blocks_members[OF assms(3)])
  moreover have "sy_synced st3 < sy_synced st'" using sent(7) assms(2) by simp
  ultimately show ?thesis
    using on_reply_synced[OF sent(9) _ ids_ok_frame[OF f assms(3)] _ _ assms(5)] fetch_ids_frame[OF f assms(3)] assms(4)
    by blast
qed

lemma group_synced:
  assumes "sync_group te net dry day (Some issue) el st = (res, st')" "sy_synced st < sy_synced st'"
    "ids_ok (td_db (sy_td st))" "classify_group (fetch_blocks_for_issue (td_db (sy_td st)) day issue) \<noteq> MixedLegacy"
  shows "\<exists>i. clean_id i \<and> (\<forall>b\<in>set (fetch_blocks_for_issue (td_db (sy_td st')) day issue). bk_tempo b = Some i \<and> \<not> bk_dirty b)"
proof -
  let ?grp = "fetch_blocks_for_issue (td_db (sy_td st)) day issue"
  obtain iid td where r: "resolve_issue_id net issue (sy_td st) = (iid, td)" by fastforce
  have td: "td_db td = td_db (sy_td st)" by (rule resolve_issue_db[OF r])
  show ?thesis
  proof (cases iid)
    case None
    with assms(1,2) r show ?thesis by (auto simp: sync_group_def add_results_def)
  next
    case (Some i)
    have agg: ?thesis if "sync_group_aggregated te net dry (day, issue) i ?grp el ex (st\<lparr>sy_td := td\<rparr>) = (res, st')" "pred_option clean_id ex" for ex
      using aggregated_synced[OF that(1)] that(2) assms(2,3) td by simp
    show ?thesis
    proof (cases "classify_group ?grp")
      case AllUnsynced
      with assms(1) r Some show ?thesis by (intro agg[of None]) (simp_all add: sync_group_def)
    next
      case (SharedId x)
      with assms(1) r Some classify_clean[OF SharedId] show ?thesis by (intro agg[of "Some x"]) (simp_all add: sync_group_def)
    next
      case MixedLegacy
      with assms(4) show ?thesis by simp
    qed
  qed
qed

definition is_put_to :: "string \<Rightarrow> request \<Rightarrow> bool" where
  "is_put_to i r = (case r of Put j p \<Rightarrow> j = i | Post p \<Rightarrow> False)"

text \<open>The blocks of a line that went through all carry one worklog, and none of them is waiting for a
  sync. A later sync of the line can only update that worklog.\<close>

lemma second_sync_updates:
  assumes "sync_group te net dry day (Some issue) el st = (res, st')" "sy_synced st < sy_synced st'"
    "ids_ok (td_db (sy_td st))" "classify_group (fetch_blocks_for_issue (td_db (sy_td st)) day issue) \<noteq> MixedLegacy"
    "fetch_blocks_for_issue (td_db (sy_td st')) day issue \<noteq> []"
  shows "\<exists>i. classify_group (fetch_blocks_for_issue (td_db (sy_td st')) day issue) = SharedId i \<and>
    list_all (\<lambda>b. bk_tempo b = Some i \<and> \<not> needs_sync b) (fetch_blocks_for_issue (td_db (sy_td st')) day issue) \<and>
    (\<forall>r. group_request (fetch_blocks_for_issue (td_db (sy_td st')) day issue) r \<longrightarrow> is_put_to i r)"
proof -
  from group_synced[OF assms(1-4)] obtain i where i: "clean_id i"
    and b: "\<forall>b\<in>set (fetch_blocks_for_issue (td_db (sy_td st')) day issue). bk_tempo b = Some i \<and> \<not> bk_dirty b" by blast
  let ?grp = "fetch_blocks_for_issue (td_db (sy_td st')) day issue"
  have c: "classify_group ?grp = SharedId i" using b by (intro classify_shared[OF assms(5) _ i]) simp
  have "is_put_to i r" if "group_request ?grp r" for r
    using that b c i
    by (cases r) (auto simp: group_request_def is_put_to_def list_ex_iff normalised_tempo_id_str_def clean_id_def)
  moreover have "list_all (\<lambda>b. bk_tempo b = Some i \<and> \<not> needs_sync b) ?grp"
    using b i by (auto simp: list_all_iff needs_sync_def clean_id_def)
  ultimately show ?thesis using c by blast
qed

end
