(* ===== verification/Recap.thy ===== *)
theory Recap
  imports Timeline Tz Decisions TempoLedger
begin

text \<open>
  The recap after the auto-send run (\<open>recap.rs\<close>) with what it is built from: the work-hours window
  (\<open>browser_ingest.rs\<close>), the readiness of a block's ticket (\<open>auto_send.rs\<close>) and the hand-logged block of
  \<open>ticket_log.rs\<close>. chrono's readers and printers of days, weekdays and times are the record \<open>calendar\<close>.
\<close>

section \<open>State\<close>

record calendar =
  cal_weekday :: "string \<Rightarrow> nat option"
  cal_hm :: "string \<Rightarrow> int option"
  cal_show_hm :: "int \<Rightarrow> string"
  cal_date :: "string \<Rightarrow> naive_date option"
  cal_show :: "naive_date \<Rightarrow> string"
  cal_iso :: "int \<Rightarrow> string"

record send_env =
  ae_te :: tempo_env
  ae_codec :: json_codec
  ae_cal :: calendar
  ae_offset :: fixed_offset

record recap_gap =
  rg_started :: string
  rg_ended :: string
  rg_minutes :: int

record recap =
  rp_day :: string
  rp_sent :: "(string \<times> int) list"
  rp_held :: "(string \<times> string) list"
  rp_coverage :: int
  rp_gaps :: "recap_gap list"

text \<open>The tables auto-send and the recap read and write; \<open>ad_sends\<close> is the trace of the send calls.\<close>

record send_db =
  ad_td :: tempo_db
  ad_decisions :: "stored_decision list"
  ad_meta :: "string \<Rightarrow> string option"
  ad_breaks :: "(string \<times> string \<times> string) list"
  ad_recaps :: "string \<Rightarrow> recap option"
  ad_sends :: "tempo_key list"

definition meta_get :: "send_db \<Rightarrow> string \<Rightarrow> string option" where
  "meta_get ad key = ad_meta ad key"

definition meta_set :: "string \<Rightarrow> string \<Rightarrow> send_db \<Rightarrow> send_db" where
  "meta_set key v ad = ad\<lparr>ad_meta := (ad_meta ad)(key \<mapsto> v)\<rparr>"

section \<open>Work hours\<close>

record work_hours =
  wh_start_day :: nat
  wh_end_day :: nat
  wh_start :: int
  wh_end :: int

datatype hours_fault = NoSpace | NoDayRange string | UnknownDay string | NoTimeRange string | BadTime string

definition parse_work_hours :: "calendar \<Rightarrow> string \<Rightarrow> hours_fault + work_hours" where
  "parse_work_hours cal s =
     and_then (ok_or NoSpace (split_once (CHR '' '') (trim s))) (\<lambda>(days, times).
     and_then (ok_or (NoDayRange days) (split_once (CHR ''-'') days)) (\<lambda>(start_day, end_day).
     and_then (ok_or (UnknownDay start_day) (cal_weekday cal start_day)) (\<lambda>sd.
     and_then (ok_or (UnknownDay end_day) (cal_weekday cal end_day)) (\<lambda>ed.
     and_then (ok_or (NoTimeRange times) (split_once (CHR ''-'') times)) (\<lambda>(start_time, end_time).
     and_then (ok_or (BadTime start_time) (cal_hm cal start_time)) (\<lambda>st.
     and_then (ok_or (BadTime end_time) (cal_hm cal end_time)) (\<lambda>et.
       Inr \<lparr>wh_start_day = sd, wh_end_day = ed, wh_start = st, wh_end = et\<rparr>)))))))"

definition day_in_range :: "nat \<Rightarrow> nat \<Rightarrow> nat \<Rightarrow> bool" where
  "day_in_range s e d = (if s \<le> e then s \<le> d \<and> d \<le> e else s \<le> d \<or> d \<le> e)"

text \<open>Days from Monday; 1970-01-01 is a Thursday.\<close>

definition weekday :: "naive_date \<Rightarrow> nat" where
  "weekday d = nat ((d + 3) mod 7)"

definition hours_contain :: "work_hours \<Rightarrow> instant \<Rightarrow> fixed_offset \<Rightarrow> bool" where
  "hours_contain wh ts off =
     (let time = (ts + seconds off) mod DAY_NS
      in day_in_range (wh_start_day wh) (wh_end_day wh) (weekday (local_date off ts))
         \<and> seconds (wh_start wh) \<le> time \<and> time < seconds (wh_end wh))"

definition auto_stop_at :: "work_hours \<Rightarrow> instant \<Rightarrow> fixed_offset \<Rightarrow> instant" where
  "auto_stop_at wh now off = (local_date off now + 1) * DAY_NS + seconds (wh_end wh) - seconds off"

text \<open>The window of a day, in seconds since the epoch.\<close>

definition window_at :: "calendar \<Rightarrow> fixed_offset \<Rightarrow> naive_date \<Rightarrow> string \<Rightarrow> int option" where
  "window_at cal off date t = map_option (\<lambda>time. date * 86400 + time - off) (cal_hm cal t)"

definition window :: "calendar \<Rightarrow> fixed_offset \<Rightarrow> string \<Rightarrow> string \<Rightarrow> (int \<times> int) option" where
  "window cal off day hours =
     (case parse_work_hours cal hours of
        Inl _ \<Rightarrow> None
      | Inr wh \<Rightarrow>
          Option.bind (split_once (CHR '' '') (trim hours)) (\<lambda>(_, times).
          Option.bind (split_once (CHR ''-'') times) (\<lambda>(start_time, end_time).
          Option.bind (cal_date cal day) (\<lambda>date.
          Option.bind (window_at cal off date start_time) (\<lambda>start.
          Option.bind (window_at cal off date end_time) (\<lambda>stop.
            if start < stop \<and> hours_contain wh (from_timestamp start) off then Some (start, stop) else None))))))"

definition clip :: "seconds_range \<Rightarrow> seconds_range \<Rightarrow> seconds_range option" where
  "clip r w = (let s = max (fst r) (fst w); e = min (snd r) (snd w) in if s < e then Some (s, e) else None)"

section \<open>Sent and held back\<close>

definition block_ready :: "json_codec \<Rightarrow> stored_decision list \<Rightarrow> block \<Rightarrow> string \<Rightarrow> bad_column + bool" where
  "block_ready jc decisions b issue =
     (case bk_origin b of
        Some Manual \<Rightarrow> Inr True
      | Some Event \<Rightarrow> Inr True
      | Some Auto \<Rightarrow>
          and_then (latest_for jc Ticket (show_int (bk_id b)) decisions) (\<lambda>d.
            Inr (case d of None \<Rightarrow> False | Some d \<Rightarrow> dr_source d = Verdict \<and> dr_chosen d = Some issue))
      | None \<Rightarrow> Inr False)"

definition line_blocks :: "send_db \<Rightarrow> tempo_line \<Rightarrow> block list" where
  "line_blocks ad line = blocks_for_ticket (td_db (ad_td ad)) (ln_day line, ln_issue line)"

text \<open>The loop over the blocks that leaves at the first one not ready.\<close>

fun first_unready :: "json_codec \<Rightarrow> stored_decision list \<Rightarrow> string \<Rightarrow> block list \<Rightarrow> bad_column + bool" where
  "first_unready jc decisions issue [] = Inr False"
| "first_unready jc decisions issue (b # bs) =
     and_then (block_ready jc decisions b issue) (\<lambda>ready. if \<not> ready then Inr True else first_unready jc decisions issue bs)"

definition held_reason :: "send_env \<Rightarrow> send_db \<Rightarrow> tempo_line \<Rightarrow> string option \<Rightarrow> bad_column + string option" where
  "held_reason ae ad line err =
     (if err \<noteq> None then Inr err
      else if is_already (ae_te ae) (ad_td ad) line then Inr (Some ''already in Tempo'')
      else let blocks = line_blocks ad line;
               unsent = list_ex needs_sync blocks
           in if \<not> unsent \<or> ln_effective line = 0 then Inr None
              else if ln_text line = None then Inr (Some ''no text'')
              else let own_text = (ln_manual line = Some True)
                   in if \<not> own_text \<and> ln_check line \<noteq> Some CheckPassed then Inr (Some ''text needs a look'')
                      else and_then (first_unready (ae_codec ae) (ad_decisions ad) (ln_issue line) blocks) (\<lambda>unready.
                             Inr (Some (if unready then ''ticket not confirmed'' else ''not sent''))))"

definition outcome_of :: "send_db \<Rightarrow> tempo_key \<Rightarrow> string option \<times> string option" where
  "outcome_of ad key =
     (case td_rows (ad_td ad) key of None \<Rightarrow> (None, None) | Some r \<Rightarrow> (lr_auto_sent r, lr_send_error r))"

fun sent_and_held ::
    "send_env \<Rightarrow> send_db \<Rightarrow> tempo_line list \<Rightarrow> bad_column + (string \<times> int) list \<times> (string \<times> string) list" where
  "sent_and_held ae ad [] = Inr ([], [])"
| "sent_and_held ae ad (line # rest) =
     (let (sent_at, err) = outcome_of ad (ln_day line, ln_issue line)
      in if sent_at \<noteq> None \<and> err = None
         then and_then (sent_and_held ae ad rest) (\<lambda>(sent, held). Inr ((ln_issue line, ln_effective line) # sent, held))
         else and_then (held_reason ae ad line err) (\<lambda>reason.
                and_then (sent_and_held ae ad rest) (\<lambda>(sent, held).
                  Inr (sent, case reason of Some r \<Rightarrow> (ln_issue line, r) # held | None \<Rightarrow> held))))"

section \<open>Coverage and gaps\<close>

definition RECAP_MIN_GAP_SECONDS :: int where "RECAP_MIN_GAP_SECONDS = 900"
definition RECAP_TOP_GAPS :: nat where "RECAP_TOP_GAPS = 3"

definition breaks :: "send_env \<Rightarrow> send_db \<Rightarrow> string \<Rightarrow> seconds_range list" where
  "breaks ae ad day =
     List.map_filter (\<lambda>(_, s, e).
         Option.bind (from_rfc3339 (te_clock (ae_te ae)) s) (\<lambda>s.
           map_option (\<lambda>e. (timestamp s, timestamp e)) (from_rfc3339 (te_clock (ae_te ae)) e)))
       (filter (\<lambda>b. fst b = day) (ad_breaks ad))"

definition covered :: "send_env \<Rightarrow> send_db \<Rightarrow> string \<Rightarrow> int \<times> int \<Rightarrow> seconds_range list" where
  "covered ae ad day win =
     List.map_filter (\<lambda>b. clip (block_interval (te_clock (ae_te ae)) b) win)
       (filter (\<lambda>b. bk_ignored b = None) (list_blocks_for_day (td_db (ad_td ad)) day))"

text \<open>\<open>f64 as u32\<close> saturates.\<close>

definition coverage_percent :: "seconds_range list \<Rightarrow> int \<times> int \<Rightarrow> int" where
  "coverage_percent cover win =
     max 0 (min (2 ^ 32 - 1)
       (f64_round (f64_mul (f64_div (f64_of_int (union_seconds cover)) (f64_of_int (snd win - fst win))) 100)))"

definition occupied :: "send_env \<Rightarrow> send_db \<Rightarrow> string \<Rightarrow> int \<times> int \<Rightarrow> seconds_range list" where
  "occupied ae ad day win =
     covered ae ad day win @ List.map_filter (\<lambda>b. clip b win) (breaks ae ad day) @ [(fst win, fst win), (snd win, snd win)]"

definition all_gaps :: "seconds_range list \<Rightarrow> seconds_range list" where
  "all_gaps occ =
     map (\<lambda>(s, e). (timestamp s, timestamp e))
       (day_gaps (map (\<lambda>(s, e). (from_timestamp s, from_timestamp e)) occ) (seconds RECAP_MIN_GAP_SECONDS))"

definition top_gaps :: "seconds_range list \<Rightarrow> seconds_range list" where
  "top_gaps gaps = take RECAP_TOP_GAPS (sort_key (\<lambda>(s, e). (- (e - s), s)) gaps)"

definition gap_entry :: "calendar \<Rightarrow> seconds_range \<Rightarrow> recap_gap" where
  "gap_entry cal g =
     \<lparr>rg_started = cal_iso cal (fst g), rg_ended = cal_iso cal (snd g), rg_minutes = (snd g - fst g) div 60\<rparr>"

definition build_recap :: "send_env \<Rightarrow> send_db \<Rightarrow> string \<Rightarrow> string \<Rightarrow> bad_column + recap option" where
  "build_recap ae ad day hours =
     (case window (ae_cal ae) (ae_offset ae) day hours of
        None \<Rightarrow> Inr None
      | Some win \<Rightarrow>
          and_then (sent_and_held ae ad (lines_for_day (ae_te ae) (ad_td ad) day)) (\<lambda>(sent, held).
            Inr (Some \<lparr>rp_day = day, rp_sent = sent, rp_held = held,
              rp_coverage = coverage_percent (covered ae ad day win) win,
              rp_gaps = map (gap_entry (ae_cal ae)) (top_gaps (all_gaps (occupied ae ad day win)))\<rparr>)))"

definition build_and_store :: "send_env \<Rightarrow> string \<Rightarrow> string \<Rightarrow> send_db \<Rightarrow> (bad_column + unit) \<times> send_db" where
  "build_and_store ae day hours ad =
     (case build_recap ae ad day hours of
        Inl e \<Rightarrow> (Inl e, ad)
      | Inr None \<Rightarrow> (Inr (), ad)
      | Inr (Some r) \<Rightarrow> (Inr (), ad\<lparr>ad_recaps := (ad_recaps ad)(day \<mapsto> r)\<rparr>))"

section \<open>Logging time by hand\<close>

definition MAX_MINUTES :: int where "MAX_MINUTES = 720"
definition MAX_DESCRIPTION_CHARS :: nat where "MAX_DESCRIPTION_CHARS = 500"

record log_time_body =
  lt_day :: string
  lt_start :: string
  lt_minutes :: int
  lt_description :: string

datatype log_fault =
    NotADay string
  | InFuture string
  | NotAStart string
  | BadMinutes
  | NoDescription
  | LongDescription nat
  | LogCompressed string

definition day_is_compressed :: "block_db \<Rightarrow> string \<Rightarrow> bool" where
  "day_is_compressed db day = list_ex (\<lambda>b. bk_day b = day \<and> db_digests db (bk_id b) \<noteq> None) (all_blocks db)"

text \<open>The columns an \<open>INSERT INTO blocks\<close> leaves out take their defaults.\<close>

definition blank_block :: "int \<Rightarrow> string \<Rightarrow> string \<Rightarrow> string \<Rightarrow> int \<Rightarrow> block" where
  "blank_block i day started_at ended_at secs =
     \<lparr>bk_id = i, bk_day = day, bk_jira = None, bk_start = started_at, bk_end = ended_at, bk_secs = secs, bk_desc = None,
      bk_by = Some ''manual'', bk_flagged = False, bk_tempo = None, bk_personal = False, bk_dirty = False,
      bk_exported = None, bk_ignored = None, bk_reason = None, bk_dsecs = None, bk_origin = None, bk_note = None,
      bk_desc_origin = None\<rparr>"

definition log_time :: "send_env \<Rightarrow> string \<Rightarrow> log_time_body \<Rightarrow> naive_date \<Rightarrow> block_db \<Rightarrow> (log_fault + block) \<times> block_db" where
  "log_time ae key body today db =
     (case cal_date (ae_cal ae) (lt_day body) of
        None \<Rightarrow> (Inl (NotADay (lt_day body)), db)
      | Some day \<Rightarrow>
          if today < day then (Inl (InFuture (cal_show (ae_cal ae) day)), db)
          else (case cal_hm (ae_cal ae) (lt_start body) of
                  None \<Rightarrow> (Inl (NotAStart (lt_start body)), db)
                | Some start \<Rightarrow>
                    if \<not> (1 \<le> lt_minutes body \<and> lt_minutes body \<le> MAX_MINUTES) then (Inl BadMinutes, db)
                    else (let description = trim (lt_description body);
                              n = char_count description;
                              day_iso = cal_show (ae_cal ae) day
                          in if n = 0 then (Inl NoDescription, db)
                             else if MAX_DESCRIPTION_CHARS < n then (Inl (LongDescription n), db)
                             else if day_is_compressed db day_iso then (Inl (LogCompressed day_iso), db)
                             else (let started = from_timestamp (day * 86400 + start - ae_offset ae);
                                       ended = started + minutes (lt_minutes body);
                                       iso = to_rfc3339 (te_clock (ae_te ae));
                                       b = (blank_block (db_next db) day_iso (iso started) (iso ended) (lt_minutes body * 60))
                                             \<lparr>bk_jira := Some key, bk_desc := Some description, bk_origin := Some Manual,
                                              bk_dsecs := Some (lt_minutes body * 60)\<rparr>
                                   in (Inr b, insert_block b db)))))"

section \<open>Resolving a gap\<close>

datatype gap_action = GapPersonal | GapBreak | PickTicket string

datatype gap_fault = NoRecap string | NoGap string | BadGapTime | LogFault log_fault | RecapFault bad_column

definition with_blocks :: "(block_db \<Rightarrow> block_db) \<Rightarrow> send_db \<Rightarrow> send_db" where
  "with_blocks f ad = ad\<lparr>ad_td := (ad_td ad)\<lparr>td_db := f (td_db (ad_td ad))\<rparr>\<rparr>"

definition replace_break :: "string \<times> string \<times> string \<Rightarrow> send_db \<Rightarrow> send_db" where
  "replace_break b ad =
     ad\<lparr>ad_breaks := filter (\<lambda>x. \<not> (fst x = fst b \<and> fst (snd x) = fst (snd b))) (ad_breaks ad) @ [b]\<rparr>"

definition do_gap :: "send_env \<Rightarrow> string \<Rightarrow> recap_gap \<Rightarrow> instant \<Rightarrow> instant \<Rightarrow> gap_action \<Rightarrow> send_db \<Rightarrow> (gap_fault + unit) \<times> send_db" where
  "do_gap ae day gap start stop action ad =
     (case action of
        GapPersonal \<Rightarrow>
          (Inr (), with_blocks (\<lambda>db. insert_block
             ((blank_block (db_next db) day (to_rfc3339 (te_clock (ae_te ae)) start) (to_rfc3339 (te_clock (ae_te ae)) stop)
                (num_seconds (stop - start)))\<lparr>bk_personal := True\<rparr>) db) ad)
      | GapBreak \<Rightarrow> (Inr (), replace_break (day, rg_started gap, rg_ended gap) ad)
      | PickTicket issue \<Rightarrow>
          (case cal_date (ae_cal ae) day of
             None \<Rightarrow> (Inl BadGapTime, ad)
           | Some today \<Rightarrow>
               (let body = \<lparr>lt_day = day,
                      lt_start = cal_show_hm (ae_cal ae) (((start + seconds (ae_offset ae)) mod DAY_NS) div NS),
                      lt_minutes = rg_minutes gap, lt_description = ''Time added from the 17:00 recap''\<rparr>
                in case log_time ae issue body today (td_db (ad_td ad)) of
                     (Inl e, _) \<Rightarrow> (Inl (LogFault e), ad)
                   | (Inr _, db) \<Rightarrow> (Inr (), with_blocks (\<lambda>_. db) ad))))"

definition apply_gap_with ::
    "send_env \<Rightarrow> string \<Rightarrow> string \<Rightarrow> gap_action \<Rightarrow> string \<Rightarrow> send_db \<Rightarrow> (gap_fault + unit) \<times> send_db" where
  "apply_gap_with ae day gap_started_at action hours ad =
     (case ad_recaps ad day of
        None \<Rightarrow> (Inl (NoRecap day), ad)
      | Some r \<Rightarrow>
          (case find (\<lambda>g. rg_started g = gap_started_at) (rp_gaps r) of
             None \<Rightarrow> (Inl (NoGap gap_started_at), ad)
           | Some gap \<Rightarrow>
               (case (from_rfc3339 (te_clock (ae_te ae)) (rg_started gap), from_rfc3339 (te_clock (ae_te ae)) (rg_ended gap)) of
                  (Some start, Some stop) \<Rightarrow>
                    (case do_gap ae day gap start stop action ad of
                       (Inl e, ad) \<Rightarrow> (Inl e, ad)
                     | (Inr _, ad) \<Rightarrow>
                         (case build_and_store ae day hours ad of
                            (Inl e, ad) \<Rightarrow> (Inl (RecapFault e), ad)
                          | (Inr _, ad) \<Rightarrow> (Inr (), ad)))
                | _ \<Rightarrow> (Inl BadGapTime, ad))))"

section \<open>The coverage is a percentage\<close>

lemma clip_Some: "clip r w = Some c \<longleftrightarrow> c = (max (fst r) (fst w), min (snd r) (snd w)) \<and> fst c < snd c"
  by (auto simp: clip_def Let_def)

lemma clip_inside: "clip r w = Some c \<Longrightarrow> fst w \<le> fst c \<and> fst c < snd c \<and> snd c \<le> snd w"
  by (auto simp: clip_Some)

lemma covered_inside: "c \<in> set (covered ae ad day win) \<Longrightarrow> fst win \<le> fst c \<and> fst c < snd c \<and> snd c \<le> snd win"
proof -
  assume "c \<in> set (covered ae ad day win)"
  then have "\<exists>b. clip (block_interval (te_clock (ae_te ae)) b) win = Some c" by (auto simp: covered_def map_filter_def)
  then show ?thesis using clip_inside by blast
qed

lemma window_Some: "window cal off day hours = Some win \<Longrightarrow> fst win < snd win"
  by (auto simp: window_def bind_eq_Some_conv split: sum.splits if_splits)

lemma union_inside:
  assumes "\<And>c. c \<in> set cs \<Longrightarrow> fst w \<le> fst c \<and> fst c < snd c \<and> snd c \<le> snd w" "fst w < snd w"
  shows "0 \<le> union_seconds cs \<and> union_seconds cs \<le> snd w - fst w"
proof -
  have "list_all forward_range cs" using assms(1) by (force simp: list_all_iff forward_range_def)
  from union_seconds_card[OF this] have u: "union_seconds cs = int (card (\<Union>r\<in>set cs. range_set r))" .
  have "(\<Union>r\<in>set cs. range_set r) \<subseteq> {fst w..<snd w}" using assms(1) by (force simp: range_set_def)
  then have "card (\<Union>r\<in>set cs. range_set r) \<le> card {fst w..<snd w}" by (rule card_mono[rotated]) simp
  with u assms(2) show ?thesis by simp
qed

lemma percent_bounds:
  assumes "0 \<le> a" "a \<le> b" "0 < b" "b < 2 ^ 52"
  shows "0 \<le> f64_round (f64_mul (f64_div (f64_of_int a) (f64_of_int b)) 100)"
    and "f64_round (f64_mul (f64_div (f64_of_int a) (f64_of_int b)) 100) \<le> 100"
proof -
  let ?q = "f64_div (f64_of_int a) (f64_of_int b)"
  have ab: "f64_of_int a = of_int a" "f64_of_int b = of_int b" using assms by (simp_all add: f64_of_int_exact)
  have q: "0 \<le> (of_int a :: rat) / of_int b" "(of_int a :: rat) / of_int b \<le> of_int 1" using assms by simp_all
  have q0: "0 \<le> ?q" unfolding f64_div_def ab by (rule fl_nonneg[OF q(1)])
  have q1: "?q \<le> 1" unfolding f64_div_def ab using fl_le_int[OF q] by simp
  have p0: "0 \<le> f64_mul ?q 100" unfolding f64_mul_def using q0 by (intro fl_nonneg) simp
  have p1: "f64_mul ?q 100 \<le> of_int 100" unfolding f64_mul_def using q0 q1 by (intro fl_le_int) simp_all
  from p0 show "0 \<le> f64_round (f64_mul ?q 100)" by (simp add: f64_round_def)
  have "\<lfloor>f64_mul ?q 100 + 1 / 2\<rfloor> \<le> 100" using p1 by (simp add: floor_le_iff)
  with p0 show "f64_round (f64_mul ?q 100) \<le> 100" by (simp add: f64_round_def)
qed

lemma coverage_bounds:
  assumes "window (ae_cal ae) (ae_offset ae) day hours = Some win" "snd win - fst win < 2 ^ 52"
  shows "0 \<le> coverage_percent (covered ae ad day win) win \<and> coverage_percent (covered ae ad day win) win \<le> 100"
proof -
  have w: "fst win < snd win" using window_Some[OF assms(1)] .
  have u: "0 \<le> union_seconds (covered ae ad day win) \<and> union_seconds (covered ae ad day win) \<le> snd win - fst win"
    by (rule union_inside[OF covered_inside w])
  have b: "0 < snd win - fst win" using w by simp
  from percent_bounds[OF conjunct1[OF u] conjunct2[OF u] b assms(2)] show ?thesis
    unfolding coverage_percent_def by simp
qed

text \<open>A window is a stretch of one local day, so its length is far below the exact range.\<close>

definition hm_ok :: "calendar \<Rightarrow> bool" where
  "hm_ok cal = (\<forall>s t. cal_hm cal s = Some t \<longrightarrow> 0 \<le> t \<and> t < 86400)"

lemma window_short:
  assumes "hm_ok cal" "window cal off day hours = Some win"
  shows "snd win - fst win < 86400"
proof -
  from assms(2) obtain s1 s2 t1 t2 date where "cal_hm cal s1 = Some t1" "cal_hm cal s2 = Some t2"
      "win = (date * 86400 + t1 - off, date * 86400 + t2 - off)"
    by (auto simp: window_def window_at_def bind_eq_Some_conv split: sum.splits if_splits)
  moreover have "0 \<le> t1" "t2 < 86400" using assms(1) calculation(1,2) unfolding hm_ok_def by blast+
  ultimately show ?thesis by simp
qed

section \<open>The gaps of the recap\<close>

lemma occupied_forward:
  assumes "r \<in> set (occupied ae ad day win)" "fst win < snd win"
  shows "fst win \<le> fst r \<and> fst r \<le> snd r \<and> snd r \<le> snd win"
proof -
  from assms(1) consider "r \<in> set (covered ae ad day win)" | b where "clip b win = Some r" | "r = (fst win, fst win)" | "r = (snd win, snd win)"
    unfolding occupied_def by (auto simp: map_filter_def)
  then show ?thesis
    by cases (use assms(2) covered_inside[of r ae ad day win] clip_inside[of _ win r] in force)+
qed

lemma all_gaps_iff:
  assumes fw: "list_all forward_range occ"
  shows "(s, e) \<in> set (all_gaps occ) \<longleftrightarrow>
     RECAP_MIN_GAP_SECONDS \<le> e - s \<and> (\<exists>b\<in>set occ. snd b = s) \<and> (\<exists>b\<in>set occ. fst b = e)
     \<and> (\<forall>b\<in>set occ. snd b \<le> s \<or> e \<le> fst b)"
proof -
  let ?ns = "map (\<lambda>(s, e). (from_timestamp s, from_timestamp e)) occ"
  have fwn: "list_all forward_range ?ns" using fw by (auto simp: list_all_iff forward_range_def time_defs)
  have mem: "x \<in> set ?ns \<longleftrightarrow> (\<exists>b\<in>set occ. x = (fst b * NS, snd b * NS))" for x
    by (force simp: time_defs case_prod_beta)
  have pos: "0 < seconds RECAP_MIN_GAP_SECONDS" by (simp add: RECAP_MIN_GAP_SECONDS_def time_defs)
  note iff = day_gaps_iff[OF fwn pos]
  have ts: "timestamp (x * NS) = x" for x by (simp add: time_defs)
  have scale: "(x * NS, y * NS) \<in> set (day_gaps ?ns (seconds RECAP_MIN_GAP_SECONDS)) \<longleftrightarrow>
     RECAP_MIN_GAP_SECONDS \<le> y - x \<and> (\<exists>b\<in>set occ. snd b = x) \<and> (\<exists>b\<in>set occ. fst b = y)
     \<and> (\<forall>b\<in>set occ. snd b \<le> x \<or> y \<le> fst b)" for x y
  proof -
    have NS: "0 < NS" by (simp add: NS_def)
    have "seconds RECAP_MIN_GAP_SECONDS \<le> y * NS - x * NS \<longleftrightarrow> RECAP_MIN_GAP_SECONDS \<le> y - x"
      using NS mult_le_cancel_right_pos[OF NS, of RECAP_MIN_GAP_SECONDS "y - x"] by (simp add: seconds_def left_diff_distrib)
    moreover have "(\<exists>b\<in>set ?ns. snd b = x * NS) \<longleftrightarrow> (\<exists>b\<in>set occ. snd b = x)"
      using NS unfolding Bex_def mem by force
    moreover have "(\<exists>b\<in>set ?ns. fst b = y * NS) \<longleftrightarrow> (\<exists>b\<in>set occ. fst b = y)"
      using NS unfolding Bex_def mem by force
    moreover have "(\<forall>b\<in>set ?ns. snd b \<le> x * NS \<or> y * NS \<le> fst b) \<longleftrightarrow> (\<forall>b\<in>set occ. snd b \<le> x \<or> y \<le> fst b)"
      using NS unfolding Ball_def mem by force
    ultimately show ?thesis unfolding iff by simp
  qed
  show ?thesis
  proof
    assume "(s, e) \<in> set (all_gaps occ)"
    then obtain a b where g: "(a, b) \<in> set (day_gaps ?ns (seconds RECAP_MIN_GAP_SECONDS))" "s = timestamp a" "e = timestamp b"
      unfolding all_gaps_def by auto
    from g(1)[unfolded iff] obtain x y where "x \<in> set ?ns" "snd x = a" "y \<in> set ?ns" "fst y = b" by blast
    then have "\<exists>u. a = u * NS" "\<exists>v. b = v * NS" unfolding mem by auto
    then obtain u v where ab: "a = u * NS" "b = v * NS" by (elim exE)
    with g(1) have "(u * NS, v * NS) \<in> set (day_gaps ?ns (seconds RECAP_MIN_GAP_SECONDS))" by simp
    from this[unfolded scale] show "RECAP_MIN_GAP_SECONDS \<le> e - s \<and> (\<exists>b\<in>set occ. snd b = s) \<and> (\<exists>b\<in>set occ. fst b = e)
        \<and> (\<forall>b\<in>set occ. snd b \<le> s \<or> e \<le> fst b)"
      unfolding g(2,3) ab ts .
  next
    assume "RECAP_MIN_GAP_SECONDS \<le> e - s \<and> (\<exists>b\<in>set occ. snd b = s) \<and> (\<exists>b\<in>set occ. fst b = e)
        \<and> (\<forall>b\<in>set occ. snd b \<le> s \<or> e \<le> fst b)"
    then have "(s * NS, e * NS) \<in> set (day_gaps ?ns (seconds RECAP_MIN_GAP_SECONDS))" unfolding scale .
    then have "(timestamp (s * NS), timestamp (e * NS)) \<in> set (all_gaps occ)"
      unfolding all_gaps_def set_map by (rule rev_image_eqI) simp
    then show "(s, e) \<in> set (all_gaps occ)" unfolding ts .
  qed
qed

lemma top_gaps_longest:
  assumes "g \<in> set (top_gaps gaps)" "h \<in> set gaps" "h \<notin> set (top_gaps gaps)"
  shows "snd h - fst h \<le> snd g - fst g"
proof -
  let ?k = "\<lambda>(s :: int, e :: int). (- (e - s), s)"
  let ?sorted = "sort_key ?k gaps"
  have sd: "sorted (map ?k (take RECAP_TOP_GAPS ?sorted @ drop RECAP_TOP_GAPS ?sorted))"
    unfolding append_take_drop_id by (rule sorted_sort_key)
  have "h \<in> set (take RECAP_TOP_GAPS ?sorted @ drop RECAP_TOP_GAPS ?sorted)"
    unfolding append_take_drop_id using assms(2) by simp
  then have h: "h \<in> set (drop RECAP_TOP_GAPS ?sorted)" using assms(3) unfolding set_append top_gaps_def by blast
  have g: "g \<in> set (take RECAP_TOP_GAPS ?sorted)" using assms(1) by (simp add: top_gaps_def)
  from sd g h have "?k g \<le> ?k h" unfolding map_append sorted_append by auto
  then show ?thesis by (auto simp: case_prod_beta)
qed

lemma top_gaps_subset: "g \<in> set (top_gaps gaps) \<Longrightarrow> g \<in> set gaps"
  unfolding top_gaps_def by (drule in_set_takeD) simp

lemma top_gaps_three: "length (top_gaps gaps) \<le> 3"
  by (simp add: top_gaps_def RECAP_TOP_GAPS_def)

text \<open>What stands in a gap's way: a block that is not ignored, or a break.\<close>

definition in_the_way :: "send_env \<Rightarrow> send_db \<Rightarrow> string \<Rightarrow> seconds_range \<Rightarrow> bool" where
  "in_the_way ae ad day r =
     ((\<exists>b\<in>set (list_blocks_for_day (td_db (ad_td ad)) day). bk_ignored b = None \<and> block_interval (te_clock (ae_te ae)) b = r)
      \<or> r \<in> set (breaks ae ad day))"

lemma occupied_iff:
  "c \<in> set (occupied ae ad day win) \<longleftrightarrow>
     c = (fst win, fst win) \<or> c = (snd win, snd win) \<or> (\<exists>r. in_the_way ae ad day r \<and> clip r win = Some c)"
proof -
  have "c \<in> set (occupied ae ad day win) \<longleftrightarrow>
     (\<exists>b\<in>set (list_blocks_for_day (td_db (ad_td ad)) day). bk_ignored b = None \<and> clip (block_interval (te_clock (ae_te ae)) b) win = Some c)
     \<or> (\<exists>r\<in>set (breaks ae ad day). clip r win = Some c) \<or> c = (fst win, fst win) \<or> c = (snd win, snd win)"
    unfolding occupied_def covered_def set_append Un_iff set_map_filter_iff by auto
  then show ?thesis unfolding in_the_way_def by blast
qed

lemma occupied_in_the_way:
  "in_the_way ae ad day r \<Longrightarrow> clip r win = Some c \<Longrightarrow> c \<in> set (occupied ae ad day win)"
  unfolding occupied_iff by blast

lemma recap_gap_sound:
  assumes win: "fst win < snd win" and g: "(s, e) \<in> set (all_gaps (occupied ae ad day win))"
  shows "900 \<le> e - s \<and> fst win \<le> s \<and> e \<le> snd win"
    and "in_the_way ae ad day r \<Longrightarrow> fst r < snd r \<Longrightarrow> snd r \<le> s \<or> e \<le> fst r"
proof -
  note occ = occupied_forward[OF _ win, of _ ae ad day]
  have fw: "list_all forward_range (occupied ae ad day win)" using occ by (simp add: list_all_iff forward_range_def)
  note gap = g[unfolded all_gaps_iff[OF fw]]
  from gap obtain b c where "b \<in> set (occupied ae ad day win)" "snd b = s" "c \<in> set (occupied ae ad day win)" "fst c = e" by blast
  with occ[of b] occ[of c] gap show bounds: "900 \<le> e - s \<and> fst win \<le> s \<and> e \<le> snd win"
    by (simp add: RECAP_MIN_GAP_SECONDS_def)
  show "snd r \<le> s \<or> e \<le> fst r" if way: "in_the_way ae ad day r" and r: "fst r < snd r"
  proof (cases "clip r win")
    case None
    with r bounds show ?thesis by (auto simp: clip_def Let_def split: if_splits)
  next
    case (Some c)
    from occupied_in_the_way[OF way Some] gap have "snd c \<le> s \<or> e \<le> fst c" by blast
    with Some bounds show ?thesis by (auto simp: clip_Some)
  qed
qed

text \<open>Every stretch of at least 900 free seconds between two edges is a gap.\<close>

lemma recap_gap_complete:
  assumes win: "fst win < snd win" and long: "900 \<le> e - s" and inside: "fst win \<le> s" "e \<le> snd win"
    and free: "\<And>r. in_the_way ae ad day r \<Longrightarrow> fst r < snd r \<Longrightarrow> snd r \<le> s \<or> e \<le> fst r"
    and left: "s = fst win \<or> (\<exists>r. in_the_way ae ad day r \<and> fst r < snd r \<and> snd r = s)"
    and right: "e = snd win \<or> (\<exists>r. in_the_way ae ad day r \<and> fst r < snd r \<and> fst r = e)"
  shows "(s, e) \<in> set (all_gaps (occupied ae ad day win))"
proof -
  note occ = occupied_forward[OF _ win, of _ ae ad day]
  have fw: "list_all forward_range (occupied ae ad day win)" using occ by (simp add: list_all_iff forward_range_def)
  have edges: "(fst win, fst win) \<in> set (occupied ae ad day win)" "(snd win, snd win) \<in> set (occupied ae ad day win)"
    by (simp_all add: occupied_def)
  have l: "\<exists>b\<in>set (occupied ae ad day win). snd b = s"
    using left
  proof
    assume "\<exists>r. in_the_way ae ad day r \<and> fst r < snd r \<and> snd r = s"
    then obtain r where r: "in_the_way ae ad day r" "fst r < snd r" "snd r = s" by blast
    show ?thesis
    proof (cases "fst win < s")
      case True
      with r(2,3) long inside have "clip r win = Some (max (fst r) (fst win), s)" by (auto simp: clip_Some)
      from occupied_in_the_way[OF r(1) this] show ?thesis by force
    next
      case False
      with inside edges(1) show ?thesis by force
    qed
  qed (use edges(1) in force)
  have r: "\<exists>b\<in>set (occupied ae ad day win). fst b = e"
    using right
  proof
    assume "\<exists>r. in_the_way ae ad day r \<and> fst r < snd r \<and> fst r = e"
    then obtain r where r: "in_the_way ae ad day r" "fst r < snd r" "fst r = e" by blast
    show ?thesis
    proof (cases "e < snd win")
      case True
      with r(2,3) long inside have "clip r win = Some (e, min (snd r) (snd win))" by (auto simp: clip_Some)
      from occupied_in_the_way[OF r(1) this] show ?thesis by force
    next
      case False
      with inside edges(2) show ?thesis by force
    qed
  qed (use edges(2) in force)
  have clear: "snd b \<le> s \<or> e \<le> fst b" if b: "b \<in> set (occupied ae ad day win)" for b
  proof -
    from b consider "b = (fst win, fst win)" | "b = (snd win, snd win)"
      | q where "in_the_way ae ad day q" "clip q win = Some b"
      unfolding occupied_iff by blast
    then show ?thesis
    proof cases
      case (3 q)
      then have "fst q < snd q" by (auto simp: clip_Some)
      from free[OF 3(1) this] 3(2) show ?thesis by (auto simp: clip_Some)
    qed (use inside in auto)
  qed
  show ?thesis unfolding all_gaps_iff[OF fw] using long l r clear by (simp add: RECAP_MIN_GAP_SECONDS_def)
qed

lemma recap_gap_left:
  assumes win: "fst win < snd win" and g: "(s, e) \<in> set (all_gaps (occupied ae ad day win))"
  shows "s = fst win \<or> (\<exists>r. in_the_way ae ad day r \<and> fst r < snd r \<and> snd r = s)"
    and "e = snd win \<or> (\<exists>r. in_the_way ae ad day r \<and> fst r < snd r \<and> fst r = e)"
proof -
  have fw: "list_all forward_range (occupied ae ad day win)"
    using occupied_forward[OF _ win] by (auto simp: list_all_iff forward_range_def case_prod_beta)
  from recap_gap_sound(1)[OF win g] have i: "900 \<le> e - s" "fst win \<le> s" "e \<le> snd win" by simp_all
  from all_gaps_iff[OF fw] g obtain a b where a: "a \<in> set (occupied ae ad day win)" "snd a = s"
    and b: "b \<in> set (occupied ae ad day win)" "fst b = e" by blast
  from a i show "s = fst win \<or> (\<exists>r. in_the_way ae ad day r \<and> fst r < snd r \<and> snd r = s)"
    unfolding occupied_iff clip_Some by (force simp: min_def max_def split: if_splits)
  from b i show "e = snd win \<or> (\<exists>r. in_the_way ae ad day r \<and> fst r < snd r \<and> fst r = e)"
    unfolding occupied_iff clip_Some by (force simp: min_def max_def split: if_splits)
qed

lemma recap_gap_iff:
  assumes win: "fst win < snd win"
  shows "(s, e) \<in> set (all_gaps (occupied ae ad day win)) \<longleftrightarrow>
     900 \<le> e - s \<and> fst win \<le> s \<and> e \<le> snd win
     \<and> (\<forall>r. in_the_way ae ad day r \<longrightarrow> fst r < snd r \<longrightarrow> snd r \<le> s \<or> e \<le> fst r)
     \<and> (s = fst win \<or> (\<exists>r. in_the_way ae ad day r \<and> fst r < snd r \<and> snd r = s))
     \<and> (e = snd win \<or> (\<exists>r. in_the_way ae ad day r \<and> fst r < snd r \<and> fst r = e))"
    (is "?gap \<longleftrightarrow> ?hole")
proof
  assume g: ?gap
  from recap_gap_sound[OF win g] recap_gap_left[OF win g] show ?hole by blast
next
  assume h: ?hole
  then show ?gap by (intro recap_gap_complete[OF win]) blast+
qed

section \<open>What resolving a gap may write\<close>

text \<open>At most one new block: personal for a personal gap, on the ticket for a picked ticket, none for a break.\<close>

definition gap_block :: "gap_action \<Rightarrow> block \<Rightarrow> bool" where
  "gap_block action b =
     (case action of
        GapPersonal \<Rightarrow> bk_personal b \<and> bk_jira b = None
      | GapBreak \<Rightarrow> False
      | PickTicket issue \<Rightarrow> \<not> bk_personal b \<and> bk_jira b = Some issue \<and> bk_origin b = Some Manual)"

lemma build_and_store_td: "ad_td (snd (build_and_store ae day hours ad)) = ad_td ad"
  by (simp add: build_and_store_def split: sum.splits option.splits)

lemma log_time_block:
  "log_time ae key body today db = (Inr b, db') \<Longrightarrow> db' = insert_block b db \<and> gap_block (PickTicket key) b"
  by (auto simp: log_time_def Let_def gap_block_def blank_block_def split: option.splits if_splits)

lemma do_gap_blocks:
  assumes "do_gap ae day gap start stop action ad = (res, ad')"
  shows "td_db (ad_td ad') = td_db (ad_td ad) \<or> (\<exists>b. gap_block action b \<and> td_db (ad_td ad') = insert_block b (td_db (ad_td ad)))"
proof (cases action)
  case GapPersonal
  let ?b = "(blank_block (db_next (td_db (ad_td ad))) day (to_rfc3339 (te_clock (ae_te ae)) start)
      (to_rfc3339 (te_clock (ae_te ae)) stop) (num_seconds (stop - start)))\<lparr>bk_personal := True\<rparr>"
  have "td_db (ad_td ad') = insert_block ?b (td_db (ad_td ad))"
    using GapPersonal assms by (auto simp: do_gap_def with_blocks_def)
  moreover have "gap_block GapPersonal ?b" by (simp add: gap_block_def blank_block_def)
  ultimately show ?thesis unfolding GapPersonal by blast
next
  case GapBreak
  with assms show ?thesis by (auto simp: do_gap_def replace_break_def)
next
  case (PickTicket issue)
  with assms show ?thesis
    by (auto simp: do_gap_def with_blocks_def Let_def split: option.splits sum.splits prod.splits dest!: log_time_block)
qed

lemma apply_gap_blocks:
  assumes "apply_gap_with ae day begun action hours ad = (res, ad')"
  shows "td_db (ad_td ad') = td_db (ad_td ad) \<or> (\<exists>b. gap_block action b \<and> td_db (ad_td ad') = insert_block b (td_db (ad_td ad)))"
proof -
  have "ad_td ad' = ad_td ad \<or>
      (\<exists>gap start stop res2 ad2. do_gap ae day gap start stop action ad = (res2, ad2) \<and> ad_td ad' = ad_td ad2)"
    using assms build_and_store_td[of ae day hours]
    unfolding apply_gap_with_def
    by (auto split: option.splits sum.splits prod.splits) (metis snd_conv)+
  then show ?thesis using do_gap_blocks by metis
qed

text \<open>After a break is recorded no gap of the rebuilt recap meets it.\<close>

lemma break_recorded:
  assumes "from_rfc3339 (te_clock (ae_te ae)) (rg_started gap) = Some start"
    and "from_rfc3339 (te_clock (ae_te ae)) (rg_ended gap) = Some stop"
  shows "in_the_way ae (replace_break (day, rg_started gap, rg_ended gap) ad) day (timestamp start, timestamp stop)"
  using assms by (auto simp: in_the_way_def breaks_def replace_break_def set_map_filter_iff)

end
