(* ===== verification/AutoSend.thy ===== *)
theory AutoSend
  imports Recap
begin

text \<open>
  The daily auto-send to Tempo and the Review list (\<open>auto_send.rs\<close>). A tick is given its instant; the plan of
  the day is the text of the \<open>meta\<close> table the code keeps it in. Sending one line is the parameter
  \<open>deliver\<close>, which sees the sends made before it; the locale \<open>line_sender\<close> states the one law the guarantees
  need, and \<open>auto_sync\<close>, the per-ticket Tempo sync the daemon passes in, is its interpretation.
\<close>

section \<open>Ready lines\<close>

definition AUTO_SEND_HOUR :: int where "AUTO_SEND_HOUR = 17"
definition PLAN_KEY :: string where "PLAN_KEY = ''auto_send_plan''"
definition UNREACHABLE :: string where "UNREACHABLE = ''Tempo could not be reached''"
definition ALREADY_IN_TEMPO_REASON :: string where "ALREADY_IN_TEMPO_REASON = ''already in Tempo''"
definition RECAP_KEY :: string where "RECAP_KEY = ''recap_built_for''"
definition DEFAULT_WORK_HOURS :: string where "DEFAULT_WORK_HOURS = ''Mon-Fri 09:00-17:00''"

text \<open>The Settings switch; anything but an exact \<open>on\<close> is off.\<close>

definition auto_send_enabled :: "string option \<Rightarrow> bool" where
  "auto_send_enabled v = (v = Some ''on'')"

definition every_ready :: "json_codec \<Rightarrow> stored_decision list \<Rightarrow> string \<Rightarrow> block list \<Rightarrow> bad_column + bool" where
  "every_ready jc decisions issue blocks =
     and_then (try_map (\<lambda>b. block_ready jc decisions b issue) blocks) (\<lambda>rs. Inr (list_all id rs))"

definition line_ready :: "send_env \<Rightarrow> send_db \<Rightarrow> tempo_line \<Rightarrow> bad_column + bool" where
  "line_ready ae ad line =
     (let key = (ln_day line, ln_issue line);
          check = Option.bind (td_rows (ad_td ad) key) lr_check;
          (sent, failed) = outcome_of ad key;
          text_ok = (ln_text line \<noteq> None \<and> (ln_manual line = Some True \<or> check = Some ''passed''))
      in if \<not> text_ok \<or> sent \<noteq> None \<or> failed \<noteq> None \<or> ln_effective line = 0 then Inr False
         else (let blocks = line_blocks ad line
               in and_then (every_ready (ae_codec ae) (ad_decisions ad) (ln_issue line) blocks) (\<lambda>every_block.
                    Inr (list_ex needs_sync blocks \<and> every_block))))"

fun ready_of :: "send_env \<Rightarrow> send_db \<Rightarrow> tempo_line list \<Rightarrow> bad_column + tempo_line list" where
  "ready_of ae ad [] = Inr []"
| "ready_of ae ad (line # rest) =
     and_then (line_ready ae ad line) (\<lambda>ready.
       and_then (ready_of ae ad rest) (\<lambda>ls. Inr (if ready then line # ls else ls)))"

definition ready_lines :: "send_env \<Rightarrow> send_db \<Rightarrow> string \<Rightarrow> bad_column + tempo_line list" where
  "ready_lines ae ad day = ready_of ae ad (lines_for_day (ae_te ae) (ad_td ad) day)"

section \<open>The outcome of a line\<close>

text \<open>\<open>LIKE\<close> folds ASCII case.\<close>

definition unreachable_error :: "string \<Rightarrow> bool" where
  "unreachable_error e = starts_with (nocase UNREACHABLE) (nocase e)"

definition pending :: "send_db \<Rightarrow> string \<Rightarrow> string \<Rightarrow> bool" where
  "pending ad day issue =
     (case td_rows (ad_td ad) (day, issue) of
        None \<Rightarrow> False
      | Some r \<Rightarrow> lr_auto_sent r = None \<and> (case lr_send_error r of None \<Rightarrow> True | Some e \<Rightarrow> unreachable_error e))"

definition set_outcome :: "string \<Rightarrow> tempo_key \<Rightarrow> string option \<Rightarrow> send_db \<Rightarrow> send_db" where
  "set_outcome now key err ad =
     ad\<lparr>ad_td := with_row key (\<lambda>r. r\<lparr>lr_auto_sent := (if err = None then Some now else None), lr_send_error := err\<rparr>) (ad_td ad)\<rparr>"

section \<open>The plan\<close>

definition comma :: "char \<Rightarrow> bool" where "comma c = (c = CHR '','')"

definition parse_plan :: "string \<Rightarrow> (string \<times> string list) option" where
  "parse_plan raw =
     map_option (\<lambda>(day, issues). (day, filter (\<lambda>i. i \<noteq> []) (split_on comma issues))) (split_once (CHR ''|'') raw)"

definition plan :: "send_db \<Rightarrow> (string \<times> string list) option" where
  "plan ad = Option.bind (meta_get ad PLAN_KEY) parse_plan"

definition show_plan :: "string \<Rightarrow> string list \<Rightarrow> string" where
  "show_plan day issues = day @ ''|'' @ join '','' issues"

section \<open>Why a send failed\<close>

datatype send_failure =
    TimedOut
  | NoConnection
  | HttpStatus nat
  | RequestError
  | HubUpstream string nat
  | OtherCause string

definition failure_reason :: "send_failure \<Rightarrow> string" where
  "failure_reason f =
     (case f of
        TimedOut \<Rightarrow> ''timed out''
      | NoConnection \<Rightarrow> ''connection failed''
      | HttpStatus s \<Rightarrow> ''HTTP '' @ show_nat s
      | RequestError \<Rightarrow> ''request failed''
      | HubUpstream service status \<Rightarrow> service @ '' said '' @ show_nat status
      | OtherCause cause \<Rightarrow>
          (let head = (case str_find ('' '' @ EM_DASH @ '' '') cause of Some i \<Rightarrow> take i cause | None \<Rightarrow> cause)
           in if str_contains ''://'' head \<or> str_contains ''?'' head then ''request failed'' else head))"

record line_result =
  li_status :: string
  li_reason :: "string option"

definition rejects :: "line_result \<Rightarrow> bool" where
  "rejects r = (li_status r = ''error'' \<or> (li_status r = ''skipped'' \<and> li_reason r \<noteq> Some ALREADY_IN_TEMPO_REASON))"

definition rejection :: "line_result list \<Rightarrow> string option" where
  "rejection results =
     map_option (\<lambda>r. case li_reason r of Some s \<Rightarrow> s | None \<Rightarrow> ''Tempo rejected the line'') (find rejects results)"

type_synonym send_line = "tempo_key list \<Rightarrow> tempo_key \<Rightarrow> tempo_db \<Rightarrow> (send_failure + line_result list) \<times> tempo_db"

section \<open>One tick\<close>

definition send_one :: "send_line \<Rightarrow> string \<Rightarrow> tempo_key \<Rightarrow> send_db \<Rightarrow> bool \<times> send_db" where
  "send_one deliver now key ad =
     (let (res, td) = deliver (ad_sends ad) key (ad_td ad);
          ad = ad\<lparr>ad_td := td, ad_sends := ad_sends ad @ [key]\<rparr>
      in case res of
           Inl e \<Rightarrow> (True, set_outcome now key (Some (UNREACHABLE @ '': '' @ failure_reason e)) ad)
         | Inr results \<Rightarrow> (False, set_outcome now key (rejection results) ad))"

fun send_all :: "send_line \<Rightarrow> string \<Rightarrow> string \<Rightarrow> string list \<Rightarrow> send_db \<Rightarrow> bool \<times> send_db" where
  "send_all deliver now today [] ad = (False, ad)"
| "send_all deliver now today (issue # rest) ad =
     (if \<not> pending ad today issue then send_all deliver now today rest ad
      else (let (unreachable, ad) = send_one deliver now (today, issue) ad;
                (later, ad) = send_all deliver now today rest ad
            in (unreachable \<or> later, ad)))"

text \<open>The lines of a day that is over: \<open>COALESCE(send_error, ...)\<close>.\<close>

definition mark_unsent :: "tempo_key \<Rightarrow> send_db \<Rightarrow> send_db" where
  "mark_unsent key ad =
     ad\<lparr>ad_td := with_row key (\<lambda>r. r\<lparr>lr_send_error := Some (case lr_send_error r of Some e \<Rightarrow> e | None \<Rightarrow> UNREACHABLE)\<rparr>) (ad_td ad)\<rparr>"

definition close_day :: "string \<Rightarrow> string list \<Rightarrow> send_db \<Rightarrow> send_db" where
  "close_day day issues ad = foldl (\<lambda>ad issue. if pending ad day issue then mark_unsent (day, issue) ad else ad) ad issues"

definition store_recap :: "send_env \<Rightarrow> string option \<Rightarrow> string \<Rightarrow> send_db \<Rightarrow> (bad_column + unit) \<times> send_db" where
  "store_recap ae hours day ad =
     (case build_and_store ae day (case hours of Some h \<Rightarrow> h | None \<Rightarrow> DEFAULT_WORK_HOURS) ad of
        (Inl e, ad) \<Rightarrow> (Inl e, ad)
      | (Inr _, ad) \<Rightarrow> (Inr (), meta_set RECAP_KEY day ad))"

definition roll_over :: "send_env \<Rightarrow> string option \<Rightarrow> bool \<Rightarrow> string \<Rightarrow> string list \<Rightarrow> send_db \<Rightarrow> send_db" where
  "roll_over ae hours enabled day issues ad =
     (let ad = close_day day issues ad;
          (recapped, ad) = (if enabled \<and> meta_get ad RECAP_KEY \<noteq> Some day
                            then (case store_recap ae hours day ad of (res, ad) \<Rightarrow> (\<not> isl res, ad))
                            else (True, ad))
      in if recapped then meta_set PLAN_KEY [] ad else ad)"

definition local_hour :: "fixed_offset \<Rightarrow> instant \<Rightarrow> int" where
  "local_hour off now = ((now + seconds off) mod DAY_NS) div seconds 3600"

definition tick_day :: "send_env \<Rightarrow> instant \<Rightarrow> string" where
  "tick_day ae now = cal_show (ae_cal ae) (local_date (ae_offset ae) now)"

definition planned :: "send_env \<Rightarrow> string \<Rightarrow> (string \<times> string list) option \<Rightarrow> send_db \<Rightarrow> (bad_column + string list) \<times> send_db" where
  "planned ae today current ad =
     (case current of
        Some (_, issues) \<Rightarrow> (Inr issues, ad)
      | None \<Rightarrow>
          (case ready_lines ae ad today of
             Inl e \<Rightarrow> (Inl e, ad)
           | Inr ls \<Rightarrow> (Inr (map ln_issue ls), meta_set PLAN_KEY (show_plan today (map ln_issue ls)) ad)))"

definition send_day :: "send_env \<Rightarrow> send_line \<Rightarrow> string option \<Rightarrow> string \<Rightarrow> string \<Rightarrow> (string \<times> string list) option \<Rightarrow> send_db \<Rightarrow> (bad_column + unit) \<times> send_db" where
  "send_day ae deliver hours now today current ad =
     (case planned ae today current ad of
        (Inl e, ad) \<Rightarrow> (Inl e, ad)
      | (Inr issues, ad) \<Rightarrow>
          (let (unreachable, ad) = send_all deliver now today issues ad
           in if \<not> unreachable \<and> meta_get ad RECAP_KEY \<noteq> Some today then store_recap ae hours today ad
              else (Inr (), ad)))"

definition run_if_due ::
    "send_env \<Rightarrow> send_line \<Rightarrow> string option \<Rightarrow> instant \<Rightarrow> bool \<Rightarrow> send_db \<Rightarrow> (bad_column + unit) \<times> send_db" where
  "run_if_due ae deliver hours now enabled ad =
     (let today = tick_day ae now;
          current = plan ad;
          (current, ad) = (case current of
             Some (day, issues) \<Rightarrow> if day \<noteq> today then (None, roll_over ae hours enabled day issues ad) else (current, ad)
           | None \<Rightarrow> (None, ad))
      in if \<not> enabled \<or> local_hour (ae_offset ae) now < AUTO_SEND_HOUR then (Inr (), ad)
         else send_day ae deliver hours (to_rfc3339 (te_clock (ae_te ae)) now) today current ad)"

section \<open>Review\<close>

datatype review_status = ReviewSent | ReviewNotSent string

record review_line =
  rv_day :: string
  rv_issue :: string
  rv_seconds :: int
  rv_text :: string
  rv_status :: review_status

definition review_row :: "string \<Rightarrow> tempo_key \<Rightarrow> line_row \<Rightarrow> bool" where
  "review_row today key r =
     (fst key \<le> today \<and> lr_confirmed r = None \<and> (lr_send_error r \<noteq> None \<or> (fst key < today \<and> lr_auto_sent r \<noteq> None)))"

text \<open>The keys of \<open>tempo_line_texts\<close> come with the call; newest day first, then by ticket.\<close>

definition review_lines :: "send_env \<Rightarrow> send_db \<Rightarrow> tempo_key list \<Rightarrow> string \<Rightarrow> review_line list" where
  "review_lines ae ad keys today =
     List.map_filter (\<lambda>key. map_option (\<lambda>line.
           \<lparr>rv_day = fst key, rv_issue = snd key, rv_seconds = ln_effective line, rv_text = line_text line,
            rv_status = (case Option.bind (td_rows (ad_td ad) key) lr_send_error of Some e \<Rightarrow> ReviewNotSent e | None \<Rightarrow> ReviewSent)\<rparr>)
         (line_for (ae_te ae) (ad_td ad) key))
       (rev (sort_key fst (rev (sort_key snd
         (filter (\<lambda>key. case td_rows (ad_td ad) key of None \<Rightarrow> False | Some r \<Rightarrow> review_row today key r) keys)))))"

definition confirms :: "string \<Rightarrow> string option \<Rightarrow> tempo_key \<Rightarrow> line_row \<Rightarrow> bool" where
  "confirms day issue key r =
     (fst key = day \<and> (case issue of None \<Rightarrow> True | Some i \<Rightarrow> snd key = i)
      \<and> lr_auto_sent r \<noteq> None \<and> lr_send_error r = None \<and> lr_confirmed r = None)"

definition confirm :: "string \<Rightarrow> string \<Rightarrow> string option \<Rightarrow> tempo_key list \<Rightarrow> send_db \<Rightarrow> nat \<times> send_db" where
  "confirm now day issue keys ad =
     (length (filter (\<lambda>key. case td_rows (ad_td ad) key of None \<Rightarrow> False | Some r \<Rightarrow> confirms day issue key r) keys),
      ad\<lparr>ad_td := (ad_td ad)\<lparr>td_rows := (\<lambda>key. map_option (\<lambda>r. if confirms day issue key r then r\<lparr>lr_confirmed := Some now\<rparr> else r)
            (td_rows (ad_td ad) key))\<rparr>\<rparr>)"

section \<open>The plan reads back\<close>

lemma split_once_clean: "CHR ''|'' \<notin> set day \<Longrightarrow> split_once (CHR ''|'') (day @ CHR ''|'' # rest) = Some (day, rest)"
  by (induction day) auto

lemma plan_reads_back:
  assumes "CHR ''|'' \<notin> set day" "list_all (\<lambda>i. i \<noteq> [] \<and> \<not> list_ex comma i) issues"
  shows "parse_plan (show_plan day issues) = Some (day, issues)"
proof -
  have "filter (\<lambda>i. i \<noteq> []) (split_on comma (join '','' issues)) = issues"
  proof (cases issues)
    case (Cons i rest)
    have "\<forall>x\<in>set issues. \<forall>c\<in>set x. \<not> comma c" using assms(2) by (auto simp: list_all_iff list_ex_iff)
    then have "split_on comma (join '','' issues) = issues" using Cons by (intro split_on_join) (simp_all add: comma_def)
    with assms(2) show ?thesis by (auto simp: list_all_iff filter_id_conv)
  qed simp
  with split_once_clean[OF assms(1)] show ?thesis by (simp add: parse_plan_def show_plan_def)
qed

section \<open>What the per-ticket sync keeps\<close>

text \<open>A property of the tables that each single write for the line of \<open>key\<close> keeps is kept by the sync of that line.\<close>

locale sync_invariant =
  fixes key :: tempo_key and P :: "tempo_db \<Rightarrow> bool"
  assumes resolve: "resolve_issue_id net issue td = (r, td') \<Longrightarrow> P td \<Longrightarrow> P td'"
    and already: "already_sent te net (fst key) dry line td = (a, td') \<Longrightarrow> (ln_day line, ln_issue line) = key \<Longrightarrow> P td \<Longrightarrow> P td'"
    and description: "line_description te net key dry line td = (d, td') \<Longrightarrow> P td \<Longrightarrow> P td'"
    and ids: "P td \<Longrightarrow> P (write_ids i bs td)"
    and sent: "P td \<Longrightarrow> P (line_sent now key td)"
begin

lemma local: "local_step te net dry key td td2 \<Longrightarrow> P td \<Longrightarrow> P td2"
  by (rule local_step_keeps[where P = P]) (assumption | erule (2) already | erule (1) description)+

lemma reply: "on_reply net key all el ex pay r st = (res, st') \<Longrightarrow> P (sy_td st) \<Longrightarrow> P (sy_td st')"
proof -
  assume r: "on_reply net key all el ex pay r st = (res, st')" and p: "P (sy_td st)"
  have "P (line_sent (nt_now net) key (write_ids i all (sy_td st)))" for i by (rule sent[OF ids[OF p]])
  with r p show ?thesis
    by (auto simp: on_reply_def add_results_def Let_def split: reply.splits option.splits if_splits)
qed

lemma aggregated:
  assumes "sync_group_aggregated te net dry key iid all el ex st = (res, st')" "P (sy_td st)"
  shows "P (sy_td st')"
  using assms(1)
proof (cases rule: aggregated_cases)
  case quiet
  from local[OF quiet(1) assms(2)] show ?thesis .
next
  case (sent line pay r st3)
  from reply[OF sent(9) local[OF sent(6) assms(2)]] show ?thesis .
qed

lemma legacy: "sync_blocks_legacy net dry issue iid bs st = (res, st') \<Longrightarrow> P (sy_td st) \<Longrightarrow> P (sy_td st')"
proof (induction bs arbitrary: st)
  case (Cons b bs)
  obtain r st1 where s: "sync_block_legacy net dry issue iid b st = (r, st1)" by fastforce
  from s have "sy_td st1 = sy_td st \<or> (\<exists>i. sy_td st1 = write_ids i [b] (sy_td st))"
    by (cases rule: legacy_cases) auto
  with Cons.prems(2) have s1: "P (sy_td st1)" using ids by auto
  show ?case
  proof (cases r)
    case (Inl e)
    with Cons.prems(1) s s1 show ?thesis by simp
  next
    case (Inr u)
    with Cons.prems(1) s have "sync_blocks_legacy net dry issue iid bs st1 = (res, st')" by simp
    from Cons.IH[OF this s1] show ?thesis .
  qed
qed simp

lemma one_group:
  assumes "sync_group te net dry (fst key) io el st = (res, st')" "io = None \<or> io = Some (snd key)" "P (sy_td st)"
  shows "P (sy_td st')"
proof (cases io)
  case None
  with assms show ?thesis by (auto simp: sync_group_def skip_blocks_def add_results_def)
next
  case (Some issue)
  obtain iid td where r: "resolve_issue_id net issue (sy_td st) = (iid, td)" by fastforce
  from resolve[OF r assms(3)] have p: "P (sy_td (st\<lparr>sy_td := td\<rparr>))" by simp
  have key: "(fst key, issue) = key" using assms(2) Some by auto
  show ?thesis
  proof (cases iid)
    case None
    with assms(1) Some r p show ?thesis by (auto simp: sync_group_def add_results_def)
  next
    case (Some i)
    show ?thesis
      using assms(1) \<open>io = Some issue\<close> r Some p
      by (auto simp: sync_group_def Let_def key split: group_classification.splits dest: aggregated legacy)
  qed
qed

lemma groups:
  "sync_groups te net dry (fst key) gs st = (res, st') \<Longrightarrow> list_all (\<lambda>g. fst g = None \<or> fst g = Some (snd key)) gs \<Longrightarrow>
     P (sy_td st) \<Longrightarrow> P (sy_td st')"
proof (induction gs arbitrary: st)
  case (Cons g gs)
  obtain io el where g: "g = (io, el)" by fastforce
  obtain r st1 where s: "sync_group te net dry (fst key) io el st = (r, st1)" by fastforce
  from one_group[OF s _ Cons.prems(3)] Cons.prems(2) g have s1: "P (sy_td st1)" by simp
  show ?case
  proof (cases r)
    case (Inl e)
    with Cons.prems(1) s s1 g show ?thesis by simp
  next
    case (Inr u)
    with Cons.prems(1) s g have "sync_groups te net dry (fst key) gs st1 = (res, st')" by simp
    from Cons.IH[OF this _ s1] Cons.prems(2) show ?thesis by simp
  qed
qed simp

lemma day:
  assumes "sync_day te net dry (fst key) (Some (snd key)) td = (res, st')" "P td"
  shows "P (sy_td st')"
proof -
  have "list_all (\<lambda>g. fst g = None \<or> fst g = Some (snd key)) (eligible_groups (td_db td) (fst key) (Some (snd key)))"
    by (auto simp: eligible_groups_def list_all_iff Let_def)
  from groups[OF assms(1)[unfolded sync_day_def] this] assms(2) show ?thesis by (simp add: start_sync_def)
qed

end

text \<open>The rows of every other line are such a property.\<close>

lemma other_row_ensure: "k \<noteq> key \<Longrightarrow> td_rows (ensure_row key td) k = td_rows td k"
  by (simp add: ensure_row_def split: option.splits)

lemma other_row_with: "k \<noteq> key \<Longrightarrow> td_rows (with_row key f td) k = td_rows td k"
  by (simp add: with_row_def)

lemma other_row_finish: "k \<noteq> key \<Longrightarrow> td_rows (finish_write key td) k = td_rows td k"
  by (simp add: finish_write_def split: option.splits)

lemmas other_row = other_row_ensure other_row_with other_row_finish

lemma other_row_commit: "k \<noteq> key \<Longrightarrow> td_rows (commit_generated key t h f td) k = td_rows td k"
  unfolding commit_generated_def by (simp add: other_row split: if_splits)

interpretation other_rows: sync_invariant key "\<lambda>td. k \<noteq> key \<longrightarrow> td_rows td k = row" for key k row
proof
  fix te net dry line td a td'
  assume "already_sent te net (fst key) dry line td = (a, td')" "(ln_day line, ln_issue line) = key" "k \<noteq> key \<longrightarrow> td_rows td k = row"
  then show "k \<noteq> key \<longrightarrow> td_rows td' k = row"
    by (auto simp: already_sent_def mark_already_def other_row split: if_splits option.splits match_verdict.splits)
next
  fix te net dry line td d td'
  assume "line_description te net key dry line td = (d, td')" "k \<noteq> key \<longrightarrow> td_rows td k = row"
  then show "k \<noteq> key \<longrightarrow> td_rows td' k = row"
    by (auto simp: line_description_def other_row_commit split: if_splits option.splits list.splits)
next
  fix net issue r and td td' :: tempo_db
  assume "resolve_issue_id net issue td = (r, td')" "k \<noteq> key \<longrightarrow> td_rows td k = row"
  then show "k \<noteq> key \<longrightarrow> td_rows td' k = row" by (auto simp: resolve_issue_id_def split: option.splits)
next
  fix td :: tempo_db and now
  assume "k \<noteq> key \<longrightarrow> td_rows td k = row"
  then show "k \<noteq> key \<longrightarrow> td_rows (line_sent now key td) k = row" by (simp add: line_sent_def other_row)
qed (simp add: write_ids_def)

section \<open>A sender that keeps to its line\<close>

definition sent_mark :: "tempo_db \<Rightarrow> tempo_key \<Rightarrow> bool" where
  "sent_mark td key = (case td_rows td key of None \<Rightarrow> False | Some r \<Rightarrow> lr_auto_sent r \<noteq> None)"

lemma pending_not_marked: "pending ad day issue \<Longrightarrow> \<not> sent_mark (ad_td ad) (day, issue)"
  by (simp add: pending_def sent_mark_def split: option.splits)

lemma meta_td [simp]: "ad_td (meta_set k v ad) = ad_td ad" "ad_sends (meta_set k v ad) = ad_sends ad"
  by (simp_all add: meta_set_def)

lemma build_and_store_sends [simp]: "ad_sends (snd (build_and_store ae day hours ad)) = ad_sends ad"
  by (simp add: build_and_store_def split: sum.splits option.splits)

lemma store_recap_keeps: "store_recap ae hours day ad = (res, ad') \<Longrightarrow> ad_td ad' = ad_td ad \<and> ad_sends ad' = ad_sends ad"
proof -
  assume s: "store_recap ae hours day ad = (res, ad')"
  let ?h = "case hours of Some h \<Rightarrow> h | None \<Rightarrow> DEFAULT_WORK_HOURS"
  obtain r ad2 where b: "build_and_store ae day ?h ad = (r, ad2)" by fastforce
  have "ad_td ad2 = ad_td ad" "ad_sends ad2 = ad_sends ad"
    using build_and_store_td[of ae day ?h ad] build_and_store_sends[of ae day ?h ad] unfolding b by simp_all
  with s b show ?thesis by (auto simp: store_recap_def split: sum.splits)
qed

lemma mark_unsent_keeps [simp]:
  "ad_sends (mark_unsent key ad) = ad_sends ad" "sent_mark (ad_td (mark_unsent key ad)) k = sent_mark (ad_td ad) k"
  by (simp_all add: mark_unsent_def sent_mark_def with_row_def split: option.splits)

lemma close_day_keeps [simp]:
  "ad_sends (close_day day issues ad) = ad_sends ad" "sent_mark (ad_td (close_day day issues ad)) k = sent_mark (ad_td ad) k"
  unfolding close_day_def by (induction issues arbitrary: ad) simp_all

lemma roll_over_keeps [simp]:
  "ad_sends (roll_over ae hours enabled day issues ad) = ad_sends ad"
  "sent_mark (ad_td (roll_over ae hours enabled day issues ad)) k = sent_mark (ad_td ad) k"
proof -
  obtain res ad2 where s: "store_recap ae hours day (close_day day issues ad) = (res, ad2)" by fastforce
  from store_recap_keeps[OF s] have k: "ad_td ad2 = ad_td (close_day day issues ad)" "ad_sends ad2 = ad_sends (close_day day issues ad)"
    by simp_all
  then show "ad_sends (roll_over ae hours enabled day issues ad) = ad_sends ad"
    "sent_mark (ad_td (roll_over ae hours enabled day issues ad)) k = sent_mark (ad_td ad) k"
    using s by (simp_all add: roll_over_def Let_def)
qed

lemma planned_keeps: "planned ae today current ad = (res, ad') \<Longrightarrow> ad_td ad' = ad_td ad \<and> ad_sends ad' = ad_sends ad"
  by (auto simp: planned_def split: option.splits sum.splits prod.splits)

lemma set_outcome_other: "k \<noteq> key \<Longrightarrow> td_rows (ad_td (set_outcome now key err ad)) k = td_rows (ad_td ad) k"
  by (simp add: set_outcome_def other_row)

lemma set_outcome_sends [simp]: "ad_sends (set_outcome now key err ad) = ad_sends ad"
  by (simp add: set_outcome_def)

locale line_sender =
  fixes deliver :: send_line
  assumes own_row: "deliver sends key td = (res, td') \<Longrightarrow> k \<noteq> key \<Longrightarrow> td_rows td' k = td_rows td k"
begin

lemma send_one_effect:
  assumes "send_one deliver now key ad = (u, ad')"
  shows "ad_sends ad' = ad_sends ad @ [key]" and "k \<noteq> key \<Longrightarrow> td_rows (ad_td ad') k = td_rows (ad_td ad) k"
proof -
  obtain res td where d: "deliver (ad_sends ad) key (ad_td ad) = (res, td)" by fastforce
  from assms d show "ad_sends ad' = ad_sends ad @ [key]"
    by (auto simp: send_one_def Let_def split: sum.splits)
  assume k: "k \<noteq> key"
  from assms d own_row[OF d k] k show "td_rows (ad_td ad') k = td_rows (ad_td ad) k"
    by (auto simp: send_one_def set_outcome_other Let_def split: sum.splits)
qed

text \<open>One pass sends exactly the lines that are pending when it starts, in the order of the plan.\<close>

lemma send_all_effect:
  assumes "send_all deliver now today issues ad = (u, ad')" "distinct issues"
  shows "ad_sends ad' = ad_sends ad @ map (Pair today) (filter (pending ad today) issues)"
    and "\<not> (fst k = today \<and> snd k \<in> set issues \<and> pending ad today (snd k)) \<Longrightarrow> td_rows (ad_td ad') k = td_rows (ad_td ad) k"
  using assms
proof (induction issues arbitrary: ad u ad')
  case (Cons issue rest)
  {
    case 1
    show ?case
    proof (cases "pending ad today issue")
      case False
      with 1 Cons.IH(1)[of ad u ad'] show ?thesis by simp
    next
      case True
      obtain u1 ad1 where s: "send_one deliver now (today, issue) ad = (u1, ad1)" by fastforce
      obtain u2 ad2 where r: "send_all deliver now today rest ad1 = (u2, ad2)" by fastforce
      have ad': "ad' = ad2" using 1(1) True s r by simp
      have same: "pending ad1 today i = pending ad today i" if "i \<in> set rest" for i
      proof -
        from that 1(2) have "(today, i) \<noteq> (today, issue)" by auto
        from send_one_effect(2)[OF s this] show ?thesis by (simp add: pending_def)
      qed
      have "filter (pending ad1 today) rest = filter (pending ad today) rest"
        by (rule filter_cong) (simp_all add: same)
      with Cons.IH(1)[OF r] 1(2) send_one_effect(1)[OF s] True ad' show ?thesis by simp
    qed
  next
    case 2
    show ?case
    proof (cases "pending ad today issue")
      case False
      with 2 Cons.IH(2)[of ad u ad'] show ?thesis by auto
    next
      case True
      obtain u1 ad1 where s: "send_one deliver now (today, issue) ad = (u1, ad1)" by fastforce
      obtain u2 ad2 where r: "send_all deliver now today rest ad1 = (u2, ad2)" by fastforce
      have ad': "ad' = ad2" using 2(2) True s r by simp
      have k: "k \<noteq> (today, issue)" using 2(1) True by auto
      have row: "td_rows (ad_td ad1) k = td_rows (ad_td ad) k" by (rule send_one_effect(2)[OF s k])
      have "\<not> (fst k = today \<and> snd k \<in> set rest \<and> pending ad1 today (snd k))"
      proof
        assume p: "fst k = today \<and> snd k \<in> set rest \<and> pending ad1 today (snd k)"
        then have "pending ad today (snd k)" using row by (cases k) (simp add: pending_def)
        with p 2(1) show False by simp
      qed
      from Cons.IH(2)[OF this r] 2(3) row ad' show ?thesis by simp
    qed
  }
qed simp_all

text \<open>A line marked as sent stays marked and is not sent again, whatever the plan says.\<close>

lemma send_all_marked:
  "send_all deliver now today issues ad = (u, ad') \<Longrightarrow> sent_mark (ad_td ad) k \<Longrightarrow>
     sent_mark (ad_td ad') k \<and> (\<exists>ks. ad_sends ad' = ad_sends ad @ ks \<and> k \<notin> set ks)"
proof (induction issues arbitrary: ad u ad')
  case (Cons issue rest)
  show ?case
  proof (cases "pending ad today issue")
    case False
    with Cons.prems(1) have "send_all deliver now today rest ad = (u, ad')" by simp
    from Cons.IH[OF this Cons.prems(2)] show ?thesis .
  next
    case True
    obtain u1 ad1 where s: "send_one deliver now (today, issue) ad = (u1, ad1)" by fastforce
    obtain u2 ad2 where r: "send_all deliver now today rest ad1 = (u2, ad2)" by fastforce
    have ad': "ad' = ad2" using Cons.prems(1) True s r by simp
    have k: "k \<noteq> (today, issue)" using pending_not_marked[OF True] Cons.prems(2) by auto
    from send_one_effect(2)[OF s k] Cons.prems(2) have "sent_mark (ad_td ad1) k" by (simp add: sent_mark_def)
    from Cons.IH[OF r this] obtain ks where ks: "sent_mark (ad_td ad2) k" "ad_sends ad2 = ad_sends ad1 @ ks" "k \<notin> set ks"
      by blast
    then have "ad_sends ad' = ad_sends ad @ ((today, issue) # ks)" "k \<notin> set ((today, issue) # ks)"
      using send_one_effect(1)[OF s] k ad' by auto
    with ks(1) ad' show ?thesis by blast
  qed
qed auto

lemma send_day_marked:
  assumes "send_day ae deliver hours now today current ad = (res, ad')" "sent_mark (ad_td ad) k"
  shows "sent_mark (ad_td ad') k \<and> (\<exists>ks. ad_sends ad' = ad_sends ad @ ks \<and> k \<notin> set ks)"
proof -
  obtain r1 ad1 where p: "planned ae today current ad = (r1, ad1)" by fastforce
  note keep = planned_keeps[OF p]
  with assms(2) have m1: "sent_mark (ad_td ad1) k" by simp
  show ?thesis
  proof (cases r1)
    case (Inl e)
    with assms p keep show ?thesis by (auto simp: send_day_def)
  next
    case (Inr issues)
    obtain u ad2 where s: "send_all deliver now today issues ad1 = (u, ad2)" by fastforce
    from send_all_marked[OF s m1] keep have r2: "sent_mark (ad_td ad2) k \<and> (\<exists>ks. ad_sends ad2 = ad_sends ad @ ks \<and> k \<notin> set ks)" by simp
    have "ad_td ad' = ad_td ad2 \<and> ad_sends ad' = ad_sends ad2"
      using assms(1) p Inr s store_recap_keeps by (auto simp: send_day_def split: if_splits)
    with r2 show ?thesis by simp
  qed
qed

lemma run_marked:
  assumes "run_if_due ae deliver hours now enabled ad = (res, ad')" "sent_mark (ad_td ad) k"
  shows "sent_mark (ad_td ad') k \<and> (\<exists>ks. ad_sends ad' = ad_sends ad @ ks \<and> k \<notin> set ks)"
proof -
  let ?today = "tick_day ae now"
  obtain current ad1 where c: "(case plan ad of
      Some (day, issues) \<Rightarrow> if day \<noteq> ?today then (None, roll_over ae hours enabled day issues ad) else (plan ad, ad)
    | None \<Rightarrow> (None, ad)) = (current, ad1)" by fastforce
  then have keep: "ad_sends ad1 = ad_sends ad" "sent_mark (ad_td ad1) k" using assms(2)
    by (auto split: option.splits prod.splits if_splits)
  show ?thesis
  proof (cases "\<not> enabled \<or> local_hour (ae_offset ae) now < AUTO_SEND_HOUR")
    case True
    with assms(1) c keep show ?thesis by (auto simp: run_if_due_def Let_def)
  next
    case False
    with assms(1) c have "send_day ae deliver hours (to_rfc3339 (te_clock (ae_te ae)) now) ?today current ad1 = (res, ad')"
      by (simp add: run_if_due_def Let_def)
    from send_day_marked[OF this keep(2)] keep(1) show ?thesis by simp
  qed
qed

end

section \<open>The tick loop\<close>

text \<open>The daemon's loop: a failed tick is logged and the next one runs.\<close>

type_synonym tick = "instant \<times> bool"

definition run_ticks :: "send_env \<Rightarrow> send_line \<Rightarrow> string option \<Rightarrow> tick list \<Rightarrow> send_db \<Rightarrow> send_db" where
  "run_ticks ae deliver hours ticks ad =
     foldl (\<lambda>ad (now, enabled). snd (run_if_due ae deliver hours now enabled ad)) ad ticks"

context line_sender
begin

lemma ticks_marked:
  "sent_mark (ad_td ad) k \<Longrightarrow>
     sent_mark (ad_td (run_ticks ae deliver hours ticks ad)) k
     \<and> (\<exists>ks. ad_sends (run_ticks ae deliver hours ticks ad) = ad_sends ad @ ks \<and> k \<notin> set ks)"
proof (induction ticks arbitrary: ad)
  case (Cons t ticks)
  obtain now enabled where t: "t = (now, enabled)" by fastforce
  obtain res ad1 where r: "run_if_due ae deliver hours now enabled ad = (res, ad1)" by fastforce
  from run_marked[OF r Cons.prems] obtain ks where ks: "sent_mark (ad_td ad1) k" "ad_sends ad1 = ad_sends ad @ ks" "k \<notin> set ks"
    by blast
  have "run_ticks ae deliver hours (t # ticks) ad = run_ticks ae deliver hours ticks ad1" by (simp add: run_ticks_def t r)
  with Cons.IH[OF ks(1)] ks(2,3) show ?case by auto
qed (simp add: run_ticks_def)

text \<open>An accepted send marks its line.\<close>

lemma accepted_marked:
  assumes "deliver (ad_sends ad) key (ad_td ad) = (Inr results, td)" "\<not> list_ex rejects results" "td_rows td key \<noteq> None"
  shows "sent_mark (ad_td (snd (send_one deliver now key ad))) key"
proof -
  have "find rejects results = None" using assms(2) by (simp add: find_None_iff list_ex_iff)
  with assms(1,3) show ?thesis
    by (auto simp: send_one_def Let_def rejection_def set_outcome_def with_row_def sent_mark_def)
qed

text \<open>A due tick with a plan for today.\<close>

lemma due_tick:
  assumes "run_if_due ae deliver hours now True ad = (res, ad')" "AUTO_SEND_HOUR \<le> local_hour (ae_offset ae) now"
    and "plan ad = Some (tick_day ae now, issues)" "distinct issues"
  shows "ad_sends ad' = ad_sends ad @ map (Pair (tick_day ae now)) (filter (pending ad (tick_day ae now)) issues)"
proof -
  let ?today = "tick_day ae now"
  obtain u ad2 where s: "send_all deliver (to_rfc3339 (te_clock (ae_te ae)) now) ?today issues ad = (u, ad2)" by fastforce
  have "ad_sends ad' = ad_sends ad2"
    using assms(1,2,3) s store_recap_keeps
    by (auto simp: run_if_due_def Let_def send_day_def planned_def split: if_splits)
  with send_all_effect(1)[OF s assms(4)] show ?thesis by simp
qed

lemma first_tick:
  assumes "run_if_due ae deliver hours now True ad = (res, ad')" "AUTO_SEND_HOUR \<le> local_hour (ae_offset ae) now"
    and "plan ad = None" "ready_lines ae ad (tick_day ae now) = Inr ls" "distinct (map ln_issue ls)"
  shows "ad_sends ad' = ad_sends ad @ map (Pair (tick_day ae now)) (filter (pending ad (tick_day ae now)) (map ln_issue ls))"
proof -
  let ?today = "tick_day ae now"
  let ?ad1 = "meta_set PLAN_KEY (show_plan ?today (map ln_issue ls)) ad"
  obtain u ad2 where s: "send_all deliver (to_rfc3339 (te_clock (ae_te ae)) now) ?today (map ln_issue ls) ?ad1 = (u, ad2)" by fastforce
  have "ad_sends ad' = ad_sends ad2"
    using assms(1,2,3,4) s store_recap_keeps
    by (auto simp: run_if_due_def Let_def send_day_def planned_def split: if_splits)
  moreover have "pending ?ad1 ?today = pending ad ?today" by (rule ext) (simp add: pending_def)
  ultimately show ?thesis using send_all_effect(1)[OF s assms(5)] by simp
qed

end

section \<open>Ready means pending\<close>

lemma ready_of_mem: "ready_of ae ad lines = Inr ls \<Longrightarrow> line \<in> set ls \<Longrightarrow> line \<in> set lines \<and> line_ready ae ad line = Inr True"
  by (induction lines arbitrary: ls) (auto simp: and_then_Inr split: if_splits)

lemma ready_of_issues: "ready_of ae ad lines = Inr ls \<Longrightarrow> distinct (map ln_issue lines) \<Longrightarrow> distinct (map ln_issue ls)"
proof (induction lines arbitrary: ls)
  case (Cons line lines)
  from Cons.prems(1) obtain ready rest where r: "ready_of ae ad lines = Inr rest" "ls = (if ready then line # rest else rest)"
    by (auto simp: and_then_Inr)
  have "set rest \<subseteq> set lines" using ready_of_mem[OF r(1)] by blast
  with Cons.IH[OF r(1)] Cons.prems(2) r(2) show ?case by auto
qed simp

lemma lines_for_day_issues: "distinct (map ln_issue (lines_for_day te td day))"
proof -
  have "map ln_issue (lines_for_day te td day) = map fst (blocks_by_ticket (td_db td) day)"
    by (auto simp: lines_for_day_def build_line_def Let_def)
  then show ?thesis by (simp add: blocks_by_ticket_def btree_keys_distinct comp_def)
qed

lemma lines_for_day_row:
  "line \<in> set (lines_for_day te td day) \<Longrightarrow> ln_day line = day \<and> ln_text line = Option.bind (td_rows td (day, ln_issue line)) lr_text"
  by (auto simp: lines_for_day_def build_line_def Let_def)

lemma ready_pending:
  assumes "ready_lines ae ad day = Inr ls" "line \<in> set ls"
  shows "pending ad day (ln_issue line)"
proof -
  from ready_of_mem[OF assms(1)[unfolded ready_lines_def] assms(2)]
  have l: "line \<in> set (lines_for_day (ae_te ae) (ad_td ad) day)" and r: "line_ready ae ad line = Inr True" by simp_all
  from lines_for_day_row[OF l] have day: "ln_day line = day" and t: "ln_text line = Option.bind (td_rows (ad_td ad) (day, ln_issue line)) lr_text"
    by simp_all
  from r t obtain row where row: "td_rows (ad_td ad) (day, ln_issue line) = Some row"
    by (cases "td_rows (ad_td ad) (day, ln_issue line)") (auto simp: line_ready_def Let_def split: prod.splits if_splits)
  with r day show ?thesis
    by (auto simp: line_ready_def pending_def outcome_of_def Let_def split: if_splits)
qed

lemma ready_line_facts:
  assumes "ready_lines ae ad day = Inr ls" "line \<in> set ls"
  shows "ln_effective line \<noteq> 0" "ln_text line \<noteq> None" "list_ex needs_sync (line_blocks ad line)"
    "list_all (\<lambda>b. block_ready (ae_codec ae) (ad_decisions ad) b (ln_issue line) = Inr True) (line_blocks ad line)"
    "ln_manual line = Some True \<or> Option.bind (td_rows (ad_td ad) (day, ln_issue line)) lr_check = Some ''passed''"
proof -
  from ready_of_mem[OF assms(1)[unfolded ready_lines_def] assms(2)]
  have l: "line \<in> set (lines_for_day (ae_te ae) (ad_td ad) day)" and r: "line_ready ae ad line = Inr True" by simp_all
  from lines_for_day_row[OF l] have day: "ln_day line = day" by simp
  from r day show "ln_effective line \<noteq> 0" "ln_text line \<noteq> None" "list_ex needs_sync (line_blocks ad line)"
    "ln_manual line = Some True \<or> Option.bind (td_rows (ad_td ad) (day, ln_issue line)) lr_check = Some ''passed''"
    by (auto simp: line_ready_def and_then_Inr Let_def split: prod.splits if_splits)
  from r obtain rs where rs: "try_map (\<lambda>b. block_ready (ae_codec ae) (ad_decisions ad) b (ln_issue line)) (line_blocks ad line) = Inr rs"
      "list_all id rs"
    by (auto simp: line_ready_def every_ready_def and_then_Inr Let_def split: prod.splits if_splits)
  from rs(1) have "list_all2 (\<lambda>b r. block_ready (ae_codec ae) (ad_decisions ad) b (ln_issue line) = Inr r) (line_blocks ad line) rs"
    by (simp add: try_map_Inr)
  from this rs(2) show "list_all (\<lambda>b. block_ready (ae_codec ae) (ad_decisions ad) b (ln_issue line) = Inr True) (line_blocks ad line)"
    by (induction rule: list_all2_induct) auto
qed

section \<open>The daemon's sender\<close>

text \<open>\<open>auto_send_once\<close>: the per-ticket sync behind \<open>POST /sync\<close>. Secrets and the HTTP client may be missing, then
  \<open>de_net\<close> is the failure; \<open>de_say\<close> and \<open>de_fail\<close> put the sync's reasons and failures into words.\<close>

record daemon_env =
  de_net :: "tempo_key list \<Rightarrow> send_failure + tempo_net"
  de_say :: "sync_reason \<Rightarrow> string"
  de_fail :: "sync_fail \<Rightarrow> send_failure"
  de_bad_day :: string

definition line_result_of :: "daemon_env \<Rightarrow> sync_result \<Rightarrow> line_result" where
  "line_result_of de r = \<lparr>li_status = sr_status r, li_reason = map_option (de_say de) (sr_reason r)\<rparr>"

definition auto_sync :: "send_env \<Rightarrow> daemon_env \<Rightarrow> send_line" where
  "auto_sync ae de sends key td =
     (case cal_date (ae_cal ae) (fst key) of
        None \<Rightarrow> (Inl (OtherCause (de_bad_day de)), td)
      | Some _ \<Rightarrow>
          (case de_net de sends of
             Inl e \<Rightarrow> (Inl e, td)
           | Inr net \<Rightarrow>
               (case sync_day (ae_te ae) net False (fst key) (Some (snd key)) td of
                  (Inl e, st) \<Rightarrow> (Inl (de_fail de e), sy_td st)
                | (Inr _, st) \<Rightarrow> (Inr (map (line_result_of de) (sy_results st)), sy_td st))))"

interpretation daemon: line_sender "auto_sync ae de" for ae de
proof
  fix sends res k and key :: tempo_key and td td' :: tempo_db
  assume d: "auto_sync ae de sends key td = (res, td')" and k: "k \<noteq> key"
  show "td_rows td' k = td_rows td k"
  proof (cases "td' = td")
    case False
    with d obtain net r st where "sync_day (ae_te ae) net False (fst key) (Some (snd key)) td = (r, st)" "td' = sy_td st"
      by (auto simp: auto_sync_def split: option.splits sum.splits prod.splits)
    with other_rows.day[of _ _ _ key _ _ _ k "td_rows td k"] k show ?thesis by blast
  qed simp
qed

text \<open>A planned line whose blocks have left the ticket: nothing is requested, yet the line is recorded as sent.\<close>

lemma moved_line_marked:
  assumes "cal_date (ae_cal ae) (fst key) = Some d" "de_net de (ad_sends ad) = Inr net"
    and "fetch_blocks_for_issue (td_db (ad_td ad)) (fst key) (snd key) = []" "td_rows (ad_td ad) key \<noteq> None"
  shows "sent_mark (ad_td (snd (send_one (auto_sync ae de) now key ad))) key"
    and "sy_log (snd (sync_day (ae_te ae) net False (fst key) (Some (snd key)) (ad_td ad))) = []"
proof -
  have "filter (\<lambda>b. bk_jira b = Some (snd key)) (fetch_eligible_blocks (td_db (ad_td ad)) (fst key)) = []"
    using assms(3) by (auto simp: fetch_blocks_for_issue_def fetch_eligible_blocks_def filter_empty_conv)
  then have g: "eligible_groups (td_db (ad_td ad)) (fst key) (Some (snd key)) = []"
    by (simp add: eligible_groups_def btree_keys_def)
  then show "sy_log (snd (sync_day (ae_te ae) net False (fst key) (Some (snd key)) (ad_td ad))) = []"
    by (simp add: sync_day_def start_sync_def)
  have "auto_sync ae de (ad_sends ad) key (ad_td ad) = (Inr [], ad_td ad)"
    using assms(1,2) g by (simp add: auto_sync_def sync_day_def start_sync_def)
  from daemon.accepted_marked[OF this _ assms(4)] show "sent_mark (ad_td (snd (send_one (auto_sync ae de) now key ad))) key"
    by simp
qed

end
