(* ===== verification/Digest.thy ===== *)
theory Digest
  imports Slices
begin

text \<open>
  The card a block keeps once its raw events are deleted (\<open>block_digest.rs\<close>, \<open>digest_contract.rs\<close>). What the
  estimator read (block details, prompts, files) comes in as the record \<open>collected\<close>; the secret scrubber and
  the iteration order of a \<open>HashMap\<close> are parameters. The card is built while the block still has its events.
\<close>

section \<open>Caps\<close>

definition HORIZON_DAYS :: int where "HORIZON_DAYS = 90"
definition MAX_EVAL_TITLES :: nat where "MAX_EVAL_TITLES = 6"
definition EVAL_TITLE_CHARS :: nat where "EVAL_TITLE_CHARS = 80"
definition MAX_CARD_PATHS :: nat where "MAX_CARD_PATHS = 4"
definition MAX_INVOICE_TITLES :: nat where "MAX_INVOICE_TITLES = 5"
definition INVOICE_TITLE_CHARS :: nat where "INVOICE_TITLE_CHARS = 120"
definition MAX_BRANCHES :: nat where "MAX_BRANCHES = 3"
definition BRANCH_CHARS :: nat where "BRANCH_CHARS = 60"
definition MAX_CHANGE_TITLES :: nat where "MAX_CHANGE_TITLES = 8"
definition CHANGE_TITLE_CHARS :: nat where "CHANGE_TITLE_CHARS = 120"
definition MAX_PROMPTS :: nat where "MAX_PROMPTS = 5"
definition PROMPT_MIN_CHARS :: nat where "PROMPT_MIN_CHARS = 20"
definition PROMPT_CHARS :: nat where "PROMPT_CHARS = 200"
definition MAX_FILES :: nat where "MAX_FILES = 15"
definition MAX_TOOLS :: nat where "MAX_TOOLS = 8"
definition FOLDER_CHARS :: nat where "FOLDER_CHARS = 80"
definition PROJECT_PATH_CHARS :: nat where "PROJECT_PATH_CHARS = 200"
definition JIRA_SUMMARY_CHARS :: nat where "JIRA_SUMMARY_CHARS = 120"

lemmas caps =
  MAX_EVAL_TITLES_def EVAL_TITLE_CHARS_def MAX_CARD_PATHS_def MAX_INVOICE_TITLES_def INVOICE_TITLE_CHARS_def MAX_BRANCHES_def
  BRANCH_CHARS_def MAX_CHANGE_TITLES_def CHANGE_TITLE_CHARS_def MAX_PROMPTS_def PROMPT_CHARS_def MAX_FILES_def MAX_TOOLS_def
  FOLDER_CHARS_def PROJECT_PATH_CHARS_def JIRA_SUMMARY_CHARS_def

text \<open>\<open>chars().take(n)\<close> on UTF-8: a character is a lead byte with its continuation bytes.\<close>

fun truncate_chars :: "nat \<Rightarrow> string \<Rightarrow> string" where
  "truncate_chars n [] = []"
| "truncate_chars n (c # cs) =
     (if continuation_byte c then c # truncate_chars n cs
      else (case n of 0 \<Rightarrow> [] | Suc m \<Rightarrow> c # truncate_chars m cs))"

definition capped :: "string list \<Rightarrow> nat \<Rightarrow> nat \<Rightarrow> string list" where
  "capped items max_items max_chars = map (truncate_chars max_chars) (take max_items items)"

definition ranked_by_count :: "string list \<Rightarrow> (string \<times> int) list" where
  "ranked_by_count items = ranked (map (\<lambda>i. (i, 1)) (filter (\<lambda>i. i \<noteq> []) items))"

definition capped_ranked :: "(string \<times> int) list \<Rightarrow> nat \<Rightarrow> nat \<Rightarrow> string list \<times> int list" where
  "capped_ranked rs max_items max_chars = (capped (map fst rs) max_items max_chars, map snd (take max_items rs))"

definition count_by :: "string list \<Rightarrow> (string \<times> int) list" where
  "count_by items = map (\<lambda>k. (k, int (count_list items k))) (btree_keys items)"

section \<open>The card\<close>

record block_digest = digest +
  cd_eval_repos :: "string list"
  cd_eval_titles :: "string list"
  cd_project_path :: "string option"
  cd_folder_path :: "string option"
  cd_event_count :: int
  cd_by_source :: "(string \<times> int) list"
  cd_session_count :: int
  cd_active_minutes :: int
  cd_last :: "string option"
  cd_jira_summary :: "string option"
  cd_change_titles :: "string list"
  cd_prompts :: "string list"
  cd_prompt_count :: int
  cd_files :: "string list"
  cd_files_distinct :: int
  cd_tool_counts :: "(string \<times> int) list"

record collected =
  co_branches :: "string list"
  co_change_titles :: "string list"
  co_prompts :: "string list"
  co_files :: "string list"
  co_tools :: "string list"

record digest_env =
  dx_collect :: "int \<Rightarrow> collected"
  dx_scrub :: "string \<Rightarrow> string"
  dx_hash_order :: "(string \<times> int) list \<Rightarrow> (string \<times> int) list"

datatype digest_error = NoSuchBlock int | SplitError billing_error

text \<open>\<open>eval_evidence\<close>: repos and first titles, each once, in first-seen order.\<close>

definition eval_step :: "string list \<times> string list \<Rightarrow> clue_event \<Rightarrow> string list \<times> string list" where
  "eval_step acc e =
     (let (repos, titles) = acc;
          repos = (case ce_repo e of None \<Rightarrow> repos | Some r \<Rightarrow> if r \<in> set repos then repos else repos @ [r]);
          title = truncate_chars EVAL_TITLE_CHARS (ce_title e);
          titles = (if length titles < MAX_EVAL_TITLES \<and> title \<notin> set titles then titles @ [title] else titles)
      in (repos, titles))"

definition eval_evidence :: "clue_event list \<Rightarrow> string list \<times> string list" where
  "eval_evidence events = foldl eval_step ([], []) events"

definition scrubbed_distinct :: "(string \<Rightarrow> string) \<Rightarrow> string list \<Rightarrow> string list" where
  "scrubbed_distinct scrub items = rev (remdups (rev (filter (\<lambda>i. i \<noteq> []) (map scrub items))))"

definition tool_counts :: "string list \<Rightarrow> (string \<times> int) list" where
  "tool_counts tools = sort_key fst (take MAX_TOOLS (sort_key (\<lambda>(k, n). (- n, k)) (count_by tools)))"

definition add_estimation_evidence :: "digest_env \<Rightarrow> int \<Rightarrow> block_digest \<Rightarrow> block_digest" where
  "add_estimation_evidence dx block_id c =
     (let got = dx_collect dx block_id;
          distinct_of = scrubbed_distinct (dx_scrub dx);
          prompts = filter (\<lambda>p. PROMPT_MIN_CHARS \<le> char_count p) (distinct_of (co_prompts got));
          files = distinct_of (co_files got)
      in c\<lparr>dg_branches := capped (distinct_of (co_branches got)) MAX_BRANCHES BRANCH_CHARS,
           cd_change_titles := capped (distinct_of (co_change_titles got)) MAX_CHANGE_TITLES CHANGE_TITLE_CHARS,
           cd_prompt_count := int (length prompts), cd_prompts := capped prompts MAX_PROMPTS PROMPT_CHARS,
           cd_files_distinct := int (length files), cd_files := capped files MAX_FILES PROJECT_PATH_CHARS,
           cd_tool_counts := tool_counts (co_tools got)\<rparr>)"

text \<open>\<open>dominant_project_path_for_block\<close> without a card: the last of the most frequent in hash order.\<close>

definition dominant_project_path :: "digest_env \<Rightarrow> clue_event list \<Rightarrow> string option" where
  "dominant_project_path dx events =
     map_option fst (max_by_key snd (dx_hash_order dx (count_by (List.map_filter ce_path events))))"

definition digest_jira_summary :: "billing_db \<Rightarrow> block \<Rightarrow> string option" where
  "digest_jira_summary db b = map_option (truncate_chars JIRA_SUMMARY_CHARS) (ticket_summary db (bk_jira b))"

definition digest_pinned :: "billing_db \<Rightarrow> block \<Rightarrow> string option \<Rightarrow> billing_error + string option" where
  "digest_pinned db b folder =
     (case folder of
        None \<Rightarrow> Inr None
      | Some f \<Rightarrow>
          and_then (tenant_slices_for_block db b f) (\<lambda>slices.
            Inr (case slices of
                   Some [only] \<Rightarrow> if cs_origin only = Pinned then cs_customer only else None
                 | _ \<Rightarrow> None)))"

definition first_of :: "('a \<Rightarrow> 'b) \<Rightarrow> 'a list \<Rightarrow> 'b option" where
  "first_of f xs = (case xs of [] \<Rightarrow> None | x # _ \<Rightarrow> Some (f x))"

definition base_card :: "digest_env \<Rightarrow> billing_db \<Rightarrow> block \<Rightarrow> clue_event list \<Rightarrow> block_digest" where
  "base_card dx db b events =
     (let (repos, titles) = eval_evidence events;
          (paths, path_counts) = capped_ranked (ranked_by_count (List.map_filter ce_path events)) MAX_CARD_PATHS PROJECT_PATH_CHARS;
          (inv_titles, inv_counts) = capped_ranked
            (ranked_by_count (map (\<lambda>e. trim (ce_title e)) (filter (\<lambda>e. \<not> starts_with ''claude'' (ce_source e)) events)))
            MAX_INVOICE_TITLES INVOICE_TITLE_CHARS
      in \<lparr>dg_folder = None, dg_paths = paths, dg_path_counts = path_counts, dg_titles = inv_titles, dg_title_counts = inv_counts,
          dg_pinned = None, dg_first = first_of ce_started events, dg_branches = [],
          cd_eval_repos = repos, cd_eval_titles = titles,
          cd_project_path = map_option (truncate_chars PROJECT_PATH_CHARS) (dominant_project_path dx events),
          cd_folder_path = None, cd_event_count = int (length events), cd_by_source = count_by (map ce_source events),
          cd_session_count = int (card (set (List.map_filter ce_session events))),
          cd_active_minutes = trunc_div (bk_secs b) 60, cd_last = first_of ce_started (rev events),
          cd_jira_summary = digest_jira_summary db b, cd_change_titles = [], cd_prompts = [], cd_prompt_count = 0,
          cd_files = [], cd_files_distinct = 0, cd_tool_counts = []\<rparr>)"

definition folder_path :: "billing_db \<Rightarrow> clue_event list \<Rightarrow> string \<Rightarrow> string option" where
  "folder_path db events folder =
     map_option (truncate_chars PROJECT_PATH_CHARS)
       (first_of fst (ranked_by_count (filter (\<lambda>p. work_folder_for_path (work_prefixes (vw_env (bd_view db))) p = Some folder)
          (List.map_filter ce_path events))))"

definition build_digest ::
    "digest_env \<Rightarrow> billing_db \<Rightarrow> (int \<Rightarrow> block option) \<Rightarrow> int \<Rightarrow> digest_error + block_digest" where
  "build_digest dx db blocks block_id =
     (case blocks block_id of
        None \<Rightarrow> Inl (NoSuchBlock block_id)
      | Some b \<Rightarrow>
          (let events = vw_events (bd_view db) block_id;
               c = base_card dx db b events
           in if bk_personal b then Inr c
              else (let folder = work_folder_for_block (bd_view db) block_id;
                        c = c\<lparr>dg_folder := map_option (truncate_chars FOLDER_CHARS) folder,
                              cd_folder_path := Option.bind folder (folder_path db events)\<rparr>
                    in case digest_pinned db b (dg_folder c) of
                         Inl e \<Rightarrow> Inl (SplitError e)
                       | Inr pinned \<Rightarrow> Inr (add_estimation_evidence dx block_id (c\<lparr>dg_pinned := pinned\<rparr>)))))"

text \<open>\<open>INSERT OR IGNORE\<close>: a card, once written, is never replaced.\<close>

definition write_digest :: "int \<Rightarrow> 'c \<Rightarrow> (int \<Rightarrow> 'c option) \<Rightarrow> bool \<times> (int \<Rightarrow> 'c option)" where
  "write_digest block_id c cards = (case cards block_id of Some _ \<Rightarrow> (False, cards) | None \<Rightarrow> (True, cards(block_id \<mapsto> c)))"

section \<open>Truncation\<close>

lemma truncate_short: "char_count s \<le> n \<Longrightarrow> truncate_chars n s = s"
proof (induction n s rule: truncate_chars.induct)
  case (2 n c cs)
  show ?case
  proof (cases "continuation_byte c")
    case True
    with 2 show ?thesis by (simp add: char_count_def)
  next
    case False
    with 2 obtain m where "n = Suc m" by (cases n) (auto simp: char_count_def)
    with 2 False show ?thesis by (simp add: char_count_def)
  qed
qed simp

lemma truncate_count: "char_count (truncate_chars n s) \<le> n"
  by (induction n s rule: truncate_chars.induct) (auto simp: char_count_def split: nat.splits)

lemma truncate_prefix: "\<exists>u. s = truncate_chars n s @ u"
proof (induction n s rule: truncate_chars.induct)
  case (2 n c cs)
  then show ?case by (cases n) auto
qed simp

lemma capped_sizes: "length (capped items m n) \<le> m \<and> list_all (\<lambda>i. char_count i \<le> n) (capped items m n)"
  by (auto simp: capped_def list_all_iff truncate_count)

section \<open>Every card is small\<close>

definition card_capped :: "block_digest \<Rightarrow> bool" where
  "card_capped c =
     (length (dg_paths c) \<le> 4 \<and> length (dg_titles c) \<le> 5 \<and> length (dg_branches c) \<le> 3 \<and> length (cd_eval_titles c) \<le> 6
      \<and> length (cd_change_titles c) \<le> 8 \<and> length (cd_prompts c) \<le> 5 \<and> length (cd_files c) \<le> 15 \<and> length (cd_tool_counts c) \<le> 8
      \<and> list_all (\<lambda>s. char_count s \<le> 200)
          (dg_paths c @ dg_titles c @ dg_branches c @ cd_eval_titles c @ cd_change_titles c @ cd_prompts c @ cd_files c)
      \<and> length (dg_path_counts c) = length (dg_paths c) \<and> length (dg_title_counts c) = length (dg_titles c))"

lemma eval_evidence_capped:
  "length (snd (eval_evidence events)) \<le> 6 \<and> list_all (\<lambda>s. char_count s \<le> 80) (snd (eval_evidence events))"
proof (induction events rule: rev_induct)
  case (snoc e es)
  then show ?case
    by (auto simp: eval_evidence_def eval_step_def Let_def caps truncate_count split: prod.splits)
qed (simp add: eval_evidence_def)

lemma capped_le: "n \<le> k \<Longrightarrow> list_all (\<lambda>s. char_count s \<le> k) (capped items m n)"
  using capped_sizes[of items m n] by (auto simp: list_all_iff)

lemma capped_len: "m \<le> k \<Longrightarrow> length (capped items m n) \<le> k"
  using capped_sizes[of items m n] by simp

lemma base_card_capped: "card_capped (base_card dx db b events)"
proof -
  have e: "length (snd (eval_evidence events)) \<le> 6" "list_all (\<lambda>s. char_count s \<le> 200) (snd (eval_evidence events))"
    using eval_evidence_capped[of events] by (auto simp: list_all_iff)
  show ?thesis
    unfolding base_card_def card_capped_def capped_ranked_def
    using e by (auto simp: case_prod_beta Let_def caps intro!: capped_le capped_len) (simp_all add: capped_def)
qed

lemma tool_counts_len: "length (tool_counts tools) \<le> 8"
  by (simp add: tool_counts_def caps)

lemma evidence_capped: "card_capped c \<Longrightarrow> card_capped (add_estimation_evidence dx i c)"
  unfolding card_capped_def add_estimation_evidence_def Let_def
  by (auto simp: caps tool_counts_len intro!: capped_le capped_len)

lemma build_digest_capped: "build_digest dx db blocks i = Inr c \<Longrightarrow> card_capped c"
proof -
  assume b: "build_digest dx db blocks i = Inr c"
  have f: "card_capped (x\<lparr>dg_folder := f, cd_folder_path := p\<rparr>\<lparr>dg_pinned := q\<rparr>) = card_capped x" for x f p q
    by (simp add: card_capped_def)
  from b show ?thesis
    by (auto simp: build_digest_def Let_def base_card_capped evidence_capped f[simplified] split: option.splits if_splits sum.splits)
qed

section \<open>The card answers billing as the events did\<close>

text \<open>What billing sees of a block once it holds a card and its events are gone.\<close>

definition compressed_view :: "block_view \<Rightarrow> int \<Rightarrow> block_digest \<Rightarrow> block_view" where
  "compressed_view v i c = v\<lparr>vw_cards := (vw_cards v)(i \<mapsto> digest.truncate c), vw_events := (vw_events v)(i := [])\<rparr>"

lemma digest_truncate [simp]:
  "dg_folder (digest.truncate c) = dg_folder c" "dg_paths (digest.truncate c) = dg_paths c"
  "dg_path_counts (digest.truncate c) = dg_path_counts c" "dg_titles (digest.truncate c) = dg_titles c"
  "dg_title_counts (digest.truncate c) = dg_title_counts c"
  by (simp_all add: digest.truncate_def)

lemma built_card:
  assumes "build_digest dx db blocks i = Inr c" "blocks i = Some b"
  shows "\<not> bk_personal b \<Longrightarrow> dg_folder c = map_option (truncate_chars FOLDER_CHARS) (work_folder_for_block (bd_view db) i)"
    and "dg_paths c = dg_paths (base_card dx db b (vw_events (bd_view db) i))"
    and "dg_path_counts c = dg_path_counts (base_card dx db b (vw_events (bd_view db) i))"
    and "dg_titles c = dg_titles (base_card dx db b (vw_events (bd_view db) i))"
    and "dg_title_counts c = dg_title_counts (base_card dx db b (vw_events (bd_view db) i))"
  using assms
  by (auto simp: build_digest_def add_estimation_evidence_def Let_def split: if_splits sum.splits)

lemma card_folder:
  assumes "build_digest dx db blocks i = Inr c" "blocks i = Some b" "\<not> bk_personal b"
  shows "work_folder_for_block (compressed_view (bd_view db) i c) i =
    map_option (truncate_chars FOLDER_CHARS) (work_folder_for_block (bd_view db) i)"
proof -
  have "work_folder_for_block (compressed_view (bd_view db) i c) i = dg_folder c"
    by (simp add: work_folder_for_block_def compressed_view_def)
  with built_card(1)[OF assms] show ?thesis by simp
qed

lemma tally_distinct: "distinct (map fst votes) \<Longrightarrow> (k, n) \<in> set votes \<Longrightarrow> tally votes k = n"
proof (induction votes)
  case (Cons v votes)
  show ?case
  proof (cases "v = (k, n)")
    case True
    with Cons.prems(1) have "filter (\<lambda>v. fst v = k) votes = []" by (force simp: filter_empty_conv)
    with True show ?thesis by (simp add: tally_def)
  next
    case False
    with Cons.prems(2) have m: "(k, n) \<in> set votes" by simp
    then have "k \<in> fst ` set votes" by force
    with Cons.prems(1) m have "fst v \<noteq> k" "(k, n) \<in> set votes" by auto
    with Cons show ?thesis by (simp add: tally_def)
  qed
qed simp

text \<open>Ranking an initial part of a ranking again changes nothing.\<close>

lemma ranked_again: "ranked (take m (ranked votes)) = take m (ranked votes)"
proof -
  let ?top = "take m (ranked votes)"
  have d: "distinct (map fst ?top)" using ranked_distinct[of votes] by (simp add: take_map[symmetric])
  have "map (\<lambda>k. (k, tally ?top k)) (remdups (map fst ?top)) = map (\<lambda>x. x) ?top"
    unfolding distinct_remdups_id[OF d] map_map
    by (rule map_cong) (auto simp: tally_distinct[OF d])
  then have "ranked ?top = sort_key (\<lambda>(k, n). (- n, k)) ?top" by (simp add: ranked_def)
  also have "\<dots> = ?top"
    using ranked_sorted[of votes] by (intro sort_key_id_if_sorted) (simp add: take_map[symmetric] sorted_wrt_take)
  finally show ?thesis .
qed

lemma capped_ranked_exact:
  assumes "\<And>k. k \<in> fst ` set rs \<Longrightarrow> char_count k \<le> chars"
  shows "capped_ranked rs m chars = (map fst (take m rs), map snd (take m rs))"
proof -
  have "map (truncate_chars chars) (take m (map fst rs)) = map id (take m (map fst rs))"
    using assms by (intro map_cong) (auto dest!: in_set_takeD intro!: truncate_short)
  then show ?thesis by (simp add: capped_ranked_def capped_def take_map)
qed

lemma ranked_by_count_keys: "k \<in> fst ` set (ranked_by_count items) \<longleftrightarrow> k \<in> set items \<and> k \<noteq> []"
proof -
  have "k \<in> fst ` set (ranked_by_count items) \<longleftrightarrow> (\<exists>n. (k, n) \<in> set (ranked_by_count items))" by force
  then show ?thesis unfolding ranked_by_count_def ranked_mem by force
qed

lemma card_paths:
  assumes "build_digest dx db blocks i = Inr c" "blocks i = Some b" "vw_cards (bd_view db) i = None"
    and "list_all (\<lambda>p. p \<noteq> [] \<and> char_count p \<le> PROJECT_PATH_CHARS) (List.map_filter ce_path (vw_events (bd_view db) i))"
  shows "distinct_paths_for_blocks (compressed_view (bd_view db) i c) [i] = distinct_paths_for_blocks (bd_view db) [i]"
proof -
  let ?paths = "List.map_filter ce_path (vw_events (bd_view db) i)"
  let ?rs = "ranked (map (\<lambda>p. (p, 1)) ?paths)"
  have ne: "ranked_by_count ?paths = ?rs"
    using assms(4) by (simp add: ranked_by_count_def list_all_iff filter_id_conv)
  have "capped_ranked ?rs MAX_CARD_PATHS PROJECT_PATH_CHARS = (map fst (take MAX_CARD_PATHS ?rs), map snd (take MAX_CARD_PATHS ?rs))"
    by (rule capped_ranked_exact) (use assms(4) ranked_by_count_keys[of _ ?paths] ne in \<open>auto simp: list_all_iff\<close>)
  then have "dg_paths c = map fst (take MAX_CARD_PATHS ?rs)" "dg_path_counts c = map snd (take MAX_CARD_PATHS ?rs)"
    using built_card(2,3)[OF assms(1,2)] by (simp_all add: base_card_def ne case_prod_beta Let_def)
  then have "zip (dg_paths c) (dg_path_counts c) = take MAX_CARD_PATHS ?rs" by (simp add: zip_map_fst_snd)
  then show ?thesis
    using assms(3) ranked_again[of MAX_CARD_PATHS "map (\<lambda>p. (p, 1)) ?paths"]
    by (simp add: distinct_paths_for_blocks_def cards_and_live_ids_def compressed_view_def map_filter_simps MAX_CARD_PATHS_def MAX_PATHS_def)
qed

lemma card_titles_zip:
  assumes "length (dg_title_counts c) = length (dg_titles c)" "list_all (\<lambda>t. trim t = t \<and> t \<noteq> []) (dg_titles c)"
  shows "card_titles c = zip (dg_titles c) (dg_title_counts c)"
proof -
  have "map (\<lambda>(i, title). add_title_weight title
         (if i < length (dg_title_counts c) then dg_title_counts c ! i else 1)) (enumerate 0 (dg_titles c))
      = map (\<lambda>x. [x]) (zip (dg_titles c) (dg_title_counts c))"
    using assms by (intro nth_equalityI) (auto simp: nth_enumerate_eq add_title_weight_def list_all_length Let_def)
  then show ?thesis by (simp add: card_titles_def)
qed

lemma title_votes: "concat (map (\<lambda>t. add_title_weight t 1) titles) = map (\<lambda>i. (i, 1)) (filter (\<lambda>i. i \<noteq> []) (map trim titles))"
  by (induction titles) (auto simp: add_title_weight_def Let_def)

lemma card_title:
  assumes "build_digest dx db blocks i = Inr c" "blocks i = Some b" "vw_cards (bd_view db) i = None"
    and src: "list_all (\<lambda>e. claude_source (ce_source e) = starts_with ''claude'' (ce_source e)) (vw_events (bd_view db) i)"
    and short: "list_all (\<lambda>e. char_count (trim (ce_title e)) \<le> INVOICE_TITLE_CHARS) (vw_events (bd_view db) i)"
  shows "dominant_title_for_blocks (compressed_view (bd_view db) i c) [i] = dominant_title_for_blocks (bd_view db) [i]"
proof -
  let ?titles = "map (\<lambda>e. trim (ce_title e)) (filter (\<lambda>e. \<not> claude_source (ce_source e)) (vw_events (bd_view db) i))"
  let ?rs = "ranked_by_count ?titles"
  have same: "filter (\<lambda>e. \<not> starts_with ''claude'' (ce_source e)) (vw_events (bd_view db) i)
      = filter (\<lambda>e. \<not> claude_source (ce_source e)) (vw_events (bd_view db) i)"
    using src by (intro filter_cong) (auto simp: list_all_iff)
  have "capped_ranked ?rs MAX_INVOICE_TITLES INVOICE_TITLE_CHARS = (map fst (take MAX_INVOICE_TITLES ?rs), map snd (take MAX_INVOICE_TITLES ?rs))"
    by (rule capped_ranked_exact) (use short in \<open>auto simp: ranked_by_count_keys list_all_iff\<close>)
  then have t: "dg_titles c = map fst (take MAX_INVOICE_TITLES ?rs)" "dg_title_counts c = map snd (take MAX_INVOICE_TITLES ?rs)"
    using built_card(4,5)[OF assms(1,2)] by (simp_all add: base_card_def same case_prod_beta Let_def)
  have "list_all (\<lambda>t. trim t = t \<and> t \<noteq> []) (dg_titles c)"
  proof (unfold list_all_iff, intro ballI)
    fix x assume "x \<in> set (dg_titles c)"
    then have "x \<in> fst ` set ?rs" unfolding t(1) set_map by (auto dest: in_set_takeD)
    then show "trim x = x \<and> x \<noteq> []" unfolding ranked_by_count_keys by auto
  qed
  moreover have "length (dg_title_counts c) = length (dg_titles c)" by (simp add: t)
  ultimately have "card_titles (digest.truncate c) = zip (dg_titles c) (dg_title_counts c)"
    using card_titles_zip[of "digest.truncate c"] by simp
  then have votes: "card_titles (digest.truncate c) = take MAX_INVOICE_TITLES ?rs" by (simp add: t zip_map_fst_snd)
  have live: "dominant_title_for_blocks (bd_view db) [i] = (case ?rs of [] \<Rightarrow> None | (k, n) # _ \<Rightarrow> Some k)"
    using assms(3) by (simp add: dominant_title_for_blocks_def cards_and_live_ids_def map_filter_simps title_votes
        ranked_by_count_def top_ranked_def comp_def)
  have "dominant_title_for_blocks (compressed_view (bd_view db) i c) [i] = top_ranked (take MAX_INVOICE_TITLES ?rs)"
    by (simp add: dominant_title_for_blocks_def cards_and_live_ids_def compressed_view_def map_filter_simps votes)
  also have "\<dots> = (case take MAX_INVOICE_TITLES ?rs of [] \<Rightarrow> None | (k, n) # _ \<Rightarrow> Some k)"
    unfolding top_ranked_def ranked_by_count_def ranked_again ..
  also have "\<dots> = (case ?rs of [] \<Rightarrow> None | (k, n) # _ \<Rightarrow> Some k)"
    by (cases ?rs) (simp_all add: caps)
  finally show ?thesis using live by simp
qed

end
