(* ===== verification/Purge.thy ===== *)
theory Purge
  imports Digest Tz
begin

text \<open>
  The compression run (\<open>purge.rs\<close>): every block before the horizon gets a card, then the raw rows the card
  replaces are deleted, in one transaction. SQLite's \<open>datetime\<close>, the JSON printers and the page counts are
  the record \<open>purge_env\<close>.
\<close>

section \<open>State\<close>

record raw_db =
  rw_db :: block_db
  rw_event_ids :: "int list"
  rw_sessions :: "(string \<times> string) list"
  rw_pins :: "(string \<times> string) list"
  rw_tickets :: "(string \<times> bool) list"
  rw_cache :: nat
  rw_meta :: "string \<Rightarrow> string option"

record purge_report =
  pr_cutoff :: string
  pr_carded :: int
  pr_card_bytes :: int
  pr_card_median :: int
  pr_card_max :: int
  pr_cache_rows :: int
  pr_events :: int
  pr_sessions :: int
  pr_tickets :: int
  pr_bytes_freed :: int
  pr_snapshot :: "string option"
  pr_dry_run :: bool

record purge_env =
  pe_datetime :: "string \<Rightarrow> int option"
  pe_day :: "naive_date \<Rightarrow> string"
  pe_instant :: "instant \<Rightarrow> string"
  pe_offset :: fixed_offset
  pe_view :: "block_db \<Rightarrow> billing_db"
  pe_digest :: digest_env
  pe_card_json :: "block_digest \<Rightarrow> string"
  pe_report_json :: "purge_report \<Rightarrow> string"
  pe_now :: string
  pe_freed_pages :: "raw_db \<Rightarrow> raw_db \<Rightarrow> int"
  pe_page_size :: int

definition DIGEST_VERSION :: int where "DIGEST_VERSION = 2"

section \<open>Cards\<close>

record card_stats =
  cs_carded :: int
  cs_bytes :: int
  cs_median :: int
  cs_max :: int

definition card_stats_of :: "int list \<Rightarrow> card_stats" where
  "card_stats_of raw =
     (let sizes = sort raw
      in \<lparr>cs_carded = int (length sizes), cs_bytes = sum_list sizes,
          cs_median = (if length sizes div 2 < length sizes then sizes ! (length sizes div 2) else 0),
          cs_max = (if sizes = [] then 0 else List.last sizes)\<rparr>)"

definition build_card :: "purge_env \<Rightarrow> block_db \<Rightarrow> int \<Rightarrow> digest_error + block_digest" where
  "build_card pe db i = build_digest (pe_digest pe) (pe_view pe db) (db_blocks db) i"

definition uncarded :: "string \<Rightarrow> block_db \<Rightarrow> int list" where
  "uncarded horizon db = map bk_id (filter (\<lambda>b. bk_day b < horizon \<and> db_digests db (bk_id b) = None) (all_blocks db))"

fun card_loop :: "purge_env \<Rightarrow> int list \<Rightarrow> int list \<Rightarrow> block_db \<Rightarrow> digest_error + int list \<times> block_db" where
  "card_loop pe [] sizes db = Inr (sizes, db)"
| "card_loop pe (i # ids) sizes db =
     and_then (build_card pe db i) (\<lambda>c.
       card_loop pe ids (sizes @ [int (length (pe_card_json pe c))])
         (db\<lparr>db_digests := snd (write_digest i (DIGEST_VERSION, pe_now pe, pe_card_json pe c) (db_digests db))\<rparr>))"

definition card_old_blocks :: "purge_env \<Rightarrow> string \<Rightarrow> block_db \<Rightarrow> digest_error + card_stats \<times> block_db" where
  "card_old_blocks pe horizon db =
     and_then (card_loop pe (uncarded horizon db) [] db) (\<lambda>(sizes, db). Inr (card_stats_of sizes, db))"

section \<open>Deletes\<close>

definition before :: "purge_env \<Rightarrow> string \<Rightarrow> string \<Rightarrow> string \<Rightarrow> bool" where
  "before pe bound instant started =
     (started < bound
      \<and> (case (pe_datetime pe started, pe_datetime pe instant) of (Some a, Some b) \<Rightarrow> a < b | _ \<Rightarrow> False))"

definition kept_by_block :: "string \<Rightarrow> block_db \<Rightarrow> int \<Rightarrow> bool" where
  "kept_by_block horizon db e = list_ex (\<lambda>b. horizon \<le> bk_day b \<and> (bk_id b, e) \<in> db_links db) (all_blocks db)"

definition event_is_expired :: "purge_env \<Rightarrow> string \<Rightarrow> string \<Rightarrow> string \<Rightarrow> block_db \<Rightarrow> int \<Rightarrow> bool" where
  "event_is_expired pe instant horizon bound db e =
     (case db_event_start db e of
        None \<Rightarrow> False
      | Some started \<Rightarrow> before pe bound instant started \<and> \<not> kept_by_block horizon db e)"

text \<open>The links of a deleted event go with it.\<close>

definition delete_events :: "(int \<Rightarrow> bool) \<Rightarrow> raw_db \<Rightarrow> raw_db" where
  "delete_events expired rw =
     rw\<lparr>rw_event_ids := filter (\<lambda>e. \<not> expired e) (rw_event_ids rw),
        rw_db := (rw_db rw)\<lparr>db_event_start := (\<lambda>e. if expired e then None else db_event_start (rw_db rw) e),
                            db_event_session := (\<lambda>e. if expired e then None else db_event_session (rw_db rw) e),
                            db_links := {l \<in> db_links (rw_db rw). \<not> expired (snd l)}\<rparr>\<rparr>"

definition has_events :: "raw_db \<Rightarrow> string \<Rightarrow> bool" where
  "has_events rw session = list_ex (\<lambda>e. db_event_session (rw_db rw) e = Some session) (rw_event_ids rw)"

definition orphaned :: "purge_env \<Rightarrow> string \<Rightarrow> string \<Rightarrow> raw_db \<Rightarrow> string \<times> string \<Rightarrow> bool" where
  "orphaned pe bound instant rw r = (before pe bound instant (snd r) \<and> \<not> has_events rw (fst r))"

definition ticket_unused :: "raw_db \<Rightarrow> string \<times> bool \<Rightarrow> bool" where
  "ticket_unused rw t = (snd t \<and> \<not> list_ex (\<lambda>b. bk_jira b = Some (fst t)) (all_blocks (rw_db rw)))"

definition count_if :: "('a \<Rightarrow> bool) \<Rightarrow> 'a list \<Rightarrow> int" where
  "count_if P xs = int (length (filter P xs))"

definition purge_body :: "purge_env \<Rightarrow> naive_date \<Rightarrow> raw_db \<Rightarrow> digest_error + purge_report \<times> raw_db" where
  "purge_body pe horizon rw =
     (let day = pe_day pe horizon;
          instant = pe_instant pe (fst (utc_window_for_local_day (pe_offset pe) horizon));
          bound = pe_day pe (horizon + 2)
      in and_then (card_old_blocks pe day (rw_db rw)) (\<lambda>(cards, db).
           let rw = rw\<lparr>rw_db := db\<rparr>;
               expired = event_is_expired pe instant day bound db;
               events = count_if expired (rw_event_ids rw);
               rw = delete_events expired rw;
               rw = rw\<lparr>rw_pins := filter (\<lambda>p. \<not> orphaned pe bound instant rw p) (rw_pins rw)\<rparr>;
               sessions = count_if (orphaned pe bound instant rw) (rw_sessions rw);
               rw = rw\<lparr>rw_sessions := filter (\<lambda>s. \<not> orphaned pe bound instant rw s) (rw_sessions rw)\<rparr>;
               tickets = count_if (ticket_unused rw) (rw_tickets rw);
               rw = rw\<lparr>rw_tickets := filter (\<lambda>t. \<not> ticket_unused rw t) (rw_tickets rw)\<rparr>;
               cache_rows = int (rw_cache rw);
               rw = rw\<lparr>rw_cache := 0\<rparr>
           in Inr (\<lparr>pr_cutoff = day, pr_carded = cs_carded cards, pr_card_bytes = cs_bytes cards, pr_card_median = cs_median cards,
                    pr_card_max = cs_max cards, pr_cache_rows = cache_rows, pr_events = events, pr_sessions = sessions,
                    pr_tickets = tickets, pr_bytes_freed = 0, pr_snapshot = None, pr_dry_run = False\<rparr>, rw)))"

text \<open>A dry run does all of it and rolls back; an error rolls back too.\<close>

definition purge_rows :: "purge_env \<Rightarrow> naive_date \<Rightarrow> bool \<Rightarrow> raw_db \<Rightarrow> (digest_error + purge_report) \<times> raw_db" where
  "purge_rows pe horizon dry_run rw =
     (case purge_body pe horizon rw of
        Inl e \<Rightarrow> (Inl e, rw)
      | Inr (report, rw2) \<Rightarrow>
          if dry_run
          then (Inr (report\<lparr>pr_bytes_freed := max (pe_freed_pages pe rw rw2) 0 * pe_page_size pe, pr_dry_run := True\<rparr>), rw)
          else (Inr report, rw2))"

section \<open>The orchestrated run\<close>

datatype snapshot_outcome = SnapshotWritten string | StaleNotRemoved | PathNotUtf8 | SnapshotNotWritten

datatype run_error = SnapshotError snapshot_outcome | PurgeError digest_error

record prune_options =
  po_cutoff :: naive_date
  po_dry_run :: bool
  po_snapshot :: "snapshot_outcome option"
  po_size_before :: "int option"
  po_size_after :: "int option"

definition snapshot_step :: "snapshot_outcome option \<Rightarrow> run_error + string option" where
  "snapshot_step target =
     (case target of
        None \<Rightarrow> Inr None
      | Some (SnapshotWritten p) \<Rightarrow> Inr (Some p)
      | Some failed \<Rightarrow> Inl (SnapshotError failed))"

definition run_prune :: "purge_env \<Rightarrow> prune_options \<Rightarrow> raw_db \<Rightarrow> (run_error + purge_report) \<times> raw_db" where
  "run_prune pe opts rw =
     (if po_dry_run opts
      then (case purge_rows pe (po_cutoff opts) True rw of (res, rw) \<Rightarrow> (map_sum PurgeError id res, rw))
      else case snapshot_step (po_snapshot opts) of
             Inl e \<Rightarrow> (Inl e, rw)
           | Inr path \<Rightarrow>
               (case purge_rows pe (po_cutoff opts) False rw of
                  (Inl e, rw) \<Rightarrow> (Inl (PurgeError e), rw)
                | (Inr report, rw) \<Rightarrow>
                    (Inr (report\<lparr>pr_bytes_freed := (case (po_size_before opts, po_size_after opts) of
                               (Some a, Some b) \<Rightarrow> max 0 (a - b) | _ \<Rightarrow> pr_bytes_freed report),
                             pr_snapshot := path\<rparr>), rw)))"

definition LATCH_KEY :: string where "LATCH_KEY = ''last_prune_cutoff''"
definition LAST_REPORT_KEY :: string where "LAST_REPORT_KEY = ''last_prune_report''"
definition LAST_RUN_KEY :: string where "LAST_RUN_KEY = ''last_prune_at''"

definition put_meta :: "string \<Rightarrow> string \<Rightarrow> raw_db \<Rightarrow> raw_db" where
  "put_meta key v rw = rw\<lparr>rw_meta := (rw_meta rw)(key \<mapsto> v)\<rparr>"

definition prune_if_due :: "purge_env \<Rightarrow> prune_options \<Rightarrow> raw_db \<Rightarrow> (run_error + purge_report option) \<times> raw_db" where
  "prune_if_due pe opts rw =
     (let cutoff = pe_day pe (po_cutoff opts)
      in if rw_meta rw LATCH_KEY = Some cutoff then (Inr None, rw)
         else case run_prune pe opts rw of
                (Inl e, rw) \<Rightarrow> (Inl e, rw)
              | (Inr report, rw) \<Rightarrow>
                  (Inr (Some report),
                   put_meta LAST_RUN_KEY (pe_now pe) (put_meta LAST_REPORT_KEY (pe_report_json pe report) (put_meta LATCH_KEY cutoff rw))))"

definition last_prune :: "(string \<Rightarrow> purge_report option) \<Rightarrow> raw_db \<Rightarrow> (unit + (purge_report \<times> string) option)" where
  "last_prune read_report rw =
     (case (rw_meta rw LAST_REPORT_KEY, rw_meta rw LAST_RUN_KEY) of
        (Some report_json, Some ran_at) \<Rightarrow> (case read_report report_json of Some r \<Rightarrow> Inr (Some (r, ran_at)) | None \<Rightarrow> Inl ())
      | _ \<Rightarrow> Inr None)"

section \<open>What the transaction does to the block tables\<close>

text \<open>Blocks, their counter and the journal stay; a card is only ever added; links and event rows only go.\<close>

definition compressed_from :: "block_db \<Rightarrow> block_db \<Rightarrow> bool" where
  "compressed_from db db' \<longleftrightarrow>
     db_blocks db' = db_blocks db \<and> db_next db' = db_next db \<and> db_journal db' = db_journal db \<and> db_skips db' = db_skips db
     \<and> (\<forall>i c. db_digests db i = Some c \<longrightarrow> db_digests db' i = Some c)
     \<and> db_links db' \<subseteq> db_links db
     \<and> (\<forall>e. db_event_start db' e = db_event_start db e \<or> db_event_start db' e = None)"

lemma compressed_from_refl: "compressed_from db db"
  by (simp add: compressed_from_def)

lemma all_blocks_digests [simp]: "all_blocks (db\<lparr>db_digests := ds\<rparr>) = all_blocks db"
  by (simp add: all_blocks_def)

lemma write_digest_keeps: "ds i = Some c \<Longrightarrow> snd (write_digest j d ds) i = Some c"
  by (auto simp: write_digest_def split: option.splits)

lemma card_loop_effect:
  "card_loop pe ids sizes db = Inr (sizes', db') \<Longrightarrow>
     (\<exists>ds. db' = db\<lparr>db_digests := ds\<rparr>) \<and> (\<forall>i c. db_digests db i = Some c \<longrightarrow> db_digests db' i = Some c)
     \<and> (\<forall>i\<in>set ids. db_digests db' i \<noteq> None)"
proof (induction ids arbitrary: sizes db)
  case Nil
  then show ?case by (auto intro: exI[of _ "db_digests db"])
next
  case (Cons i ids)
  then obtain c where "build_card pe db i = Inr c" by (auto simp: and_then_Inr)
  let ?db = "db\<lparr>db_digests := snd (write_digest i (DIGEST_VERSION, pe_now pe, pe_card_json pe c) (db_digests db))\<rparr>"
  have "card_loop pe ids (sizes @ [int (length (pe_card_json pe c))]) ?db = Inr (sizes', db')"
    using Cons.prems \<open>build_card pe db i = Inr c\<close> by simp
  from Cons.IH[OF this] obtain ds where ds: "db' = ?db\<lparr>db_digests := ds\<rparr>"
    and keep: "\<forall>j d. db_digests ?db j = Some d \<longrightarrow> db_digests db' j = Some d" and rest: "\<forall>j\<in>set ids. db_digests db' j \<noteq> None"
    by blast
  have "db_digests ?db i \<noteq> None" by (simp add: write_digest_def split: option.splits)
  with keep have "db_digests db' i \<noteq> None" by blast
  moreover have "\<forall>j d. db_digests db j = Some d \<longrightarrow> db_digests db' j = Some d"
    using keep by (simp add: write_digest_keeps)
  moreover have "\<exists>ds. db' = db\<lparr>db_digests := ds\<rparr>" using ds by (intro exI[of _ ds]) simp
  ultimately show ?case using rest by simp
qed

text \<open>Rows are found under ids counted from 1.\<close>

definition counted :: "block_db \<Rightarrow> bool" where
  "counted db = (\<forall>i b. db_blocks db i = Some b \<longrightarrow> bk_id b = i \<and> 1 \<le> i \<and> i < db_next db)"

lemma counted_all: "counted db \<Longrightarrow> db_blocks db i = Some b \<Longrightarrow> b \<in> set (all_blocks db) \<and> bk_id b = i"
  unfolding counted_def all_blocks_def set_map_filter_iff by force

lemma all_counted: "b \<in> set (all_blocks db) \<Longrightarrow> counted db \<Longrightarrow> db_blocks db (bk_id b) = Some b"
  unfolding counted_def all_blocks_def set_map_filter_iff by force

lemma purge_body_effect:
  assumes "purge_body pe horizon rw = Inr (report, rw')"
  shows "compressed_from (rw_db rw) (rw_db rw')"
    and "rw_meta rw' = rw_meta rw"
    and "counted (rw_db rw) \<Longrightarrow> db_blocks (rw_db rw) i = Some b \<Longrightarrow> bk_day b < pe_day pe horizon \<Longrightarrow> db_digests (rw_db rw') i \<noteq> None"
    and "counted (rw_db rw) \<Longrightarrow> db_blocks (rw_db rw) i = Some b \<Longrightarrow> pe_day pe horizon \<le> bk_day b \<Longrightarrow>
      (i, e) \<in> db_links (rw_db rw) \<Longrightarrow> (i, e) \<in> db_links (rw_db rw') \<and> db_event_start (rw_db rw') e = db_event_start (rw_db rw) e"
proof -
  let ?day = "pe_day pe horizon"
  let ?instant = "pe_instant pe (fst (utc_window_for_local_day (pe_offset pe) horizon))"
  let ?bound = "pe_day pe (horizon + 2)"
  from assms obtain sizes db where loop: "card_loop pe (uncarded ?day (rw_db rw)) [] (rw_db rw) = Inr (sizes, db)"
    by (auto simp: purge_body_def card_old_blocks_def and_then_Inr Let_def)
  let ?expired = "event_is_expired pe ?instant ?day ?bound db"
  have rw': "rw_db rw' = rw_db (delete_events ?expired (rw\<lparr>rw_db := db\<rparr>))" "rw_meta rw' = rw_meta rw"
    using assms loop by (auto simp: purge_body_def card_old_blocks_def delete_events_def Let_def)
  from card_loop_effect[OF loop] obtain ds where ds: "db = (rw_db rw)\<lparr>db_digests := ds\<rparr>"
    and keep: "\<forall>i c. db_digests (rw_db rw) i = Some c \<longrightarrow> db_digests db i = Some c"
    and carded: "\<forall>i\<in>set (uncarded ?day (rw_db rw)). db_digests db i \<noteq> None" by blast
  show "compressed_from (rw_db rw) (rw_db rw')"
    using keep unfolding rw'(1) delete_events_def ds by (auto simp: compressed_from_def)
  show "rw_meta rw' = rw_meta rw" by (rule rw'(2))
  have digests: "db_digests (rw_db rw') = db_digests db" by (simp add: rw' delete_events_def)
  show "db_digests (rw_db rw') i \<noteq> None"
    if c: "counted (rw_db rw)" and b: "db_blocks (rw_db rw) i = Some b" and old: "bk_day b < ?day"
  proof (cases "db_digests (rw_db rw) i")
    case None
    with counted_all[OF c b] old have "i \<in> set (uncarded ?day (rw_db rw))"
      unfolding uncarded_def set_map by force
    with carded digests show ?thesis by auto
  next
    case (Some d)
    with keep have "db_digests db i = Some d" by blast
    with digests show ?thesis by simp
  qed
  show "(i, e) \<in> db_links (rw_db rw') \<and> db_event_start (rw_db rw') e = db_event_start (rw_db rw) e"
    if c: "counted (rw_db rw)" and b: "db_blocks (rw_db rw) i = Some b" and new: "?day \<le> bk_day b"
      and l: "(i, e) \<in> db_links (rw_db rw)"
  proof -
    have "b \<in> set (all_blocks db)" "bk_id b = i" using counted_all[OF c b] by (simp_all add: ds)
    with new l have "kept_by_block ?day db e" by (auto simp: kept_by_block_def list_ex_iff ds)
    then have "\<not> ?expired e" by (simp add: event_is_expired_def split: option.splits)
    with l show ?thesis by (simp add: rw' delete_events_def ds)
  qed
qed

text \<open>What a deleted event leaves behind: a card on every block it was linked to.\<close>

lemma deleted_event_carded:
  assumes "purge_body pe horizon rw = Inr (report, rw')" "counted (rw_db rw)" "db_ok (rw_db rw)"
    and "(i, e) \<in> db_links (rw_db rw)" "db_event_start (rw_db rw') e = None"
  shows "db_digests (rw_db rw') i \<noteq> None"
proof -
  from db_okD(3)[OF assms(3,4)] obtain b where b: "db_blocks (rw_db rw) i = Some b" by auto
  from db_okD(4)[OF assms(3,4)] have ev: "db_event_start (rw_db rw) e \<noteq> None" .
  show ?thesis
  proof (cases "bk_day b < pe_day pe horizon")
    case True
    from purge_body_effect(3)[OF assms(1,2) b True] show ?thesis .
  next
    case False
    then have "pe_day pe horizon \<le> bk_day b" by simp
    from purge_body_effect(4)[OF assms(1,2) b this assms(4)] ev assms(5) show ?thesis by simp
  qed
qed

lemma purge_rows_cases:
  assumes "purge_rows pe horizon dry rw = (res, rw')"
  obtains (same) "rw' = rw" "dry \<or> isl res" | (committed) report where "\<not> dry" "res = Inr report" "purge_body pe horizon rw = Inr (report, rw')"
  using assms that by (auto simp: purge_rows_def split: sum.splits prod.splits if_splits)

lemma run_prune_cases:
  assumes "run_prune pe opts rw = (res, rw')"
  obtains (same) "rw' = rw" "po_dry_run opts \<or> isl res"
  | (committed) report report' where "\<not> po_dry_run opts" "res = Inr report'" "purge_body pe (po_cutoff opts) rw = Inr (report, rw')"
proof (cases "po_dry_run opts")
  case True
  obtain r w where p: "purge_rows pe (po_cutoff opts) True rw = (r, w)" by fastforce
  from p have "w = rw" by (cases rule: purge_rows_cases) auto
  with assms True p show ?thesis by (intro same) (auto simp: run_prune_def)
next
  case False
  show ?thesis
  proof (cases "snapshot_step (po_snapshot opts)")
    case (Inl e)
    with assms False show ?thesis by (intro same) (auto simp: run_prune_def)
  next
    case (Inr path)
    obtain r w where p: "purge_rows pe (po_cutoff opts) False rw = (r, w)" by fastforce
    then show ?thesis
    proof (cases rule: purge_rows_cases)
      case same
      then obtain e where "r = Inl e" by (cases r) auto
      with assms False Inr p same(1) show ?thesis by (intro that(1)) (auto simp: run_prune_def)
    next
      case (committed report)
      with assms False Inr p show ?thesis by (intro that(2)) (auto simp: run_prune_def)
    qed
  qed
qed

section \<open>The due check\<close>

lemma due_cases:
  assumes "prune_if_due pe opts rw = (res, rw')"
  obtains (not_due) "rw_meta rw LATCH_KEY = Some (pe_day pe (po_cutoff opts))" "res = Inr None" "rw' = rw"
  | (failed) e where "res = Inl e" "rw' = rw"
  | (ran) report rw2 where "res = Inr (Some report)" "run_prune pe opts rw = (Inr report, rw2)"
      "rw' = put_meta LAST_RUN_KEY (pe_now pe) (put_meta LAST_REPORT_KEY (pe_report_json pe report) (put_meta LATCH_KEY (pe_day pe (po_cutoff opts)) rw2))"
proof (cases "rw_meta rw LATCH_KEY = Some (pe_day pe (po_cutoff opts))")
  case True
  with assms show ?thesis by (intro not_due) (auto simp: prune_if_due_def)
next
  case False
  obtain r w where p: "run_prune pe opts rw = (r, w)" by fastforce
  show ?thesis
  proof (cases r)
    case (Inl e)
    from p Inl have "w = rw" by (cases rule: run_prune_cases) auto
    with assms False p Inl show ?thesis by (intro failed) (auto simp: prune_if_due_def Let_def)
  next
    case (Inr report)
    with assms False p show ?thesis by (intro ran) (auto simp: prune_if_due_def Let_def)
  qed
qed

lemma latch_set:
  "prune_if_due pe opts rw = (Inr r, rw') \<Longrightarrow> rw_meta rw' LATCH_KEY = Some (pe_day pe (po_cutoff opts))"
  by (erule due_cases) (auto simp: put_meta_def LATCH_KEY_def LAST_RUN_KEY_def LAST_REPORT_KEY_def)

text \<open>Once a cutoff is done, checking again does nothing.\<close>

lemma due_once:
  "prune_if_due pe opts rw = (Inr r, rw') \<Longrightarrow> prune_if_due pe opts rw' = (Inr None, rw')"
  using latch_set[of pe opts rw r rw'] by (simp add: prune_if_due_def)

end
