(* ===== verification/RouteText.thy ===== *)
theory RouteText
  imports Purge "HOL-Library.Multiset"
begin

text \<open>
  What routing reads off an event (\<open>routing.rs\<close>, \<open>routing_context.rs\<close>): the host of a URL, the projects its
  details name, the project the activity around it points to. \<open>str::to_lowercase\<close> and the iteration order of
  a \<open>HashMap\<close> are parameters.
\<close>

section \<open>Hosts\<close>

definition domain_of :: "(string \<Rightarrow> string) \<Rightarrow> string \<Rightarrow> string option" where
  "domain_of lower url =
     (let rest = (case str_find ''://'' url of
                    None \<Rightarrow> url
                  | Some i \<Rightarrow> (let after = drop (i + 3) url
                              in case str_find ''://'' after of None \<Rightarrow> after | Some j \<Rightarrow> take j after));
          host = takeWhile (\<lambda>c. c \<notin> set ''/?#'') rest;
          host = last_segment (CHR ''@'') host;
          host = first_segment (CHR '':'') host;
          host = trim host
      in if host = [] then None else Some (lower host))"

section \<open>Projects named in the details\<close>

text \<open>The longest prefix without any of the given strings: the classes \<open>[^/\s]\<close> and \<open>[^/|>)\s'`]\<close>.\<close>

fun upto_any :: "string list \<Rightarrow> string \<Rightarrow> string \<times> string" where
  "upto_any stops [] = ([], [])"
| "upto_any stops (c # cs) =
     (if list_ex (\<lambda>p. starts_with p (c # cs)) stops then ([], c # cs)
      else (let (a, b) = upto_any stops cs in (c # a, b)))"

definition segment_stops :: "string list" where
  "segment_stops = ''/'' # white_space"

definition key_stops :: "string list" where
  "key_stops = [''/'', ''|'', ''>'', '')'', [CHR 0x27], [CHR 0x60]] @ white_space"

text \<open>\<open>[^/\s]+\<close> followed by a literal, and the five alternatives of the pattern before its capture.\<close>

definition after_segment :: "string \<Rightarrow> string \<Rightarrow> string option" where
  "after_segment lit s =
     (let (a, b) = upto_any segment_stops s in if a = [] then None else strip_prefix lit b)"

definition after_root :: "string \<Rightarrow> string option list" where
  "after_root s =
     [Option.bind (strip_prefix ''github.com/'' s) (after_segment ''/''),
      strip_prefix ''Desktop/Work/'' s,
      strip_prefix ''~/Work/'' s,
      Option.bind (strip_prefix ''/Users/'' s) (after_segment ''/Work/''),
      Option.bind (strip_prefix ''/home/'' s) (after_segment ''/Work/'')]"

definition key_here :: "string \<Rightarrow> (string \<times> string) option" where
  "key_here s =
     find_some (\<lambda>tail. case tail of
         None \<Rightarrow> None
       | Some r \<Rightarrow> (let (key, rest) = upto_any key_stops r in if key = [] then None else Some (key, rest))) (after_root s)"

lemma upto_any_append: "upto_any stops s = (a, b) \<Longrightarrow> s = a @ b"
  by (induction stops s arbitrary: a b rule: upto_any.induct) (auto split: if_splits prod.splits)

lemma after_segment_shorter: "after_segment lit s = Some r \<Longrightarrow> length r \<le> length s"
  by (auto simp: after_segment_def strip_prefix_Some split: prod.splits if_splits dest: upto_any_append)

lemma after_root_shorter: "Some r \<in> set (after_root s) \<Longrightarrow> length r \<le> length s"
  unfolding after_root_def eq_commute[of "Some r"] list.set insert_iff empty_iff
  by (auto simp: eq_commute[of "Some r"] strip_prefix_Some bind_eq_Some_conv dest!: after_segment_shorter)

lemma key_here_shorter: "key_here s = Some (key, rest) \<Longrightarrow> length rest < length s"
proof -
  assume "key_here s = Some (key, rest)"
  then obtain r where r: "Some r \<in> set (after_root s)" "upto_any key_stops r = (key, rest)" "key \<noteq> []"
    unfolding key_here_def
    by (auto dest!: find_some_Some simp: Let_def split: option.splits prod.splits if_splits)
  from upto_any_append[OF r(2)] r(3) after_root_shorter[OF r(1)] show ?thesis by (cases key) auto
qed

text \<open>\<open>captures_iter\<close>: leftmost matches, each search starting where the last match ended.\<close>

function captures :: "string \<Rightarrow> string list" where
  "captures s =
     (case key_here s of
        Some (key, rest) \<Rightarrow> key # captures rest
      | None \<Rightarrow> (case s of [] \<Rightarrow> [] | c # cs \<Rightarrow> captures cs))"
  by pat_completeness auto
termination
  by (relation "measure length") (auto dest: key_here_shorter)

declare captures.simps [simp del]

definition named_project :: "string option \<Rightarrow> string list \<Rightarrow> string option" where
  "named_project details options =
     (case btree_keys (filter (\<lambda>k. k \<in> set options) (captures (case details of Some d \<Rightarrow> d | None \<Rightarrow> []))) of
        [key] \<Rightarrow> Some key
      | _ \<Rightarrow> None)"

section \<open>The project of the activity around an event\<close>

definition CONTEXT_WINDOW_MINUTES :: int where "CONTEXT_WINDOW_MINUTES = 10"
definition DOMINANCE_RATIO :: nat where "DOMINANCE_RATIO = 3"
definition STRETCH_MINUTES :: int where "STRETCH_MINUTES = 5"

definition context_key :: "string \<Rightarrow> string \<Rightarrow> string option" where
  "context_key path home =
     (let base = (case str_find ''/.claude/'' path of Some i \<Rightarrow> take i path | None \<Rightarrow> path)
      in find_some (\<lambda>root. Option.bind (strip_prefix (home @ ''/'' @ root) base) (\<lambda>rest.
             let rest = trim_start_char (CHR ''/'') rest; first = first_segment (CHR ''/'') rest
             in if rest = [] \<or> first = [] then None else Some first))
           [''Work'', ''Desktop/Work'', ''Desktop/Projects''])"

type_synonym activity = "(instant \<times> string) list"

type_synonym count_order = "(string \<times> nat) list \<Rightarrow> (string \<times> nat) list"

definition keys_near :: "instant \<Rightarrow> activity \<Rightarrow> int \<Rightarrow> string list" where
  "keys_near event_time ctx window_minutes =
     map snd (filter (\<lambda>(t, k). \<bar>num_seconds (t - event_time)\<bar> \<le> window_minutes * 60) ctx)"

definition dominant_key_within :: "count_order \<Rightarrow> instant \<Rightarrow> activity \<Rightarrow> int \<Rightarrow> string option" where
  "dominant_key_within hash event_time ctx window_minutes =
     (let near = keys_near event_time ctx window_minutes;
          counts = hash (map (\<lambda>k. (k, count_list near k)) (remdups near))
      in case sort_key (\<lambda>(k, n). - int n) counts of
           [] \<Rightarrow> None
         | [(key, n)] \<Rightarrow> Some key
         | (top_key, top_n) # (second_key, second_n) # rest \<Rightarrow>
             if DOMINANCE_RATIO * second_n \<le> top_n then Some top_key else None)"

definition dominant_key :: "count_order \<Rightarrow> instant \<Rightarrow> activity \<Rightarrow> string option" where
  "dominant_key hash event_time ctx = dominant_key_within hash event_time ctx CONTEXT_WINDOW_MINUTES"

definition context_hit :: "clock \<Rightarrow> count_order \<Rightarrow> string \<Rightarrow> string list \<Rightarrow> activity \<Rightarrow> string option" where
  "context_hit ck hash started_at options ctx =
     Option.bind (from_rfc3339 ck started_at) (\<lambda>event_time.
       Option.bind (dominant_key hash event_time ctx) (\<lambda>key. if key \<in> set options then Some key else None))"

definition brackets :: "instant \<Rightarrow> activity \<Rightarrow> bool" where
  "brackets event_time activity =
     (list_ex (\<lambda>(t, k). t \<le> event_time \<and> event_time - t \<le> minutes STRETCH_MINUTES) activity
      \<and> list_ex (\<lambda>(t, k). event_time \<le> t \<and> t - event_time \<le> minutes STRETCH_MINUTES) activity)"

section \<open>Dominance does not depend on the order of the map\<close>

definition permutes :: "('a list \<Rightarrow> 'a list) \<Rightarrow> bool" where
  "permutes h \<longleftrightarrow> (\<forall>xs. mset (h xs) = mset xs)"

lemma dominant_key_iff:
  assumes "permutes hash"
  shows "dominant_key_within hash t ctx w = Some k \<longleftrightarrow>
     k \<in> set (keys_near t ctx w)
     \<and> (\<forall>j\<in>set (keys_near t ctx w). j \<noteq> k \<longrightarrow> 3 * count_list (keys_near t ctx w) j \<le> count_list (keys_near t ctx w) k)"
proof -
  let ?near = "keys_near t ctx w"
  let ?c = "\<lambda>k. (k, count_list ?near k)"
  let ?s = "sort_key (\<lambda>(k, n). - int n) (hash (map ?c (remdups ?near)))"
  have m: "mset ?s = mset (map ?c (remdups ?near))" using assms by (simp add: permutes_def)
  have s: "set ?s = ?c ` set ?near" using mset_eq_setD[OF m] by simp
  have d: "distinct ?s"
    using mset_eq_imp_distinct_iff[OF m] by (auto simp: distinct_map inj_on_def)
  have o: "sorted (map (\<lambda>(k, n). - int n) ?s)" by simp
  have pos: "0 < count_list ?near j" if "j \<in> set ?near" for j
    using that by (metis count_list_0_iff neq0_conv)
  show ?thesis
  proof (cases ?s)
    case Nil
    with s have e: "set ?near = {}" by (metis empty_is_image empty_set)
    have "dominant_key_within hash t ctx w = None" by (simp add: dominant_key_within_def Let_def Nil)
    with e show ?thesis by simp
  next
    case (Cons a as)
    obtain x where a: "a = ?c x" "x \<in> set ?near" using s Cons by auto
    show ?thesis
    proof (cases as)
      case Nil
      with Cons have one: "?s = [a]" by simp
      with s a have e: "set ?near = {x}" by auto
      have "dominant_key_within hash t ctx w = Some x" by (simp add: dominant_key_within_def Let_def one a(1))
      with e show ?thesis by auto
    next
      case (Cons b bs)
      with \<open>?s = a # as\<close> have two: "?s = a # b # bs" by simp
      then obtain y where b: "b = ?c y" "y \<in> set ?near" using s by auto
      have xy: "x \<noteq> y" using d two a b by auto
      have le: "count_list ?near y \<le> count_list ?near x" using o two a b by simp
      have rest: "count_list ?near j \<le> count_list ?near y" if "j \<in> set ?near" "j \<noteq> x" for j
      proof -
        have "?c j \<in> set (a # b # bs)" using that s two by auto
        then show ?thesis using o that unfolding two a b by auto
      qed
      have r: "dominant_key_within hash t ctx w = (if 3 * count_list ?near y \<le> count_list ?near x then Some x else None)"
        by (simp add: dominant_key_within_def Let_def two a(1) b(1) DOMINANCE_RATIO_def)
      show ?thesis
      proof (cases "k = x")
        case True
        have "(\<forall>j\<in>set ?near. j \<noteq> x \<longrightarrow> 3 * count_list ?near j \<le> count_list ?near x)
            \<longleftrightarrow> 3 * count_list ?near y \<le> count_list ?near x"
        proof (intro iffI ballI impI)
          fix j assume le: "3 * count_list ?near y \<le> count_list ?near x" and j: "j \<in> set ?near" "j \<noteq> x"
          from rest[OF j] le show "3 * count_list ?near j \<le> count_list ?near x" by linarith
        qed (use b(2) xy in auto)
        with r a(2) True show ?thesis by auto
      next
        case False
        have "\<not> (k \<in> set ?near \<and> 3 * count_list ?near x \<le> count_list ?near k)"
          using rest[of k] le pos[OF a(2)] False by fastforce
        with r False a(2) show ?thesis by auto
      qed
    qed
  qed
qed

end
