(* ===== verification/Routing.thy ===== *)
theory Routing
  imports RouteText Decisions
begin

text \<open>
  Routing browser and Slack events to projects (\<open>routing.rs\<close> with \<open>routing_rows.rs\<close>, \<open>routing_shortlist.rs\<close>,
  \<open>routing_absorb.rs\<close>, \<open>routing_dismiss.rs\<close>, \<open>routing_noise.rs\<close>, \<open>routing_contract.rs\<close>). The label lives on the
  event row; an owner rule, a project named in the text, the activity around the event, the model and at last
  the absorb step may set it. The tables are the record \<open>route_db\<close>; home and its directories, the clock, the
  printers and the classifier are parameters.
\<close>

section \<open>Labels and rules\<close>

datatype label_origin = Rule | Link | Context | Fix | Guess | Dismissed | Noise

definition origin_str :: "label_origin \<Rightarrow> string" where
  "origin_str v =
     (case v of Rule \<Rightarrow> ''rule'' | Link \<Rightarrow> ''link'' | Context \<Rightarrow> ''context'' | Fix \<Rightarrow> ''fix'' | Guess \<Rightarrow> ''guess''
      | Dismissed \<Rightarrow> ''dismissed'' | Noise \<Rightarrow> ''noise'')"

definition parse_origin :: "string \<Rightarrow> label_origin option" where
  "parse_origin s =
     (if s = ''rule'' then Some Rule else if s = ''link'' then Some Link else if s = ''context'' then Some Context
      else if s = ''fix'' then Some Fix else if s = ''guess'' then Some Guess
      else if s = ''dismissed'' then Some Dismissed else if s = ''noise'' then Some Noise else None)"

datatype rule_kind = DomainRule | SlackChannel | ContainerRule

definition rule_kind_str :: "rule_kind \<Rightarrow> string" where
  "rule_kind_str k = (case k of DomainRule \<Rightarrow> ''domain'' | SlackChannel \<Rightarrow> ''slack_channel'' | ContainerRule \<Rightarrow> ''container'')"

definition parse_rule_kind :: "string \<Rightarrow> rule_kind option" where
  "parse_rule_kind s =
     (if s = ''domain'' then Some DomainRule else if s = ''slack_channel'' then Some SlackChannel
      else if s = ''container'' then Some ContainerRule else None)"

definition SOURCE_FIREFOX :: string where "SOURCE_FIREFOX = ''firefox''"
definition SOURCE_SLACK :: string where "SOURCE_SLACK = ''slack''"
definition IGNORE_FOLDER :: string where "IGNORE_FOLDER = ''__ignore__''"
definition SHORTLIST_MAX :: nat where "SHORTLIST_MAX = 6"
definition EXAMPLES_MAX :: nat where "EXAMPLES_MAX = 5"
definition EXAMPLE_CHARS_EACH :: nat where "EXAMPLE_CHARS_EACH = 60"
definition EXAMPLE_CHARS_TOTAL :: nat where "EXAMPLE_CHARS_TOTAL = 300"
definition RECENT_PROJECT_DAYS :: int where "RECENT_PROJECT_DAYS = 14"
definition NOISE_MIN_DISMISSED :: int where "NOISE_MIN_DISMISSED = 2"

section \<open>State\<close>

record event_row =
  er_id :: int
  er_source :: string
  er_started :: string
  er_title :: string
  er_details :: "string option"
  er_container :: "string option"
  er_path :: "string option"
  er_origin :: "string option"
  er_confidence :: "rat option"
  er_ranking :: "string option"

record stored_rule =
  sr_id :: int
  sr_kind :: string
  sr_pattern :: string
  sr_folder :: string
  sr_created :: string

record route_rule_row =
  rr_id :: int
  rr_kind :: rule_kind
  rr_pattern :: string
  rr_folder :: string
  rr_created :: string

record route_db =
  ro_events :: "event_row list"
  ro_rules :: "stored_rule list"
  ro_next_rule :: int
  ro_log :: "stored_decision list"
  ro_tables :: billing_tables

record route_env =
  re_clock :: clock
  re_unicode :: unicode
  re_lower :: "string \<Rightarrow> string"
  re_offset :: fixed_offset
  re_home :: "string option"
  re_dirs :: "string list"
  re_codec :: json_codec
  re_state :: "string \<Rightarrow> string \<Rightarrow> string option \<Rightarrow> string option \<Rightarrow> string"
  re_hash :: count_order
  re_now :: string

record guess =
  gu_folder :: string
  gu_confidence :: rat
  gu_runner_up :: rat
  gu_abstain :: rat

record route_rule =
  abstain_margin :: rat
  runner_up_ratio :: rat

record routed_event =
  rv_id :: int
  rv_source :: string
  rv_started :: string
  rv_title :: string
  rv_details :: "string option"
  rv_container :: "string option"
  rv_folder :: "string option"
  rv_origin :: "label_origin option"
  rv_confidence :: "rat option"
  rv_ranking :: "ranked_option list option"

record pending_event =
  pd_event :: routed_event
  pd_options :: "string list"
  pd_state :: string
  pd_examples :: "string \<Rightarrow> string list option"

record answer =
  an_id :: int
  an_state :: string
  an_options :: "string list"
  an_ranking :: ranking
  an_guess :: "guess option"

type_synonym classifier = "string \<Rightarrow> string list \<Rightarrow> (string \<Rightarrow> string list option) \<Rightarrow> ranking option"

type_synonym rule_hits = "(int \<times> string \<times> label_origin) list"

definition work_roots :: "route_env \<Rightarrow> string list" where
  "work_roots env = (case re_home env of None \<Rightarrow> [] | Some h \<Rightarrow> map (\<lambda>r. h @ ''/'' @ r) [''Work'', ''Desktop/Work''])"

definition project_keys :: "route_env \<Rightarrow> route_db \<Rightarrow> string list" where
  "project_keys env db =
     btree_keys (map fm_folder (list_folders (ro_tables db)) @ (if work_roots env = [] then [] else re_dirs env))"

definition folder_path_of :: "route_env \<Rightarrow> string \<Rightarrow> string" where
  "folder_path_of env folder = (case work_roots env of prefix # _ \<Rightarrow> prefix @ ''/'' @ folder | [] \<Rightarrow> folder)"

section \<open>Writing labels\<close>

definition update_event :: "int \<Rightarrow> (event_row \<Rightarrow> event_row) \<Rightarrow> route_db \<Rightarrow> route_db" where
  "update_event i f db = db\<lparr>ro_events := map (\<lambda>e. if er_id e = i then f e else e) (ro_events db)\<rparr>"

definition set_label :: "route_env \<Rightarrow> int \<Rightarrow> string \<Rightarrow> label_origin \<Rightarrow> rat option \<Rightarrow> route_db \<Rightarrow> route_db" where
  "set_label env i folder origin confidence =
     update_event i (\<lambda>e. e\<lparr>er_path := Some (folder_path_of env folder), er_origin := Some (origin_str origin),
                           er_confidence := confidence\<rparr>)"

definition set_dismissed :: "int \<Rightarrow> route_db \<Rightarrow> route_db" where
  "set_dismissed i = update_event i (\<lambda>e. e\<lparr>er_path := None, er_origin := Some (origin_str Dismissed), er_confidence := None\<rparr>)"

definition set_noise :: "int \<Rightarrow> route_db \<Rightarrow> route_db" where
  "set_noise i = update_event i (\<lambda>e. e\<lparr>er_path := None, er_origin := Some (origin_str Noise), er_confidence := None\<rparr>)"

section \<open>Rules\<close>

definition kind_matches :: "route_env \<Rightarrow> rule_kind \<Rightarrow> string \<Rightarrow> event_row \<Rightarrow> bool" where
  "kind_matches env kind pattern row =
     (case kind of
        DomainRule \<Rightarrow> er_source row = SOURCE_FIREFOX \<and> Option.bind (er_details row) (domain_of (re_lower env)) = Some pattern
      | SlackChannel \<Rightarrow> er_source row = SOURCE_SLACK \<and> er_title row = pattern
      | ContainerRule \<Rightarrow> er_container row = Some pattern)"

definition list_rules :: "route_db \<Rightarrow> route_rule_row list" where
  "list_rules db =
     List.map_filter (\<lambda>r. map_option (\<lambda>kind. \<lparr>rr_id = sr_id r, rr_kind = kind, rr_pattern = sr_pattern r,
         rr_folder = sr_folder r, rr_created = sr_created r\<rparr>) (parse_rule_kind (sr_kind r)))
       (sort_key sr_id (ro_rules db))"

definition matching_rule :: "route_env \<Rightarrow> route_rule_row list \<Rightarrow> event_row \<Rightarrow> string option" where
  "matching_rule env rules row = map_option rr_folder (find (\<lambda>r. kind_matches env (rr_kind r) (rr_pattern r) row) rules)"

datatype route_error =
    ProjectGone
  | EventNotFound int
  | NotRoutable int
  | BadDismissKind
  | DomainNeedsFirefox
  | NoUrl
  | ChannelNeedsSlack
  | NoContainer
  | EventVanished int

definition rule_pattern :: "route_env \<Rightarrow> event_row \<Rightarrow> rule_kind \<Rightarrow> route_error + string" where
  "rule_pattern env row kind =
     (case kind of
        DomainRule \<Rightarrow>
          (if er_source row \<noteq> SOURCE_FIREFOX then Inl DomainNeedsFirefox
           else ok_or NoUrl (Option.bind (er_details row) (domain_of (re_lower env))))
      | SlackChannel \<Rightarrow> (if er_source row \<noteq> SOURCE_SLACK then Inl ChannelNeedsSlack else Inr (er_title row))
      | ContainerRule \<Rightarrow> ok_or NoContainer (er_container row))"

definition upsert_rule :: "route_env \<Rightarrow> rule_kind \<Rightarrow> string \<Rightarrow> string \<Rightarrow> route_db \<Rightarrow> route_db" where
  "upsert_rule env kind pattern folder db =
     (if list_ex (\<lambda>r. sr_kind r = rule_kind_str kind \<and> sr_pattern r = pattern) (ro_rules db)
      then db\<lparr>ro_rules := map (\<lambda>r. if sr_kind r = rule_kind_str kind \<and> sr_pattern r = pattern then r\<lparr>sr_folder := folder\<rparr> else r) (ro_rules db)\<rparr>
      else db\<lparr>ro_rules := ro_rules db @ [\<lparr>sr_id = ro_next_rule db, sr_kind = rule_kind_str kind, sr_pattern = pattern,
                                         sr_folder = folder, sr_created = re_now env\<rparr>],
              ro_next_rule := ro_next_rule db + 1\<rparr>)"

definition file_or_dismiss :: "route_env \<Rightarrow> int \<Rightarrow> string \<Rightarrow> label_origin \<Rightarrow> route_db \<Rightarrow> route_db" where
  "file_or_dismiss env i folder origin db =
     (if folder = IGNORE_FOLDER then set_dismissed i db else set_label env i folder origin None db)"

definition open_to_rules :: "event_row \<Rightarrow> bool" where
  "open_to_rules e = (er_origin e = None \<or> er_origin e \<in> Some ` set [''guess'', ''rule'', ''link'', ''context'', ''noise''])"

definition apply_rule_to_existing :: "route_env \<Rightarrow> rule_kind \<Rightarrow> string \<Rightarrow> int \<Rightarrow> route_db \<Rightarrow> route_db" where
  "apply_rule_to_existing env kind pattern exclude_id db =
     (let candidates = filter (\<lambda>e. er_id e \<noteq> exclude_id \<and> open_to_rules e) (ro_events db);
          rules = list_rules db
      in foldl (\<lambda>db row. if \<not> kind_matches env kind pattern row then db
                         else (case matching_rule env rules row of
                                 None \<Rightarrow> db
                               | Some folder \<Rightarrow> file_or_dismiss env (er_id row) folder Rule db)) db candidates)"

definition delete_rule :: "int \<Rightarrow> route_db \<Rightarrow> bool \<times> route_db" where
  "delete_rule i db =
     (list_ex (\<lambda>r. sr_id r = i) (ro_rules db), db\<lparr>ro_rules := filter (\<lambda>r. sr_id r \<noteq> i) (ro_rules db)\<rparr>)"

section \<open>Reading events\<close>

definition fetch_event :: "int \<Rightarrow> route_db \<Rightarrow> event_row option" where
  "fetch_event i db = find (\<lambda>e. er_id e = i) (ro_events db)"

definition to_routed :: "route_env \<Rightarrow> event_row \<Rightarrow> routed_event" where
  "to_routed env row =
     \<lparr>rv_id = er_id row, rv_source = er_source row, rv_started = er_started row, rv_title = er_title row,
      rv_details = er_details row, rv_container = er_container row,
      rv_folder = Option.bind (er_path row) (work_folder_for_path (work_roots env)),
      rv_origin = Option.bind (er_origin row) parse_origin, rv_confidence = er_confidence row,
      rv_ranking = map_option rk_ranking (Option.bind (er_ranking row) (jc_read_ranking (re_codec env)))\<rparr>"

definition is_hidden :: "label_origin option \<Rightarrow> bool" where
  "is_hidden origin = (origin = Some Dismissed \<or> origin = Some Noise)"

definition in_window :: "route_env \<Rightarrow> naive_date \<Rightarrow> event_row \<Rightarrow> bool" where
  "in_window env day e =
     (let (start, stop) = utc_window_for_local_day (re_offset env) day
      in to_rfc3339 (re_clock env) start \<le> er_started e \<and> er_started e < to_rfc3339 (re_clock env) stop)"

definition events_in_window :: "route_env \<Rightarrow> route_db \<Rightarrow> naive_date \<Rightarrow> bool \<Rightarrow> event_row list" where
  "events_in_window env db day unlabelled_only =
     sort_key er_started
       (filter (\<lambda>e. er_source e \<in> set [SOURCE_FIREFOX, SOURCE_SLACK] \<and> in_window env day e
                    \<and> (unlabelled_only \<longrightarrow> er_origin e = None)) (ro_events db))"

definition routed_for_day :: "route_env \<Rightarrow> route_db \<Rightarrow> naive_date \<Rightarrow> bool \<Rightarrow> routed_event list" where
  "routed_for_day env db day include_hidden =
     (let events = map (to_routed env) (events_in_window env db day False)
      in if include_hidden then events else filter (\<lambda>e. \<not> is_hidden (rv_origin e)) events)"

definition activity_for_day :: "route_env \<Rightarrow> route_db \<Rightarrow> naive_date \<Rightarrow> string list \<Rightarrow> activity" where
  "activity_for_day env db day sources =
     (case re_home env of
        None \<Rightarrow> []
      | Some home \<Rightarrow>
          List.map_filter (\<lambda>e. Option.bind (er_path e) (\<lambda>path.
              Option.bind (from_rfc3339 (re_clock env) (er_started e)) (\<lambda>time.
                map_option (Pair time) (context_key path home))))
            (filter (\<lambda>e. er_source e \<in> set sources \<and> in_window env day e) (ro_events db)))"

definition context_events_for_day :: "route_env \<Rightarrow> route_db \<Rightarrow> naive_date \<Rightarrow> activity" where
  "context_events_for_day env db day = activity_for_day env db day [''claude'', ''shell'', ''git_reflog'', ''claude_turn'']"

definition work_activity_for_day :: "route_env \<Rightarrow> route_db \<Rightarrow> naive_date \<Rightarrow> activity" where
  "work_activity_for_day env db day =
     activity_for_day env db day [''claude'', ''shell'', ''git_reflog'', ''github_commit'', ''github_pr'', ''claude_turn'']"

definition narrowed_options :: "route_env \<Rightarrow> registry \<Rightarrow> event_row \<Rightarrow> string list \<Rightarrow> string list" where
  "narrowed_options env reg row every =
     (case Option.bind (er_container row) (customer_in_text (re_unicode env) reg) of
        Some customer \<Rightarrow> map fm_folder (filter (\<lambda>f. fm_customer f = Some customer) (rg_folders reg))
      | None \<Rightarrow> every)"

section \<open>The shortlist and its examples\<close>

definition recent_folders :: "route_env \<Rightarrow> route_db \<Rightarrow> naive_date \<Rightarrow> string list" where
  "recent_folders env db day =
     (let start = to_rfc3339 (re_clock env) (fst (utc_window_for_local_day (re_offset env) (day + (1 - RECENT_PROJECT_DAYS))));
          stop = to_rfc3339 (re_clock env) (snd (utc_window_for_local_day (re_offset env) day));
          recent = filter (\<lambda>e. er_path e \<noteq> None \<and> start \<le> er_started e \<and> er_started e < stop) (ro_events db);
          paths = map (\<lambda>p. (p, int (length (remdups (map (take 16 \<circ> er_started) (filter (\<lambda>e. er_path e = Some p) recent))))))
                      (btree_keys (List.map_filter er_path recent));
          worked = List.map_filter (\<lambda>(p, n). map_option (\<lambda>f. (f, n)) (billable_work_folder (work_roots env) p)) paths
      in map fst (ranked worked))"

fun take_new :: "nat \<Rightarrow> string list \<Rightarrow> string list \<Rightarrow> string list" where
  "take_new m out [] = out"
| "take_new m out (f # fs) =
     (if length out = m then out else take_new m (if f \<in> set out then out else out @ [f]) fs)"

definition shortlist :: "route_env \<Rightarrow> route_db \<Rightarrow> event_row \<Rightarrow> naive_date \<Rightarrow> string list" where
  "shortlist env db row day =
     (let reg = load_registry (ro_tables db);
          universe = narrowed_options env reg row (project_keys env db);
          pinned = (Option.bind (er_container row) (customer_in_text (re_unicode env) reg) \<noteq> None);
          text = join [CHR 0x0A] (er_title row # List.map_filter (\<lambda>t. t) [er_details row, er_container row]);
          first = (if pinned then universe else []);
          hits = filter (alias_matches (re_unicode env) text) universe;
          recents = filter (\<lambda>f. f \<in> set universe) (recent_folders env db day)
      in take_new SHORTLIST_MAX [] (first @ hits @ recents))"

definition title_of :: "route_db \<Rightarrow> int \<Rightarrow> string option" where
  "title_of db i = map_option er_title (fetch_event i db)"

definition add_example :: "string \<Rightarrow> string \<Rightarrow> (string \<Rightarrow> string list option) \<Rightarrow> string \<Rightarrow> string list option" where
  "add_example option example out = out(option \<mapsto> (case out option of Some ts \<Rightarrow> ts | None \<Rightarrow> []) @ [example])"

fun fill_examples ::
    "nat \<Rightarrow> (string \<Rightarrow> string list option) \<Rightarrow> (string \<times> string) list \<Rightarrow> string \<Rightarrow> string list option" where
  "fill_examples room out [] = out"
| "fill_examples room out ((option, title) # rest) =
     (let cut = truncate_chars EXAMPLE_CHARS_EACH title; len = char_count cut
      in if room < len then out
         else fill_examples (room - len) (add_example option cut out) rest)"

definition examples_for_options :: "route_db \<Rightarrow> string list \<Rightarrow> string \<Rightarrow> string list option" where
  "examples_for_options db options =
     fill_examples EXAMPLE_CHARS_TOTAL (\<lambda>_. None)
       (concat (map (\<lambda>option. map (Pair option) (examples_for (title_of db) (ro_log db) option EXAMPLES_MAX)) options))"

section \<open>One routing pass\<close>

text \<open>What decides an event without the model, if anything does.\<close>

definition automatic_hit ::
    "route_env \<Rightarrow> route_rule_row list \<Rightarrow> registry \<Rightarrow> string list \<Rightarrow> activity \<Rightarrow> event_row \<Rightarrow> (string \<times> label_origin) option" where
  "automatic_hit env rules reg all_options ctx row =
     (case matching_rule env rules row of
        Some folder \<Rightarrow> Some (folder, Rule)
      | None \<Rightarrow>
          (case named_project (er_details row) all_options of
             Some folder \<Rightarrow> Some (folder, Link)
           | None \<Rightarrow>
               if er_source row = SOURCE_SLACK
               then map_option (\<lambda>folder. (folder, Context))
                      (context_hit (re_clock env) (re_hash env) (er_started row) (narrowed_options env reg row all_options) ctx)
               else None))"

definition pending_of :: "route_env \<Rightarrow> route_db \<Rightarrow> naive_date \<Rightarrow> event_row \<Rightarrow> pending_event option" where
  "pending_of env db day row =
     (let options = shortlist env db row day
      in if options = [] then None
         else Some \<lparr>pd_event = to_routed env row, pd_options = options,
                    pd_state = re_state env (er_source row) (er_title row) (er_details row) (er_container row),
                    pd_examples = examples_for_options db options\<rparr>)"

definition load_pending :: "route_env \<Rightarrow> route_db \<Rightarrow> naive_date \<Rightarrow> rule_hits \<times> pending_event list" where
  "load_pending env db day =
     (let rows = events_in_window env db day True;
          hit = automatic_hit env (list_rules db) (load_registry (ro_tables db)) (project_keys env db) (context_events_for_day env db day)
      in (List.map_filter (\<lambda>row. map_option (\<lambda>(folder, origin). (er_id row, folder, origin)) (hit row)) rows,
          List.map_filter (pending_of env db day) (filter (\<lambda>row. hit row = None) rows)))"

definition accepts :: "guess \<Rightarrow> string list \<Rightarrow> route_rule \<Rightarrow> bool" where
  "accepts g options rule =
     (gu_folder g \<in> set options \<and> f64_mul (gu_abstain g) (abstain_margin rule) \<le> gu_confidence g
      \<and> f64_mul (gu_runner_up g) (runner_up_ratio rule) \<le> gu_confidence g)"

definition accept :: "ranking \<Rightarrow> string list \<Rightarrow> route_rule \<Rightarrow> guess option" where
  "accept rk options rule =
     (case rk_ranking rk of
        [] \<Rightarrow> None
      | best # rest \<Rightarrow>
          (let runner_up = (case rest of [] \<Rightarrow> 0 | o2 # _ \<Rightarrow> ro_prob o2);
               accepted = (rk_agreed rk \<and> ro_id best \<in> set options
                           \<and> f64_mul (rk_abstain rk) (abstain_margin rule) \<le> ro_prob best
                           \<and> f64_mul runner_up (runner_up_ratio rule) \<le> ro_prob best)
           in if accepted
              then Some \<lparr>gu_folder = ro_id best, gu_confidence = ro_prob best, gu_runner_up = runner_up, gu_abstain = rk_abstain rk\<rparr>
              else None))"

definition decide :: "pending_event list \<Rightarrow> classifier \<Rightarrow> route_rule \<Rightarrow> answer list" where
  "decide pending classify rule =
     List.map_filter (\<lambda>p. map_option (\<lambda>rk.
         \<lparr>an_id = rv_id (pd_event p), an_state = pd_state p, an_options = pd_options p, an_ranking = rk,
          an_guess = accept rk (pd_options p) rule\<rparr>)
       (classify (pd_state p) (pd_options p) (pd_examples p))) pending"

definition log_decision :: "route_env \<Rightarrow> decision_row \<Rightarrow> route_db \<Rightarrow> route_db" where
  "log_decision env row db = db\<lparr>ro_log := snd (record_decision (re_codec env) row (ro_log db))\<rparr>"

definition record_answer :: "route_env \<Rightarrow> answer \<Rightarrow> route_db \<Rightarrow> route_db" where
  "record_answer env a db =
     (let db = update_event (an_id a) (\<lambda>e. e\<lparr>er_ranking := Some (jc_ranking (re_codec env) (an_ranking a))\<rparr>) db;
          db = db\<lparr>ro_log := drop_unchosen Project (show_int (an_id a)) (ro_log db)\<rparr>
      in log_decision env \<lparr>dr_kind = Project, dr_source = Verdict, dr_subject = show_int (an_id a), dr_state = an_state a,
           dr_options = an_options a, dr_ranking = Some (an_ranking a), dr_chosen = map_option gu_folder (an_guess a),
           dr_previous = None, dr_decided = re_now env\<rparr> db)"

definition record_fix :: "route_env \<Rightarrow> int \<Rightarrow> string option \<Rightarrow> string \<Rightarrow> route_db \<Rightarrow> route_db" where
  "record_fix env i previous folder db =
     (if previous = Some folder then db
      else log_decision env \<lparr>dr_kind = Project, dr_source = Owner, dr_subject = show_int i, dr_state = ''{}'',
             dr_options = [], dr_ranking = None, dr_chosen = Some folder, dr_previous = previous, dr_decided = re_now env\<rparr> db)"

definition commit_hit :: "route_env \<Rightarrow> int \<times> string \<times> label_origin \<Rightarrow> route_db \<Rightarrow> route_db" where
  "commit_hit env h db = (case h of (i, folder, origin) \<Rightarrow> file_or_dismiss env i folder origin db)"

definition commit_answer :: "route_env \<Rightarrow> answer \<Rightarrow> route_db \<Rightarrow> route_db" where
  "commit_answer env a db =
     (let db = record_answer env a db
      in case an_guess a of None \<Rightarrow> db | Some g \<Rightarrow> set_label env (an_id a) (gu_folder g) Guess (Some (gu_confidence g)) db)"

definition commit_labels :: "route_env \<Rightarrow> rule_hits \<Rightarrow> answer list \<Rightarrow> route_db \<Rightarrow> (nat \<times> nat) \<times> route_db" where
  "commit_labels env hits answers db =
     ((length hits, length (filter (\<lambda>a. an_guess a \<noteq> None) answers)),
      foldl (\<lambda>db a. commit_answer env a db) (foldl (\<lambda>db h. commit_hit env h db) db hits) answers)"

definition route_day :: "route_env \<Rightarrow> naive_date \<Rightarrow> classifier \<Rightarrow> route_rule \<Rightarrow> route_db \<Rightarrow> (nat \<times> nat) \<times> route_db" where
  "route_day env day classify rule db =
     (let (hits, pending) = load_pending env db day in commit_labels env hits (decide pending classify rule) db)"

section \<open>Absorb and noise\<close>

definition absorb_key :: "route_env \<Rightarrow> registry \<Rightarrow> string list \<Rightarrow> activity \<Rightarrow> event_row \<Rightarrow> string option" where
  "absorb_key env reg all_options activity row =
     Option.bind (from_rfc3339 (re_clock env) (er_started row)) (\<lambda>t.
       if brackets t activity
       then Option.bind (dominant_key_within (re_hash env) t activity STRETCH_MINUTES) (\<lambda>k.
              if k \<in> set (narrowed_options env reg row all_options) then Some k else None)
       else None)"

definition absorb_row :: "route_env \<Rightarrow> registry \<Rightarrow> string list \<Rightarrow> activity \<Rightarrow> event_row \<Rightarrow> route_db \<Rightarrow> route_db" where
  "absorb_row env reg all_options activity row db =
     (case absorb_key env reg all_options activity row of
        Some k \<Rightarrow> set_label env (er_id row) k Context None db
      | None \<Rightarrow> set_noise (er_id row) db)"

definition absorb_and_noise :: "route_env \<Rightarrow> naive_date \<Rightarrow> route_db \<Rightarrow> route_db" where
  "absorb_and_noise env day db =
     (let activity = work_activity_for_day env db day;
          reg = load_registry (ro_tables db);
          all_options = project_keys env db
      in foldl (\<lambda>db row. absorb_row env reg all_options activity row db) db (events_in_window env db day True))"

section \<open>The owner's hand\<close>

definition resolved_rule :: "route_env \<Rightarrow> event_row \<Rightarrow> rule_kind option \<Rightarrow> route_error + (rule_kind \<times> string) option" where
  "resolved_rule env row kind =
     (case kind of
        None \<Rightarrow> Inr None
      | Some k \<Rightarrow> and_then (rule_pattern env row k) (\<lambda>pattern. Inr (Some (k, pattern))))"

definition add_rule :: "route_env \<Rightarrow> (rule_kind \<times> string) option \<Rightarrow> string \<Rightarrow> int \<Rightarrow> route_db \<Rightarrow> route_db" where
  "add_rule env rule folder i db =
     (case rule of
        None \<Rightarrow> db
      | Some (kind, pattern) \<Rightarrow> apply_rule_to_existing env kind pattern i (upsert_rule env kind pattern folder db))"

definition label_event :: "route_env \<Rightarrow> int \<Rightarrow> string \<Rightarrow> rule_kind option \<Rightarrow> route_db \<Rightarrow> (route_error + routed_event) \<times> route_db" where
  "label_event env i raw always db =
     (let folder = trim raw
      in if folder = [] \<or> folder \<notin> set (project_keys env db) then (Inl ProjectGone, db)
         else case fetch_event i db of
                None \<Rightarrow> (Inl (EventNotFound i), db)
              | Some row \<Rightarrow>
                  (case resolved_rule env row always of
                     Inl e \<Rightarrow> (Inl e, db)
                   | Inr rule \<Rightarrow>
                       (let db = set_label env i folder Fix None db;
                            db = record_fix env i (Option.bind (er_path row) (work_folder_for_path (work_roots env))) folder db;
                            db = add_rule env rule folder i db
                        in (ok_or (EventVanished i) (map_option (to_routed env) (fetch_event i db)), db))))"

definition dismiss_event :: "route_env \<Rightarrow> int \<Rightarrow> rule_kind option \<Rightarrow> route_db \<Rightarrow> (route_error + routed_event) \<times> route_db" where
  "dismiss_event env i kind db =
     (case fetch_event i db of
        None \<Rightarrow> (Inl (EventNotFound i), db)
      | Some row \<Rightarrow>
          if er_source row \<noteq> SOURCE_FIREFOX \<and> er_source row \<noteq> SOURCE_SLACK then (Inl (NotRoutable i), db)
          else if (case kind of None \<Rightarrow> False | Some k \<Rightarrow> k \<noteq> DomainRule \<and> k \<noteq> SlackChannel) then (Inl BadDismissKind, db)
          else case resolved_rule env row kind of
                 Inl e \<Rightarrow> (Inl e, db)
               | Inr rule \<Rightarrow>
                   (let db = set_dismissed i db;
                        db = add_rule env rule IGNORE_FOLDER i db
                    in (ok_or (EventVanished i) (map_option (to_routed env) (fetch_event i db)), db)))"

section \<open>Hosts the owner always dismisses\<close>

definition noise_hosts :: "route_env \<Rightarrow> route_db \<Rightarrow> string \<Rightarrow> (string \<times> int) list" where
  "noise_hosts env db day =
     (let rows = filter (\<lambda>e. er_source e = SOURCE_FIREFOX \<and> take 10 (er_started e) < day
                       \<and> er_origin e \<in> Some ` set [''dismissed'', ''fix'', ''context'', ''link'', ''rule'']) (ro_events db);
          seen = List.map_filter (\<lambda>e. map_option (\<lambda>h. (h, er_origin e = Some ''dismissed''))
                   (Option.bind (er_details e) (domain_of (re_lower env)))) rows;
          hosts = map (\<lambda>h. (h, int (length (filter (\<lambda>s. fst s = h) seen)))) (remdups (map fst seen))
      in sort_key (\<lambda>(h, n). (- n, h))
           (filter (\<lambda>(h, n). list_all (\<lambda>s. fst s = h \<longrightarrow> snd s) seen \<and> NOISE_MIN_DISMISSED \<le> n) hosts))"

section \<open>Which rows an operation may touch\<close>

lemma parse_origin_str [simp]: "parse_origin (origin_str v) = Some v"
  by (cases v) (simp_all add: parse_origin_def origin_str_def)

lemma origin_str_inject [simp]: "origin_str a = origin_str b \<longleftrightarrow> a = b"
  by (metis parse_origin_str option.inject)

lemma parse_rule_kind_str [simp]: "parse_rule_kind (rule_kind_str k) = Some k"
  by (cases k) (simp_all add: parse_rule_kind_def rule_kind_str_def)

definition only_ids :: "int set \<Rightarrow> route_db \<Rightarrow> route_db \<Rightarrow> bool" where
  "only_ids I db db' =
     list_all2 (\<lambda>e e'. er_id e' = er_id e \<and> (er_id e \<notin> I \<longrightarrow> e' = e)) (ro_events db) (ro_events db')"

lemma only_refl: "ro_events db' = ro_events db \<Longrightarrow> only_ids I db db'"
  by (simp add: only_ids_def list.rel_refl)

lemma only_mono: "only_ids I db db' \<Longrightarrow> I \<subseteq> J \<Longrightarrow> only_ids J db db'"
  unfolding only_ids_def by (erule list_all2_mono) auto

lemma only_trans: "only_ids I a b \<Longrightarrow> only_ids I b c \<Longrightarrow> only_ids I a c"
  unfolding only_ids_def by (rule list_all2_trans[rotated], assumption, assumption) auto

lemma only_update: "(\<And>e. er_id (f e) = er_id e) \<Longrightarrow> i \<in> I \<Longrightarrow> only_ids I db (update_event i f db)"
  by (auto simp: only_ids_def update_event_def list_all2_conv_all_nth)

lemma only_foldl: "(\<And>x d. x \<in> set xs \<Longrightarrow> only_ids I d (f d x)) \<Longrightarrow> only_ids I db (foldl f db xs)"
proof (induction xs arbitrary: db)
  case (Cons x xs)
  then show ?case by (auto intro: only_trans[of I db "f db x"])
qed (simp add: only_refl)

lemma only_ids_ids: "only_ids I db db' \<Longrightarrow> map er_id (ro_events db') = map er_id (ro_events db)"
  unfolding only_ids_def by (induction rule: list_all2_induct) auto

lemma only_kept: "only_ids I db db' \<Longrightarrow> e \<in> set (ro_events db) \<Longrightarrow> er_id e \<notin> I \<Longrightarrow> e \<in> set (ro_events db')"
  unfolding only_ids_def by (induction rule: list_all2_induct) auto

lemma only_kept_back: "only_ids I db db' \<Longrightarrow> e' \<in> set (ro_events db') \<Longrightarrow> er_id e' \<notin> I \<Longrightarrow> e' \<in> set (ro_events db)"
  unfolding only_ids_def by (induction rule: list_all2_induct) auto

lemma set_label_only: "i \<in> I \<Longrightarrow> only_ids I db (set_label env i folder origin c db)"
  and set_dismissed_only: "i \<in> I \<Longrightarrow> only_ids I db (set_dismissed i db)"
  and set_noise_only: "i \<in> I \<Longrightarrow> only_ids I db (set_noise i db)"
  by (simp_all add: set_label_def set_dismissed_def set_noise_def only_update)

lemma file_or_dismiss_only: "i \<in> I \<Longrightarrow> only_ids I db (file_or_dismiss env i folder origin db)"
  by (simp add: file_or_dismiss_def set_label_only set_dismissed_only)

lemma log_decision_events [simp]: "ro_events (log_decision env row db) = ro_events db"
  and record_fix_events [simp]: "ro_events (record_fix env i previous folder db) = ro_events db"
  and upsert_rule_events [simp]: "ro_events (upsert_rule env kind pattern folder db) = ro_events db"
  and delete_rule_events [simp]: "ro_events (snd (delete_rule j db)) = ro_events db"
  by (simp_all add: log_decision_def record_fix_def upsert_rule_def delete_rule_def)

lemma record_answer_events:
  "ro_events (record_answer env a db) =
     ro_events (update_event (an_id a) (\<lambda>e. e\<lparr>er_ranking := Some (jc_ranking (re_codec env) (an_ranking a))\<rparr>) db)"
  by (simp add: record_answer_def update_event_def)

lemma record_answer_only: "an_id a \<in> I \<Longrightarrow> only_ids I db (record_answer env a db)"
proof -
  assume "an_id a \<in> I"
  then have "only_ids I db (update_event (an_id a) (\<lambda>e. e\<lparr>er_ranking := Some (jc_ranking (re_codec env) (an_ranking a))\<rparr>) db)"
    by (simp add: only_update)
  then show ?thesis by (simp add: only_ids_def record_answer_events)
qed

lemma commit_answer_only: "an_id a \<in> I \<Longrightarrow> only_ids I db (commit_answer env a db)"
  by (auto simp: commit_answer_def Let_def record_answer_only split: option.splits
      intro!: only_trans[OF record_answer_only set_label_only])

definition committed_ids :: "rule_hits \<Rightarrow> answer list \<Rightarrow> int set" where
  "committed_ids hits answers = fst ` set hits \<union> an_id ` set answers"

lemma commit_labels_only: "only_ids (committed_ids hits answers) db (snd (commit_labels env hits answers db))"
proof -
  let ?I = "committed_ids hits answers"
  have "only_ids ?I db (foldl (\<lambda>db h. commit_hit env h db) db hits)"
    by (rule only_foldl) (force simp: commit_hit_def committed_ids_def intro!: file_or_dismiss_only split: prod.splits)
  moreover have "only_ids ?I d (foldl (\<lambda>db a. commit_answer env a db) d answers)" for d
    by (rule only_foldl) (auto simp: committed_ids_def intro!: commit_answer_only)
  ultimately show ?thesis by (auto simp: commit_labels_def intro: only_trans)
qed

section \<open>A pass touches only unlabelled events\<close>

definition unlabelled_ids :: "route_env \<Rightarrow> route_db \<Rightarrow> naive_date \<Rightarrow> int set" where
  "unlabelled_ids env db day = er_id ` set (events_in_window env db day True)"

lemma window_row: "e \<in> set (events_in_window env db day unlabelled) \<longleftrightarrow>
    e \<in> set (ro_events db) \<and> er_source e \<in> {SOURCE_FIREFOX, SOURCE_SLACK} \<and> in_window env day e \<and> (unlabelled \<longrightarrow> er_origin e = None)"
  by (auto simp: events_in_window_def)

lemma load_pending_ids:
  assumes "load_pending env db day = (hits, pending)"
  shows "committed_ids hits (decide pending classify rule) \<subseteq> unlabelled_ids env db day"
  using assms
  by (force simp: load_pending_def Let_def committed_ids_def decide_def unlabelled_ids_def set_map_filter_iff pending_of_def to_routed_def
      split: if_splits)

lemma route_day_only: "only_ids (unlabelled_ids env db day) db (snd (route_day env day classify rule db))"
proof -
  obtain hits pending where l: "load_pending env db day = (hits, pending)" by fastforce
  from only_mono[OF commit_labels_only load_pending_ids[OF l]] show ?thesis by (simp add: route_day_def l)
qed

lemma absorb_only: "only_ids (unlabelled_ids env db day) db (absorb_and_noise env day db)"
  unfolding absorb_and_noise_def Let_def
  by (rule only_foldl) (auto simp: absorb_row_def unlabelled_ids_def intro!: set_label_only set_noise_only split: option.splits)

lemma labelled_untouched:
  assumes "distinct (map er_id (ro_events db))" "e \<in> set (ro_events db)" "er_origin e \<noteq> None"
  shows "er_id e \<notin> unlabelled_ids env db day"
proof
  assume "er_id e \<in> unlabelled_ids env db day"
  then obtain x where x: "x \<in> set (ro_events db)" "er_origin x = None" "er_id x = er_id e"
    by (auto simp: unlabelled_ids_def window_row)
  from assms(1,2) x(1,3) have "x = e" by (auto simp: distinct_map inj_on_def)
  with x(2) assms(3) show False by simp
qed

lemma route_day_keeps:
  assumes "distinct (map er_id (ro_events db))" "e \<in> set (ro_events db)" "er_origin e \<noteq> None"
  shows "e \<in> set (ro_events (snd (route_day env day classify rule db)))" "e \<in> set (ro_events (absorb_and_noise env day db))"
  using only_kept[OF route_day_only assms(2)] only_kept[OF absorb_only assms(2)] labelled_untouched[OF assms] by blast+

text \<open>The absorb step leaves no event of the day without a label.\<close>

lemma absorb_fold_labels:
  "\<forall>e\<in>set (ro_events db). er_id e \<in> S \<longrightarrow> er_origin e \<noteq> None \<Longrightarrow>
     \<forall>e\<in>set (ro_events (foldl (\<lambda>db row. absorb_row env reg opts act row db) db rows)).
       er_id e \<in> S \<union> er_id ` set rows \<longrightarrow> er_origin e \<noteq> None"
proof (induction rows arbitrary: db S)
  case (Cons row rows)
  let ?db = "absorb_row env reg opts act row db"
  have "\<forall>e\<in>set (ro_events ?db). er_id e \<in> insert (er_id row) S \<longrightarrow> er_origin e \<noteq> None"
    using Cons.prems
    by (auto simp: absorb_row_def set_label_def set_noise_def update_event_def split: option.splits if_splits)
  from Cons.IH[OF this] show ?case by simp
qed simp

lemma absorb_exhausts: "events_in_window env (absorb_and_noise env day db) day True = []"
proof (rule ccontr)
  assume "events_in_window env (absorb_and_noise env day db) day True \<noteq> []"
  then obtain e where "e \<in> set (events_in_window env (absorb_and_noise env day db) day True)"
    by (cases "events_in_window env (absorb_and_noise env day db) day True") auto
  then have e: "e \<in> set (ro_events (absorb_and_noise env day db))" "er_source e \<in> {SOURCE_FIREFOX, SOURCE_SLACK}"
    "in_window env day e" "er_origin e = None" by (simp_all add: window_row)
  have "er_id e \<notin> unlabelled_ids env db day"
    using bspec[OF absorb_fold_labels[of db "{}"] e(1)[unfolded absorb_and_noise_def Let_def]] e(4)
    by (simp add: unlabelled_ids_def)
  with only_kept_back[OF absorb_only e(1)] have "e \<in> set (ro_events db)" by simp
  with e have "e \<in> set (events_in_window env db day True)" by (simp add: window_row)
  with \<open>er_id e \<notin> unlabelled_ids env db day\<close> show False by (auto simp: unlabelled_ids_def)
qed

section \<open>Labels stay well formed\<close>

text \<open>What each kind of write to a row keeps of it is kept by every operation.\<close>

locale row_keeper =
  fixes keep :: "event_row \<Rightarrow> bool"
  assumes labelled: "keep e \<Longrightarrow> \<not> is_hidden (Some origin) \<Longrightarrow> (c \<noteq> None) = (origin = Guess) \<Longrightarrow>
      keep (e\<lparr>er_path := Some p, er_origin := Some (origin_str origin), er_confidence := c\<rparr>)"
    and hidden: "keep e \<Longrightarrow> is_hidden (Some origin) \<Longrightarrow>
      keep (e\<lparr>er_path := None, er_origin := Some (origin_str origin), er_confidence := None\<rparr>)"
    and ranked: "keep e \<Longrightarrow> keep (e\<lparr>er_ranking := r\<rparr>)"
begin

definition kept :: "route_db \<Rightarrow> bool" where
  "kept db = list_all keep (ro_events db)"

lemma kept_update: "kept db \<Longrightarrow> (\<And>e. keep e \<Longrightarrow> keep (f e)) \<Longrightarrow> kept (update_event i f db)"
  by (auto simp: kept_def update_event_def list_all_iff)

lemma kept_same: "ro_events db' = ro_events db \<Longrightarrow> kept db' = kept db"
  by (simp add: kept_def)

lemma kept_label: "kept db \<Longrightarrow> \<not> is_hidden (Some origin) \<Longrightarrow> (c \<noteq> None) = (origin = Guess) \<Longrightarrow> kept (set_label env i folder origin c db)"
  unfolding set_label_def by (rule kept_update) (simp_all add: labelled)

lemma kept_dismissed: "kept db \<Longrightarrow> kept (set_dismissed i db)"
  unfolding set_dismissed_def by (rule kept_update) (simp_all add: hidden is_hidden_def)

lemma kept_noise: "kept db \<Longrightarrow> kept (set_noise i db)"
  unfolding set_noise_def by (rule kept_update) (simp_all add: hidden is_hidden_def)

lemma kept_file: "kept db \<Longrightarrow> origin \<in> {Rule, Link, Context} \<Longrightarrow> kept (file_or_dismiss env i folder origin db)"
  by (auto simp: file_or_dismiss_def is_hidden_def intro!: kept_dismissed kept_label)

lemma kept_foldl: "kept db \<Longrightarrow> (\<And>x d. x \<in> set xs \<Longrightarrow> kept d \<Longrightarrow> kept (f d x)) \<Longrightarrow> kept (foldl f db xs)"
  by (induction xs arbitrary: db) simp_all

lemma kept_answer: "kept db \<Longrightarrow> kept (commit_answer env a db)"
proof -
  assume "kept db"
  then have "kept (update_event (an_id a) (\<lambda>e. e\<lparr>er_ranking := Some (jc_ranking (re_codec env) (an_ranking a))\<rparr>) db)"
    by (rule kept_update) (rule ranked)
  then have "kept (record_answer env a db)" by (simp add: kept_def record_answer_events)
  then show ?thesis by (auto simp: commit_answer_def Let_def is_hidden_def split: option.splits intro!: kept_label)
qed

lemma kept_commit:
  "kept db \<Longrightarrow> snd ` snd ` set hits \<subseteq> {Rule, Link, Context} \<Longrightarrow> kept (snd (commit_labels env hits answers db))"
  unfolding commit_labels_def snd_conv
  by (intro kept_foldl kept_answer) (force simp: commit_hit_def intro!: kept_file split: prod.splits)+

lemma kept_absorb: "kept db \<Longrightarrow> kept (absorb_and_noise env day db)"
  unfolding absorb_and_noise_def Let_def
  by (rule kept_foldl) (auto simp: absorb_row_def is_hidden_def split: option.splits intro!: kept_label kept_noise)

lemma kept_apply: "kept db \<Longrightarrow> kept (apply_rule_to_existing env kind pattern i db)"
  unfolding apply_rule_to_existing_def Let_def
  by (rule kept_foldl) (auto split: option.splits intro!: kept_file)

lemma kept_add_rule: "kept db \<Longrightarrow> kept (add_rule env rule folder i db)"
  by (auto simp: add_rule_def kept_def[symmetric] kept_same[OF upsert_rule_events] split: option.splits intro!: kept_apply)

lemma kept_label_event: "kept db \<Longrightarrow> kept (snd (label_event env i raw always db))"
  by (auto simp: label_event_def Let_def is_hidden_def kept_same[OF record_fix_events] split: option.splits sum.splits
      intro!: kept_add_rule kept_label)

lemma kept_dismiss_event: "kept db \<Longrightarrow> kept (snd (dismiss_event env i kind db))"
  by (auto simp: dismiss_event_def Let_def split: option.splits sum.splits intro!: kept_add_rule kept_dismissed)

end

text \<open>A label is one of the seven; a hidden event has no project; only a guess has a confidence.\<close>

definition label_ok :: "event_row \<Rightarrow> bool" where
  "label_ok e =
     (case er_origin e of
        None \<Rightarrow> er_confidence e = None
      | Some s \<Rightarrow> (case parse_origin s of
                    None \<Rightarrow> False
                  | Some v \<Rightarrow> (er_path e = None) = is_hidden (Some v) \<and> (er_confidence e \<noteq> None) = (v = Guess)))"

interpretation labels: row_keeper label_ok
  by unfold_locales (auto simp: label_ok_def is_hidden_def split: option.splits)

text \<open>What was collected of an event is never changed.\<close>

definition collected_facts :: "event_row \<Rightarrow> int \<times> string \<times> string \<times> string \<times> string option \<times> string option" where
  "collected_facts e = (er_id e, er_source e, er_started e, er_title e, er_details e, er_container e)"

interpretation facts: row_keeper "\<lambda>e. collected_facts e \<in> S" for S
  by unfold_locales (simp_all add: collected_facts_def)

section \<open>Runs\<close>

text \<open>
  The daemon loads the pending events under the lock, asks the model without it and commits under it again; the
  owner's requests come in between. A commit is followed by the absorb step.
\<close>

record route_run =
  rn_db :: route_db
  rn_flight :: "(naive_date \<times> rule_hits \<times> answer list) option"

inductive route_step :: "route_env \<Rightarrow> classifier \<Rightarrow> route_rule \<Rightarrow> route_run \<Rightarrow> route_run \<Rightarrow> bool" for env classify rule where
  load: "load_pending env (rn_db s) day = (hits, pending) \<Longrightarrow>
    route_step env classify rule s (s\<lparr>rn_flight := Some (day, hits, decide pending classify rule)\<rparr>)"
| commit: "rn_flight s = Some (day, hits, answers) \<Longrightarrow>
    route_step env classify rule s
      \<lparr>rn_db = absorb_and_noise env day (snd (commit_labels env hits answers (rn_db s))), rn_flight = None\<rparr>"
| label: "route_step env classify rule s (s\<lparr>rn_db := snd (label_event env i raw always (rn_db s))\<rparr>)"
| dismiss: "route_step env classify rule s (s\<lparr>rn_db := snd (dismiss_event env i kind (rn_db s))\<rparr>)"
| unrule: "route_step env classify rule s (s\<lparr>rn_db := snd (delete_rule i (rn_db s))\<rparr>)"

inductive_cases route_stepE: "route_step env classify rule s s'"

lemma load_pending_origins: "load_pending env db day = (hits, pending) \<Longrightarrow> snd ` snd ` set hits \<subseteq> {Rule, Link, Context}"
  by (force simp: load_pending_def Let_def set_map_filter_iff automatic_hit_def split: option.splits if_splits)

definition flight_ok :: "route_run \<Rightarrow> bool" where
  "flight_ok s = (case rn_flight s of None \<Rightarrow> True | Some (day, hits, answers) \<Rightarrow> snd ` snd ` set hits \<subseteq> {Rule, Link, Context})"

lemma flight_step: "route_step env classify rule s s' \<Longrightarrow> flight_ok s \<Longrightarrow> flight_ok s'"
  by (auto simp: flight_ok_def elim!: route_stepE dest!: load_pending_origins)

lemma flight_run: "(route_step env classify rule)\<^sup>*\<^sup>* s s' \<Longrightarrow> flight_ok s \<Longrightarrow> flight_ok s'"
  by (induction rule: rtranclp_induct) (auto dest: flight_step)

context row_keeper
begin

lemma kept_step: "route_step env classify rule s s' \<Longrightarrow> flight_ok s \<Longrightarrow> kept (rn_db s) \<Longrightarrow> kept (rn_db s')"
proof (erule route_stepE)
  fix day hits answers
  assume "flight_ok s" "kept (rn_db s)" "rn_flight s = Some (day, hits, answers)"
    and s': "s' = \<lparr>rn_db = absorb_and_noise env day (snd (commit_labels env hits answers (rn_db s))), rn_flight = None\<rparr>"
  then have "snd ` snd ` set hits \<subseteq> {Rule, Link, Context}" by (simp add: flight_ok_def)
  from kept_absorb[OF kept_commit[OF \<open>kept (rn_db s)\<close> this]] s' show "kept (rn_db s')" by simp
qed (simp_all add: kept_label_event kept_dismiss_event kept_same[OF delete_rule_events])

lemma kept_run:
  assumes "(route_step env classify rule)\<^sup>*\<^sup>* s s'" "flight_ok s" "kept (rn_db s)"
  shows "kept (rn_db s')"
  using assms by (induction rule: rtranclp_induct) (auto dest: kept_step flight_run)

end

section \<open>The owner's requests\<close>

definition open_ids :: "int \<Rightarrow> route_db \<Rightarrow> int set" where
  "open_ids i db = er_id ` {e \<in> set (ro_events db). er_id e \<noteq> i \<and> open_to_rules e}"

lemma apply_rule_only: "only_ids (open_ids i db) db (apply_rule_to_existing env kind pattern i db)"
  unfolding apply_rule_to_existing_def Let_def
  by (rule only_foldl) (auto simp: open_ids_def only_refl split: option.splits intro!: file_or_dismiss_only)

lemma add_rule_only: "only_ids (open_ids i db) db (add_rule env rule folder i db)"
proof (cases rule)
  case None
  then show ?thesis by (simp add: add_rule_def only_refl)
next
  case (Some r)
  obtain kind pattern where r: "r = (kind, pattern)" by fastforce
  let ?db = "upsert_rule env kind pattern folder db"
  have "open_ids i ?db = open_ids i db" by (simp add: open_ids_def)
  with apply_rule_only[of i ?db env kind pattern] Some r show ?thesis by (simp add: add_rule_def only_ids_def)
qed

lemma fetch_ids: "map er_id (ro_events db') = map er_id (ro_events db) \<Longrightarrow> fetch_event i db = Some e \<Longrightarrow> fetch_event i db' \<noteq> None"
proof -
  assume m: "map er_id (ro_events db') = map er_id (ro_events db)" and f: "fetch_event i db = Some e"
  from f have "i \<in> set (map er_id (ro_events db))" by (auto simp: fetch_event_def find_Some_iff)
  with m have "i \<in> set (map er_id (ro_events db'))" by simp
  then show ?thesis by (auto simp: fetch_event_def find_None_iff)
qed

lemma fetch_mem: "fetch_event i db = Some e \<Longrightarrow> e \<in> set (ro_events db) \<and> er_id e = i"
  by (auto simp: fetch_event_def find_Some_iff)

lemma add_rule_fetched: "fetch_event i db = Some e \<Longrightarrow> fetch_event i (add_rule env rule folder i db) \<noteq> None"
  by (rule fetch_ids[OF only_ids_ids[OF add_rule_only]])

lemma fetch_set_label: "fetch_event i db = Some e \<Longrightarrow> \<exists>e'. fetch_event i (set_label env i f v c db) = Some e'"
  and fetch_set_dismissed: "fetch_event i db = Some e \<Longrightarrow> \<exists>e'. fetch_event i (set_dismissed i db) = Some e'"
  using fetch_ids[OF only_ids_ids[OF set_label_only[of i UNIV db env f v c]], of i e]
    fetch_ids[OF only_ids_ids[OF set_dismissed_only[of i UNIV db]], of i e] by auto

lemma fetch_fix [simp]: "fetch_event i (record_fix env j p f db) = fetch_event i db"
  by (simp add: fetch_event_def)

lemma label_event_cases:
  assumes "label_event env i raw always db = (res, db')"
  obtains (failed) e where "res = Inl e" "db' = db"
  | (filed) row rule ev where "res = Inr ev" "fetch_event i db = Some row" "trim raw \<in> set (project_keys env db)"
      "db' = add_rule env rule (trim raw) i
         (record_fix env i (Option.bind (er_path row) (work_folder_for_path (work_roots env))) (trim raw)
           (set_label env i (trim raw) Fix None db))"
proof (cases "trim raw = [] \<or> trim raw \<notin> set (project_keys env db)")
  case True
  with assms have "res = Inl ProjectGone" "db' = db" by (auto simp: label_event_def)
  then show ?thesis by (rule failed)
next
  case key: False
  show ?thesis
  proof (cases "fetch_event i db")
    case None
    with key assms have "res = Inl (EventNotFound i)" "db' = db" by (auto simp: label_event_def)
    then show ?thesis by (rule failed)
  next
    case (Some row)
    show ?thesis
    proof (cases "resolved_rule env row always")
      case (Inl e)
      with key Some assms have "res = Inl e" "db' = db" by (auto simp: label_event_def)
      then show ?thesis by (rule failed)
    next
      case (Inr rule)
      let ?db = "record_fix env i (Option.bind (er_path row) (work_folder_for_path (work_roots env))) (trim raw)
           (set_label env i (trim raw) Fix None db)"
      from fetch_set_label[OF Some, of env "trim raw" Fix None] obtain e' where "fetch_event i ?db = Some e'" by auto
      from add_rule_fetched[OF this, of env rule "trim raw"] obtain x where x: "fetch_event i (add_rule env rule (trim raw) i ?db) = Some x"
        by auto
      with assms key Some Inr have r: "res = Inr (to_routed env x)" "db' = add_rule env rule (trim raw) i ?db"
        by (auto simp: label_event_def Let_def)
      from filed[OF r(1) Some _ r(2)] key show ?thesis by simp
    qed
  qed
qed

lemma dismiss_event_cases:
  assumes "dismiss_event env i kind db = (res, db')"
  obtains (failed) e where "res = Inl e" "db' = db"
  | (hidden) row rule ev where "res = Inr ev" "fetch_event i db = Some row"
      "db' = add_rule env rule IGNORE_FOLDER i (set_dismissed i db)"
proof (cases "fetch_event i db")
  case None
  with assms have "res = Inl (EventNotFound i)" "db' = db" by (auto simp: dismiss_event_def)
  then show ?thesis by (rule failed)
next
  case (Some row)
  show ?thesis
  proof (cases "\<exists>e. res = Inl e \<and> db' = db")
    case True
    with failed show ?thesis by blast
  next
    case False
    with assms Some obtain rule where rule: "resolved_rule env row kind = Inr rule"
      and d: "(res, db') = (ok_or (EventVanished i) (map_option (to_routed env) (fetch_event i (add_rule env rule IGNORE_FOLDER i (set_dismissed i db)))),
        add_rule env rule IGNORE_FOLDER i (set_dismissed i db))"
      by (auto simp: dismiss_event_def Let_def split: if_splits sum.splits)
    from fetch_set_dismissed[OF Some] obtain e' where "fetch_event i (set_dismissed i db) = Some e'" by auto
    from add_rule_fetched[OF this, of env rule IGNORE_FOLDER] obtain x where
      "fetch_event i (add_rule env rule IGNORE_FOLDER i (set_dismissed i db)) = Some x" by auto
    with d hidden[OF _ Some] show ?thesis by auto
  qed
qed

text \<open>The owner's own labels on other events survive, whatever rule a request adds.\<close>

lemma owner_rows_kept:
  assumes "distinct (map er_id (ro_events db))" "e \<in> set (ro_events db)" "er_id e \<noteq> i" "\<not> open_to_rules e"
    and "only_ids {i} db mid"
  shows "e \<in> set (ro_events (add_rule env rule folder i mid))"
proof -
  have e: "e \<in> set (ro_events mid)" using only_kept[OF assms(5,2)] assms(3) by simp
  have d: "distinct (map er_id (ro_events mid))" using assms(1) only_ids_ids[OF assms(5)] by simp
  have "er_id e \<notin> open_ids i mid"
  proof
    assume "er_id e \<in> open_ids i mid"
    then obtain x where "x \<in> set (ro_events mid)" "er_id x = er_id e" "open_to_rules x" by (auto simp: open_ids_def)
    with e d have "x = e" by (auto simp: distinct_map inj_on_def)
    with \<open>open_to_rules x\<close> assms(4) show False by simp
  qed
  from only_kept[OF add_rule_only e this] show ?thesis .
qed

lemma label_written:
  assumes "fetch_event i db = Some row" "only_ids (open_ids i mid) mid db'" "mid = record_fix env i p f (set_label env i f Fix None db)"
  shows "\<exists>e\<in>set (ro_events db'). er_id e = i \<and> er_path e = Some (folder_path_of env f) \<and> er_origin e = Some ''fix'' \<and> er_confidence e = None"
proof -
  let ?e = "row\<lparr>er_path := Some (folder_path_of env f), er_origin := Some (origin_str Fix), er_confidence := None\<rparr>"
  from fetch_mem[OF assms(1)] have "?e \<in> set (ro_events mid)"
    unfolding assms(3) record_fix_events set_label_def update_event_def by (auto simp: image_iff intro!: bexI[of _ row])
  moreover have "er_id ?e \<notin> open_ids i mid" using fetch_mem[OF assms(1)] by (auto simp: open_ids_def)
  ultimately have "?e \<in> set (ro_events db')" by (rule only_kept[OF assms(2)])
  with fetch_mem[OF assms(1)] show ?thesis by (intro bexI[of _ ?e]) (simp_all add: origin_str_def)
qed

lemma label_event_effect:
  assumes "label_event env i raw always db = (Inr ev, db')"
  shows "\<exists>e\<in>set (ro_events db'). er_id e = i \<and> er_path e = Some (folder_path_of env (trim raw)) \<and> er_origin e = Some ''fix'' \<and> er_confidence e = None"
    and "distinct (map er_id (ro_events db)) \<Longrightarrow> e \<in> set (ro_events db) \<Longrightarrow> er_id e \<noteq> i \<Longrightarrow> \<not> open_to_rules e \<Longrightarrow> e \<in> set (ro_events db')"
proof -
  from assms obtain row rule where row: "fetch_event i db = Some row"
    and db': "db' = add_rule env rule (trim raw) i
         (record_fix env i (Option.bind (er_path row) (work_folder_for_path (work_roots env))) (trim raw)
           (set_label env i (trim raw) Fix None db))"
    by (cases rule: label_event_cases) auto
  let ?mid = "record_fix env i (Option.bind (er_path row) (work_folder_for_path (work_roots env))) (trim raw) (set_label env i (trim raw) Fix None db)"
  from label_written[OF row add_rule_only refl, of env] db'
  show "\<exists>e\<in>set (ro_events db'). er_id e = i \<and> er_path e = Some (folder_path_of env (trim raw)) \<and> er_origin e = Some ''fix'' \<and> er_confidence e = None"
    by simp
  have o: "only_ids {i} db ?mid" using set_label_only[of i "{i}" db env "trim raw" Fix None] by (simp add: only_ids_def)
  assume "distinct (map er_id (ro_events db))" "e \<in> set (ro_events db)" "er_id e \<noteq> i" "\<not> open_to_rules e"
  from owner_rows_kept[OF this o] db' show "e \<in> set (ro_events db')" by simp
qed

section \<open>Guesses, shortlists and examples\<close>

lemma accept_accepts: "accept rk options rule = Some g \<Longrightarrow> rk_agreed rk \<and> accepts g options rule"
  by (auto simp: accept_def accepts_def Let_def split: list.splits if_splits)

lemma decide_accepts:
  "a \<in> set (decide pending classify rule) \<Longrightarrow> an_guess a = Some g \<Longrightarrow> rk_agreed (an_ranking a) \<and> accepts g (an_options a) rule"
  by (auto simp: decide_def set_map_filter_iff dest: accept_accepts)

lemma take_new_spec:
  "distinct out \<Longrightarrow> length out \<le> m \<Longrightarrow>
     distinct (take_new m out fs) \<and> length (take_new m out fs) \<le> m \<and> set (take_new m out fs) \<subseteq> set out \<union> set fs"
  by (induction m out fs rule: take_new.induct) auto

lemma shortlist_spec:
  "distinct (shortlist env db row day) \<and> length (shortlist env db row day) \<le> SHORTLIST_MAX
   \<and> set (shortlist env db row day) \<subseteq> set (narrowed_options env (load_registry (ro_tables db)) row (project_keys env db))"
  using take_new_spec[of "[]" SHORTLIST_MAX] by (fastforce simp: shortlist_def Let_def)

definition example_chars :: "(string \<Rightarrow> string list option) \<Rightarrow> string list \<Rightarrow> nat" where
  "example_chars out options =
     sum_list (map (\<lambda>option. case out option of None \<Rightarrow> 0 | Some ts \<Rightarrow> sum_list (map char_count ts)) options)"

lemma example_chars_add:
  "distinct options \<Longrightarrow> option \<in> set options \<Longrightarrow>
     example_chars (add_example option piece out) options = example_chars out options + char_count piece"
proof (induction options)
  case (Cons x xs)
  show ?case
  proof (cases "x = option")
    case True
    with Cons.prems have "option \<notin> set xs" by simp
    then have "example_chars (add_example option piece out) xs = example_chars out xs"
      unfolding example_chars_def by (intro arg_cong[where f = sum_list] map_cong) (auto simp: add_example_def)
    with True show ?thesis by (simp add: example_chars_def add_example_def split: option.splits)
  next
    case False
    with Cons show ?thesis by (simp add: example_chars_def add_example_def)
  qed
qed simp

lemma fill_examples_room:
  "distinct options \<Longrightarrow> fst ` set items \<subseteq> set options \<Longrightarrow>
     example_chars (fill_examples room out items) options \<le> example_chars out options + room"
proof (induction room out items rule: fill_examples.induct)
  case (2 room out option title rest)
  let ?cut = "truncate_chars EXAMPLE_CHARS_EACH title"
  show ?case
  proof (cases "room < char_count ?cut")
    case False
    let ?out = "add_example option ?cut out"
    have "fill_examples room out ((option, title) # rest) = fill_examples (room - char_count ?cut) ?out rest"
      using False by (simp add: Let_def)
    moreover have "example_chars (fill_examples (room - char_count ?cut) ?out rest) options \<le> example_chars ?out options + (room - char_count ?cut)"
      using 2(1)[OF refl refl False 2(2)] 2(3) by simp
    ultimately have "example_chars (fill_examples room out ((option, title) # rest)) options \<le> example_chars ?out options + (room - char_count ?cut)"
      by simp
    also have "\<dots> = example_chars out options + room"
      using example_chars_add[of options option ?cut out] 2(2,3) False by simp
    finally show ?thesis .
  qed (simp add: Let_def)
qed simp

lemma fill_examples_each:
  "(\<And>o2 ts. out o2 = Some ts \<Longrightarrow> list_all (\<lambda>t. char_count t \<le> EXAMPLE_CHARS_EACH) ts) \<Longrightarrow>
     fill_examples room out items option = Some ts \<Longrightarrow> list_all (\<lambda>t. char_count t \<le> EXAMPLE_CHARS_EACH) ts"
proof (induction room out items rule: fill_examples.induct)
  case (2 room out o1 title rest)
  show ?case
  proof (cases "room < char_count (truncate_chars EXAMPLE_CHARS_EACH title)")
    case True
    with 2(3) have "out option = Some ts" by (simp add: Let_def)
    from 2(2)[OF this] show ?thesis .
  next
    case False
    show ?thesis
    proof (rule 2(1)[OF refl refl False])
      fix o2 us
      assume "add_example o1 (truncate_chars EXAMPLE_CHARS_EACH title) out o2 = Some us"
      then show "list_all (\<lambda>t. char_count t \<le> EXAMPLE_CHARS_EACH) us"
        using 2(2)[of o1] 2(2)[of o2] truncate_count[of EXAMPLE_CHARS_EACH title]
        by (auto simp: add_example_def split: if_splits option.splits)
    qed (use 2(3) False in \<open>simp add: Let_def\<close>)
  qed
qed simp

lemma examples_room:
  assumes "distinct options"
  shows "example_chars (examples_for_options db options) options \<le> EXAMPLE_CHARS_TOTAL"
    and "examples_for_options db options option = Some ts \<Longrightarrow> list_all (\<lambda>t. char_count t \<le> EXAMPLE_CHARS_EACH) ts"
proof -
  have "example_chars (\<lambda>_. None) options = 0" by (induction options) (simp_all add: example_chars_def)
  moreover have "fst ` set (concat (map (\<lambda>option. map (Pair option) (examples_for (title_of db) (ro_log db) option EXAMPLES_MAX)) options)) \<subseteq> set options"
    by auto
  ultimately show "example_chars (examples_for_options db options) options \<le> EXAMPLE_CHARS_TOTAL"
    using fill_examples_room[OF assms, of _ EXAMPLE_CHARS_TOTAL "\<lambda>_. None"] unfolding examples_for_options_def by fastforce
  show "examples_for_options db options option = Some ts \<Longrightarrow> list_all (\<lambda>t. char_count t \<le> EXAMPLE_CHARS_EACH) ts"
    unfolding examples_for_options_def by (erule fill_examples_each[rotated]) simp
qed

section \<open>Noise hosts and stale answers\<close>

definition host_row :: "route_env \<Rightarrow> string \<Rightarrow> string \<Rightarrow> event_row \<Rightarrow> bool" where
  "host_row env day h e =
     (er_source e = SOURCE_FIREFOX \<and> take 10 (er_started e) < day
      \<and> er_origin e \<in> Some ` set [''dismissed'', ''fix'', ''context'', ''link'', ''rule'']
      \<and> Option.bind (er_details e) (domain_of (re_lower env)) = Some h)"

lemma count_hosts:
  "length (filter (\<lambda>s. fst s = h) (List.map_filter (\<lambda>e. map_option (\<lambda>x. (x, g e)) (f e)) es))
   = length (filter (\<lambda>e. f e = Some h) es)"
  by (induction es) (auto simp: map_filter_simps split: option.splits)

lemma all_hosts:
  "list_all (\<lambda>s. fst s = h \<longrightarrow> snd s) (List.map_filter (\<lambda>e. map_option (\<lambda>x. (x, g e)) (f e)) es)
   \<longleftrightarrow> (\<forall>e\<in>set es. f e = Some h \<longrightarrow> g e)"
  by (induction es) (auto simp: map_filter_simps split: option.splits)

lemma noise_hosts_iff:
  "(h, n) \<in> set (noise_hosts env db day) \<longleftrightarrow>
     n = int (length (filter (host_row env day h) (ro_events db))) \<and> NOISE_MIN_DISMISSED \<le> n
     \<and> (\<forall>e\<in>set (ro_events db). host_row env day h e \<longrightarrow> er_origin e = Some ''dismissed'')"
proof -
  let ?f = "\<lambda>e. Option.bind (er_details e) (domain_of (re_lower env))"
  let ?rows = "filter (\<lambda>e. er_source e = SOURCE_FIREFOX \<and> take 10 (er_started e) < day
      \<and> er_origin e \<in> Some ` set [''dismissed'', ''fix'', ''context'', ''link'', ''rule'']) (ro_events db)"
  let ?seen = "List.map_filter (\<lambda>e. map_option (\<lambda>h. (h, er_origin e = Some ''dismissed'')) (?f e)) ?rows"
  have row: "host_row env day h e \<longleftrightarrow> e \<in> set ?rows \<and> ?f e = Some h" if "e \<in> set (ro_events db)" for e
    using that unfolding host_row_def by simp
  have c: "length (filter (\<lambda>s. fst s = h) ?seen) = length (filter (host_row env day h) (ro_events db))"
    unfolding count_hosts filter_filter
    by (intro arg_cong[where f = length] filter_cong) (auto simp: host_row_def)
  have a: "list_all (\<lambda>s. fst s = h \<longrightarrow> snd s) ?seen \<longleftrightarrow>
      (\<forall>e\<in>set (ro_events db). host_row env day h e \<longrightarrow> er_origin e = Some ''dismissed'')"
    unfolding all_hosts using row by auto
  have "(h, n) \<in> set (noise_hosts env db day) \<longleftrightarrow>
      h \<in> fst ` set ?seen \<and> n = int (length (filter (\<lambda>s. fst s = h) ?seen))
      \<and> list_all (\<lambda>s. fst s = h \<longrightarrow> snd s) ?seen \<and> NOISE_MIN_DISMISSED \<le> n"
    unfolding noise_hosts_def Let_def by auto
  moreover have "h \<in> fst ` set ?seen" if "NOISE_MIN_DISMISSED \<le> int (length (filter (\<lambda>s. fst s = h) ?seen))"
  proof -
    from that have "filter (\<lambda>s. fst s = h) ?seen \<noteq> []" by (auto simp: NOISE_MIN_DISMISSED_def)
    then show ?thesis unfolding filter_empty_conv by force
  qed
  ultimately show ?thesis unfolding c a by blast
qed

text \<open>A commit writes its guess whatever the row says by then.\<close>

lemma stale_guess_written:
  assumes "e \<in> set (ro_events db)" "er_id e = an_id a" "an_guess a = Some g"
  shows "\<exists>e'\<in>set (ro_events (snd (commit_labels env [] [a] db))).
    er_id e' = er_id e \<and> er_origin e' = Some ''guess'' \<and> er_path e' = Some (folder_path_of env (gu_folder g))"
proof -
  let ?e = "e\<lparr>er_ranking := Some (jc_ranking (re_codec env) (an_ranking a)), er_path := Some (folder_path_of env (gu_folder g)),
      er_origin := Some ''guess'', er_confidence := Some (gu_confidence g)\<rparr>"
  have "?e \<in> set (ro_events (snd (commit_labels env [] [a] db)))"
    using assms
    by (force simp: commit_labels_def commit_answer_def Let_def set_label_def update_event_def record_answer_events origin_str_def image_iff)
  then show ?thesis by (intro bexI[of _ ?e]) simp_all
qed

end
