(* ===== verification/Supervisor.thy ===== *)
theory Supervisor
  imports Prelude
begin

text \<open>
  The watcher of the Verdict helper (\<open>verdict_supervisor.rs\<close>): a state machine over a host that tells the time,
  launches the helper, reports its exit and probes it. What the host answers during one call is the record
  \<open>host_view\<close> (\<open>hv_after\<close> is the clock read again once the launch is over); \<open>sv_launches\<close> is the trace of the launch attempts and \<open>sv_live\<close> counts the helper processes
  that were started and have neither exited nor been killed.
\<close>

section \<open>State\<close>

definition START_GRACE_SECS :: nat where "START_GRACE_SECS = 90"
definition RESTART_LIMIT :: nat where "RESTART_LIMIT = 3"
definition RESTART_WINDOW_SECS :: nat where "RESTART_WINDOW_SECS = 600"

datatype verdict_state = Off | Starting | Running | NotAnswering | NeedsUv | Stopped string

datatype launch_result = Launched | LaunchNeedsUv | LaunchFailed string

record host_view =
  hv_now :: nat
  hv_after :: nat
  hv_launch :: launch_result
  hv_exited :: "string option"
  hv_answering :: bool

record supervisor =
  sv_enabled :: bool
  sv_proc :: bool
  sv_started :: nat
  sv_restarts :: "nat list"
  sv_failed :: "verdict_state option"
  sv_launches :: "nat list"
  sv_live :: int

definition new_supervisor :: supervisor where
  "new_supervisor = \<lparr>sv_enabled = False, sv_proc = False, sv_started = 0, sv_restarts = [], sv_failed = None,
     sv_launches = [], sv_live = 0\<rparr>"

section \<open>Operations\<close>

definition kill :: "supervisor \<Rightarrow> supervisor" where
  "kill s = (if sv_proc s then s\<lparr>sv_proc := False, sv_live := sv_live s - 1\<rparr> else s)"

definition launch :: "host_view \<Rightarrow> supervisor \<Rightarrow> supervisor" where
  "launch h s =
     (let s = s\<lparr>sv_launches := sv_launches s @ [hv_now h]\<rparr>
      in case hv_launch h of
           Launched \<Rightarrow> s\<lparr>sv_proc := True, sv_live := sv_live s + 1, sv_started := hv_after h, sv_failed := None\<rparr>
         | LaunchNeedsUv \<Rightarrow> s\<lparr>sv_failed := Some NeedsUv\<rparr>
         | LaunchFailed err \<Rightarrow> s\<lparr>sv_failed := Some (Stopped err)\<rparr>)"

definition set_enabled :: "bool \<Rightarrow> host_view \<Rightarrow> supervisor \<Rightarrow> supervisor" where
  "set_enabled on h s =
     (let s = s\<lparr>sv_enabled := on\<rparr>
      in if \<not> on then (kill s)\<lparr>sv_failed := None\<rparr>
         else if \<not> sv_proc s then launch h (s\<lparr>sv_restarts := []\<rparr>)
         else s)"

definition retry :: "host_view \<Rightarrow> supervisor \<Rightarrow> supervisor" where
  "retry h s =
     (if sv_enabled s \<and> (case sv_failed s of Some (Stopped _) \<Rightarrow> True | Some NeedsUv \<Rightarrow> True | _ \<Rightarrow> False)
      then launch h (s\<lparr>sv_restarts := []\<rparr>) else s)"

definition tick_helper :: "host_view \<Rightarrow> supervisor \<Rightarrow> supervisor" where
  "tick_helper h s =
     (if \<not> sv_proc s then s
      else case hv_exited h of
             None \<Rightarrow> s
           | Some err \<Rightarrow>
               (let s = s\<lparr>sv_proc := False, sv_live := sv_live s - 1,
                          sv_restarts := filter (\<lambda>t. hv_now h - t < RESTART_WINDOW_SECS) (sv_restarts s)\<rparr>
                in if RESTART_LIMIT \<le> length (sv_restarts s) then s\<lparr>sv_failed := Some (Stopped err)\<rparr>
                   else launch h (s\<lparr>sv_restarts := sv_restarts s @ [hv_now h]\<rparr>)))"

definition shutdown :: "supervisor \<Rightarrow> supervisor" where
  "shutdown s = kill s"

definition supervisor_state :: "host_view \<Rightarrow> supervisor \<Rightarrow> verdict_state" where
  "supervisor_state h s =
     (if \<not> sv_enabled s then Off
      else case sv_failed s of
             Some failed \<Rightarrow> failed
           | None \<Rightarrow>
               if \<not> sv_proc s then NotAnswering
               else if hv_answering h then Running
               else if hv_now h - sv_started s < START_GRACE_SECS then Starting
               else NotAnswering)"

definition parse_enabled :: "string option \<Rightarrow> bool" where
  "parse_enabled raw = (raw \<noteq> Some ''off'')"

section \<open>One helper at a time\<close>

datatype supervisor_call = SetEnabled bool | Retry | Tick | Shutdown

definition run_call :: "host_view \<times> supervisor_call \<Rightarrow> supervisor \<Rightarrow> supervisor" where
  "run_call c s =
     (case c of
        (h, SetEnabled on) \<Rightarrow> set_enabled on h s
      | (h, Retry) \<Rightarrow> retry h s
      | (h, Tick) \<Rightarrow> tick_helper h s
      | (h, Shutdown) \<Rightarrow> shutdown s)"

definition run_calls :: "(host_view \<times> supervisor_call) list \<Rightarrow> supervisor \<Rightarrow> supervisor" where
  "run_calls cs s = foldl (\<lambda>s c. run_call c s) s cs"

text \<open>A failure is shown only while no helper runs; the processes alive are exactly the one held.\<close>

definition supervised :: "supervisor \<Rightarrow> bool" where
  "supervised s = ((sv_failed s \<noteq> None \<longrightarrow> \<not> sv_proc s) \<and> sv_live s = (if sv_proc s then 1 else 0)
     \<and> length (sv_restarts s) \<le> RESTART_LIMIT)"

lemma supervised_new: "supervised new_supervisor"
  by (simp add: supervised_def new_supervisor_def)

lemma kept_le: "length xs \<le> n \<Longrightarrow> length (filter P xs) \<le> n"
  by (rule le_trans[OF length_filter_le])

lemma supervised_call: "supervised s \<Longrightarrow> supervised (run_call c s)"
  by (cases c; cases "snd c")
     (auto simp: run_call_def supervised_def set_enabled_def retry_def tick_helper_def shutdown_def kill_def launch_def Let_def RESTART_LIMIT_def
       split: option.splits launch_result.splits verdict_state.splits if_splits intro!: antisym intro: kept_le)

lemma supervised_run: "supervised s \<Longrightarrow> supervised (run_calls cs s)"
  unfolding run_calls_def by (induction cs arbitrary: s) (simp_all add: supervised_call)

section \<open>The restart budget\<close>

text \<open>Restarts since the budget was seen reset: any four in a row span the whole window.\<close>

definition spaced :: "nat list \<Rightarrow> bool" where
  "spaced ts = (\<forall>i. i + RESTART_LIMIT < length ts \<longrightarrow> ts ! i + RESTART_WINDOW_SECS \<le> ts ! (i + RESTART_LIMIT))"

definition budget_ok :: "nat \<Rightarrow> supervisor \<Rightarrow> bool" where
  "budget_ok now s =
     (\<exists>seen. seen \<le> now \<and> sv_restarts s = filter (\<lambda>t. seen - t < RESTART_WINDOW_SECS) (sv_launches s)
       \<and> sorted (sv_launches s) \<and> list_all (\<lambda>t. t \<le> seen) (sv_launches s) \<and> spaced (sv_launches s))"

lemma spaced_snoc:
  assumes "spaced ts" "sorted ts" "list_all (\<lambda>t. t \<le> now) ts"
    and "length (filter (\<lambda>t. now - t < RESTART_WINDOW_SECS) ts) < RESTART_LIMIT"
  shows "spaced (ts @ [now])"
  unfolding spaced_def
proof (intro allI impI)
  fix i assume i: "i + RESTART_LIMIT < length (ts @ [now])"
  show "(ts @ [now]) ! i + RESTART_WINDOW_SECS \<le> (ts @ [now]) ! (i + RESTART_LIMIT)"
  proof (cases "i + RESTART_LIMIT < length ts")
    case True
    with assms(1) show ?thesis by (simp add: spaced_def nth_append)
  next
    case False
    with i have e: "i + RESTART_LIMIT = length ts" by simp
    have "\<not> now - ts ! i < RESTART_WINDOW_SECS"
    proof
      assume recent: "now - ts ! i < RESTART_WINDOW_SECS"
      have "now - x < RESTART_WINDOW_SECS" if "x \<in> set (drop i ts)" for x
      proof -
        from that obtain j where "x = ts ! (i + j)" "i + j < length ts" by (auto simp: in_set_conv_nth)
        with assms(2) have "ts ! i \<le> x" by (simp add: sorted_nth_mono)
        with recent show ?thesis by simp
      qed
      then have "filter (\<lambda>t. now - t < RESTART_WINDOW_SECS) (drop i ts) = drop i ts" by (simp add: filter_id_conv)
      moreover have "filter (\<lambda>t. now - t < RESTART_WINDOW_SECS) ts
          = filter (\<lambda>t. now - t < RESTART_WINDOW_SECS) (take i ts) @ filter (\<lambda>t. now - t < RESTART_WINDOW_SECS) (drop i ts)"
        by (metis append_take_drop_id filter_append)
      ultimately have "length (drop i ts) < RESTART_LIMIT" using assms(4) by simp
      with e show False by simp
    qed
    moreover have "ts ! i \<le> now" using assms(3) e by (simp add: list_all_length RESTART_LIMIT_def)
    ultimately show ?thesis using e by (simp add: nth_append RESTART_LIMIT_def)
  qed
qed

lemma budget_tick:
  assumes ok: "budget_ok before s" and now: "before \<le> hv_now h"
  shows "budget_ok (hv_now h) (tick_helper h s)"
proof -
  let ?now = "hv_now h" and ?L = "sv_launches s"
  from ok obtain seen where l: "seen \<le> before" "sv_restarts s = filter (\<lambda>t. seen - t < RESTART_WINDOW_SECS) ?L"
    "sorted ?L" "list_all (\<lambda>t. t \<le> seen) ?L" "spaced ?L" by (auto simp: budget_ok_def)
  have kept: "filter (\<lambda>t. ?now - t < RESTART_WINDOW_SECS) (sv_restarts s) = filter (\<lambda>t. ?now - t < RESTART_WINDOW_SECS) ?L"
    unfolding l(2) filter_filter using l(1) now by (intro filter_cong) auto
  have old: "list_all (\<lambda>t. t \<le> ?now) ?L" using l(1,4) now by (auto simp: list_all_iff)
  have same: "budget_ok ?now s" unfolding budget_ok_def using l now by (intro exI[of _ seen]) simp
  show ?thesis
  proof (cases "sv_proc s \<and> hv_exited h \<noteq> None")
    case False
    with same show ?thesis by (auto simp: tick_helper_def)
  next
    case True
    then obtain err where err: "hv_exited h = Some err" "sv_proc s" by auto
    let ?kept = "filter (\<lambda>t. ?now - t < RESTART_WINDOW_SECS) ?L"
    show ?thesis
    proof (cases "RESTART_LIMIT \<le> length ?kept")
      case full: True
      then have "sv_restarts (tick_helper h s) = ?kept" "sv_launches (tick_helper h s) = ?L"
        using err by (simp_all add: tick_helper_def Let_def kept)
      with l(3,5) old show ?thesis unfolding budget_ok_def by (intro exI[of _ ?now]) simp
    next
      case room: False
      then have r: "sv_restarts (tick_helper h s) = ?kept @ [?now]" "sv_launches (tick_helper h s) = ?L @ [?now]"
        using err by (auto simp: tick_helper_def Let_def kept launch_def split: launch_result.splits)
      have "spaced (?L @ [?now])" using spaced_snoc[OF l(5,3) old] room by simp
      with r l(3) old show ?thesis unfolding budget_ok_def
        by (intro exI[of _ ?now]) (auto simp: sorted_append list_all_iff RESTART_WINDOW_SECS_def)
    qed
  qed
qed

definition run_ticks_from :: "host_view list \<Rightarrow> supervisor \<Rightarrow> supervisor" where
  "run_ticks_from hs s = run_calls (map (\<lambda>h. (h, Tick)) hs) s"

lemma budget_ticks:
  "budget_ok now s \<Longrightarrow> sorted (now # map hv_now hs) \<Longrightarrow> spaced (sv_launches (run_ticks_from hs s))"
proof (induction hs arbitrary: now s)
  case Nil
  then show ?case by (auto simp: run_ticks_from_def run_calls_def budget_ok_def)
next
  case (Cons h hs)
  from Cons.prems have "budget_ok (hv_now h) (tick_helper h s)" by (intro budget_tick) auto
  from Cons.IH[OF this] Cons.prems(2) show ?case by (simp add: run_ticks_from_def run_calls_def run_call_def)
qed

text \<open>Right after the owner starts or retries the helper, no restart has been used.\<close>

lemma budget_fresh: "sv_restarts s = [] \<Longrightarrow> budget_ok now (s\<lparr>sv_launches := []\<rparr>)"
  unfolding budget_ok_def by (intro exI[of _ now]) (simp add: spaced_def)

end
