(* ===== verification/ChangeLog.thy ===== *)
theory ChangeLog
  imports TempoSync BillingDay
begin

text \<open>
  The change log (\<open>change_log.rs\<close>, \<open>change_log_column.rs\<close>): after every write the blocks of the day are resolved
  again and compared with the snapshot last stored for them; what changed becomes rows that clients poll by id. The
  text \<open>strftime\<close> prints for now and the JSON printer of shares are parameters.
\<close>

section \<open>Columns\<close>

datatype change_field = FieldCustomer | FieldDeild | FieldSplit | FieldDescription

datatype change_source = ByClaude | ByVerdict | ByKeyword | ByRebuild | ByUser

definition field_col :: "change_field \<Rightarrow> string" where
  "field_col f =
     (case f of FieldCustomer \<Rightarrow> ''customer'' | FieldDeild \<Rightarrow> ''deild'' | FieldSplit \<Rightarrow> ''split''
      | FieldDescription \<Rightarrow> ''description'')"

definition source_col :: "change_source \<Rightarrow> string" where
  "source_col s =
     (case s of ByClaude \<Rightarrow> ''claude'' | ByVerdict \<Rightarrow> ''verdict'' | ByKeyword \<Rightarrow> ''keyword'' | ByRebuild \<Rightarrow> ''rebuild''
      | ByUser \<Rightarrow> ''user'')"

definition field_from_col :: "string \<Rightarrow> change_field option" where
  "field_from_col raw = find_some (\<lambda>f. if field_col f = raw then Some f else None)
     [FieldCustomer, FieldDeild, FieldSplit, FieldDescription]"

definition source_from_col :: "string \<Rightarrow> change_source option" where
  "source_from_col raw = find_some (\<lambda>s. if source_col s = raw then Some s else None)
     [ByClaude, ByVerdict, ByKeyword, ByRebuild, ByUser]"

lemma field_round_trip [simp]: "field_from_col (field_col f) = Some f"
  by (cases f) (simp_all add: field_from_col_def field_col_def)

lemma source_round_trip [simp]: "source_from_col (source_col s) = Some s"
  by (cases s) (simp_all add: source_from_col_def source_col_def)

section \<open>Tables\<close>

record change_row =
  cr_id :: int
  cr_day :: string
  cr_started :: string
  cr_field :: string
  cr_old :: "string option"
  cr_new :: "string option"
  cr_source :: string
  cr_batch :: string
  cr_created :: string
  cr_seen :: "string option"

text \<open>\<open>block_resolution_snapshots\<close>, \<open>block_changes\<close> in id order, and the sequence its ids come from.\<close>

record change_db =
  ch_snapshots :: "string \<times> string \<Rightarrow> (string option \<times> string) option"
  ch_rows :: "change_row list"
  ch_next :: int

record resolution_snapshot =
  sn_day :: string
  sn_started :: string
  sn_description :: "string option"
  sn_parts :: "share_row list"

definition new_batch :: "change_source \<Rightarrow> int \<Rightarrow> string" where
  "new_batch source now_ms = source_col source @ ''-'' @ show_int now_ms"

section \<open>Snapshots\<close>

definition part_of :: "rat \<Rightarrow> billing_slice \<Rightarrow> share_row" where
  "part_of total_secs s =
     (let secs = sum_list (map (\<lambda>(from, upto). upto - from) (bs_intervals s))
      in \<lparr>sr_customer = (case bs_customer s of None \<Rightarrow> [] | Some c \<Rightarrow> c), sr_deild = bs_deild s,
          sr_fraction = f64_div (of_int (f64_round (f64_mul (f64_div (f64_of_int secs) total_secs) 100))) 100\<rparr>)"

definition build_snapshot :: "block \<Rightarrow> billing_slice list \<Rightarrow> resolution_snapshot" where
  "build_snapshot b slices =
     \<lparr>sn_day = bk_day b, sn_started = bk_start b, sn_description = bk_desc b,
      sn_parts = map (part_of (f64_of_int (max (bk_secs b) 1))) slices\<rparr>"

text \<open>A \<open>parts_json\<close> that cannot be read counts as no snapshot.\<close>

definition load_snapshot :: "json \<Rightarrow> string \<Rightarrow> string \<Rightarrow> change_db \<Rightarrow> resolution_snapshot option" where
  "load_snapshot js day started ch =
     (case ch_snapshots ch (day, started) of
        None \<Rightarrow> None
      | Some (description, parts_json) \<Rightarrow>
          map_option (\<lambda>parts. \<lparr>sn_day = day, sn_started = started, sn_description = description, sn_parts = parts\<rparr>)
            (read_rows js parts_json))"

definition store_snapshot :: "json \<Rightarrow> resolution_snapshot \<Rightarrow> change_db \<Rightarrow> change_db" where
  "store_snapshot js s ch =
     ch\<lparr>ch_snapshots := (ch_snapshots ch)((sn_day s, sn_started s) \<mapsto> (sn_description s, show_rows js (sn_parts s)))\<rparr>"

text \<open>\<open>stored_started_at\<close> and \<open>delete_snapshot\<close>: the snapshots of the day whose block is gone.\<close>

definition drop_gone :: "string \<Rightarrow> string list \<Rightarrow> change_db \<Rightarrow> change_db" where
  "drop_gone day current ch =
     ch\<lparr>ch_snapshots := (\<lambda>(d, s). if d = day \<and> s \<notin> set current then None else ch_snapshots ch (d, s))\<rparr>"

section \<open>Comparing\<close>

text \<open>\<open>format!("{:.2}", f)\<close>: two decimals of the exact value, ties to even.\<close>

definition digit :: "nat \<Rightarrow> char" where
  "digit n = char_of (48 + n mod 10)"

definition fixed2 :: "rat \<Rightarrow> string" where
  "fixed2 f =
     (let n = nat \<bar>round_half_even (f * 100)\<bar>
      in (if f < 0 then ''-'' else []) @ show_nat (n div 100) @ [CHR ''.'', digit (n div 10), digit n])"

definition customer_set :: "share_row list \<Rightarrow> string set" where
  "customer_set rows = set (map sr_customer rows)"

definition pair_set :: "share_row list \<Rightarrow> (string \<times> string option) set" where
  "pair_set rows = set (map (\<lambda>r. (sr_customer r, sr_deild r)) rows)"

definition share_view :: "share_row \<Rightarrow> string \<times> string option \<times> string" where
  "share_view r = (sr_customer r, sr_deild r, fixed2 (sr_fraction r))"

definition fraction_list :: "share_row list \<Rightarrow> (string \<times> string option \<times> string) list" where
  "fraction_list rows = sort (map share_view rows)"

definition structural_diff :: "share_row list \<Rightarrow> share_row list \<Rightarrow> change_field option" where
  "structural_diff old new =
     (if customer_set old \<noteq> customer_set new then Some FieldCustomer
      else if pair_set old \<noteq> pair_set new then Some FieldDeild
      else if fraction_list old \<noteq> fraction_list new then Some FieldSplit else None)"

definition MIDDOT :: string where "MIDDOT = [CHR 0xC2, CHR 0xB7]"

definition format_part :: "share_row \<Rightarrow> string" where
  "format_part p =
     (let customer = (if sr_customer p = [] then ''Unresolved'' else sr_customer p);
          label = (case sr_deild p of
              Some d \<Rightarrow> if trim d \<noteq> [] then customer @ MIDDOT @ d else customer
            | None \<Rightarrow> customer)
      in label @ '' '' @ show_int (as_i64 (f64_round (f64_mul (sr_fraction p) 100))) @ ''%'')"

definition format_parts :: "share_row list \<Rightarrow> string" where
  "format_parts parts = join ('' '' @ MIDDOT @ '' '') (map format_part parts)"

section \<open>Logging\<close>

text \<open>Who writes: the source, its batch, and the default of \<open>created_at\<close>.\<close>

record writer =
  wr_source :: change_source
  wr_batch :: string
  wr_stamp :: string

definition insert_change ::
    "writer \<Rightarrow> resolution_snapshot \<Rightarrow> change_field \<Rightarrow> string option \<Rightarrow> string option \<Rightarrow> change_db \<Rightarrow> change_db" where
  "insert_change w s field old new ch =
     ch\<lparr>ch_rows := ch_rows ch @ [\<lparr>cr_id = ch_next ch, cr_day = sn_day s, cr_started = sn_started s, cr_field = field_col field,
          cr_old = old, cr_new = new, cr_source = source_col (wr_source w), cr_batch = wr_batch w,
          cr_created = wr_stamp w, cr_seen = None\<rparr>],
        ch_next := ch_next ch + 1\<rparr>"

definition loggable :: "change_field \<Rightarrow> billing_slice list \<Rightarrow> bool" where
  "loggable field slices = (field \<noteq> FieldSplit \<or> list_all (\<lambda>s. bs_origin s = ManualSplit) slices)"

definition diff_and_log ::
    "writer \<Rightarrow> resolution_snapshot \<Rightarrow> resolution_snapshot \<Rightarrow> billing_slice list \<Rightarrow> change_db \<Rightarrow> change_db \<times> nat" where
  "diff_and_log w old new slices ch =
     (let (ch, logged) =
            (case structural_diff (sn_parts old) (sn_parts new) of
               Some field \<Rightarrow>
                 if loggable field slices
                 then (insert_change w new field (Some (format_parts (sn_parts old))) (Some (format_parts (sn_parts new))) ch, 1)
                 else (ch, 0)
             | None \<Rightarrow> (ch, 0))
      in if sn_description old \<noteq> sn_description new
         then (insert_change w new FieldDescription (sn_description old) (sn_description new) ch, logged + 1)
         else (ch, logged))"

definition refresh_block :: "json \<Rightarrow> string \<Rightarrow> writer \<Rightarrow> block \<Rightarrow> billing_slice list \<Rightarrow> change_db \<Rightarrow> change_db \<times> nat" where
  "refresh_block js day w b slices ch =
     (let snapshot = build_snapshot b slices
      in case load_snapshot js day (bk_start b) ch of
           None \<Rightarrow> (store_snapshot js snapshot ch, 0)
         | Some old \<Rightarrow>
             (let (ch, n) = diff_and_log w old snapshot slices ch
              in (store_snapshot js snapshot ch, n)))"

text \<open>No transaction: an error leaves what the blocks before it wrote.\<close>

fun refresh_blocks ::
    "billing_db \<Rightarrow> string \<Rightarrow> writer \<Rightarrow> block list \<Rightarrow> nat \<Rightarrow> change_db \<Rightarrow> change_db \<times> (billing_error + nat)" where
  "refresh_blocks db day w [] logged ch = (ch, Inr logged)"
| "refresh_blocks db day w (b # bs) logged ch =
     (case resolve_block_slices db b (block_folder db b) of
        Inl e \<Rightarrow> (ch, Inl e)
      | Inr slices \<Rightarrow>
          (let (ch, n) = refresh_block (bd_json db) day w b slices ch
           in refresh_blocks db day w bs (logged + n) ch))"

definition refreshed_blocks :: "block_db \<Rightarrow> string \<Rightarrow> block list" where
  "refreshed_blocks bdb day = filter (\<lambda>b. \<not> bk_personal b) (list_blocks_for_day bdb day)"

definition refresh_day ::
    "billing_db \<Rightarrow> block_db \<Rightarrow> string \<Rightarrow> writer \<Rightarrow> change_db \<Rightarrow> change_db \<times> (billing_error + nat)" where
  "refresh_day db bdb day w ch =
     (let blocks = refreshed_blocks bdb day
      in case refresh_blocks db day w blocks 0 ch of
           (ch, Inl e) \<Rightarrow> (ch, Inl e)
         | (ch, Inr logged) \<Rightarrow> (drop_gone day (map bk_start blocks) ch, Inr logged))"

text \<open>\<open>refresh_day_logged\<close>: a failure is only a warning.\<close>

definition refresh_day_logged ::
    "billing_db \<Rightarrow> block_db \<Rightarrow> string \<Rightarrow> change_source \<Rightarrow> int \<Rightarrow> string \<Rightarrow> change_db \<Rightarrow> change_db" where
  "refresh_day_logged db bdb day source now_ms stamp ch =
     fst (refresh_day db bdb day \<lparr>wr_source = source, wr_batch = new_batch source now_ms, wr_stamp = stamp\<rparr> ch)"

section \<open>The feed\<close>

record logged_change =
  lc_id :: int
  lc_day :: string
  lc_started :: string
  lc_field :: change_field
  lc_old :: "string option"
  lc_new :: "string option"
  lc_source :: change_source
  lc_batch :: string
  lc_created :: string
  lc_seen :: bool

record change_batch =
  cb_batch :: string
  cb_source :: change_source
  cb_count :: int

record change_feed =
  fd_changes :: "logged_change list"
  fd_batches :: "change_batch list"
  fd_cursor :: int

datatype feed_error = BadChangeColumn

definition parse_row :: "change_row \<Rightarrow> feed_error + logged_change" where
  "parse_row r =
     and_then (ok_or BadChangeColumn (field_from_col (cr_field r))) (\<lambda>field.
     and_then (ok_or BadChangeColumn (source_from_col (cr_source r))) (\<lambda>source.
       Inr \<lparr>lc_id = cr_id r, lc_day = cr_day r, lc_started = cr_started r, lc_field = field, lc_old = cr_old r,
         lc_new = cr_new r, lc_source = source, lc_batch = cr_batch r, lc_created = cr_created r,
         lc_seen = (cr_seen r \<noteq> None)\<rparr>))"

type_synonym batch_acc = "(string \<times> change_source \<times> (string \<times> string) list) list"

definition add_to_batch :: "batch_acc \<Rightarrow> logged_change \<Rightarrow> batch_acc" where
  "add_to_batch acc c =
     with_group (lc_batch c) (lc_source c, []) (\<lambda>(source, blocks). (source, List.insert (lc_day c, lc_started c) blocks)) acc"

definition changes_to_feed :: "logged_change list \<Rightarrow> change_feed" where
  "changes_to_feed changes =
     \<lparr>fd_changes = changes,
      fd_batches = map (\<lambda>(batch, source, blocks). \<lparr>cb_batch = batch, cb_source = source, cb_count = int (length blocks)\<rparr>)
        (foldl add_to_batch [] changes),
      fd_cursor = (if changes = [] then 0 else Max (set (map lc_id changes)))\<rparr>"

definition query_feed :: "(change_row \<Rightarrow> bool) \<Rightarrow> change_db \<Rightarrow> feed_error + change_feed" where
  "query_feed P ch = and_then (try_map parse_row (sort_key cr_id (filter P (ch_rows ch)))) (\<lambda>cs. Inr (changes_to_feed cs))"

definition feed :: "change_db \<Rightarrow> int \<Rightarrow> feed_error + change_feed" where
  "feed ch after =
     and_then (query_feed (\<lambda>r. after < cr_id r) ch) (\<lambda>f. Inr (f\<lparr>fd_cursor := max (fd_cursor f) after\<rparr>))"

definition unseen :: "change_db \<Rightarrow> feed_error + change_feed" where
  "unseen ch = query_feed (\<lambda>r. cr_seen r = None) ch"

definition mark_seen :: "int \<Rightarrow> string \<Rightarrow> change_db \<Rightarrow> change_db \<times> nat" where
  "mark_seen up_to stamp ch =
     (let hit = (\<lambda>r. cr_seen r = None \<and> cr_id r \<le> up_to)
      in (ch\<lparr>ch_rows := map (\<lambda>r. if hit r then r\<lparr>cr_seen := Some stamp\<rparr> else r) (ch_rows ch)\<rparr>,
          length (filter hit (ch_rows ch))))"

definition CHANGE_RETENTION_DAYS :: int where "CHANGE_RETENTION_DAYS = 30"

definition purge_old :: "(instant \<Rightarrow> string) \<Rightarrow> instant \<Rightarrow> change_db \<Rightarrow> change_db \<times> nat" where
  "purge_old show_ms now ch =
     (let cutoff = show_ms (now - minutes (CHANGE_RETENTION_DAYS * 1440));
          old = (\<lambda>r. cr_created r < cutoff)
      in (ch\<lparr>ch_rows := filter (\<lambda>r. \<not> old r) (ch_rows ch)\<rparr>, length (filter old (ch_rows ch))))"

section \<open>What counts as a change\<close>

text \<open>The cascade says "nothing changed" exactly when both sides show the same customer, deild and two-decimal share, each
  as often.\<close>

lemma same_views_sets:
  assumes "mset (map share_view a) = mset (map share_view b)"
  shows "customer_set a = customer_set b" "pair_set a = pair_set b"
proof -
  have v: "set (map share_view a) = set (map share_view b)" using assms by (rule mset_eq_setD)
  have c: "customer_set rows = fst ` set (map share_view rows)" for rows
    unfolding customer_set_def by (simp add: share_view_def image_image)
  have p: "pair_set rows = (\<lambda>(c, d, _). (c, d)) ` set (map share_view rows)" for rows
    unfolding pair_set_def by (simp add: share_view_def image_image)
  show "customer_set a = customer_set b" "pair_set a = pair_set b" by (simp_all only: c p v)
qed

lemma sort_eq_iff: "sort xs = sort ys \<longleftrightarrow> mset xs = mset ys"
proof
  assume "sort xs = sort ys"
  from arg_cong[OF this, of mset] show "mset xs = mset ys" by simp
next
  assume "mset xs = mset ys"
  then show "sort xs = sort ys" by (intro properties_for_sort) simp_all
qed

lemma fraction_list_eq_iff: "fraction_list a = fraction_list b \<longleftrightarrow> mset (map share_view a) = mset (map share_view b)"
  unfolding fraction_list_def by (rule sort_eq_iff)

lemma structural_diff_None_iff:
  "structural_diff old new = None \<longleftrightarrow> mset (map share_view old) = mset (map share_view new)"
  using same_views_sets[of old new] by (auto simp: structural_diff_def fraction_list_eq_iff)

lemma structural_diff_Some:
  "structural_diff old new = Some FieldCustomer \<longleftrightarrow> customer_set old \<noteq> customer_set new"
  "structural_diff old new = Some FieldDeild \<longleftrightarrow> customer_set old = customer_set new \<and> pair_set old \<noteq> pair_set new"
  "structural_diff old new = Some FieldSplit \<longleftrightarrow> pair_set old = pair_set new \<and> fraction_list old \<noteq> fraction_list new"
  "structural_diff old new \<noteq> Some FieldDescription"
proof -
  have "pair_set old = pair_set new \<Longrightarrow> customer_set old = customer_set new"
  proof -
    have c: "customer_set rows = fst ` pair_set rows" for rows by (simp add: customer_set_def pair_set_def image_image)
    show "pair_set old = pair_set new \<Longrightarrow> customer_set old = customer_set new" by (simp only: c)
  qed
  then show "structural_diff old new = Some FieldSplit \<longleftrightarrow> pair_set old = pair_set new \<and> fraction_list old \<noteq> fraction_list new"
    by (auto simp: structural_diff_def)
qed (auto simp: structural_diff_def)

section \<open>Ids only grow\<close>

text \<open>What any writer does to the log: it appends rows that parse, under the next ids.\<close>

definition parses :: "change_row \<Rightarrow> bool" where
  "parses r = (field_from_col (cr_field r) \<noteq> None \<and> source_from_col (cr_source r) \<noteq> None)"

definition appended :: "change_db \<Rightarrow> change_row list \<Rightarrow> change_db \<Rightarrow> bool" where
  "appended ch new ch' =
     (ch_rows ch' = ch_rows ch @ new \<and> ch_next ch' = ch_next ch + int (length new) \<and>
      map cr_id new = [ch_next ch..ch_next ch' - 1] \<and> list_all parses new)"

lemma appended_refl [simp]: "appended ch [] ch" "ch_rows ch' = ch_rows ch \<Longrightarrow> ch_next ch' = ch_next ch \<Longrightarrow> appended ch [] ch'"
  by (simp_all add: appended_def)

lemma upto_append: "i \<le> j \<Longrightarrow> j \<le> k \<Longrightarrow> [i..j - 1] @ [j..k - 1] = [i..k - 1]" for i j k :: int
  by (cases "j = k") (simp_all add: upto_split1[of i j "k - 1"])

lemma appended_trans: "appended a xs b \<Longrightarrow> appended b ys c \<Longrightarrow> appended a (xs @ ys) c"
  unfolding appended_def by (auto simp: upto_append)

lemma appended_insert: "\<exists>r. appended ch [r] (insert_change w s field old new ch) \<and> field_from_col (cr_field r) = Some field
    \<and> cr_day r = sn_day s \<and> cr_started r = sn_started s \<and> cr_old r = old \<and> cr_new r = new"
  by (simp add: insert_change_def appended_def parses_def)

lemma store_snapshot_log [simp]:
  "ch_rows (store_snapshot js s ch) = ch_rows ch" "ch_next (store_snapshot js s ch) = ch_next ch"
  by (simp_all add: store_snapshot_def)

lemma insert_change_snapshots [simp]: "ch_snapshots (insert_change w s field old new ch) = ch_snapshots ch"
  by (simp add: insert_change_def)

text \<open>What \<open>diff_and_log\<close> writes.\<close>

definition diff_rows :: "resolution_snapshot \<Rightarrow> resolution_snapshot \<Rightarrow> billing_slice list \<Rightarrow> (change_field \<times> string option \<times> string option) list" where
  "diff_rows old new slices =
     (case structural_diff (sn_parts old) (sn_parts new) of
        Some field \<Rightarrow>
          if loggable field slices
          then [(field, Some (format_parts (sn_parts old)), Some (format_parts (sn_parts new)))] else []
      | None \<Rightarrow> [])
     @ (if sn_description old \<noteq> sn_description new
        then [(FieldDescription, sn_description old, sn_description new)] else [])"

lemma diff_and_log_rows:
  "diff_and_log w old new slices ch =
     (foldl (\<lambda>ch (field, o', n'). insert_change w new field o' n' ch) ch (diff_rows old new slices),
      length (diff_rows old new slices))"
  by (simp add: diff_and_log_def diff_rows_def split: option.splits)

definition row_view :: "change_row \<Rightarrow> change_field option \<times> string option \<times> string option" where
  "row_view r = (field_from_col (cr_field r), cr_old r, cr_new r)"

lemma appended_inserts:
  "\<exists>new. appended ch new (foldl (\<lambda>ch (field, o', n'). insert_change w s field o' n' ch) ch rows) \<and>
     map row_view new = map (\<lambda>(f, o', n'). (Some f, o', n')) rows \<and>
     list_all (\<lambda>r. cr_day r = sn_day s \<and> cr_started r = sn_started s) new"
proof (induction rows arbitrary: ch)
  case Nil
  show ?case by (intro exI[of _ "[]"]) simp
next
  case (Cons x rows)
  obtain f o' n' where x: "x = (f, o', n')" by (cases x)
  obtain r where r: "appended ch [r] (insert_change w s f o' n' ch)" "row_view r = (Some f, o', n')"
    "cr_day r = sn_day s" "cr_started r = sn_started s"
    using appended_insert[of ch w s f o' n'] by (auto simp: row_view_def)
  from Cons.IH[of "insert_change w s f o' n' ch"] obtain new where n:
    "appended (insert_change w s f o' n' ch) new
       (foldl (\<lambda>ch (field, o', n'). insert_change w s field o' n' ch) (insert_change w s f o' n' ch) rows)"
    "map row_view new = map (\<lambda>(f, o', n'). (Some f, o', n')) rows"
    "list_all (\<lambda>r. cr_day r = sn_day s \<and> cr_started r = sn_started s) new" by auto
  from appended_trans[OF r(1) n(1)] n(2,3) r(2-4) x show ?case by (intro exI[of _ "[r] @ new"]) simp
qed

lemma refresh_block_appends:
  "\<exists>new. appended ch new (fst (refresh_block js day w b slices ch)) \<and> snd (refresh_block js day w b slices ch) = length new \<and>
     list_all (\<lambda>r. cr_day r = bk_day b \<and> cr_started r = bk_start b) new \<and>
     map row_view new =
       (case load_snapshot js day (bk_start b) ch of
          None \<Rightarrow> []
        | Some old \<Rightarrow> map (\<lambda>(f, o', n'). (Some f, o', n')) (diff_rows old (build_snapshot b slices) slices))"
proof (cases "load_snapshot js day (bk_start b) ch")
  case None
  then show ?thesis by (intro exI[of _ "[]"]) (simp add: refresh_block_def)
next
  case (Some old)
  let ?s = "build_snapshot b slices"
  from appended_inserts[of ch w ?s "diff_rows old ?s slices"] obtain new where new:
    "appended ch new (foldl (\<lambda>ch (field, o', n'). insert_change w ?s field o' n' ch) ch (diff_rows old ?s slices))"
    "map row_view new = map (\<lambda>(f, o', n'). (Some f, o', n')) (diff_rows old ?s slices)"
    "list_all (\<lambda>r. cr_day r = bk_day b \<and> cr_started r = bk_start b) new" by (auto simp: build_snapshot_def)
  from new(2) have "length new = length (diff_rows old ?s slices)" by (metis length_map)
  with new Some show ?thesis
    by (intro exI[of _ new]) (simp add: refresh_block_def diff_and_log_rows Let_def appended_def)
qed

lemma refresh_blocks_appends:
  "\<exists>new. appended ch new (fst (refresh_blocks db day w bs n ch)) \<and>
     list_all (\<lambda>r. \<exists>b\<in>set bs. cr_day r = bk_day b \<and> cr_started r = bk_start b) new"
proof (induction bs arbitrary: n ch)
  case Nil
  show ?case by (intro exI[of _ "[]"]) simp
next
  case (Cons b bs)
  show ?case
  proof (cases "resolve_block_slices db b (block_folder db b)")
    case (Inl e)
    then show ?thesis by (intro exI[of _ "[]"]) simp
  next
    case (Inr slices)
    obtain ch1 k where r: "refresh_block (bd_json db) day w b slices ch = (ch1, k)" by force
    from refresh_block_appends[of ch "bd_json db" day w b slices] r obtain new where
      a: "appended ch new ch1" "list_all (\<lambda>r. cr_day r = bk_day b \<and> cr_started r = bk_start b) new" by auto
    from Cons.IH[of ch1 "n + k"] obtain more where
      m: "appended ch1 more (fst (refresh_blocks db day w bs (n + k) ch1))"
      "list_all (\<lambda>r. \<exists>b\<in>set bs. cr_day r = bk_day b \<and> cr_started r = bk_start b) more" by auto
    from appended_trans[OF a(1) m(1)] a(2) m(2) Inr r show ?thesis
      by (intro exI[of _ "new @ more"]) (auto simp: list_all_iff)
  qed
qed

lemma drop_gone_log [simp]: "ch_rows (drop_gone day cur ch) = ch_rows ch" "ch_next (drop_gone day cur ch) = ch_next ch"
  by (simp_all add: drop_gone_def)

lemma refreshed_block_day: "b \<in> set (refreshed_blocks bdb day) \<Longrightarrow> bk_day b = day \<and> \<not> bk_personal b"
  by (auto simp: refreshed_blocks_def list_blocks_for_day_def)

lemma refresh_day_appends:
  "\<exists>new. appended ch new (fst (refresh_day db bdb day w ch)) \<and>
     list_all (\<lambda>r. cr_day r = day \<and> (\<exists>b\<in>set (refreshed_blocks bdb day). cr_started r = bk_start b)) new"
proof -
  let ?r = "refresh_blocks db day w (refreshed_blocks bdb day) 0 ch"
  from refresh_blocks_appends[of ch db day w "refreshed_blocks bdb day" 0] obtain new where n: "appended ch new (fst ?r)"
    "list_all (\<lambda>r. \<exists>b\<in>set (refreshed_blocks bdb day). cr_day r = bk_day b \<and> cr_started r = bk_start b) new" by auto
  from n(2) have d: "list_all (\<lambda>r. cr_day r = day \<and> (\<exists>b\<in>set (refreshed_blocks bdb day). cr_started r = bk_start b)) new"
    using refreshed_block_day by (fastforce simp: list_all_iff)
  from n(1) have "appended ch new (fst (refresh_day db bdb day w ch))"
    by (cases ?r; cases "snd ?r") (auto simp: refresh_day_def Let_def appended_def)
  with d show ?thesis by blast
qed

section \<open>A refresh compares with the last one\<close>

definition snapshot_cols :: "billing_db \<Rightarrow> block \<Rightarrow> string option \<times> string" where
  "snapshot_cols db b = (bk_desc b, show_rows (bd_json db) (sn_parts (build_snapshot b (slices_of db b))))"

definition block_diff :: "billing_db \<Rightarrow> change_db \<Rightarrow> block \<Rightarrow> (string \<times> change_field option \<times> string option \<times> string option) list" where
  "block_diff db ch b =
     (case load_snapshot (bd_json db) (bk_day b) (bk_start b) ch of
        None \<Rightarrow> []
      | Some old \<Rightarrow> map (\<lambda>(f, o', n'). (bk_start b, Some f, o', n'))
          (diff_rows old (build_snapshot b (slices_of db b)) (slices_of db b)))"

definition change_view :: "change_row \<Rightarrow> string \<times> change_field option \<times> string option \<times> string option" where
  "change_view r = (cr_started r, row_view r)"

lemma refresh_block_snapshots:
  "ch_snapshots (fst (refresh_block js day w b slices ch)) =
     (ch_snapshots ch)((bk_day b, bk_start b) \<mapsto> (bk_desc b, show_rows js (sn_parts (build_snapshot b slices))))"
proof -
  have f: "ch_snapshots (foldl (\<lambda>ch (field, o', n'). insert_change w s field o' n' ch) ch rows) = ch_snapshots ch" for s rows
    by (induction rows arbitrary: ch) auto
  show ?thesis
    by (simp add: refresh_block_def store_snapshot_def build_snapshot_def diff_and_log_rows Let_def f split: option.splits)
qed

lemma refresh_blocks_Cons:
  assumes run: "refresh_blocks db day w (b # bs) n ch = (ch', Inr m)"
    and d: "distinct (map bk_start (b # bs))" and day: "\<forall>b\<in>set (b # bs). bk_day b = day"
  obtains slices ch1 k where "resolve_block_slices db b (block_folder db b) = Inr slices" "slices_of db b = slices"
    "refresh_block (bd_json db) day w b slices ch = (ch1, k)"
    "refresh_blocks db day w bs (n + k) ch1 = (ch', Inr m)" "distinct (map bk_start bs)" "\<forall>b\<in>set bs. bk_day b = day"
    "ch_snapshots ch1 = (ch_snapshots ch)((day, bk_start b) \<mapsto> snapshot_cols db b)"
proof -
  from run obtain slices where s: "resolve_block_slices db b (block_folder db b) = Inr slices"
    by (auto split: sum.splits)
  obtain ch1 k where r: "refresh_block (bd_json db) day w b slices ch = (ch1, k)" by force
  have so: "slices_of db b = slices" using s by (simp add: slices_of_def)
  from refresh_block_snapshots[of "bd_json db" day w b slices ch] r so day
  have "ch_snapshots ch1 = (ch_snapshots ch)((day, bk_start b) \<mapsto> snapshot_cols db b)" by (simp add: snapshot_cols_def)
  with that[OF s so r] run s r d day show thesis by simp
qed

lemma refresh_blocks_exact:
  assumes "refresh_blocks db day w bs n ch = (ch', Inr m)" "distinct (map bk_start bs)" "\<forall>b\<in>set bs. bk_day b = day"
  shows "\<exists>new. appended ch new ch' \<and> m = n + length new \<and> map change_view new = concat (map (block_diff db ch) bs)"
    and "\<forall>b\<in>set bs. ch_snapshots ch' (day, bk_start b) = Some (snapshot_cols db b) \<and> resolve_block_slices db b (block_folder db b) = Inr (slices_of db b)"
    and "\<forall>k. k \<notin> Pair day ` bk_start ` set bs \<longrightarrow> ch_snapshots ch' k = ch_snapshots ch k"
  using assms
proof (induction bs arbitrary: n ch)
  case Nil
  { case 1 then show ?case by (intro exI[of _ "[]"]) auto
  next case 2 then show ?case by simp
  next case 3 then show ?case by simp }
next
  case (Cons b bs)
  note step = Cons.IH and split = refresh_blocks_Cons
  { case 1
    from 1 show ?case
    proof (rule split)
      fix slices ch1 k
      assume s: "resolve_block_slices db b (block_folder db b) = Inr slices" "slices_of db b = slices"
        and r: "refresh_block (bd_json db) day w b slices ch = (ch1, k)"
        and rest: "refresh_blocks db day w bs (n + k) ch1 = (ch', Inr m)" "distinct (map bk_start bs)" "\<forall>b\<in>set bs. bk_day b = day"
        and snaps: "ch_snapshots ch1 = (ch_snapshots ch)((day, bk_start b) \<mapsto> snapshot_cols db b)"
      from refresh_block_appends[of ch "bd_json db" day w b slices] r obtain new where a: "appended ch new ch1" "k = length new"
        "list_all (\<lambda>r. cr_day r = bk_day b \<and> cr_started r = bk_start b) new"
        "map row_view new = (case load_snapshot (bd_json db) day (bk_start b) ch of None \<Rightarrow> []
           | Some old \<Rightarrow> map (\<lambda>(f, o', n'). (Some f, o', n')) (diff_rows old (build_snapshot b slices) slices))" by auto
      have "map change_view new = map (Pair (bk_start b)) (map row_view new)"
        using a(3) by (auto simp: change_view_def list_all_iff)
      with a(4) s(2) 1(3) have v: "map change_view new = block_diff db ch b"
        by (auto simp: block_diff_def split: option.splits)
      from step(1)[OF rest] obtain more where more: "appended ch1 more ch'" "m = n + k + length more"
        "map change_view more = concat (map (block_diff db ch1) bs)" by auto
      have "block_diff db ch1 c = block_diff db ch c" if "c \<in> set bs" for c
      proof -
        from that have "bk_start c \<in> bk_start ` set bs" by simp
        with 1(2) have "bk_start c \<noteq> bk_start b" by auto
        then have "ch_snapshots ch1 (bk_day c, bk_start c) = ch_snapshots ch (bk_day c, bk_start c)" by (simp add: snaps)
        then show ?thesis by (simp add: block_diff_def load_snapshot_def)
      qed
      then have "map (block_diff db ch1) bs = map (block_diff db ch) bs" by simp
      with more(3) v have "map change_view (new @ more) = concat (map (block_diff db ch) (b # bs))" by simp
      with appended_trans[OF a(1) more(1)] a(2) more(2)
      show ?thesis by (intro exI[of _ "new @ more"]) simp
    qed
  next
    case 2
    from 2 show ?case
    proof (rule split)
      fix slices ch1 k
      assume s: "resolve_block_slices db b (block_folder db b) = Inr slices" "slices_of db b = slices"
        and rest: "refresh_blocks db day w bs (n + k) ch1 = (ch', Inr m)" "distinct (map bk_start bs)" "\<forall>b\<in>set bs. bk_day b = day"
        and snaps: "ch_snapshots ch1 = (ch_snapshots ch)((day, bk_start b) \<mapsto> snapshot_cols db b)"
      from 2(2) have "(day, bk_start b) \<notin> Pair day ` bk_start ` set bs" by auto
      with step(3)[OF rest] have "ch_snapshots ch' (day, bk_start b) = Some (snapshot_cols db b)" by (auto simp: snaps)
      with step(2)[OF rest] s show ?thesis by simp
    qed
  next
    case 3
    from 3 show ?case
    proof (rule split)
      fix slices ch1 k
      assume rest: "refresh_blocks db day w bs (n + k) ch1 = (ch', Inr m)" "distinct (map bk_start bs)" "\<forall>b\<in>set bs. bk_day b = day"
        and snaps: "ch_snapshots ch1 = (ch_snapshots ch)((day, bk_start b) \<mapsto> snapshot_cols db b)"
      from step(3)[OF rest] show ?thesis by (auto simp: snaps)
    qed }
qed

lemma refresh_day_exact:
  assumes run: "refresh_day db bdb day w ch = (ch', Inr m)" and d: "distinct (map bk_start (refreshed_blocks bdb day))"
  shows "\<exists>new. appended ch new ch' \<and> m = length new \<and>
      map change_view new = concat (map (block_diff db ch) (refreshed_blocks bdb day))"
    and "\<forall>b\<in>set (refreshed_blocks bdb day). ch_snapshots ch' (day, bk_start b) = Some (snapshot_cols db b)
      \<and> resolve_block_slices db b (block_folder db b) = Inr (slices_of db b)"
    and "\<forall>d s. ch_snapshots ch' (d, s) = (if d = day then
        (if s \<in> bk_start ` set (refreshed_blocks bdb day) then ch_snapshots ch' (d, s) else None) else ch_snapshots ch (d, s))"
proof -
  let ?bs = "refreshed_blocks bdb day"
  have day: "\<forall>b\<in>set ?bs. bk_day b = day" using refreshed_block_day by blast
  from run obtain ch1 where r: "refresh_blocks db day w ?bs 0 ch = (ch1, Inr m)" "ch' = drop_gone day (map bk_start ?bs) ch1"
    by (auto simp: refresh_day_def Let_def split: prod.splits sum.splits)
  note ex = refresh_blocks_exact[OF r(1) d day]
  from ex(1) show "\<exists>new. appended ch new ch' \<and> m = length new \<and> map change_view new = concat (map (block_diff db ch) ?bs)"
    by (auto simp: r(2) appended_def)
  from ex(2) show "\<forall>b\<in>set ?bs. ch_snapshots ch' (day, bk_start b) = Some (snapshot_cols db b)
      \<and> resolve_block_slices db b (block_folder db b) = Inr (slices_of db b)"
    by (simp add: r(2) drop_gone_def)
  from ex(3) show "\<forall>d s. ch_snapshots ch' (d, s) = (if d = day then
        (if s \<in> bk_start ` set ?bs then ch_snapshots ch' (d, s) else None) else ch_snapshots ch (d, s))"
    by (auto simp: r(2) drop_gone_def)
qed

text \<open>What a block's shares read back as after they are printed: the same customers, deilds and two-decimal shares.\<close>

definition parts_read_back :: "billing_db \<Rightarrow> block \<Rightarrow> bool" where
  "parts_read_back db b =
     (let parts = sn_parts (build_snapshot b (slices_of db b))
      in case read_rows (bd_json db) (show_rows (bd_json db) parts) of
           None \<Rightarrow> False
         | Some back \<Rightarrow> map share_view back = map share_view parts)"

lemma settled_no_diff:
  assumes "ch_snapshots ch (bk_day b, bk_start b) = Some (snapshot_cols db b)" "parts_read_back db b"
  shows "block_diff db ch b = []"
proof -
  let ?parts = "sn_parts (build_snapshot b (slices_of db b))"
  from assms(2) obtain readback where rb: "read_rows (bd_json db) (show_rows (bd_json db) ?parts) = Some readback"
    "map share_view readback = map share_view ?parts" by (auto simp: parts_read_back_def Let_def split: option.splits)
  from rb(2) have "structural_diff readback ?parts = None" by (simp only: structural_diff_None_iff)
  with assms(1) rb(1) show ?thesis
    by (simp add: block_diff_def load_snapshot_def snapshot_cols_def diff_rows_def) (simp add: build_snapshot_def)
qed

text \<open>Nothing happened between two refreshes: the second writes no row and leaves every snapshot.\<close>

lemma refresh_idle:
  assumes run: "refresh_day db bdb day w ch = (ch1, Inr m)" and again: "refresh_day db bdb day w' ch1 = (ch2, Inr m')"
    and d: "distinct (map bk_start (refreshed_blocks bdb day))" and rb: "list_all (parts_read_back db) (refreshed_blocks bdb day)"
  shows "m' = 0 \<and> ch2 = ch1"
proof -
  let ?bs = "refreshed_blocks bdb day"
  note first = refresh_day_exact[OF run d] and second = refresh_day_exact[OF again d]
  have "block_diff db ch1 b = []" if "b \<in> set ?bs" for b
    using settled_no_diff[of ch1 b db] first(2) rb that refreshed_block_day[OF that] by (auto simp: list_all_iff)
  then have "concat (map (block_diff db ch1) ?bs) = []" by simp
  with second(1) obtain new where new: "appended ch1 new ch2" "m' = length new" "map change_view new = []" by metis
  then have log: "m' = 0" "ch_rows ch2 = ch_rows ch1" "ch_next ch2 = ch_next ch1" by (auto simp: appended_def)
  have "ch_snapshots ch2 (x, y) = ch_snapshots ch1 (x, y)" for x y
  proof (cases "x = day \<and> y \<in> bk_start ` set ?bs")
    case True
    with first(2) second(2) show ?thesis by auto
  next
    case False
    with first(3) second(3) show ?thesis by metis
  qed
  then have "ch_snapshots ch2 = ch_snapshots ch1" by (auto simp: fun_eq_iff)
  with log show ?thesis by simp
qed

lemma refresh_succeeds:
  "(\<forall>b\<in>set bs. \<exists>slices. resolve_block_slices db b (block_folder db b) = Inr slices) \<Longrightarrow> \<exists>ch' m. refresh_blocks db day w bs n ch = (ch', Inr m)"
  by (induction bs arbitrary: n ch) (auto split: prod.splits)

lemma refresh_again:
  assumes "refresh_day db bdb day w ch = (ch1, Inr m)" "distinct (map bk_start (refreshed_blocks bdb day))"
  shows "\<exists>ch2 m'. refresh_day db bdb day w' ch1 = (ch2, Inr m')"
proof -
  from refresh_day_exact(2)[OF assms]
  have "\<forall>b\<in>set (refreshed_blocks bdb day). \<exists>slices. resolve_block_slices db b (block_folder db b) = Inr slices" by blast
  from refresh_succeeds[OF this, of day w' 0 ch1] show ?thesis by (auto simp: refresh_day_def)
qed

section \<open>Polling\<close>

text \<open>What a polling client needs of a log: ids are issued in order and never again, and a poll answers with exactly the
  stored entries after its cursor. Then, whatever is written, marked or purged between polls, it is handed no entry
  twice and misses none that is still there.\<close>

locale pollable =
  fixes sound :: "'s \<Rightarrow> bool" and ids :: "'s \<Rightarrow> int set" and issued :: "'s \<Rightarrow> int"
    and changed :: "'s \<Rightarrow> 's \<Rightarrow> bool" and poll :: "'s \<Rightarrow> int \<Rightarrow> (int list \<times> int) option"
  assumes positive: "sound s \<Longrightarrow> i \<in> ids s \<Longrightarrow> 0 < i \<and> i < issued s" "sound s \<Longrightarrow> 0 < issued s"
    and stays: "sound s \<Longrightarrow> changed s s' \<Longrightarrow> sound s'"
    and fresh: "sound s \<Longrightarrow> changed s s' \<Longrightarrow> issued s \<le> issued s' \<and> (\<forall>i\<in>ids s' - ids s. issued s \<le> i)"
    and answers: "sound s \<Longrightarrow> 0 \<le> c \<Longrightarrow> \<exists>new. poll s c = Some (new, fold max new c) \<and> sorted_wrt (<) new \<and> set new = {i \<in> ids s. c < i}"
begin

definition in_step :: "'s \<Rightarrow> int \<Rightarrow> int list \<Rightarrow> bool" where
  "in_step s c got = (sound s \<and> 0 \<le> c \<and> c < issued s \<and> sorted_wrt (<) got \<and> (\<forall>i\<in>set got. i \<le> c) \<and> {i \<in> ids s. i \<le> c} \<subseteq> set got)"

lemma in_step_start: "sound s \<Longrightarrow> in_step s 0 []"
  using positive[of s] by (force simp: in_step_def)

lemma in_step_changed: "in_step s c got \<Longrightarrow> changed s s' \<Longrightarrow> in_step s' c got"
  unfolding in_step_def using stays[of s s'] fresh[of s s'] by force

lemma fold_max_ge: "c \<le> fold max new c" and fold_max_in: "fold max new c \<in> insert c (set new)"
  and fold_max_all: "i \<in> set new \<Longrightarrow> i \<le> fold max new c" for c :: int
  by (simp_all add: Max.set_eq_fold[symmetric]) (metis Max_in finite.intros(2) finite_set insert_iff insert_not_empty)

lemma in_step_poll:
  assumes "in_step s c got" "poll s c = Some (new, c')"
  shows "in_step s c' (got @ new)" "ids s \<subseteq> set (got @ new)"
proof -
  from assms(1) have s: "sound s" "0 \<le> c" by (simp_all add: in_step_def)
  from answers[OF s] assms(2) have new: "c' = fold max new c" "sorted_wrt (<) new" "set new = {i \<in> ids s. c < i}" by auto
  have "c' < issued s" using fold_max_in[of new c] new(1,3) positive(1)[OF s(1)] assms(1) by (auto simp: in_step_def)
  moreover have "sorted_wrt (<) (got @ new)"
    using assms(1) new by (force simp: in_step_def sorted_wrt_append)
  moreover have "\<forall>i\<in>set (got @ new). i \<le> c'"
    using assms(1) fold_max_ge[of c new] fold_max_all[of _ new c] new(1) by (force simp: in_step_def)
  moreover show all: "ids s \<subseteq> set (got @ new)"
    using assms(1) new(3) by (force simp: in_step_def)
  ultimately show "in_step s c' (got @ new)"
    using assms(1) fold_max_ge[of c new] new(1) by (auto simp: in_step_def)
qed

end

definition change_log_ok :: "change_db \<Rightarrow> bool" where
  "change_log_ok ch = (0 < ch_next ch \<and> sorted_wrt (<) (map cr_id (ch_rows ch)) \<and>
     list_all (\<lambda>r. 0 < cr_id r \<and> cr_id r < ch_next ch \<and> parses r) (ch_rows ch))"

datatype log_write = Refresh billing_db block_db string writer | MarkSeen int string | PurgeOld "instant \<Rightarrow> string" instant

definition run_write :: "log_write \<Rightarrow> change_db \<Rightarrow> change_db" where
  "run_write c ch =
     (case c of
        Refresh db bdb day w \<Rightarrow> fst (refresh_day db bdb day w ch)
      | MarkSeen up_to stamp \<Rightarrow> fst (mark_seen up_to stamp ch)
      | PurgeOld show_ms now \<Rightarrow> fst (purge_old show_ms now ch))"

lemma change_log_appended: "change_log_ok ch \<Longrightarrow> appended ch new ch' \<Longrightarrow> change_log_ok ch'"
proof -
  assume ok: "change_log_ok ch" and a: "appended ch new ch'"
  have i: "cr_id r \<in> {ch_next ch..<ch_next ch'}" if "r \<in> set new" for r
  proof -
    from that have "cr_id r \<in> set (map cr_id new)" by simp
    with a show ?thesis unfolding appended_def by simp
  qed
  from a have "sorted_wrt (<) (map cr_id new)" unfolding appended_def by simp
  with ok a i show ?thesis
    unfolding change_log_ok_def appended_def by (fastforce simp: list_all_iff sorted_wrt_append)
qed

lemma map_seen_ids [simp]: "map cr_id (ch_rows (fst (mark_seen u t ch))) = map cr_id (ch_rows ch)"
  by (simp add: mark_seen_def Let_def comp_def if_distrib cong: if_cong)

lemma change_log_written: "change_log_ok ch \<Longrightarrow> change_log_ok (run_write c ch)"
proof (cases c)
  case (Refresh db bdb day w)
  assume "change_log_ok ch"
  with Refresh refresh_day_appends[of ch db bdb day w] show ?thesis
    by (auto simp: run_write_def intro: change_log_appended)
next
  case (MarkSeen u t)
  assume ok: "change_log_ok ch"
  then have "list_all (\<lambda>r. 0 < cr_id r \<and> cr_id r < ch_next ch \<and> parses r) (ch_rows (fst (mark_seen u t ch)))"
    by (auto simp: change_log_ok_def mark_seen_def Let_def list_all_iff parses_def)
  moreover have "ch_next (fst (mark_seen u t ch)) = ch_next ch" by (simp add: mark_seen_def Let_def)
  ultimately show ?thesis using ok MarkSeen by (simp add: run_write_def change_log_ok_def del: map_map)
next
  case (PurgeOld show_ms now)
  assume "change_log_ok ch"
  then show ?thesis unfolding PurgeOld
    by (auto simp: run_write_def purge_old_def Let_def change_log_ok_def list_all_iff sorted_wrt_map intro: sorted_wrt_filter)
qed

lemma write_fresh:
  assumes "change_log_ok ch"
  shows "ch_next ch \<le> ch_next (run_write c ch) \<and>
    (\<forall>i\<in>cr_id ` set (ch_rows (run_write c ch)) - cr_id ` set (ch_rows ch). ch_next ch \<le> i)"
proof (cases c)
  case (Refresh db bdb day w)
  from refresh_day_appends[of ch db bdb day w] obtain new where a: "appended ch new (run_write c ch)"
    by (auto simp: run_write_def Refresh)
  have "cr_id ` set new = {ch_next ch..<ch_next (run_write c ch)}"
    using a unfolding appended_def by (metis atLeastLessThanPlusOne_atLeastAtMost_int diff_add_cancel list.set_map set_upto)
  with a show ?thesis unfolding appended_def by auto
next
  case (MarkSeen u t)
  have "cr_id ` set (ch_rows (fst (mark_seen u t ch))) = cr_id ` set (ch_rows ch)"
    using arg_cong[OF map_seen_ids[of u t ch], of set] by (simp only: set_map)
  moreover have "ch_next (fst (mark_seen u t ch)) = ch_next ch" by (simp add: mark_seen_def Let_def)
  ultimately show ?thesis by (simp add: run_write_def MarkSeen)
qed (auto simp: run_write_def purge_old_def Let_def)

lemma query_feed_ok:
  assumes "change_log_ok ch"
  shows "\<exists>f. query_feed P ch = Inr f \<and> map lc_id (fd_changes f) = map cr_id (filter P (ch_rows ch))
    \<and> f = changes_to_feed (fd_changes f)"
proof -
  have srt: "sort_key cr_id (filter P (ch_rows ch)) = filter P (ch_rows ch)"
  proof (rule sort_key_id_if_sorted, rule strict_sorted_imp_sorted)
    show "sorted_wrt (<) (map cr_id (filter P (ch_rows ch)))"
      using assms by (simp add: change_log_ok_def sorted_wrt_map sorted_wrt_filter)
  qed
  have "\<exists>cs. try_map parse_row rows = Inr cs \<and> map lc_id cs = map cr_id rows" if "list_all parses rows" for rows
    using that by (induction rows) (auto simp: parse_row_def parses_def)
  moreover have "list_all parses (filter P (ch_rows ch))" using assms by (auto simp: change_log_ok_def list_all_iff)
  ultimately obtain cs where "try_map parse_row (filter P (ch_rows ch)) = Inr cs" "map lc_id cs = map cr_id (filter P (ch_rows ch))" by blast
  then show ?thesis by (simp add: query_feed_def srt) (simp add: changes_to_feed_def)
qed

definition poll_ids :: "change_db \<Rightarrow> int \<Rightarrow> (int list \<times> int) option" where
  "poll_ids ch c = (case feed ch c of Inl _ \<Rightarrow> None | Inr f \<Rightarrow> Some (map lc_id (fd_changes f), fd_cursor f))"

lemma fold_max_Max: "\<forall>i\<in>set new. c < i \<Longrightarrow> fold max new c = max (if new = [] then 0 else Max (set new)) c" if "0 \<le> c" for c :: int
proof (cases new)
  case Nil
  with that show ?thesis by simp
next
  case (Cons x xs)
  have "fold max new c = Max (insert c (set new))" using Max.set_eq_fold[of c new] by simp
  with Cons show ?thesis by (simp add: max.commute)
qed

lemma poll_exact:
  assumes "change_log_ok ch" "0 \<le> c"
  shows "\<exists>new. poll_ids ch c = Some (new, fold max new c) \<and> sorted_wrt (<) new \<and> set new = {i \<in> cr_id ` set (ch_rows ch). c < i}"
proof -
  from query_feed_ok[OF assms(1), of "\<lambda>r. c < cr_id r"] obtain f where f: "query_feed (\<lambda>r. c < cr_id r) ch = Inr f"
    "map lc_id (fd_changes f) = map cr_id (filter (\<lambda>r. c < cr_id r) (ch_rows ch))" "f = changes_to_feed (fd_changes f)" by auto
  let ?new = "map lc_id (fd_changes f)"
  have cur: "fd_cursor f = (if ?new = [] then 0 else Max (set ?new))"
    by (subst f(3)) (simp add: changes_to_feed_def)
  have set_new: "set ?new = {i \<in> cr_id ` set (ch_rows ch). c < i}" unfolding f(2) by auto
  then have "\<forall>i\<in>set ?new. c < i" by simp
  from fold_max_Max[OF assms(2) this] cur have "max (fd_cursor f) c = fold max ?new c" by simp
  then have "poll_ids ch c = Some (?new, fold max ?new c)" by (simp add: poll_ids_def feed_def f(1))
  moreover have "sorted_wrt (<) ?new" unfolding f(2) using assms(1) by (simp add: change_log_ok_def sorted_wrt_map sorted_wrt_filter)
  ultimately show ?thesis using set_new by blast
qed

interpretation change_poll: pollable change_log_ok "\<lambda>ch. cr_id ` set (ch_rows ch)" ch_next "\<lambda>ch ch'. \<exists>c. ch' = run_write c ch" poll_ids
proof unfold_locales
  show "change_log_ok s \<Longrightarrow> i \<in> cr_id ` set (ch_rows s) \<Longrightarrow> 0 < i \<and> i < ch_next s" for s i by (auto simp: change_log_ok_def list_all_iff)
  show "change_log_ok s \<Longrightarrow> 0 < ch_next s" for s by (simp add: change_log_ok_def)
  show "change_log_ok s \<Longrightarrow> \<exists>c. s' = run_write c s \<Longrightarrow> change_log_ok s'" for s s' using change_log_written by blast
  show "change_log_ok s \<Longrightarrow> \<exists>c. s' = run_write c s \<Longrightarrow>
      ch_next s \<le> ch_next s' \<and> (\<forall>i\<in>cr_id ` set (ch_rows s') - cr_id ` set (ch_rows s). ch_next s \<le> i)" for s s'
    using write_fresh by blast
qed (rule poll_exact)

text \<open>A client that starts at 0 and polls whenever it likes between the writes.\<close>

datatype client_step = Write log_write | PollFeed

fun run_client :: "client_step list \<Rightarrow> change_db \<times> int \<times> int list \<Rightarrow> change_db \<times> int \<times> int list" where
  "run_client [] st = st"
| "run_client (Write c # cs) (ch, cursor, got) = run_client cs (run_write c ch, cursor, got)"
| "run_client (PollFeed # cs) (ch, cursor, got) =
     (case poll_ids ch cursor of
        None \<Rightarrow> run_client cs (ch, cursor, got)
      | Some (new, cursor') \<Rightarrow> run_client cs (ch, cursor', got @ new))"

lemma run_client_in_step:
  "change_poll.in_step ch c got \<Longrightarrow> run_client cs (ch, c, got) = (ch', c', got') \<Longrightarrow> change_poll.in_step ch' c' got'"
proof (induction cs arbitrary: ch c got)
  case (Cons x cs)
  show ?case
  proof (cases x)
    case (Write w)
    with Cons.IH[OF change_poll.in_step_changed[OF Cons.prems(1)]] Cons.prems(2) show ?thesis by auto
  next
    case PollFeed
    show ?thesis
    proof (cases "poll_ids ch c")
      case None
      with Cons PollFeed show ?thesis by auto
    next
      case (Some p)
      obtain new c1 where p: "p = (new, c1)" by force
      with Some Cons.IH[OF change_poll.in_step_poll(1)[OF Cons.prems(1)]] Cons.prems(2) PollFeed show ?thesis by auto
    qed
  qed
qed simp

lemma client_delivered:
  assumes "change_log_ok ch" "run_client cs (ch, 0, []) = (ch', c, got)"
  shows "sorted_wrt (<) got" "\<forall>i\<in>set got. i \<le> c" "\<exists>c' new. poll_ids ch' c = Some (new, c') \<and> cr_id ` set (ch_rows ch') \<subseteq> set (got @ new) \<and> sorted_wrt (<) (got @ new)"
proof -
  from run_client_in_step[OF change_poll.in_step_start[OF assms(1)] assms(2)] have i: "change_poll.in_step ch' c got" .
  then show "sorted_wrt (<) got" "\<forall>i\<in>set got. i \<le> c" by (simp_all add: change_poll.in_step_def)
  from i have "change_log_ok ch'" "0 \<le> c" by (simp_all add: change_poll.in_step_def)
  from change_poll.answers[OF this] obtain new where n: "poll_ids ch' c = Some (new, fold max new c)" by auto
  from change_poll.in_step_poll[OF i n] n show "\<exists>c' new. poll_ids ch' c = Some (new, c') \<and> cr_id ` set (ch_rows ch') \<subseteq> set (got @ new) \<and> sorted_wrt (<) (got @ new)"
    by (auto simp: change_poll.in_step_def)
qed

section \<open>The catch-up\<close>

lemma unseen_then_seen:
  assumes "change_log_ok ch"
  shows "\<exists>f. unseen ch = Inr f \<and> map lc_id (fd_changes f) = map cr_id (filter (\<lambda>r. cr_seen r = None) (ch_rows ch)) \<and>
     (case mark_seen (fd_cursor f) stamp ch of (ch', n) \<Rightarrow>
        n = length (fd_changes f) \<and> (\<exists>f'. unseen ch' = Inr f' \<and> fd_changes f' = []))"
proof -
  from query_feed_ok[OF assms, of "\<lambda>r. cr_seen r = None"] obtain f where f: "unseen ch = Inr f"
    "map lc_id (fd_changes f) = map cr_id (filter (\<lambda>r. cr_seen r = None) (ch_rows ch))" "f = changes_to_feed (fd_changes f)"
    by (auto simp: unseen_def)
  have cur: "fd_cursor f = (if fd_changes f = [] then 0 else Max (set (map lc_id (fd_changes f))))"
    by (subst f(3)) (simp add: changes_to_feed_def)
  have all: "cr_id r \<le> fd_cursor f" if "r \<in> set (ch_rows ch)" "cr_seen r = None" for r
  proof -
    from that have i: "cr_id r \<in> set (map lc_id (fd_changes f))" unfolding f(2) by auto
    then have "fd_changes f \<noteq> []" by auto
    with i cur show ?thesis by (simp add: Max_ge)
  qed
  have "filter (\<lambda>r. cr_seen r = None \<and> cr_id r \<le> fd_cursor f) (ch_rows ch) = filter (\<lambda>r. cr_seen r = None) (ch_rows ch)"
    using all by (intro filter_cong) auto
  then have n: "snd (mark_seen (fd_cursor f) stamp ch) = length (fd_changes f)"
    using f(2) by (simp add: mark_seen_def Let_def) (metis length_map)
  let ?ch = "fst (mark_seen (fd_cursor f) stamp ch)"
  have "change_log_ok ?ch" using change_log_written[OF assms, of "MarkSeen (fd_cursor f) stamp"] by (simp add: run_write_def)
  from query_feed_ok[OF this, of "\<lambda>r. cr_seen r = None"] obtain f' where f': "unseen ?ch = Inr f'"
    "map lc_id (fd_changes f') = map cr_id (filter (\<lambda>r. cr_seen r = None) (ch_rows ?ch))" by (auto simp: unseen_def)
  have "filter (\<lambda>r. cr_seen r = None) (ch_rows ?ch) = []"
    using all by (auto simp: mark_seen_def Let_def filter_empty_conv)
  with f'(2) have "fd_changes f' = []" by simp
  with f(1,2) f'(1) n show ?thesis by (auto simp: case_prod_beta)
qed

section \<open>One summary per batch\<close>

definition batch_ok :: "logged_change list \<Rightarrow> batch_acc \<Rightarrow> bool" where
  "batch_ok cs acc =
     (distinct (map fst acc) \<and> fst ` set acc = lc_batch ` set cs \<and>
      (\<forall>(b, s, blocks)\<in>set acc. distinct blocks \<and> set blocks = {(lc_day c, lc_started c) | c. c \<in> set cs \<and> lc_batch c = b}))"

lemma mem_with_group:
  "distinct (map fst gs) \<Longrightarrow> (b, v) \<in> set (with_group k new f gs) \<Longrightarrow>
     (b \<noteq> k \<and> (b, v) \<in> set gs) \<or> (b = k \<and> (\<exists>g. (k, g) \<in> set gs \<and> v = f g)) \<or> (b = k \<and> k \<notin> fst ` set gs \<and> v = f new)"
proof (induction k new f gs rule: with_group.induct)
  case (2 k new f x g gs)
  show ?case
  proof (cases "x = k")
    case True
    have "b \<noteq> k" if "(b, v) \<in> set gs" using that 2(2) True by force
    with True 2(3) show ?thesis by auto
  next
    case False
    show ?thesis
    proof (cases "(b, v) = (x, g)")
      case False
      with \<open>x \<noteq> k\<close> 2(3) have "(b, v) \<in> set (with_group k new f gs)" by auto
      from 2(1)[OF \<open>x \<noteq> k\<close> _ this] 2(2) \<open>x \<noteq> k\<close> show ?thesis by auto
    qed (use False in auto)
  qed
qed simp

lemma add_to_batch_ok: "batch_ok cs acc \<Longrightarrow> batch_ok (cs @ [c]) (add_to_batch acc c)"
proof -
  assume ok: "batch_ok cs acc"
  let ?k = "(lc_day c, lc_started c)"
  let ?S = "\<lambda>cs b. {(lc_day c, lc_started c) | c. c \<in> set cs \<and> lc_batch c = b}"
  have S: "?S (cs @ [c]) b = (if b = lc_batch c then insert ?k (?S cs b) else ?S cs b)" for b by auto
  show ?thesis unfolding batch_ok_def
  proof (intro conjI ballI)
    show "distinct (map fst (add_to_batch acc c))" using ok by (simp add: batch_ok_def add_to_batch_def distinct_with_group)
    show "fst ` set (add_to_batch acc c) = lc_batch ` set (cs @ [c])" using ok by (simp add: batch_ok_def add_to_batch_def keys_with_group)
    fix x assume x: "x \<in> set (add_to_batch acc c)"
    obtain b s blocks where xe: "x = (b, s, blocks)" by (cases x)
    have none: "?S cs (lc_batch c) = {}" if "lc_batch c \<notin> fst ` set acc"
    proof -
      from that ok have "lc_batch c \<notin> lc_batch ` set cs" by (simp add: batch_ok_def)
      then show ?thesis by (auto dest: image_eqI[OF sym])
    qed
    from ok have d: "distinct (map fst acc)"
      and every: "\<forall>(b, s, blocks)\<in>set acc. distinct blocks \<and> set blocks = ?S cs b"
      unfolding batch_ok_def by blast+
    have each: "distinct blocks \<and> set blocks = ?S cs b" if "(b, s, blocks) \<in> set acc" for b s blocks
      using bspec[OF every that] by simp
    from mem_with_group[OF d x[unfolded add_to_batch_def xe]] each S none
    show "case x of (b, s, blocks) \<Rightarrow> distinct blocks \<and> set blocks = ?S (cs @ [c]) b"
      unfolding xe by (auto split: if_splits prod.splits simp del: set_append)
  qed
qed

lemma batches_ok: "batch_ok cs (foldl add_to_batch [] cs)"
  by (induction cs rule: rev_induct) (simp add: batch_ok_def, simp add: add_to_batch_ok)

lemma batch_summaries:
  "distinct (map cb_batch (fd_batches (changes_to_feed cs))) \<and> cb_batch ` set (fd_batches (changes_to_feed cs)) = lc_batch ` set cs \<and>
   (\<forall>b\<in>set (fd_batches (changes_to_feed cs)).
      cb_count b = int (card {(lc_day c, lc_started c) | c. c \<in> set cs \<and> lc_batch c = cb_batch b}))"
proof -
  note ok = batches_ok[of cs, unfolded batch_ok_def]
  have k: "map cb_batch (fd_batches (changes_to_feed cs)) = map fst (foldl add_to_batch [] cs)"
    by (simp add: changes_to_feed_def case_prod_beta comp_def)
  moreover have "cb_batch ` set (fd_batches (changes_to_feed cs)) = lc_batch ` set cs"
    using ok arg_cong[OF k, of set] by (simp only: set_map)
  moreover have "\<forall>b\<in>set (fd_batches (changes_to_feed cs)).
      cb_count b = int (card {(lc_day c, lc_started c) | c. c \<in> set cs \<and> lc_batch c = cb_batch b})"
  proof
    fix b assume "b \<in> set (fd_batches (changes_to_feed cs))"
    then obtain k s blocks where a: "(k, s, blocks) \<in> set (foldl add_to_batch [] cs)"
      and b: "b = \<lparr>cb_batch = k, cb_source = s, cb_count = int (length blocks)\<rparr>" by (auto simp: changes_to_feed_def)
    from ok a have "case (k, s, blocks) of (b, s, blocks) \<Rightarrow>
        distinct blocks \<and> set blocks = {(lc_day c, lc_started c) | c. c \<in> set cs \<and> lc_batch c = b}" by blast
    then have "distinct blocks" "set blocks = {(lc_day c, lc_started c) | c. c \<in> set cs \<and> lc_batch c = k}" by simp_all
    with b distinct_card[of blocks] show "cb_count b = int (card {(lc_day c, lc_started c) | c. c \<in> set cs \<and> lc_batch c = cb_batch b})"
      by simp
  qed
  ultimately show ?thesis using ok by simp
qed

text \<open>A split by hand of an eighth and seven eighths: one more second of work moves a share over the rounding of its second
  decimal, and the block is reported as re-split.\<close>

definition eighth_rows :: "share_row list" where
  "eighth_rows = [\<lparr>sr_customer = ''A'', sr_deild = None, sr_fraction = 1 / 8\<rparr>, \<lparr>sr_customer = ''B'', sr_deild = None, sr_fraction = 7 / 8\<rparr>]"

definition eighth_parts :: "int \<Rightarrow> share_row list" where
  "eighth_parts secs = map (part_of (f64_of_int secs)) (the (slices_from_rows 0 secs eighth_rows))"

lemma duration_alone_reported: "structural_diff (eighth_parts 3600) (eighth_parts 3601) = Some FieldSplit"
  "loggable FieldSplit (the (slices_from_rows 0 3601 eighth_rows))"
  by code_simp+

end
