(* ===== verification/TicketVerdict.thy ===== *)
theory TicketVerdict
  imports Routing Recap
begin

text \<open>
  Verdict's ticket for a block (\<open>ticket_verdict.rs\<close>, with \<open>ticket_activity.rs\<close> and \<open>load_open_tickets\<close> of
  \<open>estimate.rs\<close>): the tickets offered, the pick, its log, and the pass over the unsynced blocks of a day. The
  classifier, the calendar's printer, \<open>str::to_lowercase\<close>, the character classes of the pattern for keys and the JSON
  printer of the state are parameters.
\<close>

section \<open>Keys written in a text\<close>

text \<open>UTF-8 characters as their bytes; \<open>\w\<close> and \<open>\d\<close> of the pattern \<open>\b([A-Z][A-Z0-9]{1,9}-\d+)\b\<close>.\<close>

function utf8_chars :: "string \<Rightarrow> string list" where
  "utf8_chars [] = []"
| "utf8_chars (c # cs) = (c # takeWhile continuation_byte cs) # utf8_chars (dropWhile continuation_byte cs)"
  by pat_completeness auto
termination by (relation "measure length") (simp_all add: le_imp_less_Suc length_dropWhile_le)

record char_classes =
  rx_word :: "string \<Rightarrow> bool"
  rx_digit :: "string \<Rightarrow> bool"

definition key_letter :: "string \<Rightarrow> bool" where
  "key_letter c = (case c of [b] \<Rightarrow> ascii_upper b | _ \<Rightarrow> False)"

definition key_char :: "string \<Rightarrow> bool" where
  "key_char c = (case c of [b] \<Rightarrow> ascii_upper b \<or> ascii_digit b | _ \<Rightarrow> False)"

definition key_at :: "char_classes \<Rightarrow> string list \<Rightarrow> (string list \<times> string list) option" where
  "key_at rx cs =
     (case cs of
        [] \<Rightarrow> None
      | c # rest \<Rightarrow>
          (let run = takeWhile key_char rest; after = dropWhile key_char rest
           in case after of
                [] \<Rightarrow> None
              | h # tail \<Rightarrow>
                  (let ds = takeWhile (rx_digit rx) tail; beyond = dropWhile (rx_digit rx) tail
                   in if key_letter c \<and> 1 \<le> length run \<and> length run \<le> 9 \<and> h = ''-'' \<and> ds \<noteq> []
                         \<and> (beyond = [] \<or> \<not> rx_word rx (hd beyond))
                      then Some (c # run @ h # ds, beyond) else None)))"

lemma key_at_shorter: "key_at rx cs = Some (k, beyond) \<Longrightarrow> length beyond < length cs"
proof -
  assume "key_at rx cs = Some (k, beyond)"
  then obtain c rest h tail where cs: "cs = c # rest" "dropWhile key_char rest = h # tail" "beyond = dropWhile (rx_digit rx) tail"
    by (auto simp: key_at_def Let_def split: list.splits if_splits)
  have "length (h # tail) \<le> length rest" unfolding cs(2)[symmetric] by (rule length_dropWhile_le)
  with length_dropWhile_le[of "rx_digit rx" tail] show ?thesis by (simp add: cs(1,3))
qed

text \<open>\<open>find_iter\<close>; the flag says whether the character before is a word character.\<close>

function find_keys :: "char_classes \<Rightarrow> bool \<Rightarrow> string list \<Rightarrow> string list" where
  "find_keys rx inside cs =
     (case cs of
        [] \<Rightarrow> []
      | c # rest \<Rightarrow>
          (case (if inside then None else key_at rx cs) of
             Some (key, beyond) \<Rightarrow> concat key # find_keys rx True beyond
           | None \<Rightarrow> find_keys rx (rx_word rx c) rest))"
  by pat_completeness auto
termination
  by (relation "measure (\<lambda>(_, _, cs). length cs)") (auto dest: key_at_shorter split: if_splits)

declare find_keys.simps [simp del]

definition keys_in :: "char_classes \<Rightarrow> string \<Rightarrow> string list" where
  "keys_in rx s = find_keys rx False (utf8_chars s)"

section \<open>State\<close>

record ticket_event =
  tk_id :: int
  tk_source :: string
  tk_started :: string
  tk_title :: string
  tk_details :: "string option"
  tk_path :: "string option"
  tk_session :: "string option"

record jira_ticket =
  jt_key :: string
  jt_status :: "string option"
  jt_category :: "string option"
  jt_updated :: "string option"
  jt_external :: bool

record ticket_db =
  tv_store :: block_db
  tv_events :: "ticket_event list"
  tv_tickets :: "jira_ticket list"
  tv_sessions :: "string \<Rightarrow> string option"
  tv_log :: "stored_decision list"

record ticket_env =
  ve_calendar :: calendar
  ve_lower :: "string \<Rightarrow> string"
  ve_classes :: char_classes
  ve_prefixes :: "string list"
  ve_state :: "string list \<Rightarrow> string"
  ve_codec :: json_codec
  ve_now :: string

datatype ticket_error = BadBlockDay

section \<open>Open tickets\<close>

definition STALE_DAYS :: int where "STALE_DAYS = 30"
definition DONE_GRACE_DAYS :: int where "DONE_GRACE_DAYS = 7"
definition RECENT_TICKET_DAYS :: int where "RECENT_TICKET_DAYS = 30"
definition CATCH_ALL_PROJECT :: string where "CATCH_ALL_PROJECT = ''APRO''"
definition STATE_TITLES :: nat where "STATE_TITLES = 10"
definition STATE_TITLE_CHARS :: nat where "STATE_TITLE_CHARS = 120"

definition dead_words :: "string list" where
  "dead_words = [''cancel'', ''won'' @ [CHR 0x27] @ ''t'', ''wont'', ''reject'', ''declin'', ''duplicate'', ''abandon'']"

definition is_dead_status :: "(string \<Rightarrow> string) \<Rightarrow> string option \<Rightarrow> bool" where
  "is_dead_status lower status =
     (case status of
        None \<Rightarrow> False
      | Some status \<Rightarrow>
          (let s = lower (trim status)
           in s = ''backlog'' \<or> list_ex (\<lambda>needle. str_find needle s \<noteq> None) dead_words))"

definition updated_day :: "jira_ticket \<Rightarrow> string" where
  "updated_day t = truncate_chars 10 (case jt_updated t of None \<Rightarrow> [] | Some u \<Rightarrow> u)"

definition active_keys :: "ticket_env \<Rightarrow> ticket_db \<Rightarrow> naive_date \<Rightarrow> string set" where
  "active_keys env db day =
     (let cutoff = cal_show (ve_calendar env) (day - STALE_DAYS); today = cal_show (ve_calendar env) day
      in set (map jt_key (filter (\<lambda>t. cutoff \<le> updated_day t) (tv_tickets db)))
         \<union> set (List.map_filter bk_jira (filter (\<lambda>b. \<not> bk_personal b \<and> bk_ignored b = None
              \<and> (bk_origin b = Some Manual \<or> bk_origin b = Some Event) \<and> cutoff \<le> bk_day b \<and> bk_day b \<le> today)
              (all_blocks (tv_store db)))))"

text \<open>\<open>ORDER BY \<dots> DESC\<close>, ties in row order.\<close>

definition sort_desc :: "('a \<Rightarrow> 'k::linorder) \<Rightarrow> 'a list \<Rightarrow> 'a list" where
  "sort_desc key xs = rev (sort_key key (rev xs))"

definition load_open_tickets :: "ticket_env \<Rightarrow> ticket_db \<Rightarrow> naive_date \<Rightarrow> string list" where
  "load_open_tickets env db day =
     (let active = active_keys env db day;
          done_cutoff = cal_show (ve_calendar env) (day - DONE_GRACE_DAYS)
      in map jt_key (filter (\<lambda>t. \<not> is_dead_status (ve_lower env) (jt_status t) \<and> jt_key t \<in> active)
           (sort_desc jt_updated
             (filter (\<lambda>t. (\<not> jt_external t \<or> starts_with (nocase (CATCH_ALL_PROJECT @ ''-'')) (nocase (jt_key t)))
                \<and> (jt_category t \<noteq> Some ''done'' \<or> done_cutoff \<le> updated_day t)) (tv_tickets db)))))"

section \<open>The tickets offered\<close>

definition list_events_for_block :: "ticket_db \<Rightarrow> int \<Rightarrow> ticket_event list" where
  "list_events_for_block db i = sort_key tk_started (filter (\<lambda>e. (i, tk_id e) \<in> db_links (tv_store db)) (tv_events db))"

definition recent_tickets :: "ticket_env \<Rightarrow> ticket_db \<Rightarrow> block \<Rightarrow> naive_date \<Rightarrow> ticket_event list \<Rightarrow> string list" where
  "recent_tickets env db b day events =
     (let folder_of = (\<lambda>e. Option.bind (tk_path e) (billable_work_folder (ve_prefixes env)))
      in case find_some folder_of events of
           None \<Rightarrow> []
         | Some folder \<Rightarrow>
             (let first_day = cal_show (ve_calendar env) (day + (1 - RECENT_TICKET_DAYS));
                  others = sort_desc (\<lambda>x. (bk_start x, bk_id x))
                    (filter (\<lambda>x. bk_id x \<noteq> bk_id b \<and> \<not> bk_personal x \<and> bk_jira x \<noteq> None \<and> bk_jira x \<noteq> Some []
                       \<and> first_day \<le> bk_day x \<and> bk_day x \<le> bk_day b) (all_blocks (tv_store db)))
              in concat (map (\<lambda>x. List.map_filter (\<lambda>e. if folder_of e = Some folder then bk_jira x else None)
                   (list_events_for_block db (bk_id x))) others)))"

definition options_for :: "ticket_env \<Rightarrow> ticket_db \<Rightarrow> block \<Rightarrow> ticket_event list \<Rightarrow> ticket_error + string list" where
  "options_for env db b events =
     and_then (ok_or BadBlockDay (cal_date (ve_calendar env) (bk_day b))) (\<lambda>day.
       (let opened = load_open_tickets env db day;
            session = List.map_filter (\<lambda>e. Option.bind (tk_session e) (tv_sessions db)) events;
            written = filter (\<lambda>k. k \<in> set opened)
              (concat (map (\<lambda>e. concat (map (keys_in (ve_classes env)) (tk_title e # (case tk_details e of None \<Rightarrow> [] | Some d \<Rightarrow> [d])))) events));
            recent = recent_tickets env db b day events;
            catch_alls = filter (starts_with (CATCH_ALL_PROJECT @ ''-'')) opened
        in Inr (take_new SHORTLIST_MAX [] (session @ written @ recent @ catch_alls))))"

definition ticket_options :: "ticket_env \<Rightarrow> ticket_db \<Rightarrow> block \<Rightarrow> ticket_error + string list" where
  "ticket_options env db b = options_for env db b (list_events_for_block db (bk_id b))"

section \<open>The pick\<close>

definition block_pending :: "ticket_env \<Rightarrow> block \<Rightarrow> ticket_event list \<Rightarrow> string list \<Rightarrow> pending_event" where
  "block_pending env b events options =
     \<lparr>pd_event = \<lparr>rv_id = bk_id b, rv_source = ''ticket'', rv_started = bk_start b,
        rv_title = (case bk_desc b of None \<Rightarrow> [] | Some d \<Rightarrow> d), rv_details = None, rv_container = None, rv_folder = None,
        rv_origin = None, rv_confidence = None, rv_ranking = None\<rparr>,
      pd_options = options,
      pd_state = ve_state env (map (\<lambda>e. truncate_chars STATE_TITLE_CHARS (tk_title e)) (take STATE_TITLES events)),
      pd_examples = (\<lambda>_. None)\<rparr>"

definition log_ticket :: "ticket_env \<Rightarrow> decision_row \<Rightarrow> ticket_db \<Rightarrow> ticket_db" where
  "log_ticket env row db = db\<lparr>tv_log := snd (record_decision (ve_codec env) row (tv_log db))\<rparr>"

definition pick ::
    "ticket_env \<Rightarrow> classifier \<Rightarrow> route_rule \<Rightarrow> block \<Rightarrow> ticket_db \<Rightarrow> (ticket_error + string option) \<times> ticket_db" where
  "pick env classify rule b db =
     (if bk_origin b = Some Manual \<or> bk_origin b = Some Event then (Inr None, db)
      else (let events = list_events_for_block db (bk_id b)
            in case options_for env db b events of
                 Inl e \<Rightarrow> (Inl e, db)
               | Inr options \<Rightarrow>
                   if options = [] then (Inr None, db)
                   else (case rev (decide [block_pending env b events options] classify rule) of
                           [] \<Rightarrow> (Inr None, db)
                         | a # _ \<Rightarrow>
                             (let chosen = map_option gu_folder (an_guess a);
                                  db = db\<lparr>tv_log := drop_unchosen Ticket (show_int (bk_id b)) (tv_log db)\<rparr>
                              in (Inr chosen,
                                  log_ticket env \<lparr>dr_kind = Ticket, dr_source = Verdict, dr_subject = show_int (bk_id b),
                                    dr_state = an_state a, dr_options = an_options a, dr_ranking = Some (an_ranking a),
                                    dr_chosen = chosen, dr_previous = None, dr_decided = ve_now env\<rparr> db)))))"

section \<open>The pass over a day\<close>

text \<open>The \<open>UPDATE\<close> of a picked ticket and the number of rows it changes.\<close>

definition set_auto_ticket :: "string \<Rightarrow> int \<Rightarrow> ticket_db \<Rightarrow> nat \<times> ticket_db" where
  "set_auto_ticket key i db =
     (case db_blocks (tv_store db) i of
        None \<Rightarrow> (0, db)
      | Some b \<Rightarrow>
          if (bk_origin b = None \<or> bk_origin b = Some Auto) \<and> (bk_jira b \<noteq> Some key \<or> bk_origin b \<noteq> Some Auto)
          then (1, db\<lparr>tv_store := (tv_store db)\<lparr>db_blocks := (db_blocks (tv_store db))(i \<mapsto> b\<lparr>bk_jira := Some key, bk_origin := Some Auto\<rparr>)\<rparr>\<rparr>)
          else (0, db))"

fun apply_blocks ::
    "ticket_env \<Rightarrow> classifier \<Rightarrow> route_rule \<Rightarrow> nat \<Rightarrow> block list \<Rightarrow> ticket_db \<Rightarrow> (ticket_error + nat) \<times> ticket_db" where
  "apply_blocks env classify rule changed [] db = (Inr changed, db)"
| "apply_blocks env classify rule changed (b # bs) db =
     (if bk_personal b \<or> is_synced b then apply_blocks env classify rule changed bs db
      else (case pick env classify rule b db of
              (Inl e, db) \<Rightarrow> (Inl e, db)
            | (Inr None, db) \<Rightarrow> apply_blocks env classify rule changed bs db
            | (Inr (Some key), db) \<Rightarrow>
                (let (n, db) = set_auto_ticket key (bk_id b) db
                 in apply_blocks env classify rule (changed + n) bs db)))"

definition apply_tickets :: "ticket_env \<Rightarrow> classifier \<Rightarrow> route_rule \<Rightarrow> naive_date \<Rightarrow> ticket_db \<Rightarrow> (ticket_error + nat) \<times> ticket_db" where
  "apply_tickets env classify rule day db =
     apply_blocks env classify rule 0 (list_blocks_for_day (tv_store db) (cal_show (ve_calendar env) day)) db"

definition record_swap :: "ticket_env \<Rightarrow> int \<Rightarrow> string option \<Rightarrow> string option \<Rightarrow> ticket_db \<Rightarrow> ticket_db" where
  "record_swap env i previous chosen db =
     (if previous = chosen then db
      else log_ticket env \<lparr>dr_kind = Ticket, dr_source = Owner, dr_subject = show_int i, dr_state = ''{}'', dr_options = [],
             dr_ranking = None, dr_chosen = chosen, dr_previous = previous, dr_decided = ve_now env\<rparr> db)"

section \<open>Keys have the shape of a key\<close>

definition key_shape :: "char_classes \<Rightarrow> string \<Rightarrow> bool" where
  "key_shape rx k =
     (\<exists>c run ds. k = c @ concat run @ ''-'' @ concat ds \<and> key_letter c \<and> list_all key_char run \<and> 1 \<le> length run \<and> length run \<le> 9
        \<and> ds \<noteq> [] \<and> list_all (rx_digit rx) ds)"

lemma key_at_shape: "key_at rx cs = Some (k, beyond) \<Longrightarrow> key_shape rx (concat k)"
proof -
  assume a: "key_at rx cs = Some (k, beyond)"
  then obtain c rest h tail where cs: "cs = c # rest" "dropWhile key_char rest = h # tail"
    by (auto simp: key_at_def Let_def split: list.splits if_splits)
  let ?run = "takeWhile key_char rest" and ?ds = "takeWhile (rx_digit rx) tail"
  from a cs have "key_letter c" "1 \<le> length ?run" "length ?run \<le> 9" "h = ''-''" "?ds \<noteq> []" "k = c # ?run @ h # ?ds"
    by (auto simp: key_at_def Let_def split: if_splits)
  moreover have "list_all key_char ?run" "list_all (rx_digit rx) ?ds" by (auto simp: list_all_iff dest: set_takeWhileD)
  ultimately show ?thesis unfolding key_shape_def by (intro exI[of _ c] exI[of _ ?run] exI[of _ ?ds]) simp
qed

lemma find_keys_shape: "k \<in> set (find_keys rx inside cs) \<Longrightarrow> key_shape rx k"
proof (induction rx inside cs rule: find_keys.induct)
  case (1 rx inside cs)
  show ?case
  proof (cases cs)
    case Nil
    with 1(3) show ?thesis by (simp add: find_keys.simps)
  next
    case (Cons c rest)
    show ?thesis
    proof (cases "if inside then None else key_at rx cs")
      case None
      from 1(1)[OF Cons None] 1(3) show ?thesis
        by (subst (asm) find_keys.simps) (simp add: Cons None del: if_split)
    next
      case (Some p)
      obtain key beyond where p: "p = (key, beyond)" by force
      from Some p have at: "key_at rx cs = Some (key, beyond)" by (simp split: if_splits)
      from 1(3) have "k = concat key \<or> k \<in> set (find_keys rx True beyond)"
        by (subst (asm) find_keys.simps) (simp add: Cons Some p del: if_split)
      with 1(2)[OF Cons Some p[symmetric]] key_at_shape[OF at] show ?thesis by auto
    qed
  qed
qed

section \<open>The pass spares what the owner decided\<close>

lemma ticket_options_bounded:
  "ticket_options env db b = Inr options \<Longrightarrow> distinct options \<and> length options \<le> SHORTLIST_MAX"
  using take_new_spec[of "[]" SHORTLIST_MAX] by (auto simp: ticket_options_def options_for_def and_then_Inr Let_def)

text \<open>A pick leaves the blocks alone; it is one of the tickets offered, both orders agreed on it and it clears the ratios.\<close>

lemma pick_sure:
  assumes "pick env classify rule b db = (r, db')"
  shows "tv_store db' = tv_store db \<and> tv_events db' = tv_events db \<and> tv_tickets db' = tv_tickets db \<and> tv_sessions db' = tv_sessions db"
    and "r = Inr (Some key) \<Longrightarrow> bk_origin b \<noteq> Some Manual \<and> bk_origin b \<noteq> Some Event \<and>
      (\<exists>options g. ticket_options env db b = Inr options \<and> accepts g options rule \<and> gu_folder g = key)"
proof -
  show "tv_store db' = tv_store db \<and> tv_events db' = tv_events db \<and> tv_tickets db' = tv_tickets db \<and> tv_sessions db' = tv_sessions db"
    using assms by (auto simp: pick_def Let_def log_ticket_def split: sum.splits list.splits if_splits)
next
  assume r: "r = Inr (Some key)"
  with assms have o: "bk_origin b \<noteq> Some Manual" "bk_origin b \<noteq> Some Event" by (auto simp: pick_def)
  from assms r obtain options a as where opt: "options_for env db b (list_events_for_block db (bk_id b)) = Inr options"
    and a: "rev (decide [block_pending env b (list_events_for_block db (bk_id b)) options] classify rule) = a # as"
      "map_option gu_folder (an_guess a) = Some key"
    by (auto simp: pick_def Let_def split: sum.splits list.splits if_splits)
  let ?d = "decide [block_pending env b (list_events_for_block db (bk_id b)) options] classify rule"
  from a(1) have "set ?d = set (a # as)" by (metis set_rev)
  then have "a \<in> set ?d" by simp
  moreover from this have "an_options a = options"
    by (auto simp: decide_def map_filter_def block_pending_def split: if_splits)
  moreover from a(2) obtain g where "an_guess a = Some g" "gu_folder g = key" by auto
  ultimately have "accepts g options rule" "gu_folder g = key" using decide_accepts[of a _ classify rule g] by auto
  with o opt show "bk_origin b \<noteq> Some Manual \<and> bk_origin b \<noteq> Some Event \<and>
      (\<exists>options g. ticket_options env db b = Inr options \<and> accepts g options rule \<and> gu_folder g = key)"
    by (auto simp: ticket_options_def)
qed

text \<open>What the pass may make of one row.\<close>

definition auto_ticketed :: "string \<Rightarrow> block option \<Rightarrow> block option \<Rightarrow> bool" where
  "auto_ticketed day old new =
     (\<exists>b key. old = Some b \<and> bk_day b = day \<and> \<not> bk_personal b \<and> \<not> is_synced b \<and> (bk_origin b = None \<or> bk_origin b = Some Auto)
        \<and> new = Some (b\<lparr>bk_jira := Some key, bk_origin := Some Auto\<rparr>) \<and> new \<noteq> old)"

lemma set_auto_ticket_effect:
  assumes "set_auto_ticket key i db = (n, db')" "db_blocks (tv_store db) i = Some b" "bk_day b = day" "\<not> bk_personal b" "\<not> is_synced b"
  shows "tv_store db' = (tv_store db)\<lparr>db_blocks := db_blocks (tv_store db')\<rparr>"
    and "\<forall>j. j \<noteq> i \<longrightarrow> db_blocks (tv_store db') j = db_blocks (tv_store db) j"
    and "if n = 0 then db_blocks (tv_store db') i = db_blocks (tv_store db) i
         else n = 1 \<and> auto_ticketed day (db_blocks (tv_store db) i) (db_blocks (tv_store db') i)"
proof -
  have ne: "b\<lparr>bk_jira := Some key, bk_origin := Some Auto\<rparr> \<noteq> b" if "bk_jira b \<noteq> Some key \<or> bk_origin b \<noteq> Some Auto"
  proof
    assume e: "b\<lparr>bk_jira := Some key, bk_origin := Some Auto\<rparr> = b"
    from arg_cong[OF e, of bk_jira] arg_cong[OF e, of bk_origin] that show False by simp
  qed
  show "tv_store db' = (tv_store db)\<lparr>db_blocks := db_blocks (tv_store db')\<rparr>"
    "\<forall>j. j \<noteq> i \<longrightarrow> db_blocks (tv_store db') j = db_blocks (tv_store db) j"
    using assms(1,2) by (auto simp: set_auto_ticket_def split: if_splits)
  show "if n = 0 then db_blocks (tv_store db') i = db_blocks (tv_store db) i
         else n = 1 \<and> auto_ticketed day (db_blocks (tv_store db) i) (db_blocks (tv_store db') i)"
    using assms ne by (auto simp: set_auto_ticket_def auto_ticketed_def split: if_splits)
qed

text \<open>What the pass did to the rows with the ids of \<open>bs\<close>, and the number it reports.\<close>

definition pass_effect :: "string \<Rightarrow> block list \<Rightarrow> nat \<Rightarrow> ticket_error + nat \<Rightarrow> block_db \<Rightarrow> block_db \<Rightarrow> bool" where
  "pass_effect day bs c r store store' =
     (store' = store\<lparr>db_blocks := db_blocks store'\<rparr> \<and>
      (\<exists>I\<subseteq>bk_id ` set bs. (\<forall>i\<in>I. auto_ticketed day (db_blocks store i) (db_blocks store' i))
         \<and> (\<forall>i. i \<notin> I \<longrightarrow> db_blocks store' i = db_blocks store i) \<and> (\<forall>n. r = Inr n \<longrightarrow> n = c + card I)))"

lemma pass_effect_none: "(\<And>n. r = Inr n \<Longrightarrow> n = c) \<Longrightarrow> pass_effect day bs c r store store"
  unfolding pass_effect_def by (intro conjI exI[of _ "{}"]) auto

lemma pass_effect_widen: "pass_effect day bs c r store store' \<Longrightarrow> pass_effect day (b # bs) c r store store'"
  unfolding pass_effect_def by (elim conjE exE) (intro conjI exI, assumption, auto)

lemma apply_blocks_effect:
  assumes "apply_blocks env classify rule c bs db = (r, db')"
    and "distinct (map bk_id bs)" "\<forall>b\<in>set bs. db_blocks (tv_store db) (bk_id b) = Some b \<and> bk_day b = day"
  shows "pass_effect day bs c r (tv_store db) (tv_store db')"
  using assms
proof (induction bs arbitrary: c db)
  case Nil
  then show ?case by (auto intro: pass_effect_none)
next
  case (Cons b bs)
  have b: "db_blocks (tv_store db) (bk_id b) = Some b" "bk_day b = day" using Cons.prems(3) by auto
  have rest: "distinct (map bk_id bs)" "\<forall>b\<in>set bs. db_blocks (tv_store db) (bk_id b) = Some b \<and> bk_day b = day"
    using Cons.prems(2,3) by auto
  show ?case
  proof (cases "bk_personal b \<or> is_synced b")
    case True
    with Cons.prems(1) have "apply_blocks env classify rule c bs db = (r, db')" by simp
    from pass_effect_widen[OF Cons.IH[OF this rest]] show ?thesis .
  next
    case False
    obtain p db1 where p: "pick env classify rule b db = (p, db1)" by force
    from pick_sure(1)[OF p] have st: "tv_store db1 = tv_store db" by simp
    show ?thesis
    proof (cases p)
      case (Inl e)
      with False Cons.prems(1) p st show ?thesis by (auto intro: pass_effect_none)
    next
      case (Inr opt)
      show ?thesis
      proof (cases opt)
        case None
        with False Inr Cons.prems(1) p have "apply_blocks env classify rule c bs db1 = (r, db')" by simp
        from pass_effect_widen[OF Cons.IH[of c db1, unfolded st, OF this rest]] show ?thesis .
      next
        case (Some key)
        obtain n db2 where s: "set_auto_ticket key (bk_id b) db1 = (n, db2)" by force
        from False have q: "\<not> bk_personal b" "\<not> is_synced b" by auto
        note eff = set_auto_ticket_effect[OF s b(1)[folded st] b(2) q, unfolded st]
        from False Inr Some Cons.prems(1) p s have go: "apply_blocks env classify rule (c + n) bs db2 = (r, db')" by simp
        have out: "bk_id b \<notin> bk_id ` set bs" using Cons.prems(2) by simp
        then have "\<forall>x\<in>set bs. db_blocks (tv_store db2) (bk_id x) = Some x \<and> bk_day x = day" using rest(2) eff(2) by (metis imageI)
        from Cons.IH[OF go rest(1) this, unfolded pass_effect_def] obtain I where I: "I \<subseteq> bk_id ` set bs"
          "tv_store db' = (tv_store db2)\<lparr>db_blocks := db_blocks (tv_store db')\<rparr>"
          "\<forall>i\<in>I. auto_ticketed day (db_blocks (tv_store db2) i) (db_blocks (tv_store db') i)"
          "\<forall>i. i \<notin> I \<longrightarrow> db_blocks (tv_store db') i = db_blocks (tv_store db2) i" "\<forall>m. r = Inr m \<longrightarrow> m = c + n + card I" by auto
        have bI: "bk_id b \<notin> I" using out I(1) by auto
        have fin: "finite I" using I(1) by (rule finite_subset) simp
        have store: "tv_store db' = (tv_store db)\<lparr>db_blocks := db_blocks (tv_store db')\<rparr>"
          by (subst I(2), subst eff(1)) simp
        have onI: "\<forall>i\<in>I. auto_ticketed day (db_blocks (tv_store db) i) (db_blocks (tv_store db') i)"
          using I(3) eff(2) bI by metis
        show ?thesis
        proof (cases "n = 0")
          case True
          with eff(2,3) I(4) have "\<forall>i. i \<notin> I \<longrightarrow> db_blocks (tv_store db') i = db_blocks (tv_store db) i" by metis
          with store onI I(1,5) True show ?thesis
            unfolding pass_effect_def by (intro conjI exI[of _ I]) auto
        next
          case False
          with eff(3) have n: "n = 1" "auto_ticketed day (db_blocks (tv_store db) (bk_id b)) (db_blocks (tv_store db') (bk_id b))"
            using I(4) bI by auto
          have "\<forall>i. i \<notin> insert (bk_id b) I \<longrightarrow> db_blocks (tv_store db') i = db_blocks (tv_store db) i" using I(4) eff(2) by auto
          with store onI n I(1,5) bI fin show ?thesis
            unfolding pass_effect_def by (intro conjI exI[of _ "insert (bk_id b) I"]) auto
        qed
      qed
    qed
  qed
qed

lemma blocks_of_day_rows:
  assumes "ids_ok store"
  shows "distinct (map bk_id (list_blocks_for_day store day))"
    and "\<forall>b\<in>set (list_blocks_for_day store day). db_blocks store (bk_id b) = Some b \<and> bk_day b = day"
proof -
  have ids: "map bk_id (all_blocks store) = filter (\<lambda>i. db_blocks store i \<noteq> None) [1..db_next store - 1]"
  proof -
    have "map bk_id (List.map_filter (db_blocks store) is) = filter (\<lambda>i. db_blocks store i \<noteq> None) is" for "is"
      using assms by (induction "is") (auto simp: ids_ok_def map_filter_simps split: option.splits)
    then show ?thesis by (simp add: all_blocks_def)
  qed
  have "distinct (map bk_id (all_blocks store))" by (simp add: ids)
  then show "distinct (map bk_id (list_blocks_for_day store day))"
    by (simp add: list_blocks_for_day_def distinct_map_filter distinct_map inj_on_def)
  show "\<forall>b\<in>set (list_blocks_for_day store day). db_blocks store (bk_id b) = Some b \<and> bk_day b = day"
    using assms by (auto simp: ids_ok_def list_blocks_for_day_def all_blocks_def set_map_filter_iff)
qed

lemma ticket_pass_effect:
  assumes "apply_tickets env classify rule day db = (r, db')" "ids_ok (tv_store db)"
  shows "tv_store db' = (tv_store db)\<lparr>db_blocks := db_blocks (tv_store db')\<rparr>"
    and "db_blocks (tv_store db') i \<noteq> db_blocks (tv_store db) i \<Longrightarrow>
      auto_ticketed (cal_show (ve_calendar env) day) (db_blocks (tv_store db) i) (db_blocks (tv_store db') i)"
    and "r = Inr n \<Longrightarrow> n = card {i. db_blocks (tv_store db') i \<noteq> db_blocks (tv_store db) i}"
proof -
  from apply_blocks_effect[OF assms(1)[unfolded apply_tickets_def] blocks_of_day_rows[OF assms(2)], unfolded pass_effect_def]
  obtain I where I: "tv_store db' = (tv_store db)\<lparr>db_blocks := db_blocks (tv_store db')\<rparr>"
    "\<forall>i\<in>I. auto_ticketed (cal_show (ve_calendar env) day) (db_blocks (tv_store db) i) (db_blocks (tv_store db') i)"
    "\<forall>i. i \<notin> I \<longrightarrow> db_blocks (tv_store db') i = db_blocks (tv_store db) i" "\<forall>n. r = Inr n \<longrightarrow> n = card I" by auto
  show "tv_store db' = (tv_store db)\<lparr>db_blocks := db_blocks (tv_store db')\<rparr>" by (rule I(1))
  show "db_blocks (tv_store db') i \<noteq> db_blocks (tv_store db) i \<Longrightarrow>
      auto_ticketed (cal_show (ve_calendar env) day) (db_blocks (tv_store db) i) (db_blocks (tv_store db') i)" using I(2,3) by blast
  have "I = {i. db_blocks (tv_store db') i \<noteq> db_blocks (tv_store db) i}"
    using I(2,3) unfolding auto_ticketed_def by blast
  with I(4) show "r = Inr n \<Longrightarrow> n = card {i. db_blocks (tv_store db') i \<noteq> db_blocks (tv_store db) i}" by simp
qed

end
