(* ===== verification/Estimator.thy ===== *)
theory Estimator
  imports TicketVerdict "HOL-Library.Word"
begin

text \<open>
  The estimator (\<open>estimate.rs\<close>, \<open>meeting_description.rs\<close>): which blocks of a day get a text, hours and a ticket from
  the model, what of its reply is accepted, the write, the merge of neighbours on one ticket, the single-block path and
  the redaction of code. The model is a parameter: a list of replies to the pending blocks, with what others did to the
  tables while it was asked. The wording of the prompt and the JSON reader of a reply are not modelled.
\<close>

section \<open>State\<close>

record estimate_db = ticket_db +
  eb_shares :: share_table

record estimate_env = ticket_env +
  ee_parse :: "string \<Rightarrow> instant option"
  ee_now :: instant
  ee_json :: json
  ee_meeting :: "string option"

datatype model_reply = InvocationFailed | BadShape | Replied "string option" "int option" "string option"

record estimate_stats =
  et_estimated :: nat
  et_skipped :: nat
  et_failed :: nat

datatype estimate_error =
    DayCompressed string
  | RowMissing int
  | NotFound int
  | PersonalBlock int
  | NoteBlock int
  | BadDay string
  | ReplyFailed
  | NoDescription int
  | Disappeared int

definition ROUND_MINUTES :: int where "ROUND_MINUTES = 15"

section \<open>Hours\<close>

text \<open>\<open>i64\<close> addition as a release build does it.\<close>

definition add_i64 :: "int \<Rightarrow> int \<Rightarrow> int" where
  "add_i64 a b = sint (word_of_int a + word_of_int b :: 64 word)"

definition round_minutes :: "int \<Rightarrow> int \<Rightarrow> int" where
  "round_minutes m span_minutes =
     (let m = max m 1;
          nearest = ROUND_MINUTES * trunc_div (add_i64 m (ROUND_MINUTES div 2)) ROUND_MINUTES
      in min (max nearest ROUND_MINUTES) (max span_minutes 1))"

definition parse_or_now :: "'e estimate_env_scheme \<Rightarrow> string \<Rightarrow> instant" where
  "parse_or_now env s = (case ee_parse env s of Some t \<Rightarrow> t | None \<Rightarrow> ee_now env)"

definition block_span_seconds :: "'e estimate_env_scheme \<Rightarrow> block \<Rightarrow> int" where
  "block_span_seconds env b = num_seconds (parse_or_now env (bk_end b) - parse_or_now env (bk_start b))"

definition fallback_block_minutes :: "'e estimate_env_scheme \<Rightarrow> block \<Rightarrow> int" where
  "fallback_block_minutes env b = max (trunc_div (block_span_seconds env b) 60) 1"

section \<open>Tickets\<close>

definition ticket_prefix :: "string \<Rightarrow> string option" where
  "ticket_prefix key = map_option fst (split_once (CHR ''-'') key)"

definition validate_ticket :: "string option \<Rightarrow> string list \<Rightarrow> string list \<Rightarrow> string option" where
  "validate_ticket claim candidates literals =
     Option.bind claim (\<lambda>claimed.
       if claimed \<in> set candidates then Some claimed
       else Option.bind (ticket_prefix claimed) (\<lambda>prefix.
         if prefix \<in> set (List.map_filter ticket_prefix candidates) \<and> claimed \<in> set literals then Some claimed else None))"

definition collect_literal_matches :: "char_classes \<Rightarrow> ticket_event list \<Rightarrow> string list" where
  "collect_literal_matches rx events =
     foldl (\<lambda>out key. if key \<in> set out then out else out @ [key]) []
       (concat (map (\<lambda>e. keys_in rx (tk_title e) @ (case tk_details e of None \<Rightarrow> [] | Some d \<Rightarrow> keys_in rx d)) events))"

section \<open>Writes to a block\<close>

definition update_stored :: "int \<Rightarrow> (block \<Rightarrow> block) \<Rightarrow> estimate_db \<Rightarrow> estimate_db" where
  "update_stored i f db = db\<lparr>tv_store := update_block i f (tv_store db)\<rparr>"

definition estimate_row :: "string option \<Rightarrow> string \<Rightarrow> int \<Rightarrow> string option \<Rightarrow> int \<Rightarrow> block \<Rightarrow> block" where
  "estimate_row meeting description secs ticket described b =
     (let kept = (bk_origin b = Some Manual \<or> (bk_origin b = Some Event \<and> bk_jira b \<noteq> None \<and> bk_jira b = meeting))
      in b\<lparr>bk_desc := Some description, bk_secs := secs,
           bk_jira := (if kept then bk_jira b else ticket),
           bk_origin := (if kept \<or> ticket = bk_jira b then bk_origin b else if ticket = None then None else Some Auto),
           bk_by := Some ''claude_p'', bk_dsecs := Some described\<rparr>)"

definition mark_gap :: "int \<Rightarrow> estimate_db \<Rightarrow> estimate_db" where
  "mark_gap i = update_stored i (\<lambda>b. b\<lparr>bk_by := Some ''gap''\<rparr>)"

section \<open>Meetings\<close>

definition calendar_title :: "estimate_db \<Rightarrow> int \<Rightarrow> string option" where
  "calendar_title db i =
     (let rows = list_events_for_block (ticket_db.truncate db) i
      in if rows = [] \<or> \<not> list_all (\<lambda>e. is_calendar_source (tk_source e)) rows then None
         else Some (join ''; '' (dedup_by (=) (map tk_title rows))))"

definition describe_meeting :: "int \<Rightarrow> string \<Rightarrow> int \<Rightarrow> estimate_db \<Rightarrow> estimate_db" where
  "describe_meeting i title span_seconds =
     update_stored i (\<lambda>b. if bk_by b = Some ''manual'' then b
        else b\<lparr>bk_desc := Some title, bk_by := Some ''claude_p'', bk_dsecs := Some span_seconds\<rparr>)"

section \<open>The run over a day\<close>

type_synonym pending_block = "block \<times> string list"

definition open_for :: "'e ticket_env_scheme \<Rightarrow> estimate_db \<Rightarrow> naive_date \<Rightarrow> string list" where
  "open_for env db day = load_open_tickets (ticket_env.truncate env) (ticket_db.truncate db) day"

definition literals_for :: "'e ticket_env_scheme \<Rightarrow> estimate_db \<Rightarrow> int \<Rightarrow> string list" where
  "literals_for env db i = collect_literal_matches (ve_classes env) (list_events_for_block (ticket_db.truncate db) i)"

text \<open>Phase 1: the blocks to ask the model about; a meeting is described at once.\<close>

fun prepare_blocks ::
    "'e estimate_env_scheme \<Rightarrow> block list \<Rightarrow> estimate_stats \<Rightarrow> estimate_db \<Rightarrow> estimate_stats \<times> pending_block list \<times> estimate_db" where
  "prepare_blocks env [] st db = (st, [], db)"
| "prepare_blocks env (b # bs) st db =
     (if bk_personal b \<or> bk_by b = Some ''claude_p'' \<or> bk_by b = Some ''manual''
      then prepare_blocks env bs (st\<lparr>et_skipped := et_skipped st + 1\<rparr>) db
      else (case calendar_title db (bk_id b) of
              Some title \<Rightarrow>
                prepare_blocks env bs (st\<lparr>et_estimated := et_estimated st + 1\<rparr>)
                  (describe_meeting (bk_id b) title (block_span_seconds env b) db)
            | None \<Rightarrow>
                (let p = (b, literals_for env db (bk_id b));
                     (st, pend, db) = prepare_blocks env bs st db
                 in (st, p # pend, db))))"

text \<open>Phase 3: one reply.\<close>

definition accepted_ticket :: "string list \<Rightarrow> pending_block \<Rightarrow> string option \<Rightarrow> string option" where
  "accepted_ticket opened p claim =
     (case p of (b, literals) \<Rightarrow>
        (case validate_ticket claim opened literals of
           Some t \<Rightarrow> Some t
         | None \<Rightarrow> validate_ticket (bk_jira b) opened literals))"

definition reply_text :: "model_reply \<Rightarrow> (string option \<times> int option \<times> string) option" where
  "reply_text reply =
     (case reply of
        Replied issue mins (Some d) \<Rightarrow> if trim d = [] then None else Some (issue, mins, d)
      | _ \<Rightarrow> None)"

definition apply_reply ::
    "'e estimate_env_scheme \<Rightarrow> string list \<Rightarrow> pending_block \<Rightarrow> model_reply \<Rightarrow> estimate_stats \<times> estimate_db \<Rightarrow> estimate_stats \<times> estimate_db" where
  "apply_reply env opened p reply s =
     (case (p, s) of ((b, literals), (st, db)) \<Rightarrow>
        (case reply_text reply of
           None \<Rightarrow> (st\<lparr>et_failed := et_failed st + 1\<rparr>, mark_gap (bk_id b) db)
         | Some (issue, mins, description) \<Rightarrow>
             (let span_minutes = fallback_block_minutes env b;
                  mins = round_minutes (case mins of Some m \<Rightarrow> m | None \<Rightarrow> span_minutes) span_minutes;
                  ticket = accepted_ticket opened p issue
              in case db_blocks (tv_store db) (bk_id b) of
                   None \<Rightarrow> (st\<lparr>et_skipped := et_skipped st + 1\<rparr>, db)
                 | Some row \<Rightarrow>
                     if bk_by row = Some ''manual'' \<or> bk_by row = Some ''claude_p''
                     then (st\<lparr>et_skipped := et_skipped st + 1\<rparr>, db)
                     else (st\<lparr>et_estimated := et_estimated st + 1\<rparr>,
                           update_stored (bk_id b)
                             (estimate_row (ee_meeting env) description (mins * 60) ticket (block_span_seconds env b)) db))))"

definition apply_replies ::
    "'e estimate_env_scheme \<Rightarrow> string list \<Rightarrow> pending_block list \<Rightarrow> model_reply list \<Rightarrow> estimate_stats \<times> estimate_db \<Rightarrow> estimate_stats \<times> estimate_db" where
  "apply_replies env opened pend replies s =
     foldl (\<lambda>s (p, reply). apply_reply env opened p reply s) s (zip pend replies)"

section \<open>Merging neighbours on one ticket\<close>

definition block_is_unsynced :: "estimate_db \<Rightarrow> int \<Rightarrow> estimate_error + bool" where
  "block_is_unsynced db i = map_sum id (\<lambda>b. \<not> is_synced b) (ok_or (RowMissing i) (db_blocks (tv_store db) i))"

definition block_has_saved_split :: "'e estimate_env_scheme \<Rightarrow> estimate_db \<Rightarrow> block \<Rightarrow> bool" where
  "block_has_saved_split env db b =
     (case load_rows (ee_json env) (eb_shares db) (bk_day b, bk_start b) of None \<Rightarrow> False | Some rows \<Rightarrow> rows \<noteq> [])"

definition safe_to_merge :: "'e estimate_env_scheme \<Rightarrow> estimate_db \<Rightarrow> block \<Rightarrow> block \<Rightarrow> estimate_error + bool" where
  "safe_to_merge env db a b =
     (if bk_by a = Some ''manual'' \<or> bk_by b = Some ''manual'' then Inr False
      else and_then (block_is_unsynced db (bk_id a)) (\<lambda>ua.
             if \<not> ua then Inr False
             else and_then (block_is_unsynced db (bk_id b)) (\<lambda>ub.
                    Inr (ub \<and> \<not> block_has_saved_split env db a \<and> \<not> block_has_saved_split env db b))))"

definition close_enough :: "'e estimate_env_scheme \<Rightarrow> block \<Rightarrow> block \<Rightarrow> bool" where
  "close_enough env a b =
     (case (ee_parse env (bk_end a), ee_parse env (bk_start b)) of
        (Some stop, Some start) \<Rightarrow> start - stop \<le> minutes TIMEOUT_MINUTES
      | _ \<Rightarrow> False)"

definition duration_seconds_between :: "'e estimate_env_scheme \<Rightarrow> string \<Rightarrow> string \<Rightarrow> int" where
  "duration_seconds_between env s e = max (num_seconds (parse_or_now env e - parse_or_now env s)) 0"

definition absorbing_row :: "'e estimate_env_scheme \<Rightarrow> block \<Rightarrow> block \<Rightarrow> block" where
  "absorbing_row env dst src =
     (let new_start = (if bk_start src < bk_start dst then bk_start src else bk_start dst);
          new_end = (if bk_end dst < bk_end src then bk_end src else bk_end dst)
      in dst\<lparr>bk_start := new_start, bk_end := new_end, bk_secs := duration_seconds_between env new_start new_end,
             bk_origin := (if bk_origin dst = Some Manual \<or> bk_origin src = Some Manual then Some Manual else bk_origin dst)\<rparr>)"

definition merge_block_into :: "'e estimate_env_scheme \<Rightarrow> int \<Rightarrow> int \<Rightarrow> estimate_db \<Rightarrow> estimate_error + estimate_db" where
  "merge_block_into env dst src db =
     and_then (ok_or (RowMissing dst) (db_blocks (tv_store db) dst)) (\<lambda>d.
     and_then (ok_or (RowMissing src) (db_blocks (tv_store db) src)) (\<lambda>s.
       (let store = (tv_store db)\<lparr>
              db_blocks := (db_blocks (tv_store db))(dst \<mapsto> absorbing_row env d s, src := None),
              db_links := {l \<in> db_links (tv_store db). fst l \<noteq> src} \<union> Pair dst ` snd ` {l \<in> db_links (tv_store db). fst l = src}\<rparr>
        in Inr (db\<lparr>tv_store := store\<rparr>))))"

text \<open>The view keeps the row \<open>a\<close> as it was read, also after a merge moved its end.\<close>

fun merge_view :: "'e estimate_env_scheme \<Rightarrow> block list \<Rightarrow> nat \<Rightarrow> estimate_db \<Rightarrow> (estimate_error + nat) \<times> estimate_db" where
  "merge_view env (a # b # rest) n db =
     (case safe_to_merge env db a b of
        Inl e \<Rightarrow> (Inl e, db)
      | Inr safe \<Rightarrow>
          if bk_jira a \<noteq> None \<and> bk_jira a = bk_jira b \<and> safe \<and> close_enough env a b
          then (case merge_block_into env (bk_id a) (bk_id b) db of
                  Inl e \<Rightarrow> (Inl e, db)
                | Inr db \<Rightarrow> merge_view env (a # rest) (n + 1) db)
          else merge_view env (b # rest) n db)"
| "merge_view env bs n db = (Inr n, db)"

definition merge_same_ticket_adjacent :: "'e estimate_env_scheme \<Rightarrow> string \<Rightarrow> estimate_db \<Rightarrow> (estimate_error + nat) \<times> estimate_db" where
  "merge_same_ticket_adjacent env day_iso db =
     (if day_is_compressed (tv_store db) day_iso then (Inl (DayCompressed day_iso), db)
      else merge_view env (list_blocks_for_day (tv_store db) day_iso) 0 db)"

definition first_phase :: "'e estimate_env_scheme \<Rightarrow> naive_date \<Rightarrow> estimate_db \<Rightarrow> estimate_stats \<times> pending_block list \<times> estimate_db" where
  "first_phase env day db =
     prepare_blocks env (list_blocks_for_day (tv_store db) (cal_show (ve_calendar env) day))
       \<lparr>et_estimated = 0, et_skipped = 0, et_failed = 0\<rparr> db"

definition estimate_day ::
    "'e estimate_env_scheme \<Rightarrow> (pending_block list \<Rightarrow> model_reply list) \<Rightarrow> (estimate_db \<Rightarrow> estimate_db) \<Rightarrow> naive_date \<Rightarrow> estimate_db \<Rightarrow>
       (estimate_error + estimate_stats) \<times> estimate_db" where
  "estimate_day env ask meanwhile day db =
     (let day_iso = cal_show (ve_calendar env) day
      in if day_is_compressed (tv_store db) day_iso then (Inl (DayCompressed day_iso), db)
         else (let opened = open_for env db day;
                   (st, pend, db) = first_phase env day db;
                   (st, db) = apply_replies env opened pend (ask pend) (st, meanwhile db)
               in case merge_same_ticket_adjacent env day_iso db of
                    (Inl e, db) \<Rightarrow> (Inl e, db)
                  | (Inr _, db) \<Rightarrow> (Inr st, db)))"

section \<open>One block on demand\<close>

record estimate_prep =
  ep_block :: block
  ep_open :: "string list"
  ep_literals :: "string list"

definition prepare_block_estimate :: "'e estimate_env_scheme \<Rightarrow> int \<Rightarrow> estimate_db \<Rightarrow> estimate_error + estimate_prep" where
  "prepare_block_estimate env i db =
     and_then (ok_or (NotFound i) (db_blocks (tv_store db) i)) (\<lambda>b.
       if day_is_compressed (tv_store db) (bk_day b) then Inl (DayCompressed (bk_day b))
       else if bk_personal b then Inl (PersonalBlock i)
       else if bk_note b \<noteq> None then Inl (NoteBlock i)
       else and_then (ok_or (BadDay (bk_day b)) (cal_date (ve_calendar env) (bk_day b))) (\<lambda>day.
              Inr \<lparr>ep_block = b, ep_open = open_for env db day, ep_literals = literals_for env db i\<rparr>))"

definition invoke_block_estimate ::
    "'e estimate_env_scheme \<Rightarrow> estimate_prep \<Rightarrow> model_reply \<Rightarrow> estimate_error + string \<times> int \<times> string option" where
  "invoke_block_estimate env prep reply =
     (case reply of
        Replied issue mins description \<Rightarrow>
          (case reply_text reply of
             None \<Rightarrow> Inl (NoDescription (bk_id (ep_block prep)))
           | Some (issue, mins, d) \<Rightarrow>
               (let span_minutes = fallback_block_minutes env (ep_block prep);
                    raw = round_minutes (case mins of Some m \<Rightarrow> m | None \<Rightarrow> span_minutes) span_minutes;
                    fits = (\<lambda>x. 0 \<le> x \<and> x < 2 ^ 32);
                    mins = (if fits raw then raw else if fits span_minutes then span_minutes else 0)
                in Inr (d, mins, accepted_ticket (ep_open prep) (ep_block prep, ep_literals prep) issue)))
      | _ \<Rightarrow> Inl ReplyFailed)"

definition commit_block_estimate ::
    "'e estimate_env_scheme \<Rightarrow> estimate_prep \<Rightarrow> string \<times> int \<times> string option \<Rightarrow> estimate_db \<Rightarrow>
       (estimate_error + string \<times> int \<times> string option) \<times> estimate_db" where
  "commit_block_estimate env prep reply db =
     (case reply of (description, mins, ticket) \<Rightarrow>
        (let b = ep_block prep
         in if day_is_compressed (tv_store db) (bk_day b) then (Inl (DayCompressed (bk_day b)), db)
            else if db_blocks (tv_store db) (bk_id b) = None then (Inl (Disappeared (bk_id b)), db)
            else (let db = update_stored (bk_id b)
                        (estimate_row (ee_meeting env) description (mins * 60) ticket (block_span_seconds env b)) db
                  in (Inr (description, mins, Option.bind (db_blocks (tv_store db) (bk_id b)) bk_jira), db))))"

section \<open>Redaction\<close>

definition FENCE :: string where "FENCE = [CHR 0x60, CHR 0x60, CHR 0x60]"
definition OMITTED :: string where "OMITTED = ''[code omitted]''"

function strip_code_fences :: "string \<Rightarrow> string" where
  "strip_code_fences s =
     (case str_find FENCE s of
        None \<Rightarrow> s
      | Some i \<Rightarrow>
          (let after = drop (i + 3) s
           in take i s @ OMITTED @
              (case str_find FENCE after of
                 Some j \<Rightarrow> strip_code_fences (drop (j + 3) after)
               | None \<Rightarrow> [])))"
  by pat_completeness auto
termination
  by (relation "measure length") (auto dest!: str_find_bound simp: FENCE_def)

declare strip_code_fences.simps [simp del]

definition extract_xml_tag :: "string \<Rightarrow> string \<Rightarrow> string option" where
  "extract_xml_tag s tag =
     Option.bind (str_find (''<'' @ tag @ ''>'') s) (\<lambda>i.
       (let rest = drop (i + length tag + 2) s
        in map_option (\<lambda>j. take j rest) (str_find (''</'' @ tag @ ''>'') rest)))"

definition redact_code :: "string \<Rightarrow> string" where
  "redact_code raw =
     (let t = trim raw
      in if t = [] then []
         else if starts_with (rev ''.jsonl'') (rev t) \<and> \<not> list_ex (\<lambda>w. str_contains w t) white_space then []
         else if str_contains ''<task-notification>'' t
         then (case extract_xml_tag t ''summary'' of
                 Some s \<Rightarrow> ''background task: '' @ trim s
               | None \<Rightarrow> ''background task completed'')
         else strip_code_fences raw)"

section \<open>Hours stay inside the block\<close>

lemma round_minutes_bounds: "1 \<le> round_minutes m span_minutes" "round_minutes m span_minutes \<le> max span_minutes 1"
  by (simp_all add: round_minutes_def ROUND_MINUTES_def Let_def)

lemma add_i64_exact: "- (2 ^ 63) \<le> a + b \<Longrightarrow> a + b < 2 ^ 63 \<Longrightarrow> add_i64 a b = a + b"
  unfolding add_i64_def wi_hom_add sint_sbintrunc' by (simp add: signed_take_bit_int_eq_self)

text \<open>A claim inside the block goes to the nearest quarter of an hour, unless that is none or more than the block.\<close>

lemma round_minutes_nearest:
  assumes "15 \<le> span_minutes" "1 \<le> m" "m \<le> span_minutes" "span_minutes < 2 ^ 62"
  shows "\<bar>round_minutes m span_minutes - m\<bar> \<le> (if m < 8 then 14 else 7)"
    and "round_minutes m span_minutes = span_minutes \<or> 15 dvd round_minutes m span_minutes"
proof -
  have e: "add_i64 m 7 = m + 7" using assms by (intro add_i64_exact) simp_all
  have r: "round_minutes m span_minutes = min (max (15 * ((m + 7) div 15)) 15) span_minutes"
    using assms by (simp add: round_minutes_def ROUND_MINUTES_def Let_def e trunc_div_def)
  have b: "15 * ((m + 7) div 15) \<le> m + 7" "m - 7 \<le> 15 * ((m + 7) div 15)" by presburger+
  show "\<bar>round_minutes m span_minutes - m\<bar> \<le> (if m < 8 then 14 else 7)" unfolding r using b assms by auto
  show "round_minutes m span_minutes = span_minutes \<or> 15 dvd round_minutes m span_minutes" unfolding r by (auto simp: min_def max_def)
qed

section \<open>Tickets are justified\<close>

lemma validate_ticket_iff:
  "validate_ticket claim candidates literals = Some t \<longleftrightarrow>
     claim = Some t \<and> (t \<in> set candidates \<or>
       (t \<in> set literals \<and> (\<exists>c\<in>set candidates. ticket_prefix c \<noteq> None \<and> ticket_prefix c = ticket_prefix t)))"
proof -
  have m: "p \<in> set (List.map_filter ticket_prefix candidates) \<longleftrightarrow> (\<exists>c\<in>set candidates. ticket_prefix c = Some p)" for p
    by (auto simp: map_filter_def image_iff)
  show ?thesis
  proof (cases claim)
    case (Some c)
    then show ?thesis by (cases "ticket_prefix c") (auto simp: validate_ticket_def m)
  qed (simp add: validate_ticket_def)
qed

lemma first_seen: "set (foldl (\<lambda>out key. if key \<in> set out then out else out @ [key]) out ks) = set out \<union> set ks"
  by (induction ks arbitrary: out) auto

lemma literals_written:
  "t \<in> set (collect_literal_matches rx events) \<longleftrightarrow>
     (\<exists>e\<in>set events. t \<in> set (keys_in rx (tk_title e)) \<or> (\<exists>d. tk_details e = Some d \<and> t \<in> set (keys_in rx d)))"
proof -
  have "t \<in> set (case tk_details e of None \<Rightarrow> [] | Some d \<Rightarrow> keys_in rx d) \<longleftrightarrow> (\<exists>d. tk_details e = Some d \<and> t \<in> set (keys_in rx d))" for e
    by (cases "tk_details e") simp_all
  then show ?thesis unfolding collect_literal_matches_def first_seen by simp (metis option.inject)
qed

section \<open>No code leaves\<close>

definition no_fence :: "string \<Rightarrow> bool" where
  "no_fence s = (\<forall>u v. s \<noteq> u @ FENCE @ v)"

lemma str_find_None_iff: "p \<noteq> [] \<Longrightarrow> str_find p s = None \<longleftrightarrow> (\<forall>u v. s \<noteq> u @ p @ v)"
proof (induction p s rule: str_find.induct)
  case (2 p c cs)
  show ?case
  proof
    assume n: "str_find p (c # cs) = None"
    then have start: "\<not> starts_with p (c # cs)" and rest: "str_find p cs = None" by (auto split: if_splits)
    show "\<forall>u v. c # cs \<noteq> u @ p @ v"
    proof (intro allI notI)
      fix u v assume e: "c # cs = u @ p @ v"
      show False
      proof (cases u)
        case Nil
        with e start show False by (auto simp: starts_with_iff)
      next
        case (Cons a u')
        with e rest 2 start show False by auto
      qed
    qed
  next
    assume a: "\<forall>u v. c # cs \<noteq> u @ p @ v"
    then have start: "\<not> starts_with p (c # cs)" unfolding starts_with_iff by (metis append_Nil)
    have "\<forall>u v. cs \<noteq> u @ p @ v" using a by (metis append_Cons)
    with 2 start show "str_find p (c # cs) = None" by simp
  qed
qed simp

lemma no_fence_find: "no_fence s \<longleftrightarrow> str_find FENCE s = None"
  unfolding no_fence_def by (subst str_find_None_iff) (simp_all add: FENCE_def)

lemma str_find_leftmost: "str_find p s = Some i \<Longrightarrow> p \<noteq> [] \<Longrightarrow> str_find p (take i s) = None"
proof (induction p s arbitrary: i rule: str_find.induct)
  case (2 p c cs)
  from 2(2,3) show ?case
  proof (cases "starts_with p (c # cs)")
    case False
    with 2(2) obtain j where j: "str_find p cs = Some j" "i = Suc j" by auto
    have "\<not> starts_with p (c # take j cs)" using False by (auto simp: starts_with_def min_def split: if_splits)
       (metis (no_types, lifting) append_take_drop_id starts_with_def starts_with_iff append_Cons append.assoc False)
    with 2(1)[OF False j(1) 2(3)] j(2) show ?thesis by simp
  qed simp
qed (simp split: if_splits)

text \<open>A fence cannot straddle a character that is not a backtick.\<close>

lemma no_fence_join:
  assumes "no_fence a" "no_fence b" "c \<noteq> CHR 0x60"
  shows "no_fence (a @ c # b)"
  unfolding no_fence_def
proof (intro allI notI)
  fix u v assume e: "a @ c # b = u @ FENCE @ v"
  have c: "c \<notin> set FENCE" using assms(3) by (simp add: FENCE_def)
  from e consider (left) w where "a = u @ w" "w @ c # b = FENCE @ v" | (right) w where "u = a @ w" "c # b = w @ FENCE @ v"
    by (auto simp: append_eq_append_conv2)
  then show False
  proof cases
    case left
    from left(2) consider w' where "w = FENCE @ w'" | w' where "FENCE = w @ w'" "c # b = w' @ v"
      unfolding append_eq_append_conv2 by metis
    then show False
    proof cases
      case 1
      with left(1) assms(1) show False by (auto simp: no_fence_def)
    next
      case 2
      show False
      proof (cases w')
        case Nil
        with 2 left(1) assms(1) show False by (auto simp: no_fence_def) (metis append_Nil2)
      next
        case (Cons x xs)
        with 2 have "FENCE = w @ c # xs" by simp
        from arg_cong[OF this, of set] have "c \<in> set FENCE" by simp
        with c show False ..
      qed
    qed
  next
    case right
    show False
    proof (cases w)
      case Nil
      with right(2) c show False by (auto simp: FENCE_def)
    next
      case (Cons x xs)
      with right(2) assms(2) show False by (auto simp: no_fence_def)
    qed
  qed
qed

lemma no_fence_Nil: "no_fence []"
  by (simp add: no_fence_find FENCE_def)

lemma no_fence_omitted: "no_fence a \<Longrightarrow> no_fence b \<Longrightarrow> no_fence (a @ OMITTED @ b)"
proof -
  assume a: "no_fence a" and b: "no_fence b"
  have "no_fence (''code omitted'' @ CHR '']'' # b)" by (rule no_fence_join[OF _ b]) (simp_all add: no_fence_find FENCE_def starts_with_def)
  from no_fence_join[OF a this, of "CHR ''[''"] show ?thesis by (simp add: OMITTED_def)
qed

lemma strip_code_fences_clean: "no_fence (strip_code_fences s)"
proof (induction s rule: strip_code_fences.induct)
  case (1 s)
  show ?case
  proof (cases "str_find FENCE s")
    case None
    then show ?thesis by (subst strip_code_fences.simps) (simp add: no_fence_find)
  next
    case (Some i)
    have l: "no_fence (take i s)" using str_find_leftmost[OF Some] by (simp add: no_fence_find FENCE_def)
    show ?thesis
    proof (cases "str_find FENCE (drop (i + 3) s)")
      case None
      with Some no_fence_omitted[OF l no_fence_Nil] show ?thesis by (subst strip_code_fences.simps) (simp add: Let_def)
    next
      case (Some j)
      with \<open>str_find FENCE s = Some i\<close> no_fence_omitted[OF l 1[OF \<open>str_find FENCE s = Some i\<close> refl Some]]
      show ?thesis by (subst strip_code_fences.simps) (simp add: Let_def)
    qed
  qed
qed

lemma strip_code_fences_fixed: "no_fence s \<Longrightarrow> strip_code_fences s = s"
  by (subst strip_code_fences.simps) (simp add: no_fence_find)

lemma strip_code_fences_idem: "strip_code_fences (strip_code_fences s) = strip_code_fences s"
  by (rule strip_code_fences_fixed[OF strip_code_fences_clean])

text \<open>Outside a task notification, no fenced code is left.\<close>

lemma redact_code_clean: "\<not> str_contains ''<task-notification>'' (trim raw) \<Longrightarrow> no_fence (redact_code raw)"
  by (simp add: redact_code_def Let_def no_fence_Nil strip_code_fences_clean)

text \<open>The summary of a task notification goes out as it is, code included; a second pass redacts it, or drops it.\<close>

definition code_summary :: string where
  "code_summary = ''<task-notification><summary>fix '' @ FENCE @ ''let key = 1;'' @ FENCE @ ''</summary></task-notification>''"

lemma redact_summary_leaks:
  "redact_code code_summary = ''background task: fix '' @ FENCE @ ''let key = 1;'' @ FENCE"
  "redact_code (redact_code code_summary) = ''background task: fix [code omitted]''"
  by code_simp+

section \<open>What the owner edited stays\<close>

lemma update_stored_blocks [simp]:
  "db_blocks (tv_store (update_stored i f db)) j = (if j = i then map_option f (db_blocks (tv_store db) i) else db_blocks (tv_store db) j)"
  by (simp add: update_stored_def update_block_def)

lemma ids_ok_update: "ids_ok (tv_store db) \<Longrightarrow> (\<And>b. bk_id (f b) = bk_id b) \<Longrightarrow> ids_ok (tv_store (update_stored i f db))"
  by (auto simp: ids_ok_def)

lemma estimate_row_simps [simp]: "bk_id (estimate_row m d secs t ds b) = bk_id b" "bk_secs (estimate_row m d secs t ds b) = secs"
  "bk_by (estimate_row m d secs t ds b) = Some ''claude_p''" "bk_desc (estimate_row m d secs t ds b) = Some d"
  by (simp_all add: estimate_row_def Let_def)

text \<open>A ticket set by hand, and the meeting ticket of an event, outlive every estimate.\<close>

lemma estimate_row_owner: "bk_origin b = Some Manual \<Longrightarrow>
    bk_jira (estimate_row m d secs t ds b) = bk_jira b \<and> bk_origin (estimate_row m d secs t ds b) = Some Manual"
  by (simp add: estimate_row_def Let_def)

definition by_hand :: "estimate_db \<Rightarrow> int \<Rightarrow> block \<Rightarrow> bool" where
  "by_hand db i b = (db_blocks (tv_store db) i = Some b \<and> bk_by b = Some ''manual'')"

lemma prepare_keeps:
  assumes "prepare_blocks env bs st db = (st', pend, db')"
  shows "by_hand db i b \<Longrightarrow> by_hand db' i b" "ids_ok (tv_store db) \<Longrightarrow> ids_ok (tv_store db')"
    "list_all (\<lambda>(b, _). b \<in> set bs \<and> \<not> bk_personal b \<and> bk_by b \<noteq> Some ''manual'' \<and> bk_by b \<noteq> Some ''claude_p'') pend"
proof -
  have "(by_hand db i b \<longrightarrow> by_hand db' i b) \<and> (ids_ok (tv_store db) \<longrightarrow> ids_ok (tv_store db')) \<and>
    list_all (\<lambda>(b, _). b \<in> set bs \<and> \<not> bk_personal b \<and> bk_by b \<noteq> Some ''manual'' \<and> bk_by b \<noteq> Some ''claude_p'') pend"
    using assms
  proof (induction env bs st db arbitrary: pend rule: prepare_blocks.induct)
    case (2 env x bs st db)
    show ?case
    proof (cases "bk_personal x \<or> bk_by x = Some ''claude_p'' \<or> bk_by x = Some ''manual''")
      case True
      with 2(1)[OF True] 2(4) show ?thesis by (auto simp: list_all_iff)
    next
      case False
      show ?thesis
      proof (cases "calendar_title db (bk_id x)")
        case (Some title)
        let ?db = "describe_meeting (bk_id x) title (block_span_seconds env x) db"
        have "by_hand db i b \<longrightarrow> by_hand ?db i b" by (simp add: by_hand_def describe_meeting_def)
        moreover have "ids_ok (tv_store db) \<longrightarrow> ids_ok (tv_store ?db)" by (simp add: describe_meeting_def ids_ok_update)
        ultimately show ?thesis using 2(3)[OF False Some] 2(4) False Some by (auto simp: list_all_iff)
      next
        case None
        obtain st1 pend1 db1 where r: "prepare_blocks env bs st db = (st1, pend1, db1)" by (cases "prepare_blocks env bs st db")
        from 2(4) False None r have e: "pend = (x, literals_for env db (bk_id x)) # pend1" "db' = db1" "st' = st1"
          by (simp_all add: Let_def)
        from 2(2)[OF False None refl, of pend1] r e False show ?thesis by (auto simp: list_all_iff)
      qed
    qed
  qed simp
  then show "by_hand db i b \<Longrightarrow> by_hand db' i b" "ids_ok (tv_store db) \<Longrightarrow> ids_ok (tv_store db')"
    "list_all (\<lambda>(b, _). b \<in> set bs \<and> \<not> bk_personal b \<and> bk_by b \<noteq> Some ''manual'' \<and> bk_by b \<noteq> Some ''claude_p'') pend" by auto
qed

lemma apply_reply_keeps:
  assumes "apply_reply env opened p reply (st, db) = (st', db')"
  shows "by_hand db i b \<Longrightarrow> bk_id (fst p) \<noteq> i \<or> reply_text reply \<noteq> None \<Longrightarrow> by_hand db' i b"
    and "ids_ok (tv_store db) \<Longrightarrow> ids_ok (tv_store db')"
  using assms
  by (auto simp: apply_reply_def by_hand_def mark_gap_def Let_def ids_ok_update split: prod.splits option.splits if_splits)

lemma apply_replies_keeps:
  assumes "apply_replies env opened pend replies (st, db) = (st', db')"
  shows "by_hand db i b \<Longrightarrow> list_all (\<lambda>(p, reply). bk_id (fst p) \<noteq> i \<or> reply_text reply \<noteq> None) (zip pend replies) \<Longrightarrow> by_hand db' i b"
    and "ids_ok (tv_store db) \<Longrightarrow> ids_ok (tv_store db')"
proof -
  have "(by_hand db i b \<longrightarrow> list_all (\<lambda>(p, reply). bk_id (fst p) \<noteq> i \<or> reply_text reply \<noteq> None) zs \<longrightarrow> by_hand db' i b) \<and>
      (ids_ok (tv_store db) \<longrightarrow> ids_ok (tv_store db'))"
    if "foldl (\<lambda>s (p, reply). apply_reply env opened p reply s) (st, db) zs = (st', db')" for zs
    using that
  proof (induction zs arbitrary: st db)
    case (Cons z zs)
    obtain p reply where z: "z = (p, reply)" by (cases z)
    obtain st1 db1 where r: "apply_reply env opened p reply (st, db) = (st1, db1)" by force
    from apply_reply_keeps[OF r] Cons.IH[of st1 db1] Cons.prems z r show ?case by auto
  qed simp
  from this[OF assms[unfolded apply_replies_def]]
  show "by_hand db i b \<Longrightarrow> list_all (\<lambda>(p, reply). bk_id (fst p) \<noteq> i \<or> reply_text reply \<noteq> None) (zip pend replies) \<Longrightarrow> by_hand db' i b"
    "ids_ok (tv_store db) \<Longrightarrow> ids_ok (tv_store db')" by auto
qed

section \<open>What a merge does\<close>

text \<open>Two rows of one line: the same id, ticket, marker of the writer and worklog.\<close>

definition same_line :: "block option \<Rightarrow> block option \<Rightarrow> bool" where
  "same_line x y =
     rel_option (\<lambda>a b. bk_id b = bk_id a \<and> bk_jira b = bk_jira a \<and> bk_by b = bk_by a \<and> bk_tempo b = bk_tempo a) x y"

definition mergeable :: "block \<Rightarrow> bool" where
  "mergeable b = (bk_by b \<noteq> Some ''manual'' \<and> \<not> is_synced b)"

definition absorbed_row :: "block_db \<Rightarrow> block_db \<Rightarrow> int set \<Rightarrow> int \<Rightarrow> bool" where
  "absorbed_row s s' G i =
     (\<exists>j x y. j \<notin> G \<and> db_blocks s i = Some x \<and> db_blocks s j = Some y \<and> bk_jira x = bk_jira y \<and> bk_jira x \<noteq> None
        \<and> mergeable x \<and> db_blocks s' i = None \<and> (\<forall>e. (i, e) \<in> db_links s \<longrightarrow> (j, e) \<in> db_links s'))"

definition merge_effect :: "block list \<Rightarrow> nat \<Rightarrow> estimate_error + nat \<Rightarrow> block_db \<Rightarrow> block_db \<Rightarrow> bool" where
  "merge_effect bs n r s s' =
     (\<exists>G. G \<subseteq> bk_id ` set (tl bs)
        \<and> (\<forall>i\<in>G. absorbed_row s s' G i)
        \<and> (\<forall>i. i \<notin> G \<longrightarrow> same_line (db_blocks s i) (db_blocks s' i))
        \<and> (\<forall>i. i \<notin> bk_id ` {b \<in> set bs. mergeable b} \<longrightarrow> db_blocks s' i = db_blocks s i)
        \<and> snd ` db_links s' = snd ` db_links s
        \<and> (\<forall>l\<in>db_links s. fst l \<notin> G \<longrightarrow> l \<in> db_links s')
        \<and> (\<forall>m. r = Inr m \<longrightarrow> m = n + card G))"

lemma same_line_refl [simp]: "same_line x x"
  by (cases x) (simp_all add: same_line_def)

lemma same_line_trans: "same_line x y \<Longrightarrow> same_line y z \<Longrightarrow> same_line x z"
  by (cases x; cases y; cases z) (simp_all add: same_line_def)

lemma merge_effect_none: "(\<And>m. r = Inr m \<Longrightarrow> m = n) \<Longrightarrow> merge_effect bs n r s s"
  unfolding merge_effect_def by (intro exI[of _ "{}"]) auto

lemma merge_effect_next: "merge_effect (b # rest) n r s s' \<Longrightarrow> merge_effect (a # b # rest) n r s s'"
proof -
  assume "merge_effect (b # rest) n r s s'"
  then obtain G where "G \<subseteq> bk_id ` set rest" "\<forall>i\<in>G. absorbed_row s s' G i"
    "\<forall>i. i \<notin> G \<longrightarrow> same_line (db_blocks s i) (db_blocks s' i)"
    "\<forall>i. i \<notin> bk_id ` {x \<in> set (b # rest). mergeable x} \<longrightarrow> db_blocks s' i = db_blocks s i"
    "snd ` db_links s' = snd ` db_links s" "\<forall>l\<in>db_links s. fst l \<notin> G \<longrightarrow> l \<in> db_links s'" "\<forall>m. r = Inr m \<longrightarrow> m = n + card G"
    unfolding merge_effect_def by auto
  then show ?thesis unfolding merge_effect_def by (intro exI[of _ G]) auto
qed

lemma absorbing_row_same [simp]: "bk_id (absorbing_row env d s) = bk_id d" "bk_jira (absorbing_row env d s) = bk_jira d"
  "bk_by (absorbing_row env d s) = bk_by d" "bk_tempo (absorbing_row env d s) = bk_tempo d"
  by (simp_all add: absorbing_row_def Let_def)

lemma merge_step:
  assumes m: "merge_block_into env i j db = Inr db1" and ij: "i \<noteq> j"
  shows "\<exists>x y. db_blocks (tv_store db) i = Some x \<and> db_blocks (tv_store db) j = Some y"
    "db_blocks (tv_store db1) j = None"
    "k \<noteq> j \<Longrightarrow> same_line (db_blocks (tv_store db) k) (db_blocks (tv_store db1) k)"
    "k \<noteq> i \<Longrightarrow> k \<noteq> j \<Longrightarrow> db_blocks (tv_store db1) k = db_blocks (tv_store db) k"
    "snd ` db_links (tv_store db1) = snd ` db_links (tv_store db)"
    "l \<in> db_links (tv_store db) \<Longrightarrow> fst l \<noteq> j \<Longrightarrow> l \<in> db_links (tv_store db1)"
    "(j, e) \<in> db_links (tv_store db) \<Longrightarrow> (i, e) \<in> db_links (tv_store db1)"
proof -
  from m obtain x y where xy: "db_blocks (tv_store db) i = Some x" "db_blocks (tv_store db) j = Some y"
    and s: "tv_store db1 = (tv_store db)\<lparr>db_blocks := (db_blocks (tv_store db))(i \<mapsto> absorbing_row env x y, j := None),
       db_links := {l \<in> db_links (tv_store db). fst l \<noteq> j} \<union> Pair i ` snd ` {l \<in> db_links (tv_store db). fst l = j}\<rparr>"
    by (auto simp: merge_block_into_def and_then_Inr Let_def)
  then show "\<exists>x y. db_blocks (tv_store db) i = Some x \<and> db_blocks (tv_store db) j = Some y" by blast
  show "db_blocks (tv_store db1) j = None" by (simp add: s)
  show "k \<noteq> j \<Longrightarrow> same_line (db_blocks (tv_store db) k) (db_blocks (tv_store db1) k)"
    using xy by (auto simp: s same_line_def option.rel_refl)
  show "k \<noteq> i \<Longrightarrow> k \<noteq> j \<Longrightarrow> db_blocks (tv_store db1) k = db_blocks (tv_store db) k" by (simp add: s)
  have "snd ` ({l \<in> L. fst l \<noteq> j} \<union> Pair i ` snd ` {l \<in> L. fst l = j}) = snd ` L" for L :: "(int \<times> int) set"
    by (auto simp: image_Un image_image)
  then show "snd ` db_links (tv_store db1) = snd ` db_links (tv_store db)" by (simp add: s)
  show "l \<in> db_links (tv_store db) \<Longrightarrow> fst l \<noteq> j \<Longrightarrow> l \<in> db_links (tv_store db1)" by (simp add: s)
  show "(j, e) \<in> db_links (tv_store db) \<Longrightarrow> (i, e) \<in> db_links (tv_store db1)" by (force simp: s)
qed

lemma merge_effect_step:
  assumes m: "merge_block_into env (bk_id a) (bk_id b) db = Inr db1" and d: "distinct (map bk_id (a # b # rest))"
    and ok: "mergeable a" "mergeable b" "bk_jira a = bk_jira b" "bk_jira a \<noteq> None"
    and rows: "\<forall>x\<in>set (a # b # rest). same_line (Some x) (db_blocks (tv_store db) (bk_id x))"
    and then_rest: "merge_effect (a # rest) (n + 1) r (tv_store db1) s'"
  shows "merge_effect (a # b # rest) n r (tv_store db) s'"
proof -
  let ?s = "tv_store db" and ?s1 = "tv_store db1"
  from d have ne: "bk_id a \<noteq> bk_id b" by simp
  note st = merge_step[OF m ne]
  from then_rest obtain G where G: "G \<subseteq> bk_id ` set rest" "\<forall>i\<in>G. absorbed_row ?s1 s' G i"
    "\<forall>i. i \<notin> G \<longrightarrow> same_line (db_blocks ?s1 i) (db_blocks s' i)"
    "\<forall>i. i \<notin> bk_id ` {b \<in> set (a # rest). mergeable b} \<longrightarrow> db_blocks s' i = db_blocks ?s1 i"
    "snd ` db_links s' = snd ` db_links ?s1" "\<forall>l\<in>db_links ?s1. fst l \<notin> G \<longrightarrow> l \<in> db_links s'"
    "\<forall>m. r = Inr m \<longrightarrow> m = n + 1 + card G" unfolding merge_effect_def by auto
  have aG: "bk_id a \<notin> G" and bG: "bk_id b \<notin> G" using G(1) d by auto
  have fin: "finite G" using G(1) by (rule finite_subset) simp
  obtain ra rb where r: "db_blocks ?s (bk_id a) = Some ra" "db_blocks ?s (bk_id b) = Some rb" using st(1) by blast
  from rows r have like: "bk_jira ra = bk_jira a" "bk_jira rb = bk_jira b" "bk_by rb = bk_by b" "bk_tempo rb = bk_tempo b"
    by (simp_all add: same_line_def)
  have mrb: "mergeable rb" using ok(2) like by (simp add: mergeable_def is_synced_def)
  have gone: "db_blocks s' (bk_id b) = None"
    using G(3) bG st(2) by (auto simp: same_line_def dest!: spec[of _ "bk_id b"])
  have ab: "absorbed_row ?s s' (insert (bk_id b) G) (bk_id b)"
    unfolding absorbed_row_def
    using aG ne r like ok(3,4) mrb gone G(6) st(7) by (intro exI[of _ "bk_id a"] exI[of _ rb] exI[of _ ra]) auto
  have rest_ab: "absorbed_row ?s s' (insert (bk_id b) G) i" if iG: "i \<in> G" for i
  proof -
    from G(2) iG obtain j x y where j: "j \<notin> G" "db_blocks ?s1 i = Some x" "db_blocks ?s1 j = Some y" "bk_jira x = bk_jira y"
      "bk_jira x \<noteq> None" "mergeable x" "db_blocks s' i = None" "\<forall>e. (i, e) \<in> db_links ?s1 \<longrightarrow> (j, e) \<in> db_links s'"
      unfolding absorbed_row_def by blast
    have ib: "i \<noteq> bk_id b" "j \<noteq> bk_id b" using j(2,3) st(2) by auto
    from st(3)[OF ib(1)] j(2) obtain x' where x': "db_blocks ?s i = Some x'" "bk_jira x' = bk_jira x" "bk_by x' = bk_by x" "bk_tempo x' = bk_tempo x"
      by (auto simp: same_line_def option_rel_Some2)
    from st(3)[OF ib(2)] j(3) obtain y' where y': "db_blocks ?s j = Some y'" "bk_jira y' = bk_jira y"
      by (auto simp: same_line_def option_rel_Some2)
    have "\<forall>e. (i, e) \<in> db_links ?s \<longrightarrow> (j, e) \<in> db_links s'" using j(8) st(6)[of "(i, _)"] ib(1) by auto
    with j(1,4-7) ib x' y' show ?thesis
      unfolding absorbed_row_def by (intro exI[of _ j] exI[of _ x'] exI[of _ y']) (auto simp: mergeable_def is_synced_def)
  qed
  show ?thesis unfolding merge_effect_def
  proof (intro exI[of _ "insert (bk_id b) G"] conjI)
    show "insert (bk_id b) G \<subseteq> bk_id ` set (tl (a # b # rest))" using G(1) by auto
    show "\<forall>i\<in>insert (bk_id b) G. absorbed_row ?s s' (insert (bk_id b) G) i" using ab rest_ab by blast
    show "\<forall>i. i \<notin> insert (bk_id b) G \<longrightarrow> same_line (db_blocks ?s i) (db_blocks s' i)"
      using G(3) st(3) same_line_trans by blast
    show "\<forall>i. i \<notin> bk_id ` {x \<in> set (a # b # rest). mergeable x} \<longrightarrow> db_blocks s' i = db_blocks ?s i"
    proof (intro allI impI)
      fix i assume "i \<notin> bk_id ` {x \<in> set (a # b # rest). mergeable x}"
      then have i: "i \<notin> bk_id ` {x \<in> set (a # rest). mergeable x}" "i \<noteq> bk_id a" "i \<noteq> bk_id b" using ok(1,2) by auto
      with G(4) st(4) show "db_blocks s' i = db_blocks ?s i" by simp
    qed
    show "snd ` db_links s' = snd ` db_links ?s" using G(5) st(5) by simp
    show "\<forall>l\<in>db_links ?s. fst l \<notin> insert (bk_id b) G \<longrightarrow> l \<in> db_links s'" using G(6) st(6) by auto
    show "\<forall>m. r = Inr m \<longrightarrow> m = n + card (insert (bk_id b) G)" using G(7) bG fin by simp
  qed
qed

lemma safe_mergeable:
  assumes "safe_to_merge env db a b = Inr True" "same_line (Some a) (db_blocks (tv_store db) (bk_id a))"
    "same_line (Some b) (db_blocks (tv_store db) (bk_id b))"
  shows "mergeable a" "mergeable b"
  using assms by (auto simp: safe_to_merge_def block_is_unsynced_def and_then_Inr mergeable_def is_synced_def same_line_def
    option_rel_Some1 split: if_splits)

lemma merge_view_effect:
  assumes "merge_view env bs n db = (r, db')" "distinct (map bk_id bs)"
    "\<forall>x\<in>set bs. same_line (Some x) (db_blocks (tv_store db) (bk_id x))"
  shows "merge_effect bs n r (tv_store db) (tv_store db')"
  using assms
proof (induction env bs n db arbitrary: db' rule: merge_view.induct)
  case (1 env a b rest n db)
  show ?case
  proof (cases "safe_to_merge env db a b")
    case (Inl e)
    with 1(3) have "r = Inl e" "db' = db" by auto
    then show ?thesis by (auto intro: merge_effect_none)
  next
    case (Inr safe)
    show ?thesis
    proof (cases "bk_jira a \<noteq> None \<and> bk_jira a = bk_jira b \<and> safe \<and> close_enough env a b")
      case False
      with Inr 1(3) have "merge_view env (b # rest) n db = (r, db')" by (auto split: if_splits)
      from 1(2)[OF Inr False this] 1(4,5) show ?thesis by (intro merge_effect_next) auto
    next
      case True
      show ?thesis
      proof (cases "merge_block_into env (bk_id a) (bk_id b) db")
        case (Inl e)
        with Inr True 1(3) have "r = Inl e" "db' = db" by auto
        then show ?thesis by (auto intro: merge_effect_none)
      next
        case m: (Inr db1)
        from Inr True m 1(3) have go: "merge_view env (a # rest) (n + 1) db1 = (r, db')" by auto
        from 1(4) have ne: "bk_id a \<noteq> bk_id b" by simp
        have rows: "\<forall>x\<in>set (a # rest). same_line (Some x) (db_blocks (tv_store db1) (bk_id x))"
        proof
          fix x assume x: "x \<in> set (a # rest)"
          then have "x = a \<or> bk_id x \<in> bk_id ` set rest" by auto
          moreover from 1(4) have "bk_id b \<notin> bk_id ` set rest" by simp
          ultimately have "bk_id x \<noteq> bk_id b" using ne by metis
          from merge_step(3)[OF m ne this] 1(5) x show "same_line (Some x) (db_blocks (tv_store db1) (bk_id x))"
            using same_line_trans by auto
        qed
        from 1(1)[OF Inr True m go _ rows] 1(4) have eff: "merge_effect (a # rest) (n + 1) r (tv_store db1) (tv_store db')" by simp
        from True Inr safe_mergeable[of env db a b] 1(5) have "mergeable a" "mergeable b" by auto
        from merge_effect_step[OF m 1(4) this _ _ 1(5) eff] True show ?thesis by blast
      qed
    qed
  qed
qed (auto intro: merge_effect_none)

lemma merge_day_effect:
  assumes "merge_same_ticket_adjacent env day db = (r, db')" "ids_ok (tv_store db)"
  shows "merge_effect (list_blocks_for_day (tv_store db) day) 0 r (tv_store db) (tv_store db')"
proof (cases "day_is_compressed (tv_store db) day")
  case True
  with assms(1) show ?thesis by (auto simp: merge_same_ticket_adjacent_def intro: merge_effect_none)
next
  case False
  note rows = blocks_of_day_rows[OF assms(2), of day]
  from False assms(1) have "merge_view env (list_blocks_for_day (tv_store db) day) 0 db = (r, db')"
    by (simp add: merge_same_ticket_adjacent_def)
  from merge_view_effect[OF this rows(1)] rows(2) show ?thesis by simp
qed

text \<open>No evidence is lost, and a row that is gone was neither written by hand nor sent, and lives on in a row of its ticket.\<close>

lemma merge_evidence:
  assumes "merge_same_ticket_adjacent env day db = (r, db')" "ids_ok (tv_store db)"
  shows "snd ` db_links (tv_store db') = snd ` db_links (tv_store db)"
    and "\<exists>G. (\<forall>i. db_blocks (tv_store db) i \<noteq> None \<longrightarrow> (db_blocks (tv_store db') i = None \<longleftrightarrow> i \<in> G))
      \<and> (\<forall>i\<in>G. absorbed_row (tv_store db) (tv_store db') G i) \<and> (\<forall>n. r = Inr n \<longrightarrow> n = card G)"
    and "by_hand db i b \<Longrightarrow> by_hand db' i b"
proof -
  let ?s = "tv_store db" and ?s' = "tv_store db'" and ?bs = "list_blocks_for_day (tv_store db) day"
  from merge_day_effect[OF assms] obtain G where G: "\<forall>i\<in>G. absorbed_row ?s ?s' G i"
    "\<forall>i. i \<notin> G \<longrightarrow> same_line (db_blocks ?s i) (db_blocks ?s' i)"
    "\<forall>i. i \<notin> bk_id ` {b \<in> set ?bs. mergeable b} \<longrightarrow> db_blocks ?s' i = db_blocks ?s i"
    "snd ` db_links ?s' = snd ` db_links ?s" "\<forall>m. r = Inr m \<longrightarrow> m = card G" unfolding merge_effect_def by auto
  show "snd ` db_links ?s' = snd ` db_links ?s" by (rule G(4))
  have "db_blocks ?s i \<noteq> None \<longrightarrow> (db_blocks ?s' i = None \<longleftrightarrow> i \<in> G)" for i
    using G(1,2) by (auto simp: absorbed_row_def same_line_def option_rel_Some1)
  with G(1,5) show "\<exists>G. (\<forall>i. db_blocks ?s i \<noteq> None \<longrightarrow> (db_blocks ?s' i = None \<longleftrightarrow> i \<in> G))
      \<and> (\<forall>i\<in>G. absorbed_row ?s ?s' G i) \<and> (\<forall>n. r = Inr n \<longrightarrow> n = card G)" by blast
  assume h: "by_hand db i b"
  have "i \<notin> bk_id ` {x \<in> set ?bs. mergeable x}"
  proof
    assume "i \<in> bk_id ` {x \<in> set ?bs. mergeable x}"
    then obtain x where x: "x \<in> set ?bs" "mergeable x" "i = bk_id x" by auto
    with blocks_of_day_rows(2)[OF assms(2), of day] h have "x = b" by (auto simp: by_hand_def)
    with x(2) h show False by (simp add: mergeable_def by_hand_def)
  qed
  with G(3) h show "by_hand db' i b" by (simp add: by_hand_def)
qed

section \<open>The owner's edits through a whole run\<close>

text \<open>A row that was written by hand when the replies came back, and none of whose replies failed, is as the owner left it.\<close>

lemma estimate_spares_owner:
  assumes run: "estimate_day env ask meanwhile day db = (r, db')"
    and phase: "first_phase env day db = (st, pend, db1)"
    and mid: "ids_ok (tv_store (meanwhile db1))" "by_hand (meanwhile db1) i b"
    and replied: "list_all (\<lambda>(p, reply). bk_id (fst p) \<noteq> i \<or> reply_text reply \<noteq> None) (zip pend (ask pend))"
    and raw: "\<not> day_is_compressed (tv_store db) (cal_show (ve_calendar env) day)"
  shows "by_hand db' i b"
proof -
  obtain st2 db2 where ap: "apply_replies env (open_for env db day) pend (ask pend) (st, meanwhile db1) = (st2, db2)" by force
  from apply_replies_keeps[OF ap] mid replied have h: "by_hand db2 i b" "ids_ok (tv_store db2)" by auto
  obtain q db3 where mg: "merge_same_ticket_adjacent env (cal_show (ve_calendar env) day) db2 = (q, db3)" by force
  from run phase ap mg raw have "db' = db3" by (auto simp: estimate_day_def Let_def split: sum.splits)
  with merge_evidence(3)[OF mg h(2) h(1)] show ?thesis by simp
qed

text \<open>A run during which nobody else writes leaves every row written by hand alone, whatever the model answers.\<close>

lemma estimate_alone_spares_owner:
  assumes run: "estimate_day env ask (\<lambda>x. x) day db = (r, db')" and ok: "ids_ok (tv_store db)" and h: "by_hand db i b"
  shows "by_hand db' i b"
proof (cases "day_is_compressed (tv_store db) (cal_show (ve_calendar env) day)")
  case True
  with run h show ?thesis by (auto simp: estimate_day_def)
next
  case False
  obtain st pend db1 where phase: "first_phase env day db = (st, pend, db1)" by (cases "first_phase env day db")
  note pk = prepare_keeps[OF phase[unfolded first_phase_def]]
  have "bk_id (fst p) \<noteq> i" if "p \<in> set pend" for p
  proof
    assume e: "bk_id (fst p) = i"
    from pk(3) that have p: "fst p \<in> set (list_blocks_for_day (tv_store db) (cal_show (ve_calendar env) day))" "bk_by (fst p) \<noteq> Some ''manual''"
      by (auto simp: list_all_iff)
    from blocks_of_day_rows(2)[OF ok] p(1) e h have "fst p = b" by (auto simp: by_hand_def)
    with p(2) h show False by (simp add: by_hand_def)
  qed
  then have "list_all (\<lambda>(p, reply). bk_id (fst p) \<noteq> i \<or> reply_text reply \<noteq> None) (zip pend (ask pend))"
    by (force simp: list_all_iff dest: set_zip_leftD)
  from estimate_spares_owner[OF run phase pk(2)[OF ok] pk(1)[OF h] this False] show ?thesis .
qed

text \<open>But a reply that fails marks the row a gap without looking at it, also when the owner has edited it in the meantime.\<close>

lemma failed_reply_unmarks:
  assumes "reply_text reply = None" "by_hand db i b" "i = bk_id (fst p)"
  shows "db_blocks (tv_store (snd (apply_reply env opened p reply (st, db)))) i = Some (b\<lparr>bk_by := Some ''gap''\<rparr>)"
  using assms by (auto simp: apply_reply_def mark_gap_def by_hand_def split: prod.splits)

end
