(* ===== verification/Spec2Isabelle.thy ===== *)
theory Spec2Isabelle
  imports Allocations Overlaps Carry BillingDay UndoStack AutoSend Purge Routing Supervisor ChangeLog Estimator "HOL-Library.While_Combinator"
begin

text \<open>
  A verification of worklog.
\<close>


section \<open>Sample data\<close>

text \<open>Small days on which the properties are evaluated.\<close>

definition sample_env :: env where
  "sample_env = \<lparr>work_prefixes = [''/Users/x/Work''], local_date = (\<lambda>_. ''2026-07-23''), hash_order = (\<lambda>xs. xs)\<rparr>"

definition at_minute :: "int \<Rightarrow> instant" where
  "at_minute m = from_timestamp (m * 60)"

definition sample_event :: "string \<Rightarrow> int \<Rightarrow> string option \<Rightarrow> infer_event" where
  "sample_event source m path =
     \<lparr>ev_ts = at_minute m, ev_source = source, ev_duration = None, ev_jira = None, ev_id = Some m,
      ev_path = path, ev_session = Some ''s1'', ev_title = None, ev_tag = None\<rparr>"

definition sample_day :: "infer_event list" where
  "sample_day =
     map (\<lambda>m. sample_event ''shell'' m (Some ''/Users/x/Work/a'')) [0, 2, 4, 6, 8]
     @ map (\<lambda>m. sample_event ''shell'' m (Some ''/Users/x/Work/b'')) [12, 14, 16, 18, 20]"

definition sample_block :: infer_block where
  "sample_block = the (finalize (hd (clusters sample_env sample_day)))"

lemma sample_fair: "fair_hash sample_env"
  by (simp add: fair_hash_def sample_env_def)

definition touch_block :: "int \<Rightarrow> int \<Rightarrow> infer_block" where
  "touch_block s e = the (span_block sample_env [sample_event ''shell'' 0 (Some ''/Users/x/Work/a'')] (at_minute s) (at_minute e) [] True)"

definition tagged_day :: "infer_event list" where
  "tagged_day =
     map (\<lambda>m. (sample_event ''shell'' m (Some ''/Users/x/Work/a''))\<lparr>ev_tag := Some ''A''\<rparr>) [0, 2, 4, 6, 8]
     @ map (\<lambda>m. (sample_event ''shell'' m (Some ''/Users/x/Work/a''))\<lparr>ev_tag := Some ''B''\<rparr>) [12, 14, 16, 18, 20]"

definition tagged_block :: infer_block where
  "tagged_block = the (span_block sample_env tagged_day (at_minute 0) (at_minute 22) [] True)"

definition sample_window :: allocation_window where
  "sample_window = \<lparr>aw_start = at_minute 4, aw_end = at_minute 8, aw_shares = [(''a'', 1 / 4), (''b'', 3 / 4)]\<rparr>"

text \<open>A clock that writes an instant as a unary numeral of its minutes.\<close>

definition sample_iso :: "instant \<Rightarrow> string" where
  "sample_iso t = replicate (nat (t div (60 * NS))) (CHR ''m'')"

definition sample_ctx :: persist_ctx where
  "sample_ctx = \<lparr>parse_utc = (\<lambda>s. Some (at_minute (int (length s)))), block_iso = sample_iso,
     personal_path = (\<lambda>_. False), known_ticket = (\<lambda>_. False), skipped_at = (\<lambda>_. None), now_text = ''now''\<rparr>"

definition sample_row :: "int \<Rightarrow> int \<Rightarrow> string option \<Rightarrow> block_row" where
  "sample_row s e tempo =
     \<lparr>br_day = ''2026-07-23'', br_jira = Some ''T-1'', br_start = sample_iso (at_minute s), br_end = sample_iso (at_minute e),
      br_secs = (e - s) * 60, br_desc = Some ''text'', br_by = None, br_flagged = False, br_tempo = tempo,
      br_personal = False, br_exported = None, br_dsecs = None, br_ignored = None, br_origin = Some Manual,
      br_reason = None, br_events = [1]\<rparr>"

definition sample_clues :: "clue list" where
  "sample_clues =
     [\<lparr>cl_at = at_minute 1, cl_customer = ''Acme'', cl_strength = Branch\<rparr>,
      \<lparr>cl_at = at_minute 5, cl_customer = ''Bolt'', cl_strength = TenantPath\<rparr>,
      \<lparr>cl_at = at_minute 5, cl_customer = ''Acme'', cl_strength = Branch\<rparr>]"

definition sample_rows :: "share_row list" where
  "sample_rows =
     [\<lparr>sr_customer = ''Bolt'', sr_deild = None, sr_fraction = 3 / 4\<rparr>,
      \<lparr>sr_customer = ''Acme'', sr_deild = Some ''IT'', sr_fraction = 1 / 4\<rparr>]"

definition sample_tables :: billing_tables where
  "sample_tables =
     \<lparr>bt_customers = [\<lparr>cu_id = 0, cu_name = ''Acme'', cu_aliases = []\<rparr>], bt_folders = [],
      bt_deildir = [\<lparr>de_id = 1, de_customer = ''Acme'', de_name = ''IT'', de_keywords = []\<rparr>,
                    \<lparr>de_id = 2, de_customer = ''Acme'', de_name = ''Ops'', de_keywords = []\<rparr>], bt_next = 3\<rparr>"

definition sample_clock :: clock where
  "sample_clock = \<lparr>to_rfc3339 = sample_iso, from_rfc3339 = (\<lambda>s. Some (at_minute (int (length s))))\<rparr>"

definition sample_unicode :: unicode where
  "sample_unicode = \<lparr>lower_chars = map of_char, alphanumeric = (\<lambda>c. 97 \<le> c \<and> c \<le> 122)\<rparr>"

definition sample_registry :: registry where
  "sample_registry =
     \<lparr>rg_customers = [\<lparr>cu_id = 0, cu_name = ''acme'', cu_aliases = []\<rparr>],
      rg_folders = [\<lparr>fm_id = 0, fm_folder = ''infra'', fm_customer = None, fm_verkefni = None, fm_billable = True, fm_multi_tenant = True\<rparr>]\<rparr>"

text \<open>Two blocks that overlap by half an hour, and a store, a billing view and a Tempo side for them.\<close>

definition logged_block :: "int \<Rightarrow> int \<Rightarrow> int \<Rightarrow> string option \<Rightarrow> block" where
  "logged_block i m secs tempo =
     \<lparr>bk_id = i, bk_day = ''2026-07-23'', bk_jira = Some ''T-1'', bk_start = sample_iso (at_minute m),
      bk_end = sample_iso (at_minute (m + secs div 60)), bk_secs = secs, bk_desc = Some ''text'', bk_by = None,
      bk_flagged = False, bk_tempo = tempo, bk_personal = False, bk_dirty = False, bk_exported = None,
      bk_ignored = None, bk_reason = None, bk_dsecs = None, bk_origin = None, bk_note = None, bk_desc_origin = None\<rparr>"

definition sample_view :: block_view where
  "sample_view = \<lparr>vw_env = sample_env, vw_cards = (\<lambda>_. None), vw_events = (\<lambda>_. []), vw_submodules = (\<lambda>_. None)\<rparr>"

definition sample_json :: json where
  "sample_json = \<lparr>read_rows = (\<lambda>s. if s = ''rows'' then Some sample_rows else None), read_shares = (\<lambda>_. Some []),
     show_rows = (\<lambda>_. ''rows''), show_shares = (\<lambda>_. ''{}'')\<rparr>"

definition sample_billing :: "share_table \<Rightarrow> billing_db" where
  "sample_billing shares =
     \<lparr>bd_view = sample_view, bd_unicode = sample_unicode, bd_clock = sample_clock, bd_json = sample_json,
      bd_registry = sample_registry, bd_deildir = [], bd_pins = [], bd_day_events = (\<lambda>_. Some []), bd_roots = [],
      bd_tenants = (\<lambda>_. None), bd_shares = shares, bd_tickets = (\<lambda>_. None), bd_line_texts = (\<lambda>_. None)\<rparr>"

definition sample_stamps :: stamps where
  "sample_stamps = \<lparr>st_parse = (\<lambda>s. Some (at_minute (int (length s)))), st_show = (\<lambda>t. sample_iso (from_timestamp t))\<rparr>"

definition sample_store :: "string option \<Rightarrow> block_db" where
  "sample_store tempo =
     \<lparr>db_blocks = [1 \<mapsto> logged_block 1 0 3600 tempo, 2 \<mapsto> logged_block 2 30 3600 tempo], db_links = {(1, 10), (2, 11)},
      db_digests = (\<lambda>_. None), db_event_start = (\<lambda>e. if e = 10 then Some [] else if e = 11 then Some (replicate 40 (CHR ''m'')) else None),
      db_event_session = (\<lambda>_. None), db_skips = {}, db_journal = [], db_next = 3\<rparr>"

lemma sample_store_row: "db_blocks (sample_store tempo) i = Some b \<Longrightarrow>
    (i = 1 \<and> b = logged_block 1 0 3600 tempo) \<or> (i = 2 \<and> b = logged_block 2 30 3600 tempo)"
  by (auto simp: sample_store_def split: if_splits)

lemma logged_block_simps [simp]: "bk_id (logged_block i m secs tempo) = i" "bk_tempo (logged_block i m secs tempo) = tempo"
  by (simp_all add: logged_block_def)

lemma sample_store_ok: "db_ok (sample_store tempo)"
proof -
  have "rows_ok (sample_store tempo)" by (auto simp: rows_ok_def sample_store_def split: if_splits)
  moreover have "journal_ok (sample_store tempo)" by (simp add: journal_ok_def sample_store_def)
  ultimately show ?thesis by (simp add: db_ok_iff)
qed

lemma sample_store_ids: "ids_ok (sample_store tempo)"
  by (auto simp: ids_ok_def dest: sample_store_row)

definition sample_tempo :: "string option \<Rightarrow> tempo_db" where
  "sample_tempo tempo = \<lparr>td_db = sample_store tempo, td_rows = (\<lambda>_. None), td_issue = (\<lambda>_. Some ''77''), td_summary = (\<lambda>_. None)\<rparr>"

definition sample_tempo_env :: tempo_env where
  "sample_tempo_env = \<lparr>te_clock = sample_clock, te_unicode = sample_unicode, te_sha256 = (\<lambda>s. s), te_billing = (\<lambda>_. None), te_unsafe = (\<lambda>_. False)\<rparr>"

definition sample_net :: tempo_net where
  "sample_net = \<lparr>nt_author = ''me'', nt_lookup = (\<lambda>_. None), nt_worklogs = (\<lambda>_. None), nt_matcher = (\<lambda>_ _. None),
     nt_writer = None, nt_reply = (\<lambda>_ _. Accepted 200 (JsonNumber ''901'')), nt_now = ''now''\<rparr>"

lemma sample_tempo_ids: "ids_ok (td_db (sample_tempo tempo))"
  by (simp add: sample_tempo_def sample_store_ids)

definition two_customers :: registry where
  "two_customers = \<lparr>rg_customers = [\<lparr>cu_id = 0, cu_name = ''Acme'', cu_aliases = []\<rparr>, \<lparr>cu_id = 1, cu_name = ''Bolt'', cu_aliases = []\<rparr>], rg_folders = []\<rparr>"

text \<open>A calendar, an auto-send state with a line of the owner's own text, and a Tempo side that accepts.\<close>

definition sample_calendar :: calendar where
  "sample_calendar =
     \<lparr>cal_weekday = (\<lambda>s. if s = ''Mon'' then Some 0 else if s = ''Sun'' then Some 6 else None),
      cal_hm = (\<lambda>s. if s = ''00:00'' then Some 0 else if s = ''09:00'' then Some 32400 else None),
      cal_show_hm = (\<lambda>_. ''00:00''), cal_date = (\<lambda>s. if s = ''2026-07-23'' then Some 0 else None),
      cal_show = (\<lambda>d. if d = 0 then ''2026-07-23'' else ''2026-07-24''), cal_iso = (\<lambda>t. sample_iso (from_timestamp t))\<rparr>"

definition sample_codec :: json_codec where
  "sample_codec = \<lparr>jc_options = (\<lambda>os. join '','' os), jc_read_options = (\<lambda>s. Some []), jc_ranking = (\<lambda>_. []), jc_read_ranking = (\<lambda>_. None)\<rparr>"

definition sample_send_env :: send_env where
  "sample_send_env = \<lparr>ae_te = sample_tempo_env, ae_codec = sample_codec, ae_cal = sample_calendar, ae_offset = 0\<rparr>"

definition own_block :: block where
  "own_block = (logged_block 1 0 3600 None)\<lparr>bk_origin := Some Manual\<rparr>"

definition own_store :: block_db where
  "own_store = (sample_store None)\<lparr>db_blocks := [1 \<mapsto> own_block]\<rparr>"

definition own_row :: line_row where
  "own_row = \<lparr>lr_text = Some ''text'', lr_origin = Some ''manual'', lr_hash = None, lr_hours = None, lr_check = None,
     lr_match_status = None, lr_match_id = None, lr_match_basis = None, lr_send_error = None, lr_auto_sent = None, lr_confirmed = None\<rparr>"

definition own_line :: tempo_key where
  "own_line = (''2026-07-23'', ''T-1'')"

definition sample_send :: send_db where
  "sample_send = \<lparr>ad_td = \<lparr>td_db = own_store, td_rows = [own_line \<mapsto> own_row], td_issue = (\<lambda>_. Some ''77''), td_summary = (\<lambda>_. None)\<rparr>,
     ad_decisions = [], ad_meta = (\<lambda>_. None), ad_breaks = [], ad_recaps = (\<lambda>_. None), ad_sends = []\<rparr>"

definition sample_daemon :: daemon_env where
  "sample_daemon = \<lparr>de_net = (\<lambda>_. Inr sample_net), de_say = (\<lambda>_. ''said''), de_fail = (\<lambda>_. RequestError), de_bad_day = ''bad day''\<rparr>"

definition five_pm :: instant where
  "five_pm = at_minute (17 * 60)"

definition sample_hours :: string where
  "sample_hours = ''Mon-Sun 00:00-09:00''"

definition planned_send :: send_db where
  "planned_send = meta_set PLAN_KEY ''2026-07-23|T-9,T-1'' sample_send"

definition recapped_send :: send_db where
  "recapped_send = sample_send\<lparr>ad_recaps := [''2026-07-23'' \<mapsto>
     \<lparr>rp_day = ''2026-07-23'', rp_sent = [], rp_held = [], rp_coverage = 0,
      rp_gaps = [\<lparr>rg_started = sample_iso 0, rg_ended = sample_iso 0, rg_minutes = 0\<rparr>]\<rparr>]\<rparr>"


text \<open>A compression run over the store of two blocks.\<close>

definition sample_purge_env :: purge_env where
  "sample_purge_env =
     \<lparr>pe_datetime = (\<lambda>s. Some (int (length s))), pe_day = (\<lambda>d. if d < 100 then ''2026-07-30'' else ''2026-08-01''),
      pe_instant = (\<lambda>_. replicate 100 (CHR ''m'')), pe_offset = 0, pe_view = (\<lambda>_. sample_billing (\<lambda>_. None)),
      pe_digest = \<lparr>dx_collect = (\<lambda>_. \<lparr>co_branches = [], co_change_titles = [], co_prompts = [], co_files = [], co_tools = []\<rparr>),
                   dx_scrub = (\<lambda>s. s), dx_hash_order = (\<lambda>xs. xs)\<rparr>,
      pe_card_json = (\<lambda>_. ''card''), pe_report_json = (\<lambda>_. ''report''), pe_now = ''now'',
      pe_freed_pages = (\<lambda>_ _. 0), pe_page_size = 4096\<rparr>"



definition event_billing :: billing_db where
  "event_billing = (sample_billing (\<lambda>_. None))\<lparr>bd_view := sample_view\<lparr>vw_events := (\<lambda>i. if i = 1 then
     [\<lparr>ce_source = ''git'', ce_title = '' fix '', ce_started = sample_iso 0, ce_path = Some ''/Users/x/Work/a'', ce_details = None,
       ce_repo = None, ce_session = None\<rparr>] else [])\<rparr>\<rparr>"

definition verdict :: "string \<Rightarrow> string \<Rightarrow> decision_row" where
  "verdict chosen decided_at = \<lparr>dr_kind = Ticket, dr_source = Verdict, dr_subject = ''1'', dr_state = ''state'', dr_options = [],
     dr_ranking = None, dr_chosen = Some chosen, dr_previous = None, dr_decided = decided_at\<rparr>"

text \<open>A morning of short bursts in four folders.\<close>

definition burst :: "string \<Rightarrow> int \<Rightarrow> string \<Rightarrow> infer_event" where
  "burst source m path = (sample_event source m (Some path))\<lparr>ev_id := None, ev_session := None\<rparr>"

definition burst_day :: "infer_event list" where
  "burst_day = [burst ''claude_turn'' 0 ''/Users/x/Projects/a'', burst ''shell'' 3 ''/Users/x/Work/b''] @
     map (\<lambda>m. burst ''claude_work'' m ''/Users/x/Work/d'') [10..15] @ map (\<lambda>m. burst ''shell'' m ''/Users/x/Work/c'') [16,20,24]"

definition moved_send :: send_db where
  "moved_send = sample_send\<lparr>ad_td := (ad_td sample_send)\<lparr>td_rows := [(''2026-07-23'', ''T-9'') \<mapsto> own_row]\<rparr>\<rparr>"

text \<open>Three events of a day, a rule of the owner and a model that always says the second project.\<close>

definition sample_route_env :: route_env where
  "sample_route_env = \<lparr>re_clock = sample_clock, re_unicode = sample_unicode, re_lower = (\<lambda>s. s), re_offset = 0,
     re_home = Some ''/Users/x'', re_dirs = [''a'', ''b''], re_codec = sample_codec, re_state = (\<lambda>_ title _ _. title),
     re_hash = (\<lambda>xs. xs), re_now = ''now''\<rparr>"

definition loose_event :: "int \<Rightarrow> string \<Rightarrow> string \<Rightarrow> string \<Rightarrow> event_row" where
  "loose_event i source title details = \<lparr>er_id = i, er_source = source, er_started = replicate (nat i) (CHR ''m''), er_title = title,
     er_details = Some details, er_container = None, er_path = None, er_origin = None, er_confidence = None, er_ranking = None\<rparr>"

definition sample_route :: route_db where
  "sample_route = \<lparr>ro_events = [loose_event 1 ''firefox'' ''b news'' ''https://x.is/p'', loose_event 2 ''firefox'' ''pull'' ''see github.com/org/a/pull'',
       (loose_event 3 ''firefox'' ''mail'' ''https://m.is'')\<lparr>er_origin := Some ''dismissed''\<rparr>],
     ro_rules = [], ro_next_rule = 1, ro_log = [],
     ro_tables = \<lparr>bt_customers = [], bt_folders = [], bt_deildir = [], bt_next = 1\<rparr>\<rparr>"

definition says_b :: classifier where
  "says_b state options examples = Some \<lparr>rk_ranking = [\<lparr>ro_id = ''b'', ro_prob = 1\<rparr>], rk_abstain = 0, rk_agreed = True\<rparr>"

definition sample_ratios :: route_rule where
  "sample_ratios = \<lparr>abstain_margin = 1, runner_up_ratio = 1\<rparr>"

lemma sample_route_ids: "distinct (map er_id (ro_events sample_route))"
  by (simp add: sample_route_def loose_event_def)

lemma sample_route_labels: "list_all label_ok (ro_events sample_route)"
  by (simp add: sample_route_def loose_event_def label_ok_def parse_origin_def is_hidden_def)

text \<open>Hour-long blocks on one ticket, their times counted in hours, with an estimator around them.\<close>

definition hour_block :: "int \<Rightarrow> nat \<Rightarrow> bool \<Rightarrow> block" where
  "hour_block i h personal =
     (logged_block i 0 3600 None)\<lparr>bk_start := replicate h (CHR ''m''), bk_end := replicate (h + 1) (CHR ''m''), bk_personal := personal\<rparr>"

definition hours_db :: "block list \<Rightarrow> estimate_db" where
  "hours_db bs =
     \<lparr>tv_store = \<lparr>db_blocks = map_of (map (\<lambda>b. (bk_id b, b)) bs), db_links = {(1, 10), (2, 11)}, db_digests = (\<lambda>_. None),
        db_event_start = (\<lambda>_. None), db_event_session = (\<lambda>_. None), db_skips = {}, db_journal = [], db_next = 1 + int (length bs)\<rparr>,
      tv_events = [], tv_tickets = [], tv_sessions = (\<lambda>_. None), tv_log = [], eb_shares = (\<lambda>_. None)\<rparr>"

definition sample_estimate_env :: estimate_env where
  "sample_estimate_env =
     \<lparr>ve_calendar = sample_calendar, ve_lower = (\<lambda>s. s), ve_classes = \<lparr>rx_word = (\<lambda>c. c \<noteq> '' ''), rx_digit = (\<lambda>c. c = ''7'')\<rparr>,
      ve_prefixes = [''/Users/x/Work''], ve_state = concat, ve_codec = sample_codec, ve_now = ''now'',
      ee_parse = (\<lambda>s. Some (from_timestamp (3600 * int (length s)))), ee_now = 0, ee_json = sample_json, ee_meeting = None\<rparr>"

definition owner_edit :: "estimate_db \<Rightarrow> estimate_db" where
  "owner_edit = update_stored 1 (\<lambda>b. b\<lparr>bk_desc := Some ''mine'', bk_by := Some ''manual''\<rparr>)"

definition crash_at :: "nat \<Rightarrow> host_view" where
  "crash_at t = \<lparr>hv_now = t, hv_after = t, hv_launch = Launched, hv_exited = Some ''crash'', hv_answering = False\<rparr>"

definition sample_writer :: writer where
  "sample_writer = \<lparr>wr_source = ByClaude, wr_batch = ''claude-1'', wr_stamp = ''now''\<rparr>"

definition empty_log :: change_db where
  "empty_log = \<lparr>ch_snapshots = (\<lambda>_. None), ch_rows = [], ch_next = 1\<rparr>"

definition named_db :: billing_db where
  "named_db = (sample_billing (\<lambda>_. None))\<lparr>bd_json := sample_json\<lparr>read_rows := (\<lambda>_. Some [\<lparr>sr_customer = [], sr_deild = None, sr_fraction = 1\<rparr>])\<rparr>\<rparr>"

definition retitled :: "string \<Rightarrow> block_db" where
  "retitled title = (sample_store None)\<lparr>db_blocks := [1 \<mapsto> (logged_block 1 0 3600 None)\<lparr>bk_desc := Some title\<rparr>]\<rparr>"

lemma hours_ids: "ids_ok (tv_store (hours_db bs))"
  by (auto simp: ids_ok_def hours_db_def dest: map_of_SomeD)

section \<open>Notions used in the statements\<close>

text \<open>Two neighbouring runs that could not have been one.\<close>

definition runs_apart :: "run \<Rightarrow> run \<Rightarrow> bool" where
  "runs_apart a b = (run_owner a \<noteq> run_owner b \<or> run_end a + 1 < run_start b)"

lemma successively_apart:
  "successively (\<lambda>a b. run_owner a = run_owner b \<longrightarrow> run_end a + 1 < run_start b) rs = successively runs_apart rs"
  by (rule arg_cong[where f = "\<lambda>P. successively P rs"]) (auto simp: runs_apart_def fun_eq_iff)

lemma successively_touch:
  "successively (\<lambda>a b. run_owner a = run_owner b \<longrightarrow> 1 < run_start b - run_end a) rs = successively runs_apart rs"
  by (rule arg_cong[where f = "\<lambda>P. successively P rs"]) (auto simp: runs_apart_def fun_eq_iff)

section \<open>Properties\<close>



text \<open>
  C2. A sync posts a worklog only for a ticket line none of whose blocks had one when the sync began (or, on a
  day logged block by block, for a block without one), and updates only worklogs a block of the line had;
  personal blocks, blocks of other days and blocks without a ticket keep their rows.
\<close>

theorem tempo_requests_justified:
  "ids_ok (td_db td) \<Longrightarrow> sync_day te net dry day only_issue td = (res, st') \<Longrightarrow>
   list_all (justified day (td_db td) UNIV) (sy_log st') \<and> untouched day (td_db td) (td_db (sy_td st'))"
  using sync_day_requests[of td te net dry day only_issue res st'] by simp

theorem tempo_requests_justified_witness:
  "\<exists>p. sy_log (snd (sync_day sample_tempo_env sample_net False ''2026-07-23'' None (sample_tempo None))) = [Post p] \<and>
     justified ''2026-07-23'' (sample_store None) UNIV (Post p)"
  proof -
  let ?r = "sync_day sample_tempo_env sample_net False ''2026-07-23'' None (sample_tempo None)"
  have "map (case_request (\<lambda>p. (True, py_seconds p)) (\<lambda>i p. (False, py_seconds p))) (sy_log (snd ?r)) = [(True, 5400)]" by code_simp
  then obtain q where q: "sy_log (snd ?r) = [q]" "case_request (\<lambda>p. (True, py_seconds p)) (\<lambda>i p. (False, py_seconds p)) q = (True, 5400)"
    by (auto simp: map_eq_Cons_conv)
  then obtain p where p: "sy_log (snd ?r) = [Post p]" by (cases q) simp_all
  from tempo_requests_justified[OF sample_tempo_ids, of sample_tempo_env sample_net False "''2026-07-23''" None None "fst ?r" "snd ?r"] p
  show ?thesis by (simp add: sample_tempo_def)
qed

text \<open>
  C3. The journal implements its specification: as long as nothing was sent to Tempo, every run of changes and
  undos corresponds to a run of the abstract machine that pushes the old store on a change (keeping the
  last twenty) and pops it on an undo, and the stores agree all along.
\<close>

theorem undo_refines_history:
  "follows db h \<Longrightarrow> \<exists>h'. history_run as h h' \<and> follows (foldl (\<lambda>db a. act st now a db) db as) h'"
  by (rule follows_run)

theorem undo_refines_history_witness:
  "store_of (foldl (\<lambda>db a. act sample_stamps ''now'' a db) (sample_store None) [Do (MergeBlocks 1 [2]), UndoLast]) = store_of (sample_store None)"
  proof -
  let ?h = "(store_of (sample_store None), [])" and ?op = "MergeBlocks 1 [2]"
  have f: "follows (sample_store None) ?h"
    using sample_store_ok by (auto simp: follows_def unsent_def sample_store_def split: if_splits)
  from undo_refines_history[OF f, of "[Do ?op, UndoLast]" sample_stamps "''now''"] obtain h' where
    h': "history_run [Do ?op, UndoLast] ?h h'"
    "follows (foldl (\<lambda>db a. act sample_stamps ''now'' a db) (sample_store None) [Do ?op, UndoLast]) h'" by blast
  from h'(1) obtain m where m: "history_step (Do ?op) ?h m" "history_step UndoLast m h'" by auto
  have "fst h' = store_of (sample_store None)"
    using m(1)
  proof (cases rule: history_step.cases)
    case (push cur')
    with m(2) show ?thesis by (auto simp: UNDO_DEPTH_def elim: history_step.cases)
  next
    case stay
    with m(2) show ?thesis by (auto elim: history_step.cases)
  qed
  with h'(2) show ?thesis by (simp add: follows_def)
qed





text \<open>
  C6. A minute is owned exactly as the focus-then-vote rule decided it, or lies in a silent gap shorter
  than \<open>BRIDGE_MINUTES\<close> between two minutes of the same owner; no two neighbouring runs could be one.
\<close>

theorem owner_runs_exact:
  "(\<Union>r\<in>set (owner_runs keyed). run_owned r) =
     {(m, k). \<exists>i<length (minute_owners keyed). m = first_minute keyed + int i \<and>
        (minute_owners keyed ! i = Some k \<or> in_short_gap (minute_owners keyed) i k)} \<and>
   successively runs_apart (owner_runs keyed)"
  by (rule conjI[OF owner_runs_owned owner_runs_maximal[unfolded successively_apart]])

text \<open>
  C7. The blocks that \<open>build_project_blocks\<close> makes from the owned runs are well formed, at least
  \<open>MIN_BLOCK_MINUTES\<close> long and do not overlap, also after each is divided between customers, which
  keeps their total length.
\<close>

theorem owned_blocks_apart:
  "disjoint_blocks (divide_blocks env events (owned_blocks env events)) \<and>
   total_length (divide_blocks env events (owned_blocks env events)) = total_length (owned_blocks env events) \<and>
   list_all (\<lambda>b. row_ok b \<and> flag_ok b \<and> minutes MIN_BLOCK_MINUTES \<le> ib_end b - ib_start b) (owned_blocks env events)"
  using divided_blocks_disjoint[of env events] owned_blocks_ok[of env events] by (simp add: list_all_iff)

text \<open>
  C8. An estimate run never overwrites what the owner wrote: a block that is marked as written by hand when the
  model's replies come back keeps its whole row through the replies and the merge after them, provided
  no reply for it failed. What others did to the tables while the model was asked is any function.
\<close>

theorem estimate_spares_owner_edit:
  "estimate_day env ask meanwhile day db = (r, db') \<Longrightarrow> first_phase env day db = (st, pend, db1) \<Longrightarrow>
   ids_ok (tv_store (meanwhile db1)) \<Longrightarrow> by_hand (meanwhile db1) i b \<Longrightarrow>
   list_all (\<lambda>(p, reply). bk_id (fst p) \<noteq> i \<or> reply_text reply \<noteq> None) (zip pend (ask pend)) \<Longrightarrow>
   \<not> day_is_compressed (tv_store db) (cal_show (ve_calendar env) day) \<Longrightarrow> by_hand db' i b"
  by (rule estimate_spares_owner)

theorem estimate_spares_owner_edit_witness:
  "map_option bk_desc (db_blocks (tv_store (snd (estimate_day sample_estimate_env (\<lambda>_. [Replied None None (Some ''guess'')]) owner_edit 0
     (hours_db [hour_block 1 0 False])))) 1) = Some (Some ''mine'')"
  proof -
  let ?db = "hours_db [hour_block 1 0 False]" and ?ask = "\<lambda>_ :: pending_block list. [Replied None None (Some ''guess'')]"
  obtain r db' where run: "estimate_day sample_estimate_env ?ask owner_edit 0 ?db = (r, db')" by force
  obtain st pend db1 where phase: "first_phase sample_estimate_env 0 ?db = (st, pend, db1)" by (cases "first_phase sample_estimate_env 0 ?db")
  have ids: "ids_ok (tv_store (owner_edit db1))"
    using prepare_keeps(2)[OF phase[unfolded first_phase_def] hours_ids] by (simp add: owner_edit_def ids_ok_update)
  have "map_option (\<lambda>b. (bk_desc b, bk_by b)) (db_blocks (tv_store (owner_edit (snd (snd (first_phase sample_estimate_env 0 ?db))))) 1)
      = Some (Some ''mine'', Some ''manual'')" by code_simp
  then obtain b where b: "by_hand (owner_edit db1) 1 b" "bk_desc b = Some ''mine''" by (auto simp: phase by_hand_def)
  have "list_all (\<lambda>(p, reply). bk_id (fst p) \<noteq> 1 \<or> reply_text reply \<noteq> None) (zip (fst (snd (first_phase sample_estimate_env 0 ?db))) (?ask []))"
    by code_simp
  then have ok: "list_all (\<lambda>(p, reply). bk_id (fst p) \<noteq> 1 \<or> reply_text reply \<noteq> None) (zip pend (?ask pend))" by (simp add: phase)
  have "\<not> day_is_compressed (tv_store ?db) (cal_show (ve_calendar sample_estimate_env) 0)" by code_simp
  from estimate_spares_owner_edit[OF run phase ids b(1) ok this] b(2) run show ?thesis by (simp add: by_hand_def)
qed



text \<open>
  C10. Merging neighbours on one ticket loses no evidence: every linked event is still linked; a row that is gone
  was neither written by hand nor sent to Tempo, and a row that stays has its ticket and all its events;
  rows written by hand are as before, and the number returned is the number of rows gone.
\<close>

theorem merge_keeps_evidence:
  "merge_same_ticket_adjacent env day db = (r, db') \<Longrightarrow> ids_ok (tv_store db) \<Longrightarrow>
   snd ` db_links (tv_store db') = snd ` db_links (tv_store db) \<and>
   (\<exists>G. {i. db_blocks (tv_store db) i \<noteq> None \<and> db_blocks (tv_store db') i = None} = G \<and>
      (\<forall>i. i \<in> G \<longrightarrow> absorbed_row (tv_store db) (tv_store db') G i) \<and> (\<forall>n. r = Inr n \<longrightarrow> n = card G)) \<and>
   (by_hand db i b \<longrightarrow> by_hand db' i b)"
  proof -
  assume run: "merge_same_ticket_adjacent env day db = (r, db')" and ok: "ids_ok (tv_store db)"
  from merge_evidence(2)[OF run ok] obtain G where
    G: "\<forall>i. db_blocks (tv_store db) i \<noteq> None \<longrightarrow> (db_blocks (tv_store db') i = None \<longleftrightarrow> i \<in> G)"
      "\<forall>i\<in>G. absorbed_row (tv_store db) (tv_store db') G i" "\<forall>n. r = Inr n \<longrightarrow> n = card G" by blast
  have e: "{i. db_blocks (tv_store db) i \<noteq> None \<and> db_blocks (tv_store db') i = None} = G"
  proof (rule set_eqI)
    fix i
    have "i \<in> G \<Longrightarrow> db_blocks (tv_store db) i \<noteq> None \<and> db_blocks (tv_store db') i = None"
      using G(2) unfolding absorbed_row_def by blast
    with G(1) show "i \<in> {i. db_blocks (tv_store db) i \<noteq> None \<and> db_blocks (tv_store db') i = None} \<longleftrightarrow> i \<in> G" by blast
  qed
  have a: "\<forall>i. i \<in> G \<longrightarrow> absorbed_row (tv_store db) (tv_store db') G i" using G(2) by simp
  show ?thesis by (intro conjI exI[of _ G] impI, rule merge_evidence(1)[OF run ok], rule e, rule a, rule G(3), rule merge_evidence(3)[OF run ok])
qed

theorem merge_keeps_evidence_witness:
  "fst (merge_same_ticket_adjacent sample_estimate_env ''2026-07-23'' (hours_db [hour_block 1 0 False, hour_block 2 1 False])) = Inr 1 \<and>
     snd ` db_links (tv_store (snd (merge_same_ticket_adjacent sample_estimate_env ''2026-07-23'' (hours_db [hour_block 1 0 False, hour_block 2 1 False])))) = {10, 11}"
  proof -
  let ?db = "hours_db [hour_block 1 0 False, hour_block 2 1 False]"
  have n: "fst (merge_same_ticket_adjacent sample_estimate_env ''2026-07-23'' ?db) = Inr 1" by code_simp
  have "snd ` db_links (tv_store (snd (merge_same_ticket_adjacent sample_estimate_env ''2026-07-23'' ?db))) = snd ` db_links (tv_store ?db)"
    by (rule merge_keeps_evidence[OF prod.collapse[symmetric] hours_ids, THEN conjunct1])
  moreover have "snd ` db_links (tv_store ?db) = {10, 11}" by (simp add: hours_db_def)
  ultimately show ?thesis using n by simp
qed

text \<open>
  C11. From a well-formed store every reachable store is well formed: rows sit at their own id, below the next
  id; links join existing blocks to existing events; digests belong to blocks; and the journal holds at
  most twenty entries, each sealed.
\<close>

theorem block_store_invariant:
  "reachable st db0 db \<Longrightarrow> db_ok db0 \<Longrightarrow> db_ok db"
  by (rule reachable_ok)

theorem block_store_invariant_witness:
  "db_ok (snd (run_op sample_stamps ''now'' (MergeBlocks 1 [2]) (sample_store None)))"
  proof -
  have "reachable sample_stamps (sample_store None) (snd (run_op sample_stamps ''now'' (MergeBlocks 1 [2]) (sample_store None)))"
    by (rule reach_step[OF reach_start step_op[OF surjective_pairing]])
  then show ?thesis by (rule block_store_invariant) (rule sample_store_ok)
qed



text \<open>
  C13. An operation that fails, for any of its reasons, changes nothing: rows, links, digests, skips and journal
  are as before.
\<close>

theorem failed_change_is_no_change:
  "db_ok db \<Longrightarrow> run_op st now op db = (Some e, db') \<Longrightarrow> db' = db"
  by (rule run_op_error)

theorem failed_change_is_no_change_witness:
  "run_op sample_stamps ''now'' (MergeBlocks 1 [1]) (sample_store None) = (Some (MergeSelf 1), sample_store None)"
  proof -
  have "fst (run_op sample_stamps ''now'' (MergeBlocks 1 [1]) (sample_store None)) = Some (MergeSelf 1)"
    by (simp add: outcome_def merge_blocks_def get_block_def sample_store_def)
  then obtain db' where r: "run_op sample_stamps ''now'' (MergeBlocks 1 [1]) (sample_store None) = (Some (MergeSelf 1), db')"
    by (metis prod.collapse)
  from failed_change_is_no_change[OF sample_store_ok this] r show ?thesis by simp
qed

text \<open>
  C14. Nothing unconfirmed goes out by itself: a ready line has time to bill, a text of the owner's own or one
  the check passed, a block still to be logged, and every one of its blocks confirmed for that ticket.
\<close>

theorem ready_lines_confirmed:
  "ready_lines ae ad day = Inr ls \<Longrightarrow> line \<in> set ls \<Longrightarrow>
   ln_effective line \<noteq> 0 \<and> ln_text line \<noteq> None \<and> list_ex needs_sync (line_blocks ad line) \<and>
   list_all (\<lambda>b. block_ready (ae_codec ae) (ad_decisions ad) b (ln_issue line) = Inr True) (line_blocks ad line) \<and>
   (ln_manual line = Some True \<or> Option.bind (td_rows (ad_td ad) (day, ln_issue line)) lr_check = Some ''passed'')"
  using ready_line_facts[of ae ad day ls line] by blast

theorem ready_lines_confirmed_witness:
  "\<exists>line. map_sum id (\<lambda>ls. ls = [line]) (ready_lines sample_send_env sample_send ''2026-07-23'') = Inr True \<and> ln_effective line \<noteq> 0 \<and>
     list_all (\<lambda>b. block_ready sample_codec [] b (ln_issue line) = Inr True) (line_blocks sample_send line)"
  proof -
  have "map_sum id length (ready_lines sample_send_env sample_send ''2026-07-23'') = Inr 1" by code_simp
  then obtain ls where r: "ready_lines sample_send_env sample_send ''2026-07-23'' = Inr ls" "length ls = 1"
    by (cases "ready_lines sample_send_env sample_send ''2026-07-23''") simp_all
  from r(2) obtain line where l: "ls = [line]" by (cases ls) simp_all
  have e: "ae_codec sample_send_env = sample_codec" "ad_decisions sample_send = []" by (simp_all add: sample_send_env_def sample_send_def)
  from ready_lines_confirmed[OF r(1), of line] r(1) l show ?thesis by (auto simp: e)
qed

text \<open>
  C15. Verdict's ticket pass over a day touches only blocks of that day that are neither personal nor sent and whose
  ticket nobody decided; of these it sets the ticket as an automatic one and nothing else, and it returns
  the number of blocks changed, whatever the classifier answers.
\<close>

theorem ticket_pass_spares_decided:
  "apply_tickets env classify rule day db = (r, db') \<Longrightarrow> ids_ok (tv_store db) \<Longrightarrow>
   tv_store db' = (tv_store db)\<lparr>db_blocks := db_blocks (tv_store db')\<rparr> \<and>
   (db_blocks (tv_store db') i = db_blocks (tv_store db) i \<or>
     auto_ticketed (cal_show (ve_calendar env) day) (db_blocks (tv_store db) i) (db_blocks (tv_store db') i)) \<and>
   (\<forall>n. r = Inr n \<longrightarrow> n = card {i. db_blocks (tv_store db') i \<noteq> db_blocks (tv_store db) i})"
  using ticket_pass_effect[of env classify rule day db r db'] by blast

theorem ticket_pass_spares_decided_witness:
  "let db = (ticket_db.truncate (hours_db [hour_block 1 0 False, (hour_block 2 1 False)\<lparr>bk_origin := Some Manual\<rparr>]))
              \<lparr>tv_events := [\<lparr>tk_id = 10, tk_source = ''git'', tk_started = [], tk_title = ''x'', tk_details = None, tk_path = None, tk_session = Some ''s''\<rparr>],
               tv_sessions := (\<lambda>_. Some ''b'')\<rparr>
     in map_option bk_jira (db_blocks (tv_store (snd (apply_tickets (ticket_env.truncate sample_estimate_env) says_b sample_ratios 0 db))) 1) = Some (Some ''b'') \<and>
        db_blocks (tv_store (snd (apply_tickets (ticket_env.truncate sample_estimate_env) says_b sample_ratios 0 db))) 2 = db_blocks (tv_store db) 2"
  proof -
  let ?db = "(ticket_db.truncate (hours_db [hour_block 1 0 False, (hour_block 2 1 False)\<lparr>bk_origin := Some Manual\<rparr>]))
              \<lparr>tv_events := [\<lparr>tk_id = 10, tk_source = ''git'', tk_started = [], tk_title = ''x'', tk_details = None, tk_path = None, tk_session = Some ''s''\<rparr>],
               tv_sessions := (\<lambda>_. Some ''b'')\<rparr>"
  let ?run = "apply_tickets (ticket_env.truncate sample_estimate_env) says_b sample_ratios 0 ?db"
  have one: "map_option bk_jira (db_blocks (tv_store (snd ?run)) 1) = Some (Some ''b'')" by code_simp
  have ids: "ids_ok (tv_store ?db)" using hours_ids by (simp add: ticket_db.truncate_def)
  have "map_option bk_origin (db_blocks (tv_store ?db) 2) = Some (Some Manual)" by code_simp
  then have "\<not> auto_ticketed d (db_blocks (tv_store ?db) 2) x" for d x by (auto simp: auto_ticketed_def)
  with ticket_pass_spares_decided[OF prod.collapse[symmetric] ids, of "ticket_env.truncate sample_estimate_env" says_b sample_ratios 0 2] one
  show ?thesis unfolding Let_def by blast
qed



text \<open>
  C17. A client of the feed misses nothing and gets nothing twice: whatever is written, marked seen or purged
  between its polls, the ids it was handed are strictly ascending, and one more poll succeeds, keeps them so,
  and leaves no stored change undelivered.
\<close>

theorem poll_delivers_once:
  "change_log_ok ch \<Longrightarrow> run_client cs (ch, 0, []) = (ch', c, got) \<Longrightarrow>
   sorted_wrt (<) got \<and> (\<exists>c' new. poll_ids ch' c = Some (new, c') \<and> sorted_wrt (<) (got @ new) \<and> cr_id ` set (ch_rows ch') \<subseteq> set (got @ new))"
  using client_delivered[of ch cs ch' c got] by blast

theorem poll_delivers_once_witness:
  "let cs = [Write (Refresh named_db (retitled ''old'') ''2026-07-23'' sample_writer), Write (Refresh named_db (retitled ''new'') ''2026-07-23'' sample_writer), PollFeed,
           Write (MarkSeen 1 ''now''), Write (Refresh named_db (retitled ''old'') ''2026-07-23'' sample_writer), PollFeed]
     in snd (run_client cs (empty_log, 0, [])) = (2, [1, 2]) \<and> sorted_wrt (<) (snd (snd (run_client cs (empty_log, 0, []))))"
  proof -
  let ?cs = "[Write (Refresh named_db (retitled ''old'') ''2026-07-23'' sample_writer), Write (Refresh named_db (retitled ''new'') ''2026-07-23'' sample_writer), PollFeed,
           Write (MarkSeen 1 ''now''), Write (Refresh named_db (retitled ''old'') ''2026-07-23'' sample_writer), PollFeed]"
  have r: "snd (run_client ?cs (empty_log, 0, [])) = (2, [1, 2])" by code_simp
  have ok: "change_log_ok empty_log" by (simp add: change_log_ok_def empty_log_def)
  have "run_client ?cs (empty_log, 0, []) = (fst (run_client ?cs (empty_log, 0, [])), 2, [1, 2])" using r by (metis prod.collapse)
  from poll_delivers_once[OF ok this] r show ?thesis unfolding Let_def by simp
qed





text \<open>
  C21. Whatever order the daemon's loads and commits and the owner's requests come in, every event keeps a
  well-formed label: a dismissed or noise event has no project, a filed one has, and only a guess has a
  confidence. What was collected of the events never changes.
\<close>

theorem labels_well_formed:
  "(route_step env classify rule)\<^sup>*\<^sup>* s s' \<Longrightarrow> rn_flight s = None \<Longrightarrow> list_all label_ok (ro_events (rn_db s)) \<Longrightarrow>
   list_all label_ok (ro_events (rn_db s')) \<and>
   collected_facts ` set (ro_events (rn_db s')) \<subseteq> collected_facts ` set (ro_events (rn_db s))"
  proof -
  assume r: "(route_step env classify rule)\<^sup>*\<^sup>* s s'" and f: "rn_flight s = None" and l: "list_all label_ok (ro_events (rn_db s))"
  have ok: "flight_ok s" using f by (simp add: flight_ok_def)
  have "facts.kept (collected_facts ` set (ro_events (rn_db s))) (rn_db s)" by (simp add: facts.kept_def list_all_iff)
  from facts.kept_run[OF r ok this] labels.kept_run[OF r ok] l show ?thesis
    by (auto simp: facts.kept_def labels.kept_def list_all_iff)
qed

theorem labels_well_formed_witness:
  "map er_origin (ro_events (snd (label_event sample_route_env 1 ''a'' (Some DomainRule) sample_route))) = [Some ''fix'', None, Some ''dismissed''] \<and>
   list_all label_ok (ro_events (snd (label_event sample_route_env 1 ''a'' (Some DomainRule) sample_route)))"
  proof -
  let ?s = "\<lparr>rn_db = sample_route, rn_flight = None\<rparr>"
  have "route_step sample_route_env says_b sample_ratios ?s (?s\<lparr>rn_db := snd (label_event sample_route_env 1 ''a'' (Some DomainRule) (rn_db ?s))\<rparr>)"
    by (rule route_step.label)
  from labels_well_formed[OF r_into_rtranclp[of "route_step sample_route_env says_b sample_ratios", OF this]] sample_route_labels
  have l: "list_all label_ok (ro_events (snd (label_event sample_route_env 1 ''a'' (Some DomainRule) sample_route)))" by simp
  have "map er_origin (ro_events (snd (label_event sample_route_env 1 ''a'' (Some DomainRule) sample_route))) = [Some ''fix'', None, Some ''dismissed'']"
    by code_simp
  with l show ?thesis by blast
qed

text \<open>
  C22. The owner's word: labelling an event either fails and changes nothing at all, or files it under that project
  as a fix, and a rule added with it touches no other event the owner fixed or dismissed.
\<close>

theorem owner_label_sticks:
  "distinct (map er_id (ro_events db)) \<Longrightarrow>
   (case label_event env i raw always db of
      (Inl e, db') \<Rightarrow> db' = db
    | (Inr ev, db') \<Rightarrow>
        (\<exists>e\<in>set (ro_events db'). er_id e = i \<and> er_path e = Some (folder_path_of env (trim raw)) \<and> er_origin e = Some ''fix'') \<and>
        {e \<in> set (ro_events db). er_id e \<noteq> i \<and> \<not> open_to_rules e} \<subseteq> set (ro_events db'))"
  proof -
  assume d: "distinct (map er_id (ro_events db))"
  obtain res db' where l: "label_event env i raw always db = (res, db')" by fastforce
  show ?thesis
  proof (cases res)
    case (Inl e)
    from l Inl have "db' = db" by (cases rule: label_event_cases) auto
    with l Inl show ?thesis by simp
  next
    case (Inr ev)
    note l' = l[unfolded Inr]
    from label_event_effect(1)[OF l'] label_event_effect(2)[OF l' d] show ?thesis unfolding l' by auto
  qed
qed

theorem owner_label_sticks_witness:
  "map er_origin (ro_events (snd (label_event sample_route_env 1 '' a '' (Some DomainRule) sample_route))) = [Some ''fix'', None, Some ''dismissed''] \<and>
   (loose_event 3 ''firefox'' ''mail'' ''https://m.is'')\<lparr>er_origin := Some ''dismissed''\<rparr>
     \<in> set (ro_events (snd (label_event sample_route_env 1 '' a '' (Some DomainRule) sample_route)))"
  proof -
  let ?r = "label_event sample_route_env 1 '' a '' (Some DomainRule) sample_route"
  let ?m = "(loose_event 3 ''firefox'' ''mail'' ''https://m.is'')\<lparr>er_origin := Some ''dismissed''\<rparr>"
  have o: "map er_origin (ro_events (snd ?r)) = [Some ''fix'', None, Some ''dismissed'']" by code_simp
  have "\<not> isl (fst ?r)" by code_simp
  then obtain ev where ev: "fst ?r = Inr ev" by (cases "fst ?r") simp_all
  obtain db' where r: "?r = (Inr ev, db')" using ev by (cases ?r) simp
  have "?m \<in> {e \<in> set (ro_events sample_route). er_id e \<noteq> 1 \<and> \<not> open_to_rules e}"
    by (simp add: sample_route_def loose_event_def open_to_rules_def)
  moreover have "{e \<in> set (ro_events sample_route). er_id e \<noteq> 1 \<and> \<not> open_to_rules e} \<subseteq> set (ro_events db')"
    using owner_label_sticks[OF sample_route_ids, of 1 sample_route_env "'' a ''" "Some DomainRule", unfolded r prod.case sum.case] by simp
  ultimately show ?thesis using o unfolding r snd_conv by blast
qed

text \<open>
  C23. A commit does not look at the row again: an answer computed before the owner labelled the event replaces
  that label by the guess.
\<close>

theorem stale_guess_overwrites_fix:
  "e \<in> set (ro_events db) \<Longrightarrow> er_id e = an_id a \<Longrightarrow> an_guess a = Some g \<Longrightarrow>
   \<exists>e'\<in>set (ro_events (snd (commit_labels env [] [a] db))).
     er_id e' = er_id e \<and> er_origin e' = Some ''guess'' \<and> er_path e' = Some (folder_path_of env (gu_folder g))"
  by (rule stale_guess_written)

theorem stale_guess_overwrites_fix_witness:
  "let answers = decide (snd (load_pending sample_route_env sample_route 0)) says_b sample_ratios;
         fixed = snd (label_event sample_route_env 1 ''a'' None sample_route)
     in map er_origin (ro_events fixed) = [Some ''fix'', None, Some ''dismissed''] \<and>
        (\<exists>e'\<in>set (ro_events (snd (commit_labels sample_route_env [] answers fixed))). er_id e' = 1 \<and> er_origin e' = Some ''guess'')"
  proof -
  let ?d = "decide (snd (load_pending sample_route_env sample_route 0)) says_b sample_ratios"
  let ?db = "snd (label_event sample_route_env 1 ''a'' None sample_route)"
  have o: "map er_origin (ro_events ?db) = [Some ''fix'', None, Some ''dismissed'']" by code_simp
  have i: "map er_id (ro_events ?db) = [1, 2, 3]" by code_simp
  then have "1 \<in> er_id ` set (ro_events ?db)" by (metis list.set_intros(1) list.set_map)
  then obtain e where e: "e \<in> set (ro_events ?db)" "er_id e = 1" by auto
  have "map (\<lambda>a. (an_id a, map_option gu_folder (an_guess a))) ?d = [(1, Some ''b'')]" by code_simp
  then obtain a where a: "?d = [a]" "an_id a = 1" "map_option gu_folder (an_guess a) = Some ''b''" by (auto simp: map_eq_Cons_conv)
  from a(3) obtain g where g: "an_guess a = Some g" by (cases "an_guess a") simp_all
  have "er_id e = an_id a" using e(2) a(2) by simp
  from stale_guess_overwrites_fix[OF e(1) this g, of sample_route_env] e(2) a(1) o show ?thesis unfolding Let_def by auto
qed

text \<open>
  C24. A card stands in for the events it replaced: on a compressed block billing finds the same folder, the
  same paths and the same dominant title as it found on the raw events, provided these fit the caps of a card.
\<close>

theorem card_answers_billing:
  "build_digest dx db blocks i = Inr c \<Longrightarrow> blocks i = Some b \<Longrightarrow> \<not> bk_personal b \<Longrightarrow> vw_cards (bd_view db) i = None \<Longrightarrow>
   list_all (\<lambda>p. p \<noteq> [] \<and> char_count p \<le> PROJECT_PATH_CHARS) (List.map_filter ce_path (vw_events (bd_view db) i)) \<Longrightarrow>
   list_all (\<lambda>e. claude_source (ce_source e) = starts_with ''claude'' (ce_source e)) (vw_events (bd_view db) i) \<Longrightarrow>
   list_all (\<lambda>e. char_count (trim (ce_title e)) \<le> INVOICE_TITLE_CHARS) (vw_events (bd_view db) i) \<Longrightarrow>
   work_folder_for_block (compressed_view (bd_view db) i c) i = map_option (truncate_chars FOLDER_CHARS) (work_folder_for_block (bd_view db) i) \<and>
   distinct_paths_for_blocks (compressed_view (bd_view db) i c) [i] = distinct_paths_for_blocks (bd_view db) [i] \<and>
   dominant_title_for_blocks (compressed_view (bd_view db) i c) [i] = dominant_title_for_blocks (bd_view db) [i]"
  using card_folder[of dx db blocks i c b] card_paths[of dx db blocks i c b] card_title[of dx db blocks i c b] by blast

theorem card_answers_billing_witness:
  "\<exists>c. build_digest (pe_digest sample_purge_env) event_billing (db_blocks (sample_store None)) 1 = Inr c \<and>
     dominant_title_for_blocks (compressed_view (bd_view event_billing) 1 c) [1] = Some ''fix''"
  proof -
  let ?d = "build_digest (pe_digest sample_purge_env) event_billing (db_blocks (sample_store None)) 1"
  have "map_sum id dg_titles ?d = Inr [''fix'']" by code_simp
  then obtain c where c: "?d = Inr c" by (cases ?d) simp_all
  have b: "db_blocks (sample_store None) 1 = Some (logged_block 1 0 3600 None)" by (simp add: sample_store_def)
  have h: "\<not> bk_personal (logged_block 1 0 3600 None)" "vw_cards (bd_view event_billing) 1 = None"
    "list_all (\<lambda>p. p \<noteq> [] \<and> char_count p \<le> PROJECT_PATH_CHARS) (List.map_filter ce_path (vw_events (bd_view event_billing) 1))"
    "list_all (\<lambda>e. claude_source (ce_source e) = starts_with ''claude'' (ce_source e)) (vw_events (bd_view event_billing) 1)"
    "list_all (\<lambda>e. char_count (trim (ce_title e)) \<le> INVOICE_TITLE_CHARS) (vw_events (bd_view event_billing) 1)"
    "dominant_title_for_blocks (bd_view event_billing) [1] = Some ''fix''" by code_simp+
  from card_answers_billing[OF c b h(1-5)] h(6) c show ?thesis by (intro exI[of _ c]) simp
qed

text \<open>
  C25. Every interval of every slice of a non-personal block lands in exactly one line; no two lines share a key
  (customer, deild or folder, billable), and every line lists only blocks that are not personal.
\<close>

theorem billed_intervals_once:
  "case group_blocks db [] blocks of
     Inl e \<Rightarrow> True
   | Inr gs \<Rightarrow>
       mset (group_intervals gs) = mset (day_intervals db blocks) \<and> distinct (map fst gs) \<and> list_all key_agrees gs \<and>
       list_all (\<lambda>p. set (gp_ids (snd p)) \<subseteq> bk_id ` set (billable_blocks blocks)) gs"
  proof (cases "group_blocks db [] blocks")
  case (Inr gs)
  from group_blocks_intervals[OF Inr] group_blocks_keys[OF Inr] group_blocks_agree[OF Inr] group_blocks_ids[OF Inr]
  show ?thesis by (simp add: Inr list_all_iff group_intervals_def)
qed simp



text \<open>
  C27. Rebuilding a day never hands the Tempo worklog of one earlier block to two new ones, provided no two new
  blocks start at the same instant and the earlier rows had distinct worklogs.
\<close>

theorem rebuild_tempo_ids_distinct:
  "distinct (map (\<lambda>b. block_iso ctx (ib_start b)) (cut_at_ticket_edges env blocks (prior_tickets ctx prior))) \<Longrightarrow>
   (\<And>r r'. r \<in> set prior \<Longrightarrow> r' \<in> set prior \<Longrightarrow> br_tempo r \<noteq> None \<Longrightarrow> br_tempo r = br_tempo r' \<Longrightarrow> r = r') \<Longrightarrow>
   distinct (List.map_filter br_tempo (rebuilt_rows env ctx prior blocks))"
  by (rule rebuilt_tempo_distinct)

theorem rebuild_tempo_ids_distinct_witness:
  "map br_tempo (rebuilt_rows sample_env sample_ctx [sample_row 0 9 (Some ''77'')] [touch_block 0 10, touch_block 10 20])
     = [Some ''77'', None] \<and>
   distinct (List.map_filter br_tempo (rebuilt_rows sample_env sample_ctx [sample_row 0 9 (Some ''77'')] [touch_block 0 10, touch_block 10 20]))"
  proof -
  have d: "distinct (map (\<lambda>b. block_iso sample_ctx (ib_start b)) (cut_at_ticket_edges sample_env [touch_block 0 10, touch_block 10 20]
      (prior_tickets sample_ctx [sample_row 0 9 (Some ''77'')])))" by code_simp
  have "distinct (List.map_filter br_tempo (rebuilt_rows sample_env sample_ctx [sample_row 0 9 (Some ''77'')] [touch_block 0 10, touch_block 10 20]))"
    by (rule rebuild_tempo_ids_distinct[OF d]) simp
  moreover have "map br_tempo (rebuilt_rows sample_env sample_ctx [sample_row 0 9 (Some ''77'')] [touch_block 0 10, touch_block 10 20])
     = [Some ''77'', None]" by code_simp
  ultimately show ?thesis by blast
qed

text \<open>
  C28. What the owner decided survives a rebuild: the row keeps the Tempo worklog and export mark of the row it
  continues, a ticket set or cleared by hand, and an ignore together with the personal flag.
\<close>

theorem owner_decisions_survive:
  "br_tempo (persist_row env ctx b (Some c)) = br_tempo c \<and>
   br_exported (persist_row env ctx b (Some c)) = br_exported c \<and>
   (br_origin c = Some Manual \<longrightarrow> br_jira (persist_row env ctx b (Some c)) = br_jira c
      \<and> br_origin (persist_row env ctx b (Some c)) = Some Manual) \<and>
   (br_ignored c \<noteq> None \<longrightarrow> br_ignored (persist_row env ctx b (Some c)) = br_ignored c
      \<and> br_personal (persist_row env ctx b (Some c)))"
  using persist_row_synced[of env ctx b c] persist_row_manual[of c env ctx b] persist_row_sticky[of c env ctx b] by blast

theorem owner_decisions_survive_witness:
  "br_origin (sample_row 0 9 (Some ''77'')) = Some Manual \<and>
   br_jira (persist_row sample_env sample_ctx (touch_block 0 10) (Some (sample_row 0 9 (Some ''77'')))) = Some ''T-1''"
  proof -
  have m: "br_origin (sample_row 0 9 (Some ''77'')) = Some Manual" by (simp add: sample_row_def)
  with owner_decisions_survive[of sample_env sample_ctx "touch_block 0 10" "sample_row 0 9 (Some ''77'')"]
  have "br_jira (persist_row sample_env sample_ctx (touch_block 0 10) (Some (sample_row 0 9 (Some ''77''))))
      = br_jira (sample_row 0 9 (Some ''77''))" by blast
  then show ?thesis using m by (simp add: sample_row_def)
qed

text \<open>
  C29. Every worklog a sync sends, posted or updated, has a positive whole number of half hours, provided the
  stored overrides have, and the sync keeps them so.
\<close>

theorem tempo_seconds_are_half_hours:
  "hours_ok td \<Longrightarrow> sync_day te net dry day only_issue td = (res, st') \<Longrightarrow>
   list_all (half_hours \<circ> request_seconds) (sy_log st') \<and> hours_ok (sy_td st')"
  using sync_day_seconds[of td te net dry day only_issue res st'] by simp

theorem tempo_seconds_are_half_hours_witness:
  "map request_seconds (sy_log (snd (sync_day sample_tempo_env sample_net False ''2026-07-23'' None (sample_tempo None)))) = [5400] \<and>
     half_hours 5400"
  proof -
  let ?r = "sync_day sample_tempo_env sample_net False ''2026-07-23'' None (sample_tempo None)"
  have s: "map request_seconds (sy_log (snd ?r)) = [5400]" by code_simp
  have "hours_ok (sample_tempo None)" by (simp add: hours_ok_def sample_tempo_def)
  from tempo_seconds_are_half_hours[OF this, of sample_tempo_env sample_net False "''2026-07-23''" None "fst ?r" "snd ?r"]
  have "list_all (half_hours \<circ> request_seconds) (sy_log (snd ?r))" by simp
  with s have "half_hours 5400" by (auto simp: map_eq_Cons_conv)
  with s show ?thesis by blast
qed

text \<open>
  C30. Every due tick gets on with the plan: each planned line that has not gone through (never tried, or Tempo
  was not reached) is delivered once more, in plan order, and nothing else is.
\<close>

theorem planned_sends_exact:
  "plan ad = Some (tick_day ae now, issues) \<Longrightarrow> distinct issues \<Longrightarrow> AUTO_SEND_HOUR \<le> local_hour (ae_offset ae) now \<Longrightarrow>
   ad_sends (snd (run_if_due ae (auto_sync ae de) hours now True ad)) =
     ad_sends ad @ map (Pair (tick_day ae now)) (filter (pending ad (tick_day ae now)) issues)"
  proof -
  assume p: "plan ad = Some (tick_day ae now, issues)" "distinct issues" "AUTO_SEND_HOUR \<le> local_hour (ae_offset ae) now"
  obtain res ad2 where t: "run_if_due ae (auto_sync ae de) hours now True ad = (res, ad2)" by fastforce
  from daemon.due_tick[OF t p(3,1,2)] t show ?thesis by simp
qed

theorem planned_sends_exact_witness:
  "ad_sends (snd (run_if_due sample_send_env (auto_sync sample_send_env sample_daemon) None five_pm True planned_send)) = [own_line]"
  proof -
  have p: "plan planned_send = Some (tick_day sample_send_env five_pm, [''T-9'', ''T-1''])" by code_simp
  have h: "AUTO_SEND_HOUR \<le> local_hour (ae_offset sample_send_env) five_pm" "distinct [''T-9'', ''T-1'']" by code_simp+
  have e: "ad_sends planned_send @ map (Pair (tick_day sample_send_env five_pm))
     (filter (pending planned_send (tick_day sample_send_env five_pm)) [''T-9'', ''T-1'']) = [own_line]" by code_simp
  from planned_sends_exact[OF p h(2,1), of sample_daemon None] show ?thesis unfolding e .
qed

text \<open>
  C31. The recap reports exactly the holes in the day: at least 15 minutes inside the work-hours window that no
  block and no recorded break enters, reaching as far as possible on both sides.
\<close>

theorem recap_gaps_exact:
  "window (ae_cal ae) (ae_offset ae) day hours = Some win \<Longrightarrow>
   (s, e) \<in> set (all_gaps (occupied ae ad day win)) \<longleftrightarrow>
     900 \<le> e - s \<and> fst win \<le> s \<and> e \<le> snd win \<and>
     (\<forall>r. in_the_way ae ad day r \<longrightarrow> fst r < snd r \<longrightarrow> snd r \<le> s \<or> e \<le> fst r) \<and>
     (s = fst win \<or> (\<exists>r. in_the_way ae ad day r \<and> fst r < snd r \<and> snd r = s)) \<and>
     (e = snd win \<or> (\<exists>r. in_the_way ae ad day r \<and> fst r < snd r \<and> fst r = e))"
  using recap_gap_iff[OF window_Some] by blast

theorem recap_gaps_exact_witness:
  "(3600, 32400) \<in> set (all_gaps (occupied sample_send_env sample_send ''2026-07-23'' (0, 32400))) \<and>
     \<not> in_the_way sample_send_env sample_send ''2026-07-23'' (3000, 4000)"
  proof -
  have w: "window (ae_cal sample_send_env) (ae_offset sample_send_env) ''2026-07-23'' sample_hours = Some (0, 32400)" by code_simp
  have g: "(3600, 32400) \<in> set (all_gaps (occupied sample_send_env sample_send ''2026-07-23'' (0, 32400)))" by code_simp
  from recap_gaps_exact[OF w, of 3600 32400 sample_send] g have
    "\<forall>r. in_the_way sample_send_env sample_send ''2026-07-23'' r \<longrightarrow> fst r < snd r \<longrightarrow> snd r \<le> 3600 \<or> 32400 \<le> fst r" by blast
  from spec[OF this, of "(3000, 4000)"] g show ?thesis by simp
qed

text \<open>
  C32. Merging loses nothing: the merged block has the sum of the seconds, the earliest start, the ticket, text
  and worklog of the primary and all events of all blocks; exactly the absorbed rows go, none of them synced.
\<close>

theorem merge_conserves:
  "db_ok db \<Longrightarrow> merge_blocks st p ids db = (Inr (m, absorbed), db') \<Longrightarrow>
   \<exists>primary others. db_blocks db p = Some primary \<and> map bk_id others = ids \<and> absorbed = ids \<and>
     list_all (\<lambda>b. db_blocks db (bk_id b) = Some b \<and> \<not> is_synced b) others \<and>
     bk_secs m = sum_list (map bk_secs (primary # others)) \<and> bk_start m = Min (set (map bk_start (primary # others))) \<and>
     bk_tempo m = bk_tempo primary \<and> bk_jira m = bk_jira primary \<and> bk_desc m = bk_desc primary \<and>
     db_blocks db' = (\<lambda>i. if i = p then Some m else if i \<in> set ids then None else db_blocks db i) \<and>
     links_of db' p = (\<Union>i\<in>set (p # ids). links_of db i)"
  proof -
  assume a: "db_ok db" "merge_blocks st p ids db = (Inr (m, absorbed), db')"
  from merge_result[OF a] obtain primary others where r: "db_blocks db p = Some primary" "map bk_id others = ids" "absorbed = ids"
    "\<forall>b\<in>set others. db_blocks db (bk_id b) = Some b \<and> bk_day b = bk_day primary \<and> \<not> is_synced b"
    "bk_secs m = sum_list (map bk_secs (primary # others))" "bk_start m = Min (set (map bk_start (primary # others)))"
    "bk_tempo m = bk_tempo primary" "bk_day m = bk_day primary" "bk_jira m = bk_jira primary" "bk_desc m = bk_desc primary"
    "db_blocks db' = (\<lambda>i. if i = p then Some m else if i \<in> set ids then None else db_blocks db i)"
    "links_of db' p = (\<Union>i\<in>set (p # ids). links_of db i)" .
  have "list_all (\<lambda>b. db_blocks db (bk_id b) = Some b \<and> \<not> is_synced b) others" using r(4) by (simp add: list_all_iff)
  with r show ?thesis by blast
qed

theorem merge_conserves_witness:
  "\<exists>m db'. merge_blocks sample_stamps 1 [2] (sample_store None) = (Inr (m, [2]), db') \<and> bk_secs m = 7200"
  proof -
  let ?r = "merge_blocks sample_stamps 1 [2] (sample_store None)"
  have "map_sum id (\<lambda>(m, a). (bk_secs m, a)) (fst ?r) = Inr (7200, [2])" by code_simp
  then obtain m a where f: "fst ?r = Inr (m, a)" "a = [2]" by (cases "fst ?r") auto
  then have r: "?r = (Inr (m, [2]), snd ?r)" by (metis prod.collapse)
  from merge_conserves[OF sample_store_ok r] obtain primary others where
    "db_blocks (sample_store None) 1 = Some primary" "map bk_id others = [2]"
    "list_all (\<lambda>b. db_blocks (sample_store None) (bk_id b) = Some b \<and> \<not> is_synced b) others"
    "bk_secs m = sum_list (map bk_secs (primary # others))" by (elim exE conjE) (rule that)
  then have "bk_secs m = 7200" by (auto simp: sample_store_def logged_block_def)
  with r show ?thesis by blast
qed

text \<open>
  C33. Splitting loses nothing: the two parts are not empty, share the seconds of the block, touch at the cut,
  keep its start and end and divide its events; the Tempo worklog stays with the first.
\<close>

theorem split_conserves:
  "db_ok db \<Longrightarrow> split_block_at st i n db = (Inr (x, y), db') \<Longrightarrow>
   \<exists>b. db_blocks db i = Some b \<and> bk_secs x = int n * 60 \<and> bk_secs x + bk_secs y = bk_secs b \<and> 0 < bk_secs x \<and> 0 < bk_secs y \<and>
     bk_start x = bk_start b \<and> bk_end x = bk_start y \<and> bk_end y = bk_end b \<and> bk_tempo x = bk_tempo b \<and> bk_tempo y = None \<and>
     db_blocks db' = (db_blocks db)(i \<mapsto> x, bk_id y \<mapsto> y) \<and> db_blocks db (bk_id y) = None \<and>
     links_of db' i \<union> links_of db' (bk_id y) = links_of db i \<and> links_of db' i \<inter> links_of db' (bk_id y) = {}"
  using split_result[of db st i n x y db'] by metis

theorem split_conserves_witness:
  "\<exists>x y db'. split_block_at sample_stamps 1 20 (sample_store None) = (Inr (x, y), db') \<and> bk_secs x + bk_secs y = 3600"
  proof -
  let ?r = "split_block_at sample_stamps 1 20 (sample_store None)"
  have "map_sum id (\<lambda>(x, y). bk_secs x) (fst ?r) = Inr 1200" by code_simp
  then obtain x y where f: "fst ?r = Inr (x, y)" by (cases "fst ?r") auto
  then have r: "?r = (Inr (x, y), snd ?r)" by (metis prod.collapse)
  from split_conserves[OF sample_store_ok r] have "bk_secs x + bk_secs y = 3600" by (auto simp: sample_store_def logged_block_def)
  with r show ?thesis by blast
qed

text \<open>
  C34. The export can be read back: an RFC 4180 reader finds the header and, row by row, exactly the cells
  written, whatever quotes, commas or line breaks they hold; and no guarded cell starts a formula.
\<close>

theorem csv_round_trip:
  "read_records 8 (Suc (length rows)) (render_csv ds rows) = csv_header # map (csv_values ds) rows \<and>
   list_all (\<lambda>r. list_all safe_cell (csv_values ds r)) rows"
  unfolding list_all_iff[of _ rows] by (simp add: render_csv_read csv_values_safe del: read_records.simps)

text \<open>
  C35. A planned line whose blocks were moved to another ticket before the tick: the sync of that line makes no
  request at all, and the line is recorded as sent all the same.
\<close>

theorem moved_line_counts_as_sent:
  "cal_date (ae_cal ae) (fst key) = Some d \<Longrightarrow> de_net de (ad_sends ad) = Inr net \<Longrightarrow>
   fetch_blocks_for_issue (td_db (ad_td ad)) (fst key) (snd key) = [] \<Longrightarrow> td_rows (ad_td ad) key \<noteq> None \<Longrightarrow>
   sy_log (snd (sync_day (ae_te ae) net False (fst key) (Some (snd key)) (ad_td ad))) = [] \<and>
   sent_mark (ad_td (snd (send_one (auto_sync ae de) now key ad))) key"
  using moved_line_marked(1)[where ae = ae and de = de and ad = ad and key = key and net = net and now = now]
    moved_line_marked(2)[where ae = ae and de = de and ad = ad and key = key and net = net] by blast

theorem moved_line_counts_as_sent_witness:
  "sent_mark (ad_td (snd (send_one (auto_sync sample_send_env sample_daemon) ''now'' (''2026-07-23'', ''T-9'') moved_send))) (''2026-07-23'', ''T-9'')"
  proof -
  let ?k = "(''2026-07-23'', ''T-9'')"
  have d: "cal_date (ae_cal sample_send_env) (fst ?k) = Some 0" by code_simp
  have n: "de_net sample_daemon (ad_sends moved_send) = Inr sample_net" by (simp add: sample_daemon_def)
  have b: "fetch_blocks_for_issue (td_db (ad_td moved_send)) (fst ?k) (snd ?k) = []" by code_simp
  have r: "td_rows (ad_td moved_send) ?k \<noteq> None" by (simp add: moved_send_def)
  from moved_line_counts_as_sent[OF d n b r, of "''now''"] show ?thesis by blast
qed

text \<open>
  C36. The loop that folds weak runs away always ends: as a \<open>while\<close> loop that goes on as long as some run can be
  folded it returns, with the runs \<open>merge_loop\<close> gives, never more than there were.
\<close>

theorem evidence_loop_terminates:
  "while_option (\<lambda>rs. find_some (try_fold_sliver keyed rs) [0..<length rs] \<noteq> None)
     (\<lambda>rs. the (find_some (try_fold_sliver keyed rs) [0..<length rs])) runs = Some (merge_loop keyed runs) \<and>
   length (merge_loop keyed runs) \<le> length runs"
  proof (induction keyed runs rule: merge_loop.induct)
  case (1 keyed runs)
  show ?case
  proof (cases "find_some (try_fold_sliver keyed runs) [0..<length runs]")
    case None
    then show ?thesis by (simp add: while_option_unfold merge_loop.simps)
  next
    case (Some rs)
    then obtain i where "i < length runs" "try_fold_sliver keyed runs i = Some rs" by (auto dest!: find_some_Some)
    then have "length rs < length runs" by (blast intro: length_try_fold_sliver)
    moreover have "merge_loop keyed runs = merge_loop keyed rs" by (subst merge_loop.simps) (simp add: Some)
    ultimately show ?thesis using 1[OF Some] Some by (subst while_option_unfold) auto
  qed
qed

text \<open>
  C37. Whatever calls the supervisor of the Verdict helper gets, in any order and with any answers of the host, no
  helper is left behind: the number of processes alive is 1 when it holds one and 0 otherwise; a failure is
  recorded only while none runs; at most \<open>RESTART_LIMIT\<close> restarts are remembered.
\<close>

theorem one_helper_at_a_time:
  "supervised (run_calls cs new_supervisor)"
  by (rule supervised_run[OF supervised_new])

text \<open>
  C38. However often the helper crashes, health checks relaunch it at most \<open>RESTART_LIMIT\<close> times within
  \<open>RESTART_WINDOW_SECS\<close>: over any run of checks at times that do not go back, that starts with a fresh budget,
  each launch comes at least a window after the third before it.
\<close>

theorem restart_budget:
  "sv_restarts s = [] \<Longrightarrow> sorted (now # map hv_now hs) \<Longrightarrow> spaced (sv_launches (run_ticks_from hs (s\<lparr>sv_launches := []\<rparr>)))"
  by (rule budget_ticks[OF budget_fresh])

theorem restart_budget_witness:
  "let s = new_supervisor\<lparr>sv_enabled := True, sv_proc := True, sv_live := 1\<rparr>;
         s' = run_ticks_from (map crash_at [5, 10, 20]) (s\<lparr>sv_launches := []\<rparr>)
     in sv_launches s' = [5, 10, 20] \<and> spaced (sv_launches s') \<and>
        sv_failed (run_ticks_from (map crash_at [5, 10, 20, 30]) (s\<lparr>sv_launches := []\<rparr>)) = Some (Stopped ''crash'')"
  proof -
  let ?s = "new_supervisor\<lparr>sv_enabled := True, sv_proc := True, sv_live := 1\<rparr>"
  have l: "sv_launches (run_ticks_from (map crash_at [5, 10, 20]) (?s\<lparr>sv_launches := []\<rparr>)) = [5, 10, 20]"
    "sv_failed (run_ticks_from (map crash_at [5, 10, 20, 30]) (?s\<lparr>sv_launches := []\<rparr>)) = Some (Stopped ''crash'')" by code_simp+
  have "sv_restarts ?s = []" "sorted (0 # map hv_now (map crash_at [5, 10, 20]))" by (simp_all add: new_supervisor_def crash_at_def)
  from restart_budget[OF this] l show ?thesis unfolding Let_def by blast
qed

text \<open>
  C39. Whatever number of minutes the model claims, the hours written are at least a minute and at most the span
  of the block; a claim that fits the block goes to the nearest quarter of an hour or to the whole span.
\<close>

theorem estimated_hours_bounded:
  "1 \<le> round_minutes m span_minutes \<and> round_minutes m span_minutes \<le> max span_minutes 1 \<and>
   (15 \<le> span_minutes \<and> span_minutes < 2 ^ 62 \<and> 8 \<le> m \<and> m \<le> span_minutes \<longrightarrow>
      \<bar>round_minutes m span_minutes - m\<bar> \<le> 7 \<and> (round_minutes m span_minutes = span_minutes \<or> 15 dvd round_minutes m span_minutes))"
  using round_minutes_bounds[of m span_minutes] round_minutes_nearest[of span_minutes m] by (cases "8 \<le> m") simp_all

theorem estimated_hours_bounded_witness:
  "round_minutes 50 100 = 45 \<and> round_minutes (2 ^ 63 - 1) 100 = 15 \<and> \<bar>round_minutes 50 100 - 50\<bar> \<le> 7"
  proof -
  have "round_minutes 50 100 = 45" "round_minutes (2 ^ 63 - 1) 100 = 15" by code_simp+
  moreover have "\<bar>round_minutes 50 100 - 50\<bar> \<le> 7" using estimated_hours_bounded[of 50 100] by simp
  ultimately show ?thesis by blast
qed


section \<open>Further facts\<close>

text \<open>
  The runs of \<open>owner_runs\<close> are in order and disjoint, every minute in which a row was recorded
  lies in one of them, and each is owned by a lane that has a row that day.
\<close>

lemma owner_runs_cover_day:
  "runs_ok (owner_runs keyed) \<and> fst ` set keyed \<subseteq> minutes_of (owner_runs keyed) \<and>
     run_owner ` set (owner_runs keyed) \<subseteq> lanes_of keyed"
  by (simp add: owner_runs_ok owner_runs_cover owner_runs_lanes)

text \<open>
  As long as some human action in a work lane still holds the focus, the minute belongs to the lane of
  the latest such action, whatever else was going on.
\<close>

lemma work_focus_wins:
  "focus_rows keyed m prev True \<noteq> [] \<Longrightarrow>
   \<exists>t k human window. minute_owner keyed m prev = Some k \<and> is_work k \<and>
     (t, k, human, window) \<in> set (focus_rows keyed m prev True) \<and>
     list_all (\<lambda>row. fst row \<le> t) (focus_rows keyed m prev True)"
  proof -
  assume "focus_rows keyed m prev True \<noteq> []"
  then obtain k where k: "recent_focus keyed m prev True = Some k" by (cases "recent_focus keyed m prev True") auto
  then have "minute_owner keyed m prev = Some k" by (simp add: minute_owner_def latest_human_def)
  moreover obtain t human window where r: "(t, k, human, window) \<in> set (focus_rows keyed m prev True)"
      "\<forall>row\<in>set (focus_rows keyed m prev True). fst row \<le> t"
    using recent_focus_Some[OF k] by blast
  moreover from r(1) have "is_work k" by (simp add: focus_rows_def)
  ultimately show ?thesis unfolding list_all_iff by blast
qed

lemma work_focus_wins_witness:
  "\<exists>t k human window. minute_owner [(3, ''personal:p'', True, 5), (1, ''w'', True, 5)] 4 None = Some k \<and> is_work k \<and>
     (t, k, human, window) \<in> set (focus_rows [(3, ''personal:p'', True, 5), (1, ''w'', True, 5)] 4 None True) \<and>
     list_all (\<lambda>row. fst row \<le> t) (focus_rows [(3, ''personal:p'', True, 5), (1, ''w'', True, 5)] 4 None True)"
  proof -
  have "focus_rows [(3, ''personal:p'', True, 5), (1, ''w'', True, 5)] 4 None True \<noteq> []"
    by (simp add: focus_rows_def is_work_def PERSONAL_MARK_def starts_with_def)
  from work_focus_wins[OF this] show ?thesis .
qed

text \<open>
  Folding the short runs keeps the list ordered and disjoint and keeps every minute of the day in its
  class, work or personal.
\<close>

lemma short_runs_fold:
  "runs_ok rs \<Longrightarrow> runs_ok (fold_short_runs rs) \<and>
   (\<Union>r\<in>set (fold_short_runs rs). run_class r) = (\<Union>r\<in>set rs. run_class r)"
  by (simp add: fold_short_runs_ok fold_short_runs_class)

lemma short_runs_fold_witness:
  "fold_short_runs [(''a'', 0, 1), (''b'', 2, 9)] = [(''b'', 0, 9)] \<and>
   runs_ok (fold_short_runs [(''a'', 0, 1), (''b'', 2, 9)])"
  proof -
  have "runs_ok [(''a'', 0, 1), (''b'', 2, 9)]" by code_simp
  from short_runs_fold[OF this] have "runs_ok (fold_short_runs [(''a'', 0, 1), (''b'', 2, 9)])" by blast
  moreover have "fold_short_runs [(''a'', 0, 1), (''b'', 2, 9)] = [(''b'', 0, 9)]" by code_simp
  ultimately show ?thesis by blast
qed

text \<open>
  The evidence pass keeps the runs ordered, invents no minute, never takes a minute from a run that
  has evidence of its own, and leaves no two touching runs of one owner.
\<close>

lemma evidence_merge:
  "runs_ok rs \<Longrightarrow> runs_ok (merge_by_evidence rs keyed) \<and>
   minutes_of (merge_by_evidence rs keyed) \<subseteq> minutes_of rs \<and>
   strong_owned keyed rs \<subseteq> (\<Union>r\<in>set (merge_by_evidence rs keyed). run_owned r) \<and>
   successively runs_apart (merge_by_evidence rs keyed)"
  using merge_by_evidence_inv[of rs keyed] merge_by_evidence_maximal[of rs keyed]
  by (simp add: successively_touch)

lemma evidence_merge_witness:
  "merge_by_evidence [(''a'', 0, 19), (''b'', 20, 22), (''a'', 23, 60)] [(1, ''a'', True, 5), (21, ''b'', False, 0)] = [(''a'', 0, 60)] \<and>
   runs_ok (merge_by_evidence [(''a'', 0, 19), (''b'', 20, 22), (''a'', 23, 60)] [(1, ''a'', True, 5), (21, ''b'', False, 0)])"
  proof -
  have "runs_ok [(''a'', 0, 19), (''b'', 20, 22), (''a'', 23, 60)]" by code_simp
  from evidence_merge[OF this] have
    "runs_ok (merge_by_evidence [(''a'', 0, 19), (''b'', 20, 22), (''a'', 23, 60)] [(1, ''a'', True, 5), (21, ''b'', False, 0)])" by blast
  moreover have "merge_by_evidence [(''a'', 0, 19), (''b'', 20, 22), (''a'', 23, 60)] [(1, ''a'', True, 5), (21, ''b'', False, 0)] = [(''a'', 0, 60)]"
    by code_simp
  ultimately show ?thesis by blast
qed

text \<open>
  The two-map loop of \<open>drop_isolated_claude_work\<close> keeps a background event exactly when it names no
  session, or follows a prompt of its session by at most \<open>HEARTBEAT_RECENT_MINUTES\<close>, or is a
  \<open>claude_work\<close> marker with another one of its session within \<open>HEARTBEAT_DENSE_MINUTES\<close>; every
  other event stays.
\<close>

lemma background_noise:
  "drop_isolated_claude_work events =
   filter (\<lambda>e. if background e \<and> ev_session e \<noteq> None
     then (\<exists>p\<in>set events. is_prompt p \<and> ev_session p = ev_session e \<and>
            minute (ev_ts p) \<le> minute (ev_ts e) \<and> minute (ev_ts e) - minute (ev_ts p) \<le> HEARTBEAT_RECENT_MINUTES) \<or>
          (ev_source e = ''claude_work'' \<and>
           1 < length (filter (\<lambda>w. ev_source w = ''claude_work'' \<and> ev_session w = ev_session e \<and>
                 \<bar>minute (ev_ts w) - minute (ev_ts e)\<bar> \<le> HEARTBEAT_DENSE_MINUTES) events))
     else True) events"
  unfolding drop_isolated_claude_work_def keeps_background_iff by (rule filter_cong[OF refl]) auto

text \<open>
  After \<open>dedupe_shell_events\<close> every \<open>shell\<close> key of the input occurs exactly once, and the events of the
  other sources are what and where they were.
\<close>

lemma shell_dedupe:
  "set (shell_keys (dedupe_shell_events es)) = set (shell_keys es) \<and>
   distinct (shell_keys (dedupe_shell_events es)) \<and>
   filter (\<lambda>e. ev_source e \<noteq> ''shell'') (dedupe_shell_events es) = filter (\<lambda>e. ev_source e \<noteq> ''shell'') es"
  by (simp only: dedupe_shell_events_def dedupe_shell_keys dedupe_shell_distinct dedupe_shell_others Diff_empty simp_thms)

text \<open>
  The forward and backward pass of \<open>fill_session_folders\<close> together give an event without a folder the
  folder of the last earlier event of its session that has one, else of the first later one; every other
  event is unchanged.
\<close>

lemma session_folders:
  "i < length es \<Longrightarrow> fill_session_folders es ! i =
   (case ev_session (es ! i) of
      None \<Rightarrow> es ! i
    | Some s \<Rightarrow> (case ev_path (es ! i) of
        Some p \<Rightarrow> es ! i
      | None \<Rightarrow> (es ! i)\<lparr>ev_path := session_folder es i s\<rparr>))"
  by (rule fill_session_folders_nth)

lemma session_folders_witness:
  "map ev_path (fill_session_folders [sample_event ''shell'' 0 None, sample_event ''shell'' 1 (Some ''/a''), sample_event ''shell'' 2 None])
     = [Some ''/a'', Some ''/a'', Some ''/a''] \<and>
   ev_path (fill_session_folders [sample_event ''shell'' 0 None, sample_event ''shell'' 1 (Some ''/a'')] ! 0) = Some ''/a''"
  proof -
  have "ev_path (fill_session_folders [sample_event ''shell'' 0 None, sample_event ''shell'' 1 (Some ''/a'')] ! 0) = Some ''/a''"
    by (subst session_folders) (simp_all add: sample_event_def session_folder_def knows_def)
  moreover have "map ev_path (fill_session_folders [sample_event ''shell'' 0 None, sample_event ''shell'' 1 (Some ''/a''), sample_event ''shell'' 2 None])
     = [Some ''/a'', Some ''/a'', Some ''/a'']" by code_simp
  ultimately show ?thesis by blast
qed

text \<open>
  Every block of \<open>build_blocks_sequential\<close> is well formed (bounds, seconds, ids and ticket as its events
  say, flagged exactly above four hours), the blocks are in start order, and together they hold exactly
  the events of the clusters that are long enough to keep: splitting by project loses no event.
\<close>

lemma sequential_blocks:
  "list_all block_final (build_blocks_sequential env events) \<and>
   sorted (map ib_start (build_blocks_sequential env events)) \<and>
   mset (concat (map ib_events (build_blocks_sequential env events))) =
     mset (concat (map ib_events (filter kept_cluster (clusters env events)))) \<and>
   concat (map ib_events (clusters env events)) = sort_key ev_ts events"
  using build_blocks_sequential_final[of env events]
  by (simp add: list_all_iff build_blocks_sequential_sorted build_blocks_sequential_events clusters_events)

text \<open>
  A new cluster is started only for a reason: two neighbouring clusters are more than
  \<open>TIMEOUT_MINUTES\<close> apart, unless one of them is a calendar event.
\<close>

lemma clusters_apart:
  "successively apart (clusters env events)"
  by (cases "sort_key ev_ts events") (simp_all add: clusters_def cluster_apart)

text \<open>
  Splitting a block where its project changes partitions its events in their order, and every part is a
  well-formed block of at least \<open>MIN_BLOCK_MINUTES\<close> again.
\<close>

lemma split_by_project_partition:
  "block_final b \<Longrightarrow> concat (map ib_events (split_by_project b)) = ib_events b \<and>
   list_all block_final (split_by_project b)"
  using split_loses_nothing[of b] by (simp add: list_all_iff)

lemma split_by_project_witness:
  "map (\<lambda>b. map ev_id (ib_events b)) (split_by_project sample_block) =
     [map Some [0, 2, 4, 6, 8], map Some [12, 14, 16, 18, 20]] \<and> list_all block_final (split_by_project sample_block)"
  proof -
  have "block_final sample_block" by code_simp
  from split_by_project_partition[OF this] have "list_all block_final (split_by_project sample_block)" by blast
  moreover have "map (\<lambda>b. map ev_id (ib_events b)) (split_by_project sample_block) =
     [map Some [0, 2, 4, 6, 8], map Some [12, 14, 16, 18, 20]]" by code_simp
  ultimately show ?thesis by blast
qed

text \<open>
  \<open>span_block\<close> yields a block exactly when an event or a fallback names a folder and the span is not
  empty, and not shorter than \<open>MIN_BLOCK_MINUTES\<close> unless thin blocks are kept; the block has exactly the
  span asked for, is well formed, and its ticket is the one its events share.
\<close>

lemma span_block_contract:
  "case span_block env events s e fallback keep_thin of
     None \<Rightarrow> \<not> (list_ex has_path (events @ fallback) \<and> s < e \<and> (keep_thin \<or> minutes MIN_BLOCK_MINUTES \<le> e - s))
   | Some b \<Rightarrow> list_ex has_path (events @ fallback) \<and> s < e \<and> (keep_thin \<or> minutes MIN_BLOCK_MINUTES \<le> e - s) \<and>
       ib_start b = s \<and> ib_end b = e \<and> row_ok b \<and> flag_ok b \<and> ib_jira b = unique_jira_issue (ib_events b)"
  using span_block_None[of env events s e fallback keep_thin] span_block_Some[of env events s e fallback keep_thin]
  by (cases "span_block env events s e fallback keep_thin") auto

text \<open>
  Merging touching pieces of one project keeps every row well formed, covers exactly the same time and
  changes no total length.
\<close>

lemma merge_touching_rows:
  "\<forall>b\<in>set bs. row_ok b \<Longrightarrow> list_all row_ok (merge_touching_same_project env bs) \<and>
   (\<Union>b\<in>set (merge_touching_same_project env bs). block_span b) = (\<Union>b\<in>set bs. block_span b) \<and>
   total_length (merge_touching_same_project env bs) = total_length bs"
  using merge_touching_same_project_rows[of bs env] merge_touching_same_project_length[of env bs]
  by (simp add: list_all_iff)

lemma merge_touching_rows_witness:
  "map (\<lambda>b. (ib_start b, ib_end b, ib_count b))
     (merge_touching_same_project sample_env [touch_block 0 10, touch_block 10 20]) = [(at_minute 0, at_minute 20, 1)] \<and>
   total_length (merge_touching_same_project sample_env [touch_block 0 10, touch_block 10 20]) = total_length [touch_block 0 10, touch_block 10 20]"
  proof -
  have "\<forall>b\<in>set [touch_block 0 10, touch_block 10 20]. row_ok b" by code_simp
  from merge_touching_rows[OF this, of sample_env] have
    "total_length (merge_touching_same_project sample_env [touch_block 0 10, touch_block 10 20]) = total_length [touch_block 0 10, touch_block 10 20]"
    by blast
  moreover have "map (\<lambda>b. (ib_start b, ib_end b, ib_count b))
     (merge_touching_same_project sample_env [touch_block 0 10, touch_block 10 20]) = [(at_minute 0, at_minute 20, 1)]" by code_simp
  ultimately show ?thesis by blast
qed

text \<open>
  Dividing a block of a shared folder between customers moves no time: the pieces tile the span of the
  block exactly, each after the other, and no piece links tagged events of two customers.
\<close>

lemma divide_block_tiling:
  "NS \<le> ib_end b - ib_start b \<Longrightarrow> set (ib_events b) \<subseteq> set day \<Longrightarrow>
   spans_tile (ib_start b) (ib_end b) (divide_block env day b) \<and>
   list_all (\<lambda>p. one_customer env (ib_events p)) (divide_block env day b)"
  using divide_block_tiles[of b day env] divide_block_one_customer[of env day b] by (simp add: list_all_iff)

lemma divide_block_witness:
  "map (\<lambda>b. (ib_start b, ib_end b)) (divide_block sample_env tagged_day tagged_block) =
     [(at_minute 0, at_minute 12), (at_minute 12, at_minute 22)] \<and>
   spans_tile (ib_start tagged_block) (ib_end tagged_block) (divide_block sample_env tagged_day tagged_block)"
  proof -
  have "NS \<le> ib_end tagged_block - ib_start tagged_block" by code_simp
  moreover have "set (ib_events tagged_block) \<subseteq> set tagged_day" by code_simp
  ultimately have "spans_tile (ib_start tagged_block) (ib_end tagged_block) (divide_block sample_env tagged_day tagged_block)"
    using divide_block_tiling[of tagged_block tagged_day sample_env] by blast
  moreover have "map (\<lambda>b. (ib_start b, ib_end b)) (divide_block sample_env tagged_day tagged_block) =
     [(at_minute 0, at_minute 12), (at_minute 12, at_minute 22)]" by code_simp
  ultimately show ?thesis by blast
qed

text \<open>
  Events without a folder never make or stretch a block: \<open>place_folderless\<close> leaves day, bounds, seconds
  and flags of every block alone and links each event exactly once when some block contains it, and not
  at all otherwise.
\<close>

lemma folderless_ride_along:
  "map frame (place_folderless bs es) = map frame bs \<and>
   mset (concat (map ib_events (place_folderless bs es))) =
     mset (concat (map ib_events bs)) + mset (filter (\<lambda>e. list_ex (rides_in e) bs) es)"
  using place_folderless_spec[of bs es] by (simp add: list_ex_iff)

text \<open>
  The owner's split hands out every second: on intervals that run forward and at least one share the
  clamp never panics, the pieces have together exactly the seconds of the intervals, and each piece runs
  forward inside one interval and carries a project of the split.
\<close>

lemma split_hands_out_everything:
  "forward intervals \<Longrightarrow> shares \<noteq> [] \<Longrightarrow>
   \<exists>ps. split_intervals intervals shares = Some ps \<and> piece_seconds ps = total_seconds intervals \<and>
     list_all (\<lambda>(q, a, b). q \<in> fst ` set shares \<and> a < b \<and> (\<exists>(s, e)\<in>set intervals. s \<le> a \<and> b \<le> e)) ps"
  proof -
  assume f: "forward intervals" and s: "shares \<noteq> []"
  from split_intervals_seconds[OF this] obtain ps where
    "split_intervals intervals shares = Some ps" "piece_seconds ps = total_seconds intervals" by blast
  with split_intervals_inside[OF f, of shares ps] show ?thesis unfolding list_all_iff by fast
qed

lemma split_hands_out_everything_witness:
  "split_intervals [(0, seconds 100)] [(''a'', 1 / 4), (''b'', 3 / 4)]
     = Some [(''a'', 0, seconds 25), (''b'', seconds 25, seconds 100)] \<and>
   (\<exists>ps. split_intervals [(0, seconds 100)] [(''a'', 1 / 4), (''b'', 3 / 4)] = Some ps \<and>
      piece_seconds ps = total_seconds [(0, seconds 100)])"
  proof -
  have "forward [(0, seconds 100)]" by code_simp
  from split_hands_out_everything[OF this, of "[(''a'', 1 / 4), (''b'', 3 / 4)]"]
  have "\<exists>ps. split_intervals [(0, seconds 100)] [(''a'', 1 / 4), (''b'', 3 / 4)] = Some ps \<and>
      piece_seconds ps = total_seconds [(0, seconds 100)]" by blast
  moreover have "split_intervals [(0, seconds 100)] [(''a'', 1 / 4), (''b'', 3 / 4)]
     = Some [(''a'', 0, seconds 25), (''b'', seconds 25, seconds 100)]" by code_simp
  ultimately show ?thesis by blast
qed

text \<open>
  Re-cutting a window by the owner's split changes which project the time belongs to, never how much
  there is, for whole-second blocks and projects that have an event that day.
\<close>

lemma split_window_conserves:
  "fair_hash env \<Longrightarrow> aw_start w \<le> aw_end w \<Longrightarrow> aw_shares w \<noteq> [] \<Longrightarrow> whole (aw_start w) \<Longrightarrow> whole (aw_end w) \<Longrightarrow>
   (\<And>p. p \<in> fst ` set (aw_shares w) \<Longrightarrow> known_project env day p) \<Longrightarrow>
   (\<And>b. b \<in> set blocks \<Longrightarrow> ib_start b < ib_end b \<and> whole (ib_start b) \<and> whole (ib_end b)) \<Longrightarrow>
   \<exists>out. split_window env day blocks w = Some out \<and> total_length out = total_length blocks"
  by (rule split_window_length)

lemma split_window_conserves_witness:
  "map_option (map (\<lambda>b. (ib_start b, ib_end b))) (split_window sample_env sample_day [touch_block 0 10] sample_window)
     = Some [(at_minute 0, at_minute 4), (at_minute 8, at_minute 10), (at_minute 4, at_minute 5), (at_minute 5, at_minute 8)] \<and>
   (\<exists>out. split_window sample_env sample_day [touch_block 0 10] sample_window = Some out \<and> total_length out = total_length [touch_block 0 10])"
  proof -
  have w: "aw_start sample_window \<le> aw_end sample_window" "aw_shares sample_window \<noteq> []"
    "whole (aw_start sample_window)" "whole (aw_end sample_window)" by code_simp+
  have keys: "fst ` set (aw_shares sample_window) = {''a'', ''b''}" by (simp add: sample_window_def)
  have "list_all (known_project sample_env sample_day) [''a'', ''b'']" by code_simp
  then have known: "\<And>p. p \<in> fst ` set (aw_shares sample_window) \<Longrightarrow> known_project sample_env sample_day p"
    unfolding keys by auto
  have b: "ib_start (touch_block 0 10) < ib_end (touch_block 0 10) \<and> whole (ib_start (touch_block 0 10)) \<and> whole (ib_end (touch_block 0 10))"
    by code_simp
  have "\<exists>out. split_window sample_env sample_day [touch_block 0 10] sample_window = Some out \<and> total_length out = total_length [touch_block 0 10]"
    by (rule split_window_conserves[OF sample_fair w known]) (use b in simp_all)
  moreover have "map_option (map (\<lambda>b. (ib_start b, ib_end b))) (split_window sample_env sample_day [touch_block 0 10] sample_window)
     = Some [(at_minute 0, at_minute 4), (at_minute 8, at_minute 10), (at_minute 4, at_minute 5), (at_minute 5, at_minute 8)]"
    by code_simp
  ultimately show ?thesis by blast
qed

text \<open>
  The sweep of \<open>overlap_windows\<close> finds exactly the instants at which two or more intervals are active, as
  non-empty windows in order that do not even touch.
\<close>

lemma overlap_sweep:
  "(\<Union>w\<in>set (overlap_windows ivs). stretch_set w) = {t. 2 \<le> active_at ivs t} \<and>
   list_all stretch_ok (overlap_windows ivs) \<and> sorted_wrt stretch_before (overlap_windows ivs) \<and>
   successively (\<lambda>p q. snd p < fst q) (overlap_windows ivs)"
  using overlap_windows_exact[of ivs] overlap_windows_ordered[of ivs] by (simp add: list_all_iff)

text \<open>
  The stretches of one project cover exactly its work events, each reaching \<open>WINDOW_MINUTES\<close> past its
  end, and two stretches are always more than that apart.
\<close>

lemma project_stretches_bridge:
  "(\<Union>w\<in>set (project_stretches env events project). stretch_reach w) =
     (\<Union>e\<in>{e\<in>set events. work_key env e = Some project}. {ev_ts e..ev_end e + minutes WINDOW_MINUTES}) \<and>
   successively (\<lambda>p q. minutes WINDOW_MINUTES < fst q - snd p) (project_stretches env events project)"
  using project_stretches_spec[of env events project] by blast

text \<open>
  Cutting the rebuilt blocks where a ticketed block of the previous build began keeps the total length, for
  blocks of which some event names a folder.
\<close>

lemma ticket_cut_conserves:
  "(\<And>b. b \<in> set blocks \<Longrightarrow> ib_start b < ib_end b \<and> list_ex has_path (ib_events b)) \<Longrightarrow>
   total_length (cut_at_ticket_edges env blocks ticketed) = total_length blocks"
  by (rule cut_at_ticket_edges_length)

lemma ticket_cut_conserves_witness:
  "map (\<lambda>b. (ib_start b, ib_end b)) (cut_at_ticket_edges sample_env [touch_block 0 20]
       [(at_minute 0, at_minute 9, ''T-1''), (at_minute 9, at_minute 20, ''T-2'')]) = [(at_minute 0, at_minute 9), (at_minute 9, at_minute 20)] \<and>
   total_length (cut_at_ticket_edges sample_env [touch_block 0 20]
       [(at_minute 0, at_minute 9, ''T-1''), (at_minute 9, at_minute 20, ''T-2'')]) = total_length [touch_block 0 20]"
  proof -
  have b: "ib_start (touch_block 0 20) < ib_end (touch_block 0 20) \<and> list_ex has_path (ib_events (touch_block 0 20))" by code_simp
  have "total_length (cut_at_ticket_edges sample_env [touch_block 0 20]
       [(at_minute 0, at_minute 9, ''T-1''), (at_minute 9, at_minute 20, ''T-2'')]) = total_length [touch_block 0 20]"
    by (rule ticket_cut_conserves) (use b in simp)
  moreover have "map (\<lambda>b. (ib_start b, ib_end b)) (cut_at_ticket_edges sample_env [touch_block 0 20]
       [(at_minute 0, at_minute 9, ''T-1''), (at_minute 9, at_minute 20, ''T-2'')]) = [(at_minute 0, at_minute 9), (at_minute 9, at_minute 20)]"
    by code_simp
  ultimately show ?thesis by blast
qed

text \<open>
  A description that was not hand-written is kept exactly when the length of the block changed by less
  than half an hour and by a factor of at most one and a half, the same for growing and for shrinking.
\<close>

lemma description_length_rule:
  "0 \<le> p \<Longrightarrow> 0 \<le> n \<Longrightarrow>
   keeps_description (0, p) (0, n) by = (by = Some ''manual'' \<or> (\<bar>n - p\<bar> < 30 \<and> 2 * p \<le> 3 * n \<and> 2 * n \<le> 3 * p)) \<and>
   keeps_description (0, p) (0, n) by = keeps_description (0, n) (0, p) by"
  using keeps_description_iff[of p n "by"] keeps_description_sym[of 0 p 0 n "by"] by simp

lemma description_length_rule_witness:
  "keeps_description (0, 40) (0, 60) None \<and> \<not> keeps_description (0, 40) (0, 61) None \<and>
   keeps_description (0, 40) (0, 60) None = keeps_description (0, 60) (0, 40) None"
  proof -
  have "keeps_description (0, 40) (0, 60) None" "keeps_description (0, 40) (0, 60) None = keeps_description (0, 60) (0, 40) None"
    using description_length_rule[of 40 60 None] by linarith+
  moreover have "\<not> keeps_description (0, 40) (0, 61) None" using description_length_rule[of 40 61 None] by simp
  ultimately show ?thesis by blast
qed

text \<open>
  Hand-set rows keyed by a block start follow the rebuilt blocks: a start that still exists keeps its row,
  a new start inherits the row of the old block it overlaps most, and no row stays at a start that is gone.
\<close>

lemma owner_table_carried:
  "distinct (map fst new) \<Longrightarrow> n \<in> set new \<Longrightarrow>
   (carry_table ctx old new existing s \<noteq> None \<longrightarrow> s \<in> fst ` set new) \<and>
   carry_table ctx old new existing (fst n) =
     (case existing (fst n) of
        Some r \<Rightarrow> Some r
      | None \<Rightarrow> (case best_old ctx existing old n of Some p \<Rightarrow> existing p | None \<Rightarrow> None))"
  by (rule carry_table_value)

lemma owner_table_carried_witness:
  "carry_table sample_ctx [(sample_iso 0, sample_iso (at_minute 10))] [(sample_iso (at_minute 1), sample_iso (at_minute 9))]
      [sample_iso 0 \<mapsto> ''row''] (sample_iso (at_minute 1)) = Some ''row''"
  proof -
  have "distinct (map fst [(sample_iso (at_minute 1), sample_iso (at_minute 9))])"
    "(sample_iso (at_minute 1), sample_iso (at_minute 9)) \<in> set [(sample_iso (at_minute 1), sample_iso (at_minute 9))]" by simp_all
  note r = owner_table_carried[OF this, of sample_ctx "[(sample_iso 0, sample_iso (at_minute 10))]" "[sample_iso 0 \<mapsto> ''row'']"]
  have "best_old sample_ctx [sample_iso 0 \<mapsto> ''row''] [(sample_iso 0, sample_iso (at_minute 10))]
      (sample_iso (at_minute 1), sample_iso (at_minute 9)) = Some (sample_iso 0)" by code_simp
  moreover have "sample_iso (at_minute 1) \<noteq> sample_iso 0" by code_simp
  ultimately show ?thesis using r by simp
qed

text \<open>
  When its clues lie inside the block, \<open>split_block\<close> covers the block exactly, its slices add up to its
  length, and every second goes to the customer of a clue nearest to it among the strongest of each minute.
\<close>

lemma clue_split_exact:
  "in_block s e clues \<Longrightarrow>
   \<exists>slices. split_block s e clues = Some slices \<and>
     (\<Union>sl\<in>set slices. slice_set sl) = {s..<e} \<and> sum_list (map slice_seconds slices) = e - s \<and>
     (\<forall>sl\<in>set slices. \<forall>t\<in>slice_set sl. \<exists>c\<in>set (winners (survivors clues)). cs_customer sl = Some (cl_customer c) \<and>
        (\<forall>d\<in>set (winners (survivors clues)). clue_dist t c \<le> clue_dist t d))"
  proof -
  assume i: "in_block s e clues"
  from split_block_Some[OF i] obtain slices where sl: "split_block s e clues = Some slices" by blast
  with split_block_cover[OF i sl] split_block_sum[OF i sl] split_block_nearest[OF i sl] show ?thesis by blast
qed

lemma clue_split_exact_witness:
  "map_option (map (\<lambda>sl. (cs_customer sl, cs_intervals sl))) (split_block 0 600 sample_clues)
     = Some [(Some ''Acme'', [(0, 181)]), (Some ''Bolt'', [(181, 600)])] \<and>
   (\<exists>slices. split_block 0 600 sample_clues = Some slices \<and> sum_list (map slice_seconds slices) = 600)"
  proof -
  have "in_block 0 600 sample_clues" by code_simp
  from clue_split_exact[OF this]
  have "\<exists>slices. split_block 0 600 sample_clues = Some slices \<and> sum_list (map slice_seconds slices) = 600" by auto
  moreover have "map_option (map (\<lambda>sl. (cs_customer sl, cs_intervals sl))) (split_block 0 600 sample_clues)
     = Some [(Some ''Acme'', [(0, 181)]), (Some ''Bolt'', [(181, 600)])]" by code_simp
  ultimately show ?thesis by blast
qed

text \<open>
  Hand-set shares always partition the block: one consecutive slice per row, in \<open>(customer, deild)\<close> order,
  whatever the fractions are, and the clamp never panics.
\<close>

lemma manual_rows_partition:
  "s \<le> e \<Longrightarrow> rows \<noteq> [] \<Longrightarrow>
   \<exists>slices. slices_from_rows s e rows = Some slices \<and>
     map bs_customer slices = map (Some \<circ> sr_customer) (sort_key (\<lambda>r. (sr_customer r, sr_deild r)) rows) \<and>
     partition_range s e (concat (map bs_intervals slices))"
  by (rule slices_from_rows_partition)

lemma manual_rows_partition_witness:
  "map_option (map bs_intervals) (slices_from_rows 0 100 sample_rows) = Some [[(0, 25)], [(25, 100)]] \<and>
   (\<exists>slices. slices_from_rows 0 100 sample_rows = Some slices \<and> partition_range 0 100 (concat (map bs_intervals slices)))"
  proof -
  have "sample_rows \<noteq> []" by (simp add: sample_rows_def)
  with manual_rows_partition[of 0 100 sample_rows]
  have "\<exists>slices. slices_from_rows 0 100 sample_rows = Some slices \<and> partition_range 0 100 (concat (map bs_intervals slices))" by auto
  moreover have "map_option (map bs_intervals) (slices_from_rows 0 100 sample_rows) = Some [[(0, 25)], [(25, 100)]]" by code_simp
  ultimately show ?thesis by blast
qed

text \<open>
  Nothing is guessed: a customer or deild is read off a text exactly when it is the only one of the
  registry (of that customer) that the text matches.
\<close>

lemma names_only_when_unambiguous:
  "(customer_in_text uc reg told = Some name) =
     (cu_name ` {c\<in>set (rg_customers reg). customer_matches uc told c} = {name}) \<and>
   (deild_in_text uc deildir customer told = Some d) =
     (de_name ` {x\<in>set deildir. de_customer x = customer \<and> list_ex (alias_matches uc told) (de_keywords x)} = {d})"
  by (simp only: customer_in_text_iff deild_in_text_iff simp_thms)

text \<open>
  A list of aliases without separators or outer blanks is stored as one text and read back unchanged; the
  same holds for keywords.
\<close>

lemma aliases_round_trip:
  "list_all clean_item xs \<Longrightarrow> parse_aliases (join_aliases xs) = xs \<and> parse_keywords (join_keywords xs) = xs"
  by (simp add: parse_aliases_def join_aliases_def parse_keywords_def join_keywords_def parse_join_list list_all_iff)

lemma aliases_round_trip_witness:
  "parse_aliases (join_aliases [''acme'', ''acme ltd'']) = [''acme'', ''acme ltd'']"
  proof -
  have "list_all clean_item [''acme'', ''acme ltd'']" by code_simp
  from aliases_round_trip[OF this] show ?thesis by blast
qed

text \<open>
  Saving keeps the keys of the registry unique: customer names, folders, and deild names of one customer.
\<close>

lemma registry_keys_unique:
  "tables_ok t \<Longrightarrow>
   (\<forall>i t'. upsert_customer n aliases t = Inr (i, t') \<longrightarrow> distinct (map cu_name (bt_customers t'))) \<and>
   (\<forall>i t'. upsert_folder f t = Inr (i, t') \<longrightarrow> distinct (map fm_folder (bt_folders t'))) \<and>
   (\<forall>i t'. upsert_deild did c dn ks t = Inr (i, t') \<longrightarrow> distinct (map (\<lambda>d. (de_customer d, de_name d)) (bt_deildir t')))"
  using upsert_customer_unique[of t n aliases] upsert_folder_unique[of t f] upsert_deild_unique[of t did c dn ks]
  by (auto simp: tables_ok_def)

lemma registry_keys_unique_witness:
  "map_sum (\<lambda>e. e) (\<lambda>(i, t). (i, map de_name (bt_deildir t))) (upsert_deild (Some 1) ''Acme'' ''HR'' [''people''] sample_tables)
     = Inr (1, [''HR'', ''Ops'']) \<and>
   (\<exists>i t'. upsert_deild (Some 1) ''Acme'' ''HR'' [''people''] sample_tables = Inr (i, t') \<and>
      distinct (map (\<lambda>d. (de_customer d, de_name d)) (bt_deildir t')))"
  proof -
  have "tables_ok sample_tables" by code_simp
  from registry_keys_unique[OF this, of "[]" "[]" undefined "Some 1" "''Acme''" "''HR''" "[''people'']"]
  have d: "upsert_deild (Some 1) ''Acme'' ''HR'' [''people''] sample_tables = Inr (i, t') \<Longrightarrow>
      distinct (map (\<lambda>d. (de_customer d, de_name d)) (bt_deildir t'))" for i t' by blast
  have e: "map_sum (\<lambda>e. e) (\<lambda>(i, t). (i, map de_name (bt_deildir t))) (upsert_deild (Some 1) ''Acme'' ''HR'' [''people''] sample_tables)
     = Inr (1, [''HR'', ''Ops''])" by code_simp
  then obtain i t' where "upsert_deild (Some 1) ''Acme'' ''HR'' [''people''] sample_tables = Inr (i, t')"
    by (cases "upsert_deild (Some 1) ''Acme'' ''HR'' [''people''] sample_tables") auto
  with d e show ?thesis by blast
qed

text \<open>
  A stored pin decides: read back from the table, it gives its customer to every event of its session from
  its time on, up to the next pin of that session, whatever the text guess is.
\<close>

lemma stored_pin_takes_effect:
  "from_rfc3339 ck (to_rfc3339 ck t) = Some t \<Longrightarrow>
   (\<And>r. r \<in> set (snd (store_pin ck sid c t folder branch source rows)) \<Longrightarrow>
        from_rfc3339 ck (pr_from r) = Some t \<Longrightarrow> pr_from r = to_rfc3339 ck t) \<Longrightarrow>
   pins_for_sessions ck sids (snd (store_pin ck sid c t folder branch source rows)) = Some pins \<Longrightarrow> sid \<in> set sids \<Longrightarrow>
   t \<le> u \<Longrightarrow> (\<And>p. p \<in> set pins \<Longrightarrow> sp_session p = sid \<Longrightarrow> t < sp_from p \<Longrightarrow> u < sp_from p) \<Longrightarrow>
   resolve_event_customer pins sid u start guess = (Some c, True)"
  by (rule stored_pin_covers)

lemma stored_pin_takes_effect_witness:
  "\<exists>pins. pins_for_sessions sample_clock [''s1''] (snd (store_pin sample_clock ''s1'' ''Acme'' (at_minute 3) ''infra'' None ''claude'' [])) = Some pins \<and>
     resolve_event_customer pins ''s1'' (at_minute 9) 0 (Some ''Bolt'') = (Some ''Acme'', True)"
  proof -
  let ?rows = "snd (store_pin sample_clock ''s1'' ''Acme'' (at_minute 3) ''infra'' None ''claude'' [])"
  let ?pin = "\<lparr>sp_session = ''s1'', sp_customer = ''Acme'', sp_from = at_minute 3, sp_folder = ''infra'', sp_branch = None, sp_source = ''claude''\<rparr>"
  have load: "pins_for_sessions sample_clock [''s1''] ?rows = Some [?pin]"
    by (simp add: pins_for_sessions_def store_pin_def raw_to_pin_def sample_clock_def sample_iso_def at_minute_def time_defs)
  have "resolve_event_customer [?pin] ''s1'' (at_minute 9) 0 (Some ''Bolt'') = (Some ''Acme'', True)"
    by (rule stored_pin_takes_effect[OF _ _ load])
       (simp_all add: store_pin_def sample_clock_def sample_iso_def at_minute_def time_defs)
  with load show ?thesis by blast
qed

text \<open>
  \<open>tag_sessions\<close> tags an event with the customer its session resolves to exactly when the folder of the event
  hosts at least two customers that day; all other events are left as they are.
\<close>

lemma tagging_spec:
  "i < length events \<Longrightarrow> tag_sessions env uc reg pins events ! i =
    (case session_customer env uc reg pins events i of
       None \<Rightarrow> events ! i
     | Some c \<Rightarrow> if 2 \<le> card (folder_customers env uc reg pins events (lane_folder env (events ! i)))
                 then (events ! i)\<lparr>ev_tag := Some c\<rparr> else events ! i)"
  by (rule tag_sessions_nth)

lemma tagging_spec_witness:
  "ev_tag (tag_sessions sample_env sample_unicode sample_registry [] [sample_event ''shell'' 0 None] ! 0) = None"
  proof -
  have "session_customer sample_env sample_unicode sample_registry [] [sample_event ''shell'' 0 None] 0 = None" by code_simp
  then show ?thesis by (subst tagging_spec) (simp_all add: sample_event_def)
qed

text \<open>
  After a link was saved the tenant resolves as the owner said: ignored beats a customer, a customer beats
  the alias match, and removing the link goes back to the alias match.
\<close>

lemma tenant_link_decides:
  "link_tenant reg link links = Inr links' \<Longrightarrow>
   resolve_origin uc links' reg (tl_folder link) (tl_tenant link) =
    (if tl_ignored link then (None, Ignored)
     else case tl_customer link of Some c \<Rightarrow> (Some c, tenant_origin.Link) | None \<Rightarrow> by_alias uc reg (tl_tenant link))"
  by (rule resolve_origin_after)

lemma tenant_link_decides_witness:
  "\<exists>links'. link_tenant sample_registry \<lparr>tl_folder = ''infra'', tl_tenant = ''prod'', tl_customer = Some ''acme'', tl_ignored = False\<rparr> [] = Inr links' \<and>
     resolve_origin sample_unicode links' sample_registry ''infra'' ''prod'' = (Some ''acme'', tenant_origin.Link)"
  proof -
  let ?link = "\<lparr>tl_folder = ''infra'', tl_tenant = ''prod'', tl_customer = Some ''acme'', tl_ignored = False\<rparr>"
  have "link_tenant sample_registry ?link [] = Inr [?link]" by code_simp
  from tenant_link_decides[OF this] \<open>link_tenant sample_registry ?link [] = Inr [?link]\<close> show ?thesis by auto
qed

text \<open>
  What the owner saves decides: after \<open>save_rows\<close> the block has one slice per saved row, in (customer,
  deild) order, and the slices partition its span, whatever pins, clues or earlier shares say.
\<close>

lemma saved_split_wins:
  "save_rows (bd_json db) reg (bk_day b, bk_start b) rows t = Inr (bd_shares db) \<Longrightarrow>
   read_rows (bd_json db) (show_rows (bd_json db) rows) = Some rows \<Longrightarrow> rows \<noteq> [] \<Longrightarrow>
   \<exists>slices. resolve_block_slices db b folder = Inr slices \<and>
     map bs_customer slices = map (Some \<circ> sr_customer) (sort_key (\<lambda>r. (sr_customer r, sr_deild r)) rows) \<and>
     partition_range (fst (block_interval (bd_clock db) b)) (snd (block_interval (bd_clock db) b)) (concat (map bs_intervals slices))"
  proof -
  assume s: "save_rows (bd_json db) reg (bk_day b, bk_start b) rows t = Inr (bd_shares db)"
    "read_rows (bd_json db) (show_rows (bd_json db) rows) = Some rows" "rows \<noteq> []"
  obtain x y where i: "block_interval (bd_clock db) b = (x, y)" by fastforce
  from resolve_saved[OF load_after_save_rows(1)[OF s(1,2)] s(3) i block_interval_forward[OF i]]
  obtain slices where "resolve_block_slices db b folder = Inr slices"
    "map bs_customer slices = map (Some \<circ> sr_customer) (sort_key (\<lambda>r. (sr_customer r, sr_deild r)) rows)"
    "partition_range x y (concat (map bs_intervals slices))" .
  with i show ?thesis by auto
qed

lemma saved_split_wins_witness:
  "\<exists>t' slices. save_rows sample_json two_customers (bk_day (logged_block 1 0 3600 None), bk_start (logged_block 1 0 3600 None)) sample_rows (\<lambda>_. None) = Inr t' \<and>
     resolve_block_slices (sample_billing t') (logged_block 1 0 3600 None) ''infra'' = Inr slices \<and>
     map bs_customer slices = [Some ''Acme'', Some ''Bolt'']"
  proof -
  let ?b = "logged_block 1 0 3600 None"
  let ?k = "(bk_day ?b, bk_start ?b)"
  let ?t = "[?k \<mapsto> \<lparr>se_rows_json = Some ''rows'', se_shares = ''{}''\<rparr>]"
  have "validate_rows (known_customer two_customers) sample_rows = Inr ()" by code_simp
  then have s: "save_rows sample_json two_customers ?k sample_rows (\<lambda>_. None) = Inr ?t"
    by (simp add: save_rows_def and_then_def sample_json_def)
  have js: "bd_json (sample_billing ?t) = sample_json" "bd_shares (sample_billing ?t) = ?t" by (simp_all add: sample_billing_def)
  have r: "read_rows sample_json (show_rows sample_json sample_rows) = Some sample_rows" "sample_rows \<noteq> []"
    by (simp_all add: sample_json_def sample_rows_def)
  from saved_split_wins[of "sample_billing ?t" two_customers ?b sample_rows "\<lambda>_. None" "''infra''", unfolded js, OF s r]
  obtain slices where a: "resolve_block_slices (sample_billing ?t) ?b ''infra'' = Inr slices"
    and b: "map bs_customer slices = map (Some \<circ> sr_customer) (sort_key (\<lambda>r. (sr_customer r, sr_deild r)) sample_rows)"
    by (elim exE conjE) (rule that)
  have c: "map (Some \<circ> sr_customer) (sort_key (\<lambda>r. (sr_customer r, sr_deild r)) sample_rows) = [Some ''Acme'', Some ''Bolt'']"
    by code_simp
  show ?thesis by (intro exI[of _ ?t] exI[of _ slices] conjI s a trans[OF b c])
qed

text \<open>
  No line is booked on a guessed deild: it comes from a saved row, from a keyword of that customer in the
  ticket or the description, or from the folder's own default for that customer; else it stays blank.
\<close>

lemma no_invented_deild:
  "case resolve_block_slices db b folder of Inl e \<Rightarrow> True | Inr slices \<Rightarrow> list_all (known_deild db b folder) slices"
  by (cases "resolve_block_slices db b folder") (simp_all add: slices_known)

text \<open>
  The sweep of \<open>union_seconds\<close> over the intervals of blocks returns exactly the number of seconds that lie in
  at least one of them, so parallel blocks are never counted twice.
\<close>

lemma union_seconds_exact:
  "union_seconds (map (block_interval ck) blocks) = int (card (\<Union>b\<in>set blocks. range_set (block_interval ck b)))"
  proof -
  have "forward_range (block_interval ck b)" for b :: block
    using block_interval_forward[of ck b] by (cases "block_interval ck b") (auto simp: forward_range_def)
  then have "list_all forward_range (map (block_interval ck) blocks)" by (simp add: list_all_iff)
  from union_seconds_card[OF this] show ?thesis by simp
qed

text \<open>
  Rounding is bounded: under 15 minutes it gives 0, else the smallest multiple of half an hour that is not
  less; the billable rounding gives at least half an hour for any positive time.
\<close>

lemma half_hour_rounding:
  "HALF_HOUR_SECONDS dvd round_to_half_hour s \<and>
   (if s < 900 then round_to_half_hour s = 0 else s \<le> round_to_half_hour s \<and> round_to_half_hour s < s + HALF_HOUR_SECONDS) \<and>
   (if s \<le> 0 then round_billable_half_hour s = 0
    else round_billable_half_hour s = (if s < 900 then HALF_HOUR_SECONDS else round_to_half_hour s))"
  using round_to_half_hour_spec[of s] by (auto simp: round_billable_half_hour_def HALF_HOUR_SECONDS_def max_def)

text \<open>
  The folder a block bills under is decided by vote: no folder has more events, none with as many comes
  earlier in text order, and there is no folder exactly when no event names one. Session pings do not vote.
\<close>

lemma work_folder_vote:
  "case vw_cards v i of
     Some c \<Rightarrow> work_folder_for_block v i = dg_folder c
   | None \<Rightarrow>
       (case work_folder_for_block v i of
          None \<Rightarrow> folder_votes v (vw_events v i) = []
        | Some f \<Rightarrow>
            f \<in> fst ` set (folder_votes v (vw_events v i)) \<and>
            fst ` set (folder_votes v (vw_events v i)) \<subseteq>
              {x. tally (folder_votes v (vw_events v i)) x < tally (folder_votes v (vw_events v i)) f} \<union>
              {x. tally (folder_votes v (vw_events v i)) x = tally (folder_votes v (vw_events v i)) f \<and> f \<le> x})"
  proof (cases "vw_cards v i")
  case None
  show ?thesis
  proof (cases "top_ranked (folder_votes v (vw_events v i))")
    case None
    with \<open>vw_cards v i = None\<close> top_ranked_None[of "folder_votes v (vw_events v i)"] show ?thesis by (simp add: work_folder_for_block_def)
  next
    case (Some f)
    from \<open>vw_cards v i = None\<close> Some top_ranked_Some(1)[OF Some] top_ranked_Some(2)[OF Some] show ?thesis
      by (simp add: work_folder_for_block_def) blast
  qed
qed (simp add: work_folder_for_block_def)

text \<open>
  Undo makes progress: after at most as many undos as the journal has entries (never more than twenty),
  nothing is left to undo or the next entry touches a block that went to Tempo.
\<close>

lemma undo_reaches_end_of_journal:
  "\<exists>k\<le>length (db_journal db). undo_ends (((\<lambda>db. snd (undo_last db)) ^^ k) db)"
  by (rule undo_reaches_end[OF refl])

text \<open>
  Undo never touches what is in Tempo: a block that carries a worklog keeps its row and its events.
\<close>

lemma undo_spares_synced:
  "undo_last db = (r, db') \<Longrightarrow> synced_now db i \<Longrightarrow> db_blocks db' i = db_blocks db i \<and> links_of db' i = links_of db i"
  by (rule undo_keeps_synced)

lemma undo_spares_synced_witness:
  "db_blocks (snd (undo_last (sample_store (Some ''7'')))) 1 = db_blocks (sample_store (Some ''7'')) 1"
  proof -
  have "synced_now (sample_store (Some ''7'')) 1" by (simp add: synced_now_def sample_store_def marker_set_def) code_simp
  from undo_spares_synced[OF surjective_pairing this] show ?thesis by blast
qed

text \<open>
  A dry run is one: no request leaves, whatever the day holds.
\<close>

lemma dry_run_sends_nothing:
  "ids_ok (td_db td) \<Longrightarrow> sy_log (snd (sync_day te net True day only_issue td)) = []"
  using sync_day_requests(2)[of td te net True day only_issue "fst (sync_day te net True day only_issue td)"
    "snd (sync_day te net True day only_issue td)"] by simp

lemma dry_run_sends_nothing_witness:
  "sy_log (snd (sync_day sample_tempo_env sample_net True ''2026-07-23'' None (sample_tempo None))) = []"
  by (rule dry_run_sends_nothing[OF sample_tempo_ids])

text \<open>
  The first tick of a day that may send delivers the ready lines of that day, each once and in page order;
  with the switch off, or before 17:00 local time, a tick delivers nothing.
\<close>

lemma first_tick_sends_ready:
  "plan ad = None \<Longrightarrow> ready_lines ae ad (tick_day ae now) = Inr ls \<Longrightarrow>
   ad_sends (snd (run_if_due ae (auto_sync ae de) hours now enabled ad)) =
     ad_sends ad @ (if enabled \<and> AUTO_SEND_HOUR \<le> local_hour (ae_offset ae) now then map (\<lambda>l. (tick_day ae now, ln_issue l)) ls else [])"
  proof -
  assume p: "plan ad = None" and r: "ready_lines ae ad (tick_day ae now) = Inr ls"
  have d: "distinct (map ln_issue ls)"
    using ready_of_issues[OF r[unfolded ready_lines_def] lines_for_day_issues] .
  have f: "filter (pending ad (tick_day ae now)) (map ln_issue ls) = map ln_issue ls"
    using ready_pending[OF r] by (auto simp: filter_id_conv)
  show ?thesis
  proof (cases "enabled \<and> AUTO_SEND_HOUR \<le> local_hour (ae_offset ae) now")
    case True
    obtain res ad2 where t: "run_if_due ae (auto_sync ae de) hours now True ad = (res, ad2)" by fastforce
    from daemon.first_tick[OF t _ p r d] True f t show ?thesis by (simp add: comp_def)
  next
    case False
    with p show ?thesis by (auto simp: run_if_due_def)
  qed
qed

lemma first_tick_sends_ready_witness:
  "ad_sends (snd (run_if_due sample_send_env (auto_sync sample_send_env sample_daemon) None five_pm True sample_send)) = [own_line] \<and>
   ad_sends (snd (run_if_due sample_send_env (auto_sync sample_send_env sample_daemon) None (at_minute 1019) True sample_send)) = []"
  proof -
  have p: "plan sample_send = None" by code_simp
  let ?early = "at_minute 1019"
  have one: "\<exists>x. r = Inr [x] \<and> ln_issue x = i" if "map_sum id (map ln_issue) r = Inr [i]" for r :: "bad_column + tempo_line list" and i
    using that by (cases r) (simp_all add: map_eq_Cons_conv)
  have "map_sum id (map ln_issue) (ready_lines sample_send_env sample_send (tick_day sample_send_env five_pm)) = Inr [''T-1'']" by code_simp
  from one[OF this] obtain x where x: "ready_lines sample_send_env sample_send (tick_day sample_send_env five_pm) = Inr [x]" "ln_issue x = ''T-1''"
    by (elim exE conjE) (rule that)
  have "map_sum id (map ln_issue) (ready_lines sample_send_env sample_send (tick_day sample_send_env ?early)) = Inr [''T-1'']" by code_simp
  from one[OF this] obtain y where y: "ready_lines sample_send_env sample_send (tick_day sample_send_env ?early) = Inr [y]"
    by (elim exE conjE) (rule that)
  have h: "AUTO_SEND_HOUR \<le> local_hour (ae_offset sample_send_env) five_pm" "\<not> AUTO_SEND_HOUR \<le> local_hour (ae_offset sample_send_env) ?early"
    "tick_day sample_send_env five_pm = ''2026-07-23''" "ad_sends sample_send = []" by code_simp+
  from first_tick_sends_ready[OF p x(1), of sample_daemon None True] first_tick_sends_ready[OF p y, of sample_daemon None True]
  show ?thesis unfolding own_line_def by (simp only: h x simp_thms if_True if_False list.map append_Nil)
qed

text \<open>
  The plan of the day survives in the \<open>meta\<close> table: reading back the stored text gives the day and the
  issues it was written from, when no key is empty or holds a comma.
\<close>

lemma plan_round_trip:
  "CHR ''|'' \<notin> set day \<Longrightarrow> list_all (\<lambda>i. i \<noteq> [] \<and> \<not> list_ex comma i) issues \<Longrightarrow>
   plan (meta_set PLAN_KEY (show_plan day issues) ad) = Some (day, issues)"
  using plan_reads_back[of day issues] by (simp add: plan_def meta_get_def meta_set_def)

lemma plan_round_trip_witness:
  "plan (meta_set PLAN_KEY (show_plan ''2026-07-23'' [''T-9'', ''T-1'']) sample_send) = Some (''2026-07-23'', [''T-9'', ''T-1''])"
  by (rule plan_round_trip) (simp_all add: comma_def)

text \<open>
  The share of the work-hours window that blocks cover, computed in binary64 and rounded, is a percentage
  whatever the blocks of the day are.
\<close>

lemma recap_coverage_percent:
  "hm_ok (ae_cal ae) \<Longrightarrow> build_recap ae ad day hours = Inr (Some r) \<Longrightarrow> 0 \<le> rp_coverage r \<and> rp_coverage r \<le> 100"
  proof -
  assume ok: "hm_ok (ae_cal ae)" and b: "build_recap ae ad day hours = Inr (Some r)"
  from b obtain win where w: "window (ae_cal ae) (ae_offset ae) day hours = Some win"
    and r: "rp_coverage r = coverage_percent (covered ae ad day win) win"
    by (auto simp: build_recap_def and_then_Inr split: option.splits)
  have "snd win - fst win < 2 ^ 52" using window_short[OF ok w] by simp
  from coverage_bounds[OF w this] show ?thesis by (simp add: r)
qed

lemma recap_coverage_percent_witness:
  "map_sum id (map_option rp_coverage) (build_recap sample_send_env sample_send ''2026-07-23'' sample_hours) = Inr (Some 11) \<and> (11 :: int) \<le> 100"
  proof -
  have v: "map_sum id (map_option rp_coverage) (build_recap sample_send_env sample_send ''2026-07-23'' sample_hours) = Inr (Some 11)" by code_simp
  then obtain r where r: "build_recap sample_send_env sample_send ''2026-07-23'' sample_hours = Inr (Some r)" "rp_coverage r = 11"
    by (cases "build_recap sample_send_env sample_send ''2026-07-23'' sample_hours") auto
  have "hm_ok (ae_cal sample_send_env)" by (auto simp: hm_ok_def sample_send_env_def sample_calendar_def)
  from recap_coverage_percent[OF this r(1)] r(2) v show ?thesis by simp
qed

text \<open>
  Answering a gap touches nothing already there: it adds at most one block, a personal one without a
  ticket for private time, one of the owner's own on the ticket picked, none for a break.
\<close>

lemma gap_answer_adds_one_block:
  "apply_gap_with ae day started action hours ad = (res, ad') \<Longrightarrow>
   td_db (ad_td ad') = td_db (ad_td ad) \<or> (\<exists>b. gap_block action b \<and> td_db (ad_td ad') = insert_block b (td_db (ad_td ad)))"
  by (rule apply_gap_blocks)

lemma gap_answer_adds_one_block_witness:
  "\<exists>b. gap_block GapPersonal b \<and>
     td_db (ad_td (snd (apply_gap_with sample_send_env ''2026-07-23'' (sample_iso 0) GapPersonal [] recapped_send))) = insert_block b own_store"
  proof -
  let ?r = "apply_gap_with sample_send_env ''2026-07-23'' (sample_iso 0) GapPersonal [] recapped_send"
  have s: "td_db (ad_td recapped_send) = own_store" by (simp add: recapped_send_def sample_send_def)
  have "map_option bk_id (db_blocks (td_db (ad_td (snd ?r))) 3) = Some 3" by code_simp
  moreover have "db_blocks own_store 3 = None" by (simp add: own_store_def)
  ultimately have n: "td_db (ad_td (snd ?r)) \<noteq> own_store" by (intro notI) simp
  from gap_answer_adds_one_block[OF surjective_pairing, of sample_send_env "''2026-07-23''" "sample_iso 0" GapPersonal "[]" recapped_send] n s
  show ?thesis by simp
qed

text \<open>
  The size of a card does not depend on the block: every list of it is capped, no entry is longer than 200
  characters, and the counts line up with the entries they count.
\<close>

lemma cards_capped:
  "case build_digest dx db blocks i of Inl e \<Rightarrow> True | Inr c \<Rightarrow> card_capped c"
  by (cases "build_digest dx db blocks i") (simp_all add: build_digest_capped)

text \<open>
  Compression is due once for each cutoff: a call that fails changes nothing and stays due; after a call
  that succeeds, the next one for the same cutoff finds nothing to do.
\<close>

lemma prune_once_per_cutoff:
  "case prune_if_due pe opts rw of (Inl e, rw') \<Rightarrow> rw' = rw | (Inr r, rw') \<Rightarrow> prune_if_due pe opts rw' = (Inr None, rw')"
  proof (cases "prune_if_due pe opts rw")
  case (Pair res rw')
  show ?thesis
  proof (cases res)
    case (Inl e)
    from Pair Inl have "rw' = rw" by (cases rule: due_cases) auto
    with Pair Inl show ?thesis by simp
  next
    case (Inr r)
    with due_once[of pe opts rw r rw'] Pair show ?thesis by simp
  qed
qed

text \<open>
  An event belongs to a local day exactly when its instant lies in the UTC window of that day; the windows
  of successive days meet without gap or overlap.
\<close>

lemma local_day_windows:
  "(local_date off ts = d \<longleftrightarrow> fst (utc_window_for_local_day off d) \<le> ts \<and> ts < snd (utc_window_for_local_day off d)) \<and>
   snd (utc_window_for_local_day off d) = fst (utc_window_for_local_day off (d + 1))"
  using local_date_iff[of off ts d] windows_tile[of off d] by blast

text \<open>
  The decision log remembers: after a decision is recorded that is not older than the others on its
  subject, \<open>latest_for\<close> returns it with every field as it was given.
\<close>

lemma latest_decision_read:
  "log_ok rows \<Longrightarrow> reads_back jc row \<Longrightarrow>
   list_all (\<lambda>s. sd_kind s = kind_str (dr_kind row) \<longrightarrow> sd_subject s = dr_subject row \<longrightarrow> sd_decided s \<le> dr_decided row) rows \<Longrightarrow>
   latest_for jc (dr_kind row) (dr_subject row) (snd (record_decision jc row rows)) = Inr (Some row)"
  using latest_recorded[of rows jc row] by (simp add: list_all_iff)

lemma latest_decision_read_witness:
  "latest_for sample_codec Ticket ''1'' (snd (record_decision sample_codec (verdict ''T-2'' ''b'') (snd (record_decision sample_codec (verdict ''T-1'' ''a'') [])))) =
     Inr (Some (verdict ''T-2'' ''b''))"
  proof -
  let ?rows = "snd (record_decision sample_codec (verdict ''T-1'' ''a'') [])"
  have "log_ok ?rows" by (intro log_ok_record) (simp add: log_ok_def)
  moreover have "reads_back sample_codec (verdict ''T-2'' ''b'')" by code_simp
  moreover have "list_all (\<lambda>s. sd_kind s = kind_str (dr_kind (verdict ''T-2'' ''b'')) \<longrightarrow> sd_subject s = dr_subject (verdict ''T-2'' ''b'') \<longrightarrow>
      sd_decided s \<le> dr_decided (verdict ''T-2'' ''b'')) ?rows" by code_simp
  ultimately show ?thesis
    using latest_decision_read[of ?rows sample_codec "verdict ''T-2'' ''b''"] by (simp add: verdict_def)
qed

text \<open>
  The blocks of a day may overlap: on this day a block clustered from leftover events runs into the block of
  an owned run (minutes 10 to 17 and 16 to 25), although the module comment of \<open>infer_lanes.rs\<close> rules it out.
\<close>

lemma blocks_of_bursts_overlap:
  "map (\<lambda>b. (ib_start b div NS div 60, ib_end b div NS div 60)) (build_blocks_by_project sample_env burst_day) = [(10, 17), (16, 25)]"
  by code_simp

text \<open>
  A pass of the daemon (rules, links, context, model, then absorb) touches no event that already has a label,
  and when it is over no browser or Slack event of the day is left without one.
\<close>

lemma routing_pass_spares_labels:
  "distinct (map er_id (ro_events db)) \<Longrightarrow>
   {e \<in> set (ro_events db). er_origin e \<noteq> None} \<subseteq> set (ro_events (absorb_and_noise env day (snd (route_day env day classify rule db)))) \<and>
   events_in_window env (absorb_and_noise env day (snd (route_day env day classify rule db))) day True = []"
  proof -
  assume d: "distinct (map er_id (ro_events db))"
  let ?mid = "snd (route_day env day classify rule db)"
  have m: "distinct (map er_id (ro_events ?mid))" using d by (simp only: only_ids_ids[OF route_day_only])
  have "e \<in> set (ro_events (absorb_and_noise env day ?mid))" if "e \<in> set (ro_events db)" "er_origin e \<noteq> None" for e
    using route_day_keeps(2)[OF m route_day_keeps(1)[OF d that] that(2)] .
  then show ?thesis using absorb_exhausts by blast
qed

lemma routing_pass_spares_labels_witness:
  "map er_origin (ro_events (absorb_and_noise sample_route_env 0 (snd (route_day sample_route_env 0 says_b sample_ratios sample_route)))) =
     [Some ''guess'', Some ''link'', Some ''dismissed''] \<and>
   events_in_window sample_route_env (absorb_and_noise sample_route_env 0 (snd (route_day sample_route_env 0 says_b sample_ratios sample_route))) 0 True = []"
  proof -
  have "map er_origin (ro_events (absorb_and_noise sample_route_env 0 (snd (route_day sample_route_env 0 says_b sample_ratios sample_route)))) =
     [Some ''guess'', Some ''link'', Some ''dismissed'']" by code_simp
  with routing_pass_spares_labels[OF sample_route_ids, of sample_route_env 0 says_b sample_ratios] show ?thesis by blast
qed

text \<open>
  The project the activity around an event points to is the one with at least three times the count of any
  other in the window; the order in which the hash map yields its entries makes no difference.
\<close>

lemma dominant_project_exact:
  "permutes hash \<Longrightarrow>
   dominant_key_within hash t ctx w = Some k \<longleftrightarrow>
     k \<in> set (keys_near t ctx w) \<and>
     (\<forall>j\<in>set (keys_near t ctx w) - {k}. 3 * count_list (keys_near t ctx w) j \<le> count_list (keys_near t ctx w) k)"
  using dominant_key_iff[of hash t ctx w k] by auto

lemma dominant_project_exact_witness:
  "dominant_key_within (\<lambda>xs. xs) 0 [(0, ''b''), (0, ''a''), (minutes 2, ''a''), (minutes 3, ''a''), (minutes 11, ''c'')] 10 = Some ''a'' \<and>
   ''a'' \<in> set (keys_near 0 [(0, ''b''), (0, ''a''), (minutes 2, ''a''), (minutes 3, ''a''), (minutes 11, ''c'')] 10)"
  proof -
  let ?ctx = "[(0, ''b''), (0, ''a''), (minutes 2, ''a''), (minutes 3, ''a''), (minutes 11, ''c'')]"
  have v: "dominant_key_within (\<lambda>xs. xs) 0 ?ctx 10 = Some ''a''" by code_simp
  have "permutes (\<lambda>xs. xs :: (string \<times> nat) list)" by (simp add: permutes_def)
  from dominant_project_exact[OF this, of 0 ?ctx 10 "''a''"] v show ?thesis by blast
qed

text \<open>
  A request to the model is small and fair: at most six different projects, each a candidate of the event,
  and past fixes as examples of at most 60 characters each and 300 together.
\<close>

lemma model_request_bounded:
  "distinct (shortlist env db row day) \<and> length (shortlist env db row day) \<le> 6 \<and>
   set (shortlist env db row day) \<subseteq> set (narrowed_options env (load_registry (ro_tables db)) row (project_keys env db)) \<and>
   example_chars (examples_for_options db (shortlist env db row day)) (shortlist env db row day) \<le> 300 \<and>
   (case examples_for_options db (shortlist env db row day) option of None \<Rightarrow> True | Some ts \<Rightarrow> list_all (\<lambda>t. char_count t \<le> 60) ts)"
  proof -
  note s = shortlist_spec[of env db row day]
  from examples_room[of "shortlist env db row day" db] s show ?thesis
    by (auto simp: SHORTLIST_MAX_def EXAMPLE_CHARS_TOTAL_def EXAMPLE_CHARS_EACH_def split: option.splits)
qed

text \<open>
  Only a guess the model stands by is filed: it names a project that was offered, both orders agreed on it, and
  its probability clears the abstain margin and the runner-up ratio in binary64.
\<close>

lemma filed_guess_is_offered:
  "a \<in> set (decide waiting classify rule) \<Longrightarrow> an_guess a = Some g \<Longrightarrow> rk_agreed (an_ranking a) \<and> accepts g (an_options a) rule"
  by (rule decide_accepts)

lemma filed_guess_is_offered_witness:
  "\<exists>a g. decide (snd (load_pending sample_route_env sample_route 0)) says_b sample_ratios = [a] \<and> an_guess a = Some g \<and> accepts g (an_options a) sample_ratios"
  proof -
  let ?d = "decide (snd (load_pending sample_route_env sample_route 0)) says_b sample_ratios"
  have "map (\<lambda>a. map_option gu_folder (an_guess a)) ?d = [Some ''b'']" by code_simp
  then obtain a where a: "?d = [a]" "map_option gu_folder (an_guess a) = Some ''b''" by (auto simp: map_eq_Cons_conv)
  then obtain g where g: "an_guess a = Some g" by (cases "an_guess a") simp_all
  from a(1) have "a \<in> set ?d" by simp
  from filed_guess_is_offered[OF this g] a(1) g show ?thesis by blast
qed

text \<open>
  The hosts offered as noise are those with at least two decided Firefox rows before the day, every one of them
  dismissed; the count is the number of these rows.
\<close>

lemma noise_hosts_exact:
  "(h, n) \<in> set (noise_hosts env db day) \<longleftrightarrow>
     n = int (length (filter (host_row env day h) (ro_events db))) \<and> NOISE_MIN_DISMISSED \<le> n \<and>
     list_all (\<lambda>e. host_row env day h e \<longrightarrow> er_origin e = Some ''dismissed'') (ro_events db)"
  by (simp add: noise_hosts_iff list_all_iff)

text \<open>
  Outside a task notification, redaction leaves no fence, and redacting fences twice is redacting once.
\<close>

lemma redaction_leaves_no_fence:
  "(str_contains ''<task-notification>'' (trim raw) \<or> no_fence (redact_code raw)) \<and>
   strip_code_fences (strip_code_fences s) = strip_code_fences s"
  using redact_code_clean strip_code_fences_idem by blast

text \<open>
  A ticket claimed by the model is taken exactly when it is an open candidate, or when it is written in the
  events of the block and some candidate is of the same project.
\<close>

lemma estimated_ticket_justified:
  "validate_ticket claim candidates literals = Some t \<longleftrightarrow>
     claim = Some t \<and> (t \<in> set candidates \<or>
       (t \<in> set literals \<and> (\<exists>c\<in>set candidates. ticket_prefix c \<noteq> None \<and> ticket_prefix c = ticket_prefix t)))"
  by (rule validate_ticket_iff)

text \<open>
  The catch-up lists the unseen changes, and marking them seen up to its cursor marks exactly these and empties it.
\<close>

lemma catch_up_clears:
  "change_log_ok ch \<Longrightarrow>
   \<exists>f. unseen ch = Inr f \<and> map lc_id (fd_changes f) = map cr_id (filter (\<lambda>r. cr_seen r = None) (ch_rows ch)) \<and>
     (case mark_seen (fd_cursor f) stamp ch of (ch', n) \<Rightarrow> n = length (fd_changes f) \<and> (\<exists>f'. unseen ch' = Inr f' \<and> fd_changes f' = []))"
  by (rule unseen_then_seen)

text \<open>
  The feed has one summary per batch, which counts the blocks the batch changed.
\<close>

lemma batches_summarised:
  "distinct (map cb_batch (fd_batches (changes_to_feed cs))) \<and> cb_batch ` set (fd_batches (changes_to_feed cs)) = lc_batch ` set cs \<and>
   (\<forall>b\<in>set (fd_batches (changes_to_feed cs)).
      cb_count b = int (card {(lc_day c, lc_started c) | c. c \<in> set cs \<and> lc_batch c = cb_batch b}))"
  by (rule batch_summaries)

end
